(* ===== verification/IPC_Prelude.thy ===== *)
theory IPC_Prelude
  imports Main "HOL-Library.AList"
begin

text \<open>
  What the components of the development share: the arithmetic of Rust's \<open>u64\<close>, the outcome
  of a fallible or transactional computation, and the containers the program uses
  (\<open>HashMap\<close>, \<open>HashSet\<close>, \<open>im::OrdMap\<close>) as lists, with the lemmas the component proofs
  rest on.

  \<^item> An unsigned 64-bit integer is a \<open>nat\<close> below \<open>U64\<close>; the operations below write the
    wrap-around of a release build out. A \<open>BlockHeight\<close> is such a number.
  \<^item> \<open>('e, 'a) outcome\<close> is the result of a computation: \<open>Ok\<close> and \<open>Err\<close> are the two
    constructors of Rust's \<open>Result\<close> (and \<open>abort\<close> of an STM transaction), \<open>Retry\<close> is the
    \<open>retry()\<close> of an STM transaction, which blocks it until a variable it has read changes, and
    \<open>Panic\<close> is a panic (\<open>unwrap\<close>, \<open>unreachable!\<close>, an out-of-range slice). A transaction
    that does not end in \<open>Ok\<close> leaves the state as it was, so the new state is part of the
    \<open>Ok\<close> value only.
  \<^item> A hash map is an association list with distinct keys, the list order standing for the
    iteration order, which Rust leaves open; a hash set is a list without repetitions; an ordered
    map is an association list sorted by key.
\<close>

named_theorems u64_simps \<open>u64 operations that do not overflow\<close>
named_theorems outcome_simps \<open>inversion of sequenced outcomes\<close>

section \<open>Unsigned 64-bit integers\<close>

definition U64 :: nat where
  "U64 = 2 ^ 64"

definition add_u64 :: "nat \<Rightarrow> nat \<Rightarrow> nat" where
  "add_u64 a b = (a + b) mod U64"

definition sub_u64 :: "nat \<Rightarrow> nat \<Rightarrow> nat" where
  "sub_u64 a b = (if b \<le> a then a - b else U64 + a - b)"

definition mul_u64 :: "nat \<Rightarrow> nat \<Rightarrow> nat" where
  "mul_u64 a b = (a * b) mod U64"

definition sum_u64 :: "nat list \<Rightarrow> nat" where
  "sum_u64 ws = fold (\<lambda>w s. add_u64 s w) ws 0"

section \<open>Outcomes\<close>

datatype ('e, 'a) outcome = Ok 'a | Err 'e | Retry | Panic

fun obind :: "('e, 'a) outcome \<Rightarrow> ('a \<Rightarrow> ('e, 'b) outcome) \<Rightarrow> ('e, 'b) outcome" where
  "obind (Ok x) f = f x"
| "obind (Err e) f = Err e"
| "obind Retry f = Retry"
| "obind Panic f = Panic"

fun map_err :: "('e \<Rightarrow> 'f) \<Rightarrow> ('e, 'a) outcome \<Rightarrow> ('f, 'a) outcome" where
  "map_err g (Ok x) = Ok x"
| "map_err g (Err e) = Err (g e)"
| "map_err g Retry = Retry"
| "map_err g Panic = Panic"

fun omap :: "('a \<Rightarrow> 'b) \<Rightarrow> ('e, 'a) outcome \<Rightarrow> ('e, 'b) outcome" where
  "omap g (Ok x) = Ok (g x)"
| "omap g (Err e) = Err e"
| "omap g Retry = Retry"
| "omap g Panic = Panic"

text \<open>The values of an iterator collected into a \<open>Result\<close>, up to the first error.\<close>

fun try_all :: "('x \<Rightarrow> ('e, 'y) outcome) \<Rightarrow> 'x list \<Rightarrow> ('e, 'y list) outcome" where
  "try_all f [] = Ok []"
| "try_all f (x # xs) = obind (f x) (\<lambda>y. obind (try_all f xs) (\<lambda>ys. Ok (y # ys)))"

text \<open>An \<open>anyhow\<close> context is put in front of the error.\<close>

definition with_context :: "string \<Rightarrow> (string, 'x) outcome \<Rightarrow> (string, 'x) outcome" where
  "with_context c r = map_err (\<lambda>e. c @ '': '' @ e) r"

text \<open>\<open>unwrap\<close> of an \<open>Option\<close>.\<close>

fun unwrap :: "'a option \<Rightarrow> ('e, 'a) outcome" where
  "unwrap None = Panic"
| "unwrap (Some x) = Ok x"

text \<open>A handler that changes its state: any outcome that is not a value ends it.\<close>

definition finish :: "'x \<Rightarrow> ('e, 'y) outcome \<Rightarrow> ('y \<Rightarrow> 'x \<times> ('e, 'z) outcome) \<Rightarrow> 'x \<times> ('e, 'z) outcome" where
  "finish st r k =
     (case r of Ok y \<Rightarrow> k y | Err e \<Rightarrow> (st, Err e) | Retry \<Rightarrow> (st, Retry) | Panic \<Rightarrow> (st, Panic))"

section \<open>Hash maps and hash sets\<close>

type_synonym ('k, 'v) hmap = "('k \<times> 'v) list"
type_synonym 'a hset = "'a list"

abbreviation hm_get :: "('k, 'v) hmap \<Rightarrow> 'k \<Rightarrow> 'v option" where
  "hm_get m k \<equiv> map_of m k"

abbreviation hm_wf :: "('k, 'v) hmap \<Rightarrow> bool" where
  "hm_wf m \<equiv> distinct (map fst m)"

definition hm_from :: "('k \<times> 'v) list \<Rightarrow> ('k, 'v) hmap" where
  "hm_from kvs = fold (\<lambda>(k, v) m. AList.update k v m) kvs []"

definition hs_insert :: "'a \<Rightarrow> 'a hset \<Rightarrow> 'a hset" where
  "hs_insert x s = (if x \<in> set s then s else s @ [x])"

section \<open>Ordered maps\<close>

type_synonym ('k, 'v) btree_map = "('k \<times> 'v) list"
type_synonym 'v omap = "(nat, 'v) btree_map"

abbreviation om_wf :: "('k::linorder, 'v) btree_map \<Rightarrow> bool" where
  "om_wf m \<equiv> sorted_wrt (<) (map fst m)"

fun om_insert :: "'k::linorder \<Rightarrow> 'v \<Rightarrow> ('k, 'v) btree_map \<Rightarrow> ('k, 'v) btree_map" where
  "om_insert k v [] = [(k, v)]"
| "om_insert k v ((j, w) # m) =
     (if k < j then (k, v) # (j, w) # m
      else if k = j then (k, v) # m
      else (j, w) # om_insert k v m)"

definition om_min :: "'v omap \<Rightarrow> (nat \<times> 'v) option" where
  "om_min m = (case m of [] \<Rightarrow> None | e # _ \<Rightarrow> Some e)"

definition om_max :: "'v omap \<Rightarrow> (nat \<times> 'v) option" where
  "om_max m = (if m = [] then None else Some (last m))"

definition om_above :: "nat \<Rightarrow> 'v omap \<Rightarrow> 'v omap" where
  "om_above k m = filter (\<lambda>e. k < fst e) m"

section \<open>Lemmas on unsigned integers\<close>

lemma U64_pos [simp]: "0 < U64"
  by (simp add: U64_def)

lemma add_u64_less [simp]: "add_u64 a b < U64"
  by (simp add: add_u64_def)

lemma add_u64_exact [u64_simps]: "a + b < U64 \<Longrightarrow> add_u64 a b = a + b"
  by (simp add: add_u64_def)

lemma sub_u64_exact [u64_simps]: "b \<le> a \<Longrightarrow> sub_u64 a b = a - b"
  by (simp add: sub_u64_def)

lemma mul_u64_exact [u64_simps]: "a * b < U64 \<Longrightarrow> mul_u64 a b = a * b"
  by (simp add: mul_u64_def)

lemma sum_u64_mod_aux: "fold (\<lambda>w s. add_u64 s w) ws a mod U64 = (a + sum_list ws) mod U64"
proof (induction ws arbitrary: a)
  case Nil
  then show ?case by simp
next
  case (Cons w ws)
  have "fold (\<lambda>w s. add_u64 s w) (w # ws) a mod U64 = (add_u64 a w + sum_list ws) mod U64"
    using Cons.IH by simp
  also have "\<dots> = (a + w + sum_list ws) mod U64"
    by (simp add: add_u64_def mod_add_left_eq)
  finally show ?case by (simp add: add.assoc)
qed

lemma sum_u64_less: "a < U64 \<Longrightarrow> fold (\<lambda>w s. add_u64 s w) ws a < U64"
  by (induction ws arbitrary: a) simp_all

lemma sum_u64_mod: "sum_u64 ws = sum_list ws mod U64"
  using sum_u64_mod_aux [of ws 0] sum_u64_less [of 0 ws] by (simp add: sum_u64_def)

lemma sum_u64_exact [u64_simps]: "sum_list ws < U64 \<Longrightarrow> sum_u64 ws = sum_list ws"
  by (simp add: sum_u64_mod)

section \<open>Lemmas on outcomes\<close>

lemma obind_cong [fundef_cong]:
  assumes "m = m'" "\<And>x. m' = Ok x \<Longrightarrow> f x = f' x"
  shows "obind m f = obind m' f'"
  using assms by (cases m') simp_all

lemma try_all_map: "(\<And>x. x \<in> set xs \<Longrightarrow> f x = Ok (g x)) \<Longrightarrow> try_all f xs = Ok (map g xs)"
  by (induction xs) simp_all

lemma obind_Ok_iff [outcome_simps]:
  "obind m f = Ok y \<longleftrightarrow> (\<exists>x. m = Ok x \<and> f x = Ok y)"
  by (cases m) auto

definition the_Ok :: "('e, 'a) outcome \<Rightarrow> 'a" where
  "the_Ok m = (case m of Ok x \<Rightarrow> x)"

lemma the_Ok_Ok [simp]: "the_Ok (Ok x) = x"
  by (simp add: the_Ok_def)

lemma try_all_OkD:
  "try_all f xs = Ok ys \<Longrightarrow> ys = map (\<lambda>x. the_Ok (f x)) xs \<and> (\<forall>x \<in> set xs. f x = Ok (the_Ok (f x)))"
  by (induction xs arbitrary: ys) (auto simp: obind_Ok_iff)

lemma obind_Err_iff [outcome_simps]:
  "obind m f = Err e \<longleftrightarrow> m = Err e \<or> (\<exists>x. m = Ok x \<and> f x = Err e)"
  by (cases m) auto

lemma obind_Panic_iff [outcome_simps]:
  "obind m f = Panic \<longleftrightarrow> m = Panic \<or> (\<exists>x. m = Ok x \<and> f x = Panic)"
  by (cases m) auto

lemma map_err_Ok_iff [outcome_simps]: "map_err g m = Ok x \<longleftrightarrow> m = Ok x"
  by (cases m) auto

lemma map_err_Err_iff [outcome_simps]: "map_err g m = Err e \<longleftrightarrow> (\<exists>d. m = Err d \<and> e = g d)"
  by (cases m) auto

lemma omap_Ok_iff [outcome_simps]: "omap g m = Ok y \<longleftrightarrow> (\<exists>x. m = Ok x \<and> y = g x)"
  by (cases m) auto

lemma finish_Ok [outcome_simps]: "finish st r k = (st', Ok z) \<longleftrightarrow> (\<exists>y. r = Ok y \<and> k y = (st', Ok z))"
  by (cases r) (simp_all add: finish_def)

lemma unwrap_Ok_iff [outcome_simps]: "unwrap x = Ok y \<longleftrightarrow> x = Some y"
  by (cases x) auto

lemma unwrap_Panic_iff [outcome_simps]: "unwrap x = Panic \<longleftrightarrow> x = None"
  by (cases x) auto

section \<open>Lemmas on hash maps and hash sets\<close>

lemma hm_get_update [simp]:
  "hm_get (AList.update k v m) j = (if j = k then Some v else hm_get m j)"
  by (simp add: update_conv)

lemma hm_get_delete [simp]:
  "hm_get (AList.delete k m) j = (if j = k then None else hm_get m j)"
  by (simp add: delete_conv)

lemma hm_wf_update [simp]: "hm_wf m \<Longrightarrow> hm_wf (AList.update k v m)"
  by (rule distinct_update)

lemma hm_wf_delete [simp]: "hm_wf m \<Longrightarrow> hm_wf (AList.delete k m)"
  by (rule distinct_delete)

lemma hm_from_aux:
  "hm_get (fold (\<lambda>(k, v) m. AList.update k v m) kvs m) j =
     (case map_of (rev kvs) j of None \<Rightarrow> hm_get m j | Some v \<Rightarrow> Some v)"
  by (induction kvs arbitrary: m) (auto simp: map_add_def split: option.splits)

lemma hm_get_from: "hm_get (hm_from kvs) j = map_of (rev kvs) j"
  by (simp add: hm_from_def hm_from_aux split: option.splits)

lemma hm_wf_from_aux: "hm_wf m \<Longrightarrow> hm_wf (fold (\<lambda>(k, v) m. AList.update k v m) kvs m)"
  by (induction kvs arbitrary: m) auto

lemma hm_wf_from [simp]: "hm_wf (hm_from kvs)"
  by (simp add: hm_from_def hm_wf_from_aux)

lemma card_dom_map_of: "distinct (map fst h) \<Longrightarrow> card (dom (map_of h)) = length h"
  by (metis distinct_card dom_map_of_conv_image_fst length_map list.set_map)

lemma set_hs_insert [simp]: "set (hs_insert x s) = insert x (set s)"
  by (auto simp: hs_insert_def)

lemma distinct_hs_insert [simp]: "distinct s \<Longrightarrow> distinct (hs_insert x s)"
  by (simp add: hs_insert_def)

section \<open>Lemmas on ordered maps\<close>

lemma fst_set_om_insert: "fst ` set (om_insert k v m) = insert k (fst ` set m)"
  by (induction k v m rule: om_insert.induct) (simp_all add: insert_commute)

lemma om_wf_insert [simp]: "om_wf m \<Longrightarrow> om_wf (om_insert k v m)"
proof (induction m)
  case Nil
  then show ?case by simp
next
  case (Cons e m)
  obtain j w where e: "e = (j, w)" by (cases e)
  from Cons.prems e have m: "om_wf m" "\<forall>i \<in> fst ` set m. j < i" by auto
  from Cons.IH m(1) have "om_wf (om_insert k v m)" by simp
  with m e show ?case
    using fst_set_om_insert [of k v m] by auto
qed

lemma om_get_insert [simp]:
  "om_wf m \<Longrightarrow> map_of (om_insert k v m) j = (if j = k then Some v else map_of m j)"
proof (induction m)
  case Nil
  then show ?case by simp
next
  case (Cons e m)
  obtain i w where e: "e = (i, w)" by (cases e)
  from Cons show ?case by (auto simp: e)
qed

lemma om_wf_distinct: "om_wf m \<Longrightarrow> distinct (map fst m)"
  by (simp add: strict_sorted_iff)

lemma om_wf_filter: "om_wf m \<Longrightarrow> om_wf (filter P m)"
  by (induction m) auto

lemma om_wf_above [simp]: "om_wf m \<Longrightarrow> om_wf (om_above k m)"
  by (simp add: om_above_def om_wf_filter)

lemma om_get_above [simp]:
  "map_of (om_above k m) j = (if k < j then map_of m j else None)"
  by (induction m) (auto simp: om_above_def)

lemma om_wf_append:
  "om_wf (m @ [(k, v)]) \<longleftrightarrow> om_wf m \<and> (\<forall>j \<in> fst ` set m. j < k)"
  by (auto simp: sorted_wrt_append)

lemma om_max_None_iff [simp]: "om_max m = None \<longleftrightarrow> m = []"
  by (simp add: om_max_def)

lemma om_max_in_set: "om_max m = Some e \<Longrightarrow> e \<in> set m"
  by (auto simp: om_max_def split: if_splits)

lemma om_max_ge:
  assumes "om_wf m" "om_max m = Some (k, v)" "j \<in> fst ` set m"
  shows "j \<le> k"
proof -
  from assms(2) obtain l where "m = l @ [(k, v)]"
    by (cases m rule: rev_cases) (auto simp: om_max_def)
  with assms(1,3) show ?thesis by (fastforce simp: sorted_wrt_append)
qed

lemma om_min_None_iff [simp]: "om_min m = None \<longleftrightarrow> m = []"
  by (simp add: om_min_def split: list.splits)

lemma om_min_le: "om_wf m \<Longrightarrow> om_min m = Some (k, v) \<Longrightarrow> j \<in> fst ` set m \<Longrightarrow> k \<le> j"
  by (cases m) (auto simp: om_min_def)

lemma om_insert_snoc:
  "\<forall>j \<in> fst ` set m. j < k \<Longrightarrow> om_insert k v m = m @ [(k, v)]"
  by (induction m) auto

lemma om_insert_cons:
  "\<forall>j \<in> fst ` set m. k < j \<Longrightarrow> om_insert k v m = (k, v) # m"
  by (cases m) auto

lemma om_get_Some_in: "map_of m k = Some v \<Longrightarrow> k \<in> fst ` set m"
  by (force dest: map_of_SomeD)

section \<open>Invariants of step relations\<close>

text \<open>Components that run alongside others are step relations; what every step keeps holds in every state they
  reach from one where it holds.\<close>

locale step_invariant =
  fixes step :: "'s \<Rightarrow> 's \<Rightarrow> bool" and good :: "'s \<Rightarrow> bool"
  assumes step_good: "step s s' \<Longrightarrow> good s \<Longrightarrow> good s'"
begin

lemma steps_good: "step\<^sup>*\<^sup>* s s' \<Longrightarrow> good s \<Longrightarrow> good s'"
  by (induction rule: rtranclp_induct) (auto intro: step_good)

end

locale start_invariant = step_invariant +
  fixes start :: "'a \<Rightarrow> bool"
  assumes start_good: "start s \<Longrightarrow> good s"
begin

lemma reachable_good: "start s \<Longrightarrow> step\<^sup>*\<^sup>* s s' \<Longrightarrow> good s'"
  by (rule steps_good [OF _ start_good])

end

end
