(* ===== verification/Seq_Cache.thy ===== *)
theory Seq_Cache
  imports IPC_Prelude
begin

text \<open>
  The sequential key cache of the topdown crate (\<open>fendermint/vm/topdown/src/cache.rs\<close>): a
  double-ended queue of key/value pairs whose keys grow by a fixed increment, so that a lookup is
  an index computation. The queue is a list, its front the head. Keys are \<open>u64\<close> heights, the
  instance the program uses.

  The invariant \<open>cache_wf\<close> says that the keys are \<open>lo, lo + inc, lo + 2 * inc, \<dots>\<close>. The
  locale \<open>height_store\<close> is what the parent finality provider relies on; it is interpreted on the
  caches with increment one, which is what \<open>sequential\<close> builds.
\<close>

section \<open>The cache and its operations\<close>

record 'v seq_cache =
  sc_increment :: nat
  sc_data :: "(nat \<times> 'v) list"

datatype SequentialAppendError = AboveBound | AlreadyInserted | BelowBound

definition cache_new :: "nat \<Rightarrow> 'v seq_cache" where
  "cache_new inc = \<lparr>sc_increment = inc, sc_data = []\<rparr>"

definition cache_sequential :: "'v seq_cache" where
  "cache_sequential = \<lparr>sc_increment = 1, sc_data = []\<rparr>"

definition cache_size :: "'v seq_cache \<Rightarrow> nat" where
  "cache_size c = length (sc_data c)"

definition cache_is_empty :: "'v seq_cache \<Rightarrow> bool" where
  "cache_is_empty c = (sc_data c = [])"

definition cache_upper_bound :: "'v seq_cache \<Rightarrow> nat option" where
  "cache_upper_bound c = (case rev (sc_data c) of [] \<Rightarrow> None | e # _ \<Rightarrow> Some (fst e))"

definition cache_lower_bound :: "'v seq_cache \<Rightarrow> nat option" where
  "cache_lower_bound c = (case sc_data c of [] \<Rightarrow> None | e # _ \<Rightarrow> Some (fst e))"

definition cache_within_bound :: "'v seq_cache \<Rightarrow> nat \<Rightarrow> ('e, bool) outcome" where
  "cache_within_bound c k =
     (case (cache_lower_bound c, cache_upper_bound c) of
        (Some lower, Some upper) \<Rightarrow> Ok (lower \<le> k \<and> k \<le> upper)
      | (None, None) \<Rightarrow> Ok False
      | _ \<Rightarrow> Panic)"

text \<open>The index of a key, \<open>((key - lower) / increment).to_usize().unwrap()\<close>: the division panics
  on a zero increment, the conversion cannot fail on a 64-bit target.\<close>

definition cache_index :: "'v seq_cache \<Rightarrow> nat \<Rightarrow> nat \<Rightarrow> ('e, nat) outcome" where
  "cache_index c k lower =
     (if sc_increment c = 0 then Panic else Ok (sub_u64 k lower div sc_increment c))"

definition cache_get_value :: "'v seq_cache \<Rightarrow> nat \<Rightarrow> ('e, 'v option) outcome" where
  "cache_get_value c k =
     obind (cache_within_bound c k) (\<lambda>within.
     if \<not> within then Ok None
     else obind (unwrap (cache_lower_bound c)) (\<lambda>lower.
          obind (cache_index c k lower) (\<lambda>index.
          Ok (if index < length (sc_data c) then Some (snd (sc_data c ! index)) else None))))"

text \<open>\<open>VecDeque::range\<close> panics when the start lies behind the end or the end behind the length.\<close>

definition range_from :: "nat \<Rightarrow> 'a list \<Rightarrow> ('e, 'a list) outcome" where
  "range_from i xs = (if i \<le> length xs then Ok (drop i xs) else Panic)"

definition range_incl :: "nat \<Rightarrow> nat \<Rightarrow> 'a list \<Rightarrow> ('e, 'a list) outcome" where
  "range_incl i j xs =
     (if i \<le> Suc j \<and> Suc j \<le> length xs then Ok (take (Suc j - i) (drop i xs)) else Panic)"

definition cache_values_from :: "'v seq_cache \<Rightarrow> nat \<Rightarrow> ('e, 'v list) outcome" where
  "cache_values_from c start =
     (if cache_is_empty c then Ok (map snd (sc_data c))
      else obind (unwrap (cache_lower_bound c)) (\<lambda>lower.
           obind (cache_index c (max start lower) lower) (\<lambda>index.
           omap (map snd) (range_from index (sc_data c)))))"

definition cache_values_within :: "'v seq_cache \<Rightarrow> nat \<Rightarrow> nat \<Rightarrow> ('e, 'v list) outcome" where
  "cache_values_within c start end' =
     (if cache_is_empty c then Ok (map snd (sc_data c))
      else obind (unwrap (cache_lower_bound c)) (\<lambda>lower.
           obind (unwrap (cache_upper_bound c)) (\<lambda>upper.
           obind (cache_index c (min end' upper) lower) (\<lambda>end_idx.
           obind (cache_index c (max start lower) lower) (\<lambda>start_idx.
           omap (map snd) (range_incl start_idx end_idx (sc_data c)))))))"

definition cache_values :: "'v seq_cache \<Rightarrow> 'v list" where
  "cache_values c = map snd (sc_data c)"

text \<open>The two removal loops pop from one end while the key there is out of range.\<close>

fun pop_front_below :: "nat \<Rightarrow> (nat \<times> 'v) list \<Rightarrow> (nat \<times> 'v) list" where
  "pop_front_below key [] = []"
| "pop_front_below key ((k, v) # d) =
     (if k < key then pop_front_below key d else (k, v) # d)"

definition cache_remove_key_below :: "nat \<Rightarrow> 'v seq_cache \<Rightarrow> 'v seq_cache" where
  "cache_remove_key_below key c = c\<lparr>sc_data := pop_front_below key (sc_data c)\<rparr>"

fun pop_back_above :: "nat \<Rightarrow> (nat \<times> 'v) list \<Rightarrow> (nat \<times> 'v) list" where
  "pop_back_above key [] = []"
| "pop_back_above key ((k, v) # d) =
     (if key < k then pop_back_above key d else (k, v) # d)"

definition cache_remove_key_above :: "nat \<Rightarrow> 'v seq_cache \<Rightarrow> 'v seq_cache" where
  "cache_remove_key_above key c = c\<lparr>sc_data := rev (pop_back_above key (rev (sc_data c)))\<rparr>"

definition cache_append ::
  "nat \<Rightarrow> 'v \<Rightarrow> 'v seq_cache \<Rightarrow> (SequentialAppendError, 'v seq_cache) outcome" where
  "cache_append key val c =
     (case cache_upper_bound c of
        None \<Rightarrow> Ok (c\<lparr>sc_data := sc_data c @ [(key, val)]\<rparr>)
      | Some upper \<Rightarrow>
          (let expected_next_key = add_u64 upper (sc_increment c) in
           if expected_next_key = key then Ok (c\<lparr>sc_data := sc_data c @ [(key, val)]\<rparr>)
           else if expected_next_key < key then Err AboveBound
           else obind (unwrap (cache_lower_bound c)) (\<lambda>lower.
                if key < lower then Err BelowBound else Err AlreadyInserted)))"

section \<open>The invariant\<close>

fun keys_seq :: "nat \<Rightarrow> nat \<Rightarrow> nat list \<Rightarrow> bool" where
  "keys_seq inc lo [] = True"
| "keys_seq inc lo (k # ks) = (k = lo \<and> keys_seq inc (lo + inc) ks)"

definition cache_base :: "'v seq_cache \<Rightarrow> nat" where
  "cache_base c = (case cache_lower_bound c of None \<Rightarrow> 0 | Some l \<Rightarrow> l)"

definition cache_wf :: "'v seq_cache \<Rightarrow> bool" where
  "cache_wf c = (0 < sc_increment c \<and>
     keys_seq (sc_increment c) (cache_base c) (map fst (sc_data c)) \<and>
     list_all (\<lambda>e. fst e < U64) (sc_data c))"

text \<open>The map a cache stands for, and the largest stored key at or below a key within bounds.\<close>

abbreviation cache_map :: "'v seq_cache \<Rightarrow> nat \<Rightarrow> 'v option" where
  "cache_map c \<equiv> map_of (sc_data c)"

definition cache_aligned :: "'v seq_cache \<Rightarrow> nat \<Rightarrow> nat" where
  "cache_aligned c k =
     cache_base c + (k - cache_base c) div sc_increment c * sc_increment c"

text \<open>A cache as the provider uses it: well formed, with increment one.\<close>

definition unit_cache :: "'v seq_cache \<Rightarrow> bool" where
  "unit_cache c = (cache_wf c \<and> sc_increment c = 1)"

section \<open>Lemmas on sequential keys\<close>

lemma keys_seq_snoc:
  "keys_seq inc lo (ks @ [k]) \<longleftrightarrow> keys_seq inc lo ks \<and> k = lo + length ks * inc"
proof (induction ks arbitrary: lo)
  case (Cons a ks)
  show ?case using Cons.IH [of "lo + inc"] by (simp add: add.assoc)
qed simp

lemma keys_seq_nth: "keys_seq inc lo ks \<Longrightarrow> i < length ks \<Longrightarrow> ks ! i = lo + i * inc"
proof (induction ks arbitrary: lo i)
  case (Cons k ks)
  then show ?case by (cases i) auto
qed simp

lemma keys_seq_ge: "keys_seq inc lo ks \<Longrightarrow> k \<in> set ks \<Longrightarrow> lo \<le> k"
  by (induction inc lo ks rule: keys_seq.induct) auto

lemma keys_seq_sorted: "0 < inc \<Longrightarrow> keys_seq inc lo ks \<Longrightarrow> sorted_wrt (<) ks"
  by (induction inc lo ks rule: keys_seq.induct) (auto dest!: keys_seq_ge)

lemma keys_seq_appendD: "keys_seq inc lo (xs @ ys) \<Longrightarrow> keys_seq inc lo xs"
  by (induction xs arbitrary: lo) auto

lemma keys_seq_one_iff: "keys_seq 1 lo ks \<Longrightarrow> k \<in> set ks \<longleftrightarrow> lo \<le> k \<and> k < lo + length ks"
  by (induction ks arbitrary: lo) auto

section \<open>Lemmas on caches\<close>

lemma cache_lower_bound_conv:
  "cache_lower_bound c = (if sc_data c = [] then None else Some (fst (hd (sc_data c))))"
  by (auto simp: cache_lower_bound_def split: list.splits)

lemma cache_upper_bound_conv:
  "cache_upper_bound c = (if sc_data c = [] then None else Some (fst (last (sc_data c))))"
  by (cases "sc_data c" rule: rev_cases) (auto simp: cache_upper_bound_def)

lemma cache_base_conv: "sc_data c \<noteq> [] \<Longrightarrow> cache_base c = fst (hd (sc_data c))"
  by (simp add: cache_base_def cache_lower_bound_conv)

lemma cache_within_bound_conv:
  "cache_within_bound c k =
     Ok (sc_data c \<noteq> [] \<and> fst (hd (sc_data c)) \<le> k \<and> k \<le> fst (last (sc_data c)))"
  by (simp add: cache_within_bound_def cache_lower_bound_conv cache_upper_bound_conv)

lemma cache_wf_keys:
  "cache_wf c \<Longrightarrow> keys_seq (sc_increment c) (cache_base c) (map fst (sc_data c))"
  by (simp add: cache_wf_def)

lemma cache_wf_sorted: "cache_wf c \<Longrightarrow> om_wf (sc_data c)"
  using keys_seq_sorted cache_wf_def by metis

lemma cache_wf_nth:
  "cache_wf c \<Longrightarrow> i < length (sc_data c) \<Longrightarrow>
     fst (sc_data c ! i) = cache_base c + i * sc_increment c"
  using keys_seq_nth [OF cache_wf_keys, of c i] by simp

lemma cache_wf_upper:
  assumes "cache_wf c" "sc_data c \<noteq> []"
  shows "fst (last (sc_data c)) = cache_base c + (length (sc_data c) - 1) * sc_increment c"
  using cache_wf_nth [of c "length (sc_data c) - 1"] assms by (simp add: last_conv_nth)

lemma cache_map_nth:
  assumes "cache_wf c" "i < length (sc_data c)"
  shows "cache_map c (cache_base c + i * sc_increment c) = Some (snd (sc_data c ! i))"
proof -
  have "(fst (sc_data c ! i), snd (sc_data c ! i)) \<in> set (sc_data c)" using assms(2) by simp
  then show ?thesis
    using map_of_is_SomeI [OF om_wf_distinct [OF cache_wf_sorted [OF assms(1)]]]
      cache_wf_nth [OF assms] by metis
qed

lemma cache_wf_data:
  "0 < inc \<Longrightarrow> keys_seq inc lo (map fst d) \<Longrightarrow> list_all (\<lambda>e. fst e < U64) d \<Longrightarrow>
     cache_wf \<lparr>sc_increment = inc, sc_data = d\<rparr>"
  by (cases d) (auto simp: cache_wf_def cache_base_def cache_lower_bound_def)

lemma cache_wf_update_data:
  "cache_wf c \<Longrightarrow> keys_seq (sc_increment c) lo (map fst d) \<Longrightarrow> list_all (\<lambda>e. fst e < U64) d \<Longrightarrow>
     cache_wf (c\<lparr>sc_data := d\<rparr>)"
  by (cases d) (auto simp: cache_wf_def cache_base_def cache_lower_bound_def)

lemma cache_wf_append:
  assumes "cache_wf c" "cache_append k v c = Ok c'" "k < U64"
    and room: "\<forall>u. cache_upper_bound c = Some u \<longrightarrow> u + sc_increment c < U64"
  shows "cache_wf c' \<and> sc_increment c' = sc_increment c \<and> sc_data c' = sc_data c @ [(k, v)] \<and>
     cache_map c k = None"
proof (cases "sc_data c = []")
  case True
  with assms show ?thesis
    using cache_wf_update_data [of c k "[(k, v)]"]
    by (auto simp: cache_append_def cache_upper_bound_conv)
next
  case False
  from assms(1) have pos: "0 < sc_increment c" by (simp add: cache_wf_def)
  have len: "Suc (length (sc_data c) - 1) = length (sc_data c)" using False by simp
  from False assms(2) room have c': "c' = c\<lparr>sc_data := sc_data c @ [(k, v)]\<rparr>"
    and "k = fst (last (sc_data c)) + sc_increment c"
    by (auto simp: cache_append_def cache_upper_bound_conv cache_lower_bound_conv Let_def
        u64_simps split: if_splits)
  then have k: "k = cache_base c + length (sc_data c) * sc_increment c"
    using cache_wf_upper [OF assms(1) False] len
    by (metis add.assoc add.commute mult_Suc)
  have "keys_seq (sc_increment c) (cache_base c) (map fst (sc_data c @ [(k, v)]))"
    using cache_wf_keys [OF assms(1)] k keys_seq_snoc
      [of "sc_increment c" "cache_base c" "map fst (sc_data c)" k] by simp
  moreover have "list_all (\<lambda>e. fst e < U64) (sc_data c @ [(k, v)])"
    using assms(1,3) by (simp add: cache_wf_def)
  ultimately have "cache_wf c'" unfolding c' using cache_wf_update_data [OF assms(1)] by blast
  moreover from cache_wf_sorted [OF this] have "cache_map c k = None"
    by (auto simp: c' sorted_wrt_append map_of_eq_None_iff)
  ultimately show ?thesis by (simp add: c')
qed

lemma pop_front_below_filter: "om_wf d \<Longrightarrow> pop_front_below key d = filter (\<lambda>e. key \<le> fst e) d"
  by (induction key d rule: pop_front_below.induct) (auto intro!: filter_True [symmetric])

lemma pop_back_above_filter:
  "sorted_wrt (\<lambda>a b. b < a) (map fst d) \<Longrightarrow> pop_back_above key d = filter (\<lambda>e. fst e \<le> key) d"
  by (induction key d rule: pop_back_above.induct) (auto intro!: filter_True [symmetric])

lemma keys_seq_pop_front:
  "keys_seq inc lo (map fst d) \<Longrightarrow> \<exists>lo'. keys_seq inc lo' (map fst (pop_front_below key d))"
  by (induction key d arbitrary: lo rule: pop_front_below.induct) auto

lemma pop_back_above_suffix: "\<exists>xs. d = xs @ pop_back_above key d"
  by (induction key d rule: pop_back_above.induct) (auto intro: Cons_eq_appendI)

lemma set_pop_front_below: "set (pop_front_below key d) \<subseteq> set d"
  by (induction key d rule: pop_front_below.induct) auto

lemma cache_wf_remove_key_below:
  assumes "cache_wf c"
  shows "cache_wf (cache_remove_key_below key c)"
    and "sc_data (cache_remove_key_below key c) = filter (\<lambda>e. key \<le> fst e) (sc_data c)"
proof -
  obtain lo where "keys_seq (sc_increment c) lo (map fst (pop_front_below key (sc_data c)))"
    using keys_seq_pop_front [OF cache_wf_keys [OF assms]] by blast
  then show "cache_wf (cache_remove_key_below key c)"
    unfolding cache_remove_key_below_def using assms set_pop_front_below [of key "sc_data c"]
    by (intro cache_wf_update_data) (auto simp: cache_wf_def list_all_iff)
  show "sc_data (cache_remove_key_below key c) = filter (\<lambda>e. key \<le> fst e) (sc_data c)"
    by (simp add: cache_remove_key_below_def pop_front_below_filter cache_wf_sorted assms)
qed

lemma cache_wf_remove_key_above:
  assumes "cache_wf c"
  shows "cache_wf (cache_remove_key_above key c)"
    and "sc_data (cache_remove_key_above key c) = filter (\<lambda>e. fst e \<le> key) (sc_data c)"
proof -
  obtain xs where "rev (sc_data c) = xs @ pop_back_above key (rev (sc_data c))"
    using pop_back_above_suffix by blast
  then have xs: "sc_data c = rev (pop_back_above key (rev (sc_data c))) @ rev xs"
    by (metis rev_append rev_rev_ident)
  then have "keys_seq (sc_increment c) (cache_base c)
      (map fst (rev (pop_back_above key (rev (sc_data c)))))"
    using cache_wf_keys [OF assms] keys_seq_appendD by (metis map_append)
  moreover have "list_all (\<lambda>e. fst e < U64) (rev (pop_back_above key (rev (sc_data c))))"
    using assms xs unfolding cache_wf_def by (metis list_all_append)
  ultimately show "cache_wf (cache_remove_key_above key c)"
    unfolding cache_remove_key_above_def by (rule cache_wf_update_data [OF assms])
  have "sorted_wrt (\<lambda>a b. b < a) (map fst (rev (sc_data c)))"
    using cache_wf_sorted [OF assms] by (simp add: rev_map [symmetric] sorted_wrt_rev)
  then show "sc_data (cache_remove_key_above key c) = filter (\<lambda>e. fst e \<le> key) (sc_data c)"
    by (simp add: cache_remove_key_above_def pop_back_above_filter rev_filter)
qed

lemma cache_get_value_within:
  assumes wf: "cache_wf c" and lo: "cache_lower_bound c = Some l" "l \<le> k"
    and hi: "cache_upper_bound c = Some u" "k \<le> u"
  shows "cache_get_value c k = Ok (cache_map c (cache_aligned c k))"
proof -
  let ?n = "length (sc_data c)" and ?inc = "sc_increment c"
  have ne: "sc_data c \<noteq> []" and l: "l = cache_base c" "l = fst (hd (sc_data c))"
    and u: "u = fst (last (sc_data c))"
    using lo(1) hi(1)
    by (auto simp: cache_lower_bound_conv cache_upper_bound_conv cache_base_conv split: if_splits)
  have pos: "0 < ?inc" using wf by (simp add: cache_wf_def)
  have "k - l \<le> (?n - 1) * ?inc" using cache_wf_upper [OF wf ne] hi(2) u l by simp
  then have "(k - l) div ?inc \<le> ?n - 1"
    using pos by (metis div_le_mono nonzero_mult_div_cancel_right less_numeral_extra(3))
  then have idx: "(k - l) div ?inc < ?n" using ne by (cases "sc_data c") auto
  have "cache_get_value c k = Ok (Some (snd (sc_data c ! ((k - l) div ?inc))))"
    using ne lo hi l u pos idx
    by (simp add: cache_get_value_def cache_within_bound_conv cache_index_def u64_simps)
  then show ?thesis using cache_map_nth [OF wf idx] by (simp add: cache_aligned_def l)
qed

lemma cache_get_value_outside:
  assumes "\<not> (\<exists>l u. cache_lower_bound c = Some l \<and> cache_upper_bound c = Some u \<and> l \<le> k \<and> k \<le> u)"
  shows "cache_get_value c k = Ok None"
  using assms
  by (auto simp: cache_get_value_def cache_within_bound_conv cache_lower_bound_conv
      cache_upper_bound_conv)

lemma cache_map_outside:
  assumes "cache_wf c" "cache_map c k = Some v"
  shows "\<exists>l u. cache_lower_bound c = Some l \<and> cache_upper_bound c = Some u \<and> l \<le> k \<and> k \<le> u"
proof -
  have mem: "k \<in> fst ` set (sc_data c)" using assms(2) by (rule om_get_Some_in)
  then have ne: "sc_data c \<noteq> []" by auto
  have wf: "om_wf (sc_data c)" by (rule cache_wf_sorted [OF assms(1)])
  obtain l v1 where l: "om_min (sc_data c) = Some (l, v1)"
    using ne om_min_None_iff [of "sc_data c"] by (cases "om_min (sc_data c)") auto
  obtain u v2 where u: "om_max (sc_data c) = Some (u, v2)"
    using ne om_max_None_iff [of "sc_data c"] by (cases "om_max (sc_data c)") auto
  have "l \<le> k" "k \<le> u" using om_min_le [OF wf l mem] om_max_ge [OF wf u mem] .
  moreover have "cache_lower_bound c = Some l" "cache_upper_bound c = Some u"
    using l u ne by (auto simp: cache_lower_bound_def cache_upper_bound_conv om_min_def om_max_def
        split: list.splits if_splits)
  ultimately show ?thesis by blast
qed

section \<open>What the finality provider relies on\<close>

text \<open>A store of consecutive heights: its keys form an interval, a lookup sees the appended value,
  and dropping a prefix forgets exactly the keys below the bound.\<close>

locale height_store =
  fixes inv :: "'c \<Rightarrow> bool"
    and lookup :: "'c \<Rightarrow> nat \<Rightarrow> 'v option"
    and lower :: "'c \<Rightarrow> nat option"
    and upper :: "'c \<Rightarrow> nat option"
    and append :: "nat \<Rightarrow> 'v \<Rightarrow> 'c \<Rightarrow> ('e, 'c) outcome"
    and drop_below :: "nat \<Rightarrow> 'c \<Rightarrow> 'c"
  assumes lower_None: "inv c \<Longrightarrow> lower c = None \<Longrightarrow> upper c = None \<and> lookup c k = None"
    and interval: "inv c \<Longrightarrow> lower c = Some l \<Longrightarrow>
        \<exists>u. upper c = Some u \<and> l \<le> u \<and> u < U64 \<and> (\<forall>k. lookup c k \<noteq> None \<longleftrightarrow> l \<le> k \<and> k \<le> u)"
    and append_empty: "inv c \<Longrightarrow> lower c = None \<Longrightarrow> k < U64 \<Longrightarrow>
        \<exists>c'. append k v c = Ok c' \<and> inv c' \<and> lookup c' = [k \<mapsto> v]"
    and append_next: "inv c \<Longrightarrow> upper c = Some u \<Longrightarrow> Suc u < U64 \<Longrightarrow>
        \<exists>c'. append (Suc u) v c = Ok c' \<and> inv c' \<and> lookup c' = (lookup c)(Suc u \<mapsto> v)"
    and append_other: "inv c \<Longrightarrow> upper c = Some u \<Longrightarrow> Suc u < U64 \<Longrightarrow> k \<noteq> Suc u \<Longrightarrow>
        \<exists>e. append k v c = Err e"
    and drop_inv: "inv c \<Longrightarrow> inv (drop_below k c)"
    and drop_lookup: "inv c \<Longrightarrow> lookup (drop_below k c) j = (if j < k then None else lookup c j)"
begin

lemma upper_bound_iff:
  assumes "inv c"
  shows "upper c = Some u \<longleftrightarrow> lookup c u \<noteq> None \<and> (\<forall>k. lookup c k \<noteq> None \<longrightarrow> k \<le> u)"
proof (cases "lower c")
  case None
  with lower_None [OF assms] show ?thesis by simp
next
  case (Some l)
  from interval [OF assms this] obtain w where
    "upper c = Some w" "l \<le> w" "\<forall>k. lookup c k \<noteq> None \<longleftrightarrow> l \<le> k \<and> k \<le> w" by blast
  then show ?thesis by (metis le_antisym option.inject order_refl)
qed

lemma upper_less:
  assumes "inv c" "upper c = Some u"
  shows "u < U64"
proof (cases "lower c")
  case None
  with lower_None [OF assms(1)] assms(2) show ?thesis by simp
next
  case (Some l)
  from interval [OF assms(1) this] assms(2) show ?thesis by auto
qed

lemma convex:
  assumes "inv c" "lookup c i \<noteq> None" "lookup c j \<noteq> None" "i \<le> k" "k \<le> j"
  shows "lookup c k \<noteq> None"
proof (cases "lower c")
  case None
  with lower_None [OF assms(1)] assms(2) show ?thesis by simp
next
  case (Some l)
  from interval [OF assms(1) this] assms(2-) show ?thesis
    by (metis order_trans)
qed

lemma append_Ok:
  assumes "inv c" "append k v c = Ok c'" "k < U64" "\<forall>u. upper c = Some u \<longrightarrow> Suc u < U64"
  shows "inv c' \<and> lookup c' = (lookup c)(k \<mapsto> v) \<and> upper c' = Some k \<and>
     (\<forall>u. upper c = Some u \<longrightarrow> k = Suc u)"
proof (cases "upper c")
  case None
  then have lo: "lower c = None" using interval [OF assms(1)] by (cases "lower c") fastforce+
  then have no: "lookup c = Map.empty" using lower_None [OF assms(1)] by blast
  from append_empty [OF assms(1) lo assms(3), of v] assms(2)
  have "inv c'" "lookup c' = [k \<mapsto> v]" by simp_all
  then show ?thesis using upper_bound_iff [of c' k] None no by auto
next
  case (Some u)
  then have k: "k = Suc u" using append_other [OF assms(1) Some, of k v] assms(2,4) by fastforce
  from append_next [OF assms(1) Some, of v] assms(2,4) Some k
  have c': "inv c'" "lookup c' = (lookup c)(k \<mapsto> v)" by simp_all
  have "\<forall>j. lookup c j \<noteq> None \<longrightarrow> j \<le> u" using upper_bound_iff [OF assms(1)] Some by blast
  then have "upper c' = Some k" using upper_bound_iff [OF c'(1), of k] c'(2) k
    by (auto simp: le_Suc_eq)
  with c' k Some show ?thesis by simp
qed

end

lemma unit_cache_map_iff:
  assumes "unit_cache c"
  shows "cache_map c k \<noteq> None \<longleftrightarrow> cache_base c \<le> k \<and> k < cache_base c + length (sc_data c)"
proof -
  have "keys_seq 1 (cache_base c) (map fst (sc_data c))"
    using assms by (auto simp: unit_cache_def cache_wf_def)
  from keys_seq_one_iff [OF this, of k] show ?thesis by (simp add: map_of_eq_None_iff)
qed

lemma unit_cache_bounds:
  assumes "unit_cache c" "cache_lower_bound c = Some l"
  shows "l = cache_base c" "cache_upper_bound c = Some (l + length (sc_data c) - 1)"
    "sc_data c \<noteq> []" "l + length (sc_data c) - 1 < U64"
proof -
  show l: "l = cache_base c" and ne: "sc_data c \<noteq> []"
    using assms(2) by (auto simp: cache_base_def cache_lower_bound_conv split: if_splits)
  then show "cache_upper_bound c = Some (l + length (sc_data c) - 1)"
    using cache_wf_upper [of c] assms(1)
    by (cases "sc_data c") (auto simp: cache_upper_bound_conv unit_cache_def)
  then have "l + length (sc_data c) - 1 = fst (last (sc_data c))"
    using ne by (simp add: cache_upper_bound_conv)
  then show "l + length (sc_data c) - 1 < U64"
    using assms(1) last_in_set [OF ne] by (simp add: unit_cache_def cache_wf_def list_all_iff)
qed

lemma unit_cache_append:
  assumes "unit_cache c" "cache_append k v c = Ok c'" "k < U64"
    "\<forall>u. cache_upper_bound c = Some u \<longrightarrow> Suc u < U64"
  shows "unit_cache c'" "cache_map c' = (cache_map c)(k \<mapsto> v)" "sc_data c' = sc_data c @ [(k, v)]"
proof -
  have *: "cache_wf c' \<and> sc_increment c' = 1 \<and> sc_data c' = sc_data c @ [(k, v)] \<and> cache_map c k = None"
    using cache_wf_append [OF _ assms(2,3)] assms(1,4) by (auto simp: unit_cache_def)
  then show "unit_cache c'" "sc_data c' = sc_data c @ [(k, v)]" by (simp_all add: unit_cache_def)
  with * show "cache_map c' = (cache_map c)(k \<mapsto> v)"
    by (auto simp: map_add_def fun_eq_iff split: option.splits)
qed

lemma unit_cache_remove_below:
  assumes "unit_cache c"
  shows "unit_cache (cache_remove_key_below k c)"
    "cache_map (cache_remove_key_below k c) j = (if j < k then None else cache_map c j)"
proof -
  have wf: "cache_wf c" using assms by (simp add: unit_cache_def)
  show "unit_cache (cache_remove_key_below k c)"
    using cache_wf_remove_key_below(1) [OF wf] assms
    by (simp add: unit_cache_def cache_remove_key_below_def)
  have "map_of (filter (\<lambda>e. k \<le> fst e) d) j = (if j < k then None else map_of d j)"
    for d :: "(nat \<times> 'a) list" by (induction d) auto
  then show "cache_map (cache_remove_key_below k c) j = (if j < k then None else cache_map c j)"
    by (simp add: cache_wf_remove_key_below(2) [OF wf])
qed

interpretation uc: height_store unit_cache "\<lambda>c. map_of (sc_data c)" cache_lower_bound
  cache_upper_bound cache_append cache_remove_key_below
proof
  fix c :: "'a seq_cache" and k
  show "unit_cache c \<Longrightarrow> cache_lower_bound c = None \<Longrightarrow>
      cache_upper_bound c = None \<and> cache_map c k = None"
    by (simp add: cache_lower_bound_conv cache_upper_bound_conv split: if_splits)
next
  fix c :: "'a seq_cache" and l
  assume "unit_cache c" "cache_lower_bound c = Some l"
  note b = unit_cache_bounds [OF this] and m = unit_cache_map_iff [OF \<open>unit_cache c\<close>]
  show "\<exists>u. cache_upper_bound c = Some u \<and> l \<le> u \<and> u < U64 \<and>
      (\<forall>k. cache_map c k \<noteq> None \<longleftrightarrow> l \<le> k \<and> k \<le> u)"
    using b m by (intro exI [of _ "l + length (sc_data c) - 1"]) (cases "sc_data c", auto)
next
  fix c :: "'a seq_cache" and k v
  assume a: "unit_cache c" "cache_lower_bound c = None" "k < U64"
  then have d: "sc_data c = []" "cache_upper_bound c = None"
    by (auto simp: cache_lower_bound_conv cache_upper_bound_conv split: if_splits)
  then have ok: "cache_append k v c = Ok (c\<lparr>sc_data := [(k, v)]\<rparr>)" by (simp add: cache_append_def)
  show "\<exists>c'. cache_append k v c = Ok c' \<and> unit_cache c' \<and> cache_map c' = [k \<mapsto> v]"
    using unit_cache_append [OF a(1) ok a(3)] d ok by auto
next
  fix c :: "'a seq_cache" and u v
  assume a: "unit_cache c" "cache_upper_bound c = Some u" "Suc u < U64"
  then have ok: "cache_append (Suc u) v c = Ok (c\<lparr>sc_data := sc_data c @ [(Suc u, v)]\<rparr>)"
    by (simp add: cache_append_def unit_cache_def u64_simps)
  show "\<exists>c'. cache_append (Suc u) v c = Ok c' \<and> unit_cache c' \<and> cache_map c' = (cache_map c)(Suc u \<mapsto> v)"
    using unit_cache_append [OF a(1) ok a(3)] a ok by auto
next
  fix c :: "'a seq_cache" and u k v
  assume a: "unit_cache c" "cache_upper_bound c = Some u" "Suc u < U64" "k \<noteq> Suc u"
  then show "\<exists>e. cache_append k v c = Err e"
    by (auto simp: cache_append_def unit_cache_def u64_simps cache_lower_bound_conv
        cache_upper_bound_conv split: if_splits)
qed (simp_all add: unit_cache_remove_below)

lemma unit_cache_get_value [simp]:
  assumes "unit_cache c"
  shows "cache_get_value c k = Ok (cache_map c k)"
proof (cases "\<exists>l u. cache_lower_bound c = Some l \<and> cache_upper_bound c = Some u \<and> l \<le> k \<and> k \<le> u")
  case True
  then obtain l u where lu: "cache_lower_bound c = Some l" "l \<le> k" "cache_upper_bound c = Some u" "k \<le> u"
    by blast
  have wf: "cache_wf c" and "sc_increment c = 1" using assms by (simp_all add: unit_cache_def)
  moreover have "l = cache_base c" using lu(1) by (simp add: cache_base_def)
  ultimately have "cache_aligned c k = k" using lu(2) by (simp add: cache_aligned_def)
  with cache_get_value_within [OF wf lu] show ?thesis by simp
next
  case False
  then have "cache_map c k = None"
    using cache_map_outside [of c k] assms by (cases "cache_map c k") (auto simp: unit_cache_def)
  with cache_get_value_outside [OF False] show ?thesis by simp
qed

section \<open>Properties\<close>

lemmas cache_eval = cache_wf_def unit_cache_def cache_base_def cache_lower_bound_def
  cache_upper_bound_def cache_append_def add_u64_def sub_u64_def U64_def Let_def

lemma keys_seq_one_take_drop:
  "keys_seq 1 lo (map fst d) \<Longrightarrow>
     filter (\<lambda>e. lo + i \<le> fst e \<and> fst e < lo + i + n) d = take n (drop i d)"
proof (induction d arbitrary: lo i n)
  case (Cons e d)
  then have e: "fst e = lo" and seq: "keys_seq 1 (lo + 1) (map fst d)" by simp_all
  then have gt: "\<forall>x \<in> set d. lo < fst x" using keys_seq_ge [OF seq] by force
  show ?case
  proof (cases i)
    case (Suc j)
    with e Cons.IH [OF seq, of j n] show ?thesis by simp
  next
    case 0
    show ?thesis
    proof (cases n)
      case (Suc m)
      have "filter (\<lambda>x. lo \<le> fst x \<and> fst x < lo + n) d =
          filter (\<lambda>x. lo + 1 + 0 \<le> fst x \<and> fst x < lo + 1 + 0 + m) d"
        using gt Suc by (intro filter_cong) auto
      with Cons.IH [OF seq, of 0 m] e 0 Suc show ?thesis by simp
    qed (use e 0 gt in auto)
  qed
qed simp

text \<open>Appending refines the update of the map the cache stands for. While the next key does
  not pass the end of \<open>u64\<close>, \<open>append\<close> succeeds only on a new key, keeps the keys an arithmetic
  progression and adds exactly that entry at the upper end; each of its three errors says where the
  rejected key lies, and the other outcomes do not arise.\<close>

theorem cache_append_refines:
  assumes wf: "cache_wf c" and k: "k < U64"
    and room: "\<forall>u. cache_upper_bound c = Some u \<longrightarrow> u + sc_increment c < U64"
  shows "case cache_append k v c of
      Ok c' \<Rightarrow> cache_wf c' \<and> cache_map c k = None \<and> cache_map c' = (cache_map c)(k \<mapsto> v) \<and>
        cache_upper_bound c' = Some k
    | Err AboveBound \<Rightarrow> \<exists>u. cache_upper_bound c = Some u \<and> u + sc_increment c < k
    | Err BelowBound \<Rightarrow> \<exists>l. cache_lower_bound c = Some l \<and> k < l
    | Err AlreadyInserted \<Rightarrow> \<exists>l u. cache_lower_bound c = Some l \<and> cache_upper_bound c = Some u \<and>
        l \<le> k \<and> k < u + sc_increment c
    | _ \<Rightarrow> False"
proof (cases "cache_append k v c")
  case (Ok c')
  note a = cache_wf_append [OF wf Ok k room]
  then have "cache_map c' = (cache_map c)(k \<mapsto> v)"
    by (auto simp: map_add_def fun_eq_iff split: option.splits)
  with a Ok show ?thesis by (simp add: cache_upper_bound_conv)
qed (use room in \<open>auto simp: cache_append_def cache_upper_bound_conv cache_lower_bound_conv Let_def
    u64_simps split: if_splits option.splits SequentialAppendError.splits\<close>)

theorem cache_append_refines_witness:
  "cache_wf \<lparr>sc_increment = 1, sc_data = [(7, ''a''), (8, ''b'')]\<rparr> \<and>
   (\<exists>c'. cache_append 9 ''c'' \<lparr>sc_increment = 1, sc_data = [(7, ''a''), (8, ''b'')]\<rparr> = Ok c' \<and>
      cache_map c' 9 = Some ''c'' \<and> cache_wf c')"
proof -
  let ?c = "\<lparr>sc_increment = 1, sc_data = [(7, ''a''), (8, ''b'')]\<rparr> :: string seq_cache"
  let ?d = "\<lparr>sc_increment = 1, sc_data = [(7, ''a''), (8, ''b''), (9, ''c'')]\<rparr> :: string seq_cache"
  have wf: "cache_wf ?c" by (simp add: cache_eval)
  have ok: "cache_append 9 ''c'' ?c = Ok ?d" by (simp add: cache_eval)
  have "(9::nat) < U64" "\<forall>u. cache_upper_bound ?c = Some u \<longrightarrow> u + sc_increment ?c < U64"
    by (simp_all add: U64_def cache_upper_bound_def)
  from cache_append_refines [OF wf this, of "''c''"] ok wf show ?thesis by auto
qed

text \<open>The indexed lookup is the lookup of the map. \<open>get_value\<close> never panics on a
  well-formed cache; outside the bounds it finds nothing, and inside them it finds what the map holds
  at the largest stored key that is at most the requested one. With the increment one of
  \<open>sequential\<close> that key is the requested one; with a larger increment a key that was never
  appended gets the value of its left neighbour.\<close>

theorem cache_get_value_floor:
  assumes wf: "cache_wf c"
  shows "cache_get_value c k = Ok
     (if \<exists>l u. cache_lower_bound c = Some l \<and> cache_upper_bound c = Some u \<and> l \<le> k \<and> k \<le> u
      then cache_map c (cache_aligned c k) else None)"
    (is "_ = Ok (if ?in then _ else _)")
proof (cases ?in)
  case True
  then show ?thesis using cache_get_value_within [OF wf] by auto
next
  case False
  show ?thesis unfolding if_not_P [OF False] by (rule cache_get_value_outside [OF False])
qed

theorem cache_get_value_floor_witness:
  "cache_wf \<lparr>sc_increment = 2, sc_data = [(2, ''a''), (4, ''b'')]\<rparr> \<and>
   (cache_get_value \<lparr>sc_increment = 2, sc_data = [(2, ''a''), (4, ''b'')]\<rparr> 3 :: (unit, _) outcome)
     = Ok (Some ''a'')"
proof -
  let ?c = "\<lparr>sc_increment = 2, sc_data = [(2, ''a''), (4, ''b'')]\<rparr> :: string seq_cache"
  have wf: "cache_wf ?c" by (simp add: cache_eval)
  with cache_get_value_floor [OF wf, of 3] show ?thesis
    by (simp add: cache_lower_bound_def cache_upper_bound_def cache_aligned_def cache_base_def)
qed

text \<open>The range iterator of a unit cache returns the values of exactly the stored heights in
  the range, in order, when the range overlaps or touches the cache, and panics when it starts more
  than one past the clipped end.\<close>

theorem cache_values_within_filter:
  assumes uc: "unit_cache c"
    and lo: "cache_lower_bound c = Some l" and hi: "cache_upper_bound c = Some u"
    and e: "l \<le> e"
  shows "cache_values_within c s e =
     (if max s l \<le> Suc (min e u) then Ok (map snd (filter (\<lambda>(k, _). s \<le> k \<and> k \<le> e) (sc_data c)))
      else Panic)"
proof -
  let ?n = "length (sc_data c)"
  note b = unit_cache_bounds [OF uc lo]
  then have n: "0 < ?n" and u: "u = l + ?n - 1" using hi by auto
  have seq: "keys_seq 1 l (map fst (sc_data c))"
    using uc b(1) by (auto simp: unit_cache_def cache_wf_def)
  have inc: "sc_increment c = 1" using uc by (simp add: unit_cache_def)
  have "l \<le> min e u" using e u n by (cases "sc_data c") auto
  then have step: "cache_values_within c s e = omap (map snd) (range_incl (max s l - l) (min e u - l) (sc_data c))"
    using b(3) lo hi inc
    by (simp add: cache_values_within_def cache_is_empty_def cache_index_def u64_simps)
  have key: "l \<le> k \<and> k \<le> u" if "(k, v) \<in> set (sc_data c)" for k v
    using keys_seq_one_iff [OF seq, of k] that u n by force
  show ?thesis
  proof (cases "max s l \<le> Suc (min e u)")
    case True
    let ?i = "max s l - l" and ?m = "Suc (min e u - l) - (max s l - l)"
    have "take ?m (drop ?i (sc_data c)) = filter (\<lambda>x. l + ?i \<le> fst x \<and> fst x < l + ?i + ?m) (sc_data c)"
      using keys_seq_one_take_drop [OF seq, of ?i ?m] by simp
    also have "\<dots> = filter (\<lambda>(k, _). s \<le> k \<and> k \<le> e) (sc_data c)"
    proof (rule filter_cong [OF refl])
      fix x
      assume "x \<in> set (sc_data c)"
      then have "l \<le> fst x" "fst x \<le> u" using key [of "fst x" "snd x"] by simp_all
      moreover have "l + ?i = max s l" "l + ?i + ?m = Suc (min e u)"
        using True \<open>l \<le> min e u\<close> by auto
      ultimately show "(l + ?i \<le> fst x \<and> fst x < l + ?i + ?m) = (case x of (k, _) \<Rightarrow> s \<le> k \<and> k \<le> e)"
        by (auto simp: less_Suc_eq_le)
    qed
    finally have t: "take ?m (drop ?i (sc_data c)) = filter (\<lambda>(k, _). s \<le> k \<and> k \<le> e) (sc_data c)" .
    have "max s l - l \<le> Suc (min e u - l)" "Suc (min e u - l) \<le> ?n"
      using True \<open>l \<le> min e u\<close> u \<open>0 < ?n\<close> by linarith+
    then show ?thesis using True t by (simp only: step range_incl_def if_True simp_thms omap.simps)
  next
    case False
    then have "\<not> max s l - l \<le> Suc (min e u - l)" using \<open>l \<le> min e u\<close> by linarith
    then show ?thesis using False by (simp only: step range_incl_def if_False simp_thms omap.simps)
  qed
qed

theorem cache_values_within_filter_witness:
  "unit_cache \<lparr>sc_increment = 1, sc_data = [(5, ''a''), (6, ''b''), (7, ''c'')]\<rparr> \<and>
   (cache_values_within \<lparr>sc_increment = 1, sc_data = [(5, ''a''), (6, ''b''), (7, ''c'')]\<rparr> 6 9
     :: (unit, _) outcome) = Ok [''b'', ''c'']"
proof -
  let ?c = "\<lparr>sc_increment = 1, sc_data = [(5, ''a''), (6, ''b''), (7, ''c'')]\<rparr> :: string seq_cache"
  have uc: "unit_cache ?c" by (simp add: cache_eval)
  have "cache_lower_bound ?c = Some 5" "cache_upper_bound ?c = Some 7" by (simp_all add: cache_eval)
  from cache_values_within_filter [OF uc this, of 9 6] uc show ?thesis by simp
qed

end
