(* ===== verification/Subnet_Ids.thy ===== *)
theory Subnet_Ids
  imports IPC_Prelude "HOL-Library.Sublist"
begin

text \<open>
  Subnet identifiers, IPC addresses and cross-net envelopes of the \<open>ipc-api\<close> crate
  (\<open>ipc/api/src/subnet_id.rs\<close>, \<open>address.rs\<close>, \<open>cross.rs\<close>, \<open>staking.rs\<close>).

  An \<open>Address\<close> of \<open>fvm_shared\<close> is a type variable; its \<open>Display\<close> and \<open>FromStr\<close> are the
  parameters \<open>sh\<close> and \<open>ps\<close>, of which \<open>addr_codec\<close> says what the crate documents: parsing
  inverts printing, and a printed address holds neither separator. The FNV hash behind
  \<open>chain_id\<close> is a parameter too. Decimal printing and parsing of \<open>u64\<close> and splitting at a
  separator belong to Rust's standard library and are modelled here.
\<close>

section \<open>Decimal numerals and splitting\<close>

definition digit_char :: "nat \<Rightarrow> char" where
  "digit_char d = char_of (48 + d)"

definition digit_val :: "char \<Rightarrow> nat option" where
  "digit_val c = (let n = of_char c :: nat in if 48 \<le> n \<and> n \<le> 57 then Some (n - 48) else None)"

fun show_u64 :: "nat \<Rightarrow> string" where
  "show_u64 n = (if n < 10 then [digit_char n] else show_u64 (n div 10) @ [digit_char (n mod 10)])"

declare show_u64.simps [simp del]

fun parse_digits :: "nat \<Rightarrow> string \<Rightarrow> nat option" where
  "parse_digits acc [] = Some acc"
| "parse_digits acc (c # cs) =
     (case digit_val c of
        None \<Rightarrow> None
      | Some d \<Rightarrow> if acc * 10 + d < U64 then parse_digits (acc * 10 + d) cs else None)"

text \<open>\<open>str::parse::<u64>\<close>: an optional plus sign, then at least one digit, without overflow.\<close>

definition parse_u64 :: "string \<Rightarrow> nat option" where
  "parse_u64 s =
     (case s of
        [] \<Rightarrow> None
      | c # cs \<Rightarrow> if c = CHR ''+'' then (if cs = [] then None else parse_digits 0 cs)
                 else parse_digits 0 (c # cs))"

fun split_on :: "char \<Rightarrow> string \<Rightarrow> string list" where
  "split_on d [] = [[]]"
| "split_on d (c # s) =
     (if c = d then [] # split_on d s
      else case split_on d s of [] \<Rightarrow> [[c]] | w # ws \<Rightarrow> (c # w) # ws)"

section \<open>Subnet identifiers\<close>

record 'a SubnetID =
  root :: nat
  children :: "'a list"

datatype ipc_error = InvalidID string string | InvalidIPCAddr | FVMAddressError string

definition MAX_CHAIN_ID :: nat where
  "MAX_CHAIN_ID = 4503599627370476"

definition UNDEF :: "'a SubnetID" where
  "UNDEF = \<lparr>root = 0, children = []\<rparr>"

definition subnet_new :: "nat \<Rightarrow> 'a list \<Rightarrow> 'a SubnetID" where
  "subnet_new root_id cs = \<lparr>root = root_id, children = cs\<rparr>"

definition subnet_new_from_parent :: "'a SubnetID \<Rightarrow> 'a \<Rightarrow> 'a SubnetID" where
  "subnet_new_from_parent p a = \<lparr>root = root p, children = children p @ [a]\<rparr>"

definition subnet_new_root :: "nat \<Rightarrow> 'a SubnetID" where
  "subnet_new_root root_id = \<lparr>root = root_id, children = []\<rparr>"

definition subnet_is_root :: "'a SubnetID \<Rightarrow> bool" where
  "subnet_is_root s = (children s = [])"

text \<open>\<open>Display\<close> of a subnet identifier, over the printer \<open>sh\<close> of addresses.\<close>

definition subnet_to_string :: "('a \<Rightarrow> string) \<Rightarrow> 'a SubnetID \<Rightarrow> string" where
  "subnet_to_string sh s =
     (let children_str = fold (\<lambda>a out. out @ ''/'' @ sh a) (children s) []
      in ''/r'' @ show_u64 (root s) @ children_str)"

definition subnet_chain_id :: "('a \<Rightarrow> string) \<Rightarrow> (string \<Rightarrow> nat) \<Rightarrow> 'a SubnetID \<Rightarrow> nat" where
  "subnet_chain_id sh fnv s =
     (if subnet_is_root s then root s else fnv (subnet_to_string sh s) mod MAX_CHAIN_ID)"

definition subnet_actor :: "'a \<Rightarrow> 'a SubnetID \<Rightarrow> 'a" where
  "subnet_actor id_zero s = (if children s = [] then id_zero else last (children s))"

definition subnet_parent :: "'a SubnetID \<Rightarrow> 'a SubnetID option" where
  "subnet_parent s =
     (if children s = [] then None
      else Some (subnet_new (root s) (take (length (children s) - 1) (children s))))"

definition subnet_common_parent :: "'a SubnetID \<Rightarrow> 'a SubnetID \<Rightarrow> (nat \<times> 'a SubnetID) option" where
  "subnet_common_parent s t =
     (if root s \<noteq> root t then None
      else let common = length (takeWhile (\<lambda>(a, b). a = b) (zip (children s) (children t)))
           in Some (common, subnet_new (root s) (take common (children s))))"

text \<open>The slices of \<open>down\<close> and \<open>up\<close> panic when their end is out of range; the end \<open>i - 1\<close> of
  \<open>up\<close> is a \<open>usize\<close> subtraction, which wraps at zero.\<close>

definition slice_to :: "nat \<Rightarrow> 'a list \<Rightarrow> ('e, 'a list) outcome" where
  "slice_to n xs = (if n \<le> length xs then Ok (take n xs) else Panic)"

definition subnet_down :: "'a SubnetID \<Rightarrow> 'a SubnetID \<Rightarrow> ('e, 'a SubnetID option) outcome" where
  "subnet_down s from =
     (if length (children s) \<le> length (children from) then Ok None
      else case subnet_common_parent s from of
        Some (i, _) \<Rightarrow> obind (slice_to (i + 1) (children s)) (\<lambda>cs. Ok (Some (subnet_new (root s) cs)))
      | None \<Rightarrow> Ok None)"

definition subnet_up :: "'a SubnetID \<Rightarrow> 'a SubnetID \<Rightarrow> ('e, 'a SubnetID option) outcome" where
  "subnet_up s from =
     (if length (children s) < length (children from) then Ok None
      else case subnet_common_parent s from of
        Some (i, _) \<Rightarrow>
          obind (slice_to (sub_u64 i 1) (children s)) (\<lambda>cs. Ok (Some (subnet_new (root s) cs)))
      | None \<Rightarrow> Ok None)"

fun parse_children ::
  "(string \<Rightarrow> (string, 'a) outcome) \<Rightarrow> string \<Rightarrow> string list \<Rightarrow> (ipc_error, 'a list) outcome" where
  "parse_children ps sid [] = Ok []"
| "parse_children ps sid (addr # segs) =
     obind (map_err (\<lambda>e. InvalidID sid (''invalid child address '' @ addr @ '': '' @ e)) (ps addr)) (\<lambda>a.
     obind (parse_children ps sid segs) (\<lambda>cs. Ok (a # cs)))"

definition subnet_from_str ::
  "(string \<Rightarrow> (string, 'a) outcome) \<Rightarrow> string \<Rightarrow> (ipc_error, 'a SubnetID) outcome" where
  "subnet_from_str ps sid =
     (if take 2 sid \<noteq> ''/r'' then Err (InvalidID sid (''expected to start with '' @ [CHR 0x27] @ ''/r'' @ [CHR 0x27]))
      else case drop 1 (split_on CHR ''/'' sid) of
        [] \<Rightarrow> Panic
      | seg0 # segs \<Rightarrow>
          if seg0 = [] then Panic
          else case parse_u64 (drop 1 seg0) of
            None \<Rightarrow> Err (InvalidID sid ''invalid root ID'')
          | Some r \<Rightarrow> obind (parse_children ps sid segs) (\<lambda>cs. Ok \<lparr>root = r, children = cs\<rparr>))"

section \<open>IPC addresses\<close>

record 'a IPCAddress =
  subnet_id :: "'a SubnetID"
  raw_address :: 'a

definition ipc_address_new :: "'a SubnetID \<Rightarrow> 'a \<Rightarrow> (ipc_error, 'a IPCAddress) outcome" where
  "ipc_address_new sn addr = Ok \<lparr>subnet_id = sn, raw_address = addr\<rparr>"

definition ipc_address_to_string :: "('a \<Rightarrow> string) \<Rightarrow> 'a IPCAddress \<Rightarrow> string" where
  "ipc_address_to_string sh a = subnet_to_string sh (subnet_id a) @ '':'' @ sh (raw_address a)"

definition ipc_address_from_str ::
  "(string \<Rightarrow> (string, 'a) outcome) \<Rightarrow> string \<Rightarrow> (ipc_error, 'a IPCAddress) outcome" where
  "ipc_address_from_str ps s =
     (case split_on CHR '':'' s of
        [r0, r1] \<Rightarrow>
          obind (map_err FVMAddressError (ps r1)) (\<lambda>raw.
          obind (subnet_from_str ps r0) (\<lambda>sn. Ok \<lparr>subnet_id = sn, raw_address = raw\<rparr>))
      | _ \<Rightarrow> Err InvalidIPCAddr)"

section \<open>Cross-net envelopes and staking changes\<close>

datatype IpcMsgKind = Transfer | Call | Receipt
datatype IPCMsgType = BottomUp | TopDown

record 'a IpcEnvelope =
  env_kind :: IpcMsgKind
  env_to :: "'a IPCAddress"
  env_value :: int
  env_from :: "'a IPCAddress"
  env_message :: "nat list"
  env_nonce :: nat

datatype StakingOperation = Deposit | Withdraw | SetMetadata | SetFederatedPower

record 'a StakingChange =
  sc_op :: StakingOperation
  sc_payload :: "nat list"
  sc_validator :: 'a

record 'a StakingChangeRequest =
  configuration_number :: nat
  change :: "'a StakingChange"

definition ipc_msg_kind_of_u8 :: "nat \<Rightarrow> (string, IpcMsgKind) outcome" where
  "ipc_msg_kind_of_u8 v =
     (if v = 0 then Ok Transfer else if v = 1 then Ok Call else if v = 2 then Ok Receipt
      else Err ''invalid ipc msg kind'')"

definition new_release_msg ::
  "'a SubnetID \<Rightarrow> 'a \<Rightarrow> 'a \<Rightarrow> int \<Rightarrow> (string, 'a IpcEnvelope) outcome" where
  "new_release_msg sub_id from to val =
     (case subnet_parent sub_id of
        None \<Rightarrow> Err ''error getting parent for subnet addr''
      | Some p \<Rightarrow> Ok \<lparr>env_kind = Transfer, env_to = \<lparr>subnet_id = p, raw_address = to\<rparr>,
          env_value = val, env_from = \<lparr>subnet_id = sub_id, raw_address = from\<rparr>,
          env_message = [], env_nonce = 0\<rparr>)"

definition new_fund_msg ::
  "'a SubnetID \<Rightarrow> 'a \<Rightarrow> 'a \<Rightarrow> int \<Rightarrow> (string, 'a IpcEnvelope) outcome" where
  "new_fund_msg sub_id from to val =
     (case subnet_parent sub_id of
        None \<Rightarrow> Err ''error getting parent for subnet addr''
      | Some p \<Rightarrow> Ok \<lparr>env_kind = Transfer, env_to = \<lparr>subnet_id = sub_id, raw_address = to\<rparr>,
          env_value = val, env_from = \<lparr>subnet_id = p, raw_address = from\<rparr>,
          env_message = [], env_nonce = 0\<rparr>)"

definition is_bottomup :: "'a SubnetID \<Rightarrow> 'a SubnetID \<Rightarrow> bool" where
  "is_bottomup from to =
     (case subnet_common_parent from to of
        Some (index, _) \<Rightarrow> index < length (children from)
      | None \<Rightarrow> False)"

definition ipc_type :: "'a IpcEnvelope \<Rightarrow> IPCMsgType" where
  "ipc_type e =
     (if is_bottomup (subnet_id (env_from e)) (subnet_id (env_to e)) then BottomUp else TopDown)"

definition apply_type :: "'a IpcEnvelope \<Rightarrow> 'a SubnetID \<Rightarrow> IPCMsgType" where
  "apply_type e cur =
     (let sto = subnet_id (env_to e); sfrom = subnet_id (env_from e) in
      if subnet_common_parent cur sto = subnet_common_parent sfrom sto \<and> ipc_type e = BottomUp
      then BottomUp else TopDown)"

section \<open>What is assumed of the address crate\<close>

definition addr_codec :: "('a \<Rightarrow> string) \<Rightarrow> (string \<Rightarrow> (string, 'a) outcome) \<Rightarrow> bool" where
  "addr_codec sh ps =
     (\<forall>a. ps (sh a) = Ok a \<and> CHR ''/'' \<notin> set (sh a) \<and> CHR '':'' \<notin> set (sh a))"

text \<open>A concrete codec, which shows that the assumption can hold.\<close>

definition unary_show :: "nat \<Rightarrow> string" where
  "unary_show n = ''f0'' @ replicate n CHR ''1''"

definition unary_parse :: "string \<Rightarrow> (string, nat) outcome" where
  "unary_parse s =
     (if take 2 s = ''f0'' \<and> list_all (\<lambda>c. c = CHR ''1'') (drop 2 s) then Ok (length s - 2)
      else Err ''invalid address'')"

section \<open>Lemmas on numerals and splitting\<close>

lemma digit_val_char [simp]: "d < 10 \<Longrightarrow> digit_val (digit_char d) = Some d"
  by (simp add: digit_val_def digit_char_def Let_def)

lemma digit_char_neq:
  "d < 10 \<Longrightarrow> digit_char d \<noteq> CHR ''+''" "d < 10 \<Longrightarrow> digit_char d \<noteq> CHR ''/''"
  "d < 10 \<Longrightarrow> digit_char d \<noteq> CHR '':''"
  using digit_val_char [of d] by (auto simp: digit_val_def Let_def)

lemma parse_digits_append:
  "parse_digits acc (xs @ ys) = Option.bind (parse_digits acc xs) (\<lambda>a. parse_digits a ys)"
  by (induction acc xs rule: parse_digits.induct) (auto split: option.splits)

lemma show_u64_ne [simp]: "show_u64 n \<noteq> []"
  by (subst show_u64.simps) simp

lemma parse_digits_show: "n < U64 \<Longrightarrow> parse_digits 0 (show_u64 n) = Some n"
proof (induction n rule: show_u64.induct)
  case (1 n)
  show ?case
  proof (cases "n < 10")
    case True
    with "1.prems" show ?thesis by (subst show_u64.simps) simp
  next
    case False
    then have "n div 10 < U64" using "1.prems" by simp
    with "1.IH" False have IH: "parse_digits 0 (show_u64 (n div 10)) = Some (n div 10)" by simp
    show ?thesis
      using False IH "1.prems" by (subst show_u64.simps) (simp add: parse_digits_append)
  qed
qed

lemma show_u64_chars: "c \<in> set (show_u64 n) \<Longrightarrow> \<exists>d<10. c = digit_char d"
proof (induction n rule: show_u64.induct)
  case (1 n)
  have "c \<in> set (if n < 10 then [digit_char n] else show_u64 (n div 10) @ [digit_char (n mod 10)])"
    using "1.prems" by (subst (asm) show_u64.simps)
  with "1.IH" show ?case by (auto split: if_splits intro: exI [of _ "n mod 10"])
qed

lemma show_u64_no_sep:
  "CHR ''/'' \<notin> set (show_u64 n)" "CHR '':'' \<notin> set (show_u64 n)" "CHR ''+'' \<notin> set (show_u64 n)"
  using show_u64_chars [of _ n] digit_char_neq by metis+

lemma parse_u64_show [simp]: "n < U64 \<Longrightarrow> parse_u64 (show_u64 n) = Some n"
  using parse_digits_show [of n] show_u64_no_sep(3) [of n]
  by (cases "show_u64 n") (auto simp: parse_u64_def)

lemma split_on_ne [simp]: "split_on d s \<noteq> []"
  by (cases s) (auto split: list.splits)

lemma split_on_none: "d \<notin> set s \<Longrightarrow> split_on d s = [s]"
  by (induction s) auto

lemma split_on_first: "d \<notin> set s \<Longrightarrow> split_on d (s @ d # t) = s # split_on d t"
  by (induction s) auto

section \<open>Lemmas on subnet identifiers\<close>

definition slashed :: "('a \<Rightarrow> string) \<Rightarrow> 'a list \<Rightarrow> string" where
  "slashed sh cs = concat (map (\<lambda>a. CHR ''/'' # sh a) cs)"

lemma fold_slashed: "fold (\<lambda>a out. out @ CHR ''/'' # sh a) cs acc = acc @ slashed sh cs"
  by (induction cs arbitrary: acc) (auto simp: slashed_def)

lemma subnet_to_string_conv:
  "subnet_to_string sh s = ''/r'' @ show_u64 (root s) @ slashed sh (children s)"
  by (simp add: subnet_to_string_def fold_slashed)

lemma split_slashed:
  "\<forall>a. CHR ''/'' \<notin> set (sh a) \<Longrightarrow> CHR ''/'' \<notin> set w \<Longrightarrow>
     split_on CHR ''/'' (w @ slashed sh cs) = w # map sh cs"
proof (induction cs arbitrary: w)
  case Nil
  then show ?case by (simp add: slashed_def split_on_none)
next
  case (Cons a cs)
  then show ?case using split_on_first [of "CHR ''/''" w "sh a @ slashed sh cs"]
    by (simp add: slashed_def)
qed

lemma parse_children_show: "\<forall>a. ps (sh a) = Ok a \<Longrightarrow> parse_children ps sid (map sh cs) = Ok cs"
  by (induction cs) auto

lemma subnet_string_roundtrip:
  assumes "addr_codec sh ps" "root s < U64"
  shows "subnet_from_str ps (subnet_to_string sh s) = Ok s"
proof -
  let ?w = "CHR ''r'' # show_u64 (root s)"
  have "split_on CHR ''/'' (?w @ slashed sh (children s)) = ?w # map sh (children s)"
    using assms(1) show_u64_no_sep(1) [of "root s"] by (intro split_slashed) (auto simp: addr_codec_def)
  then have "drop 1 (split_on CHR ''/'' (subnet_to_string sh s)) = ?w # map sh (children s)"
    by (simp add: subnet_to_string_conv)
  then show ?thesis
    using assms parse_children_show [of ps sh]
    by (simp add: subnet_from_str_def subnet_to_string_conv addr_codec_def)
qed

lemma show_u64_inj: "show_u64 m = show_u64 n \<Longrightarrow> m = n"
proof (induction m arbitrary: n rule: show_u64.induct)
  case (1 m)
  have digit: "digit_char a = digit_char b \<Longrightarrow> a < 10 \<Longrightarrow> b < 10 \<Longrightarrow> a = b" for a b
    by (metis digit_val_char option.inject)
  have ne: "show_u64 k \<noteq> []" "[] \<noteq> show_u64 k" for k by (rule show_u64_ne, rule show_u64_ne [symmetric])
  show ?case
  proof (cases "m < 10 \<or> n < 10")
    case True
    then show ?thesis using 1(2) ne digit [of m n] by (subst (asm) (1 2) show_u64.simps) (auto split: if_splits)
  next
    case False
    then have "show_u64 (m div 10) = show_u64 (n div 10)" "digit_char (m mod 10) = digit_char (n mod 10)"
      using 1(2) by (subst (asm) (1 2) show_u64.simps, simp)+
    then have "m div 10 = n div 10" "m mod 10 = n mod 10" using 1(1) False digit by auto
    then show ?thesis by (metis div_mult_mod_eq)
  qed
qed

lemma subnet_to_string_inj:
  assumes codec: "addr_codec sh ps" and eq: "subnet_to_string sh s = subnet_to_string sh s'"
  shows "s = s'"
proof -
  have split: "split_on CHR ''/'' (show_u64 (root x) @ slashed sh (children x)) = show_u64 (root x) # map sh (children x)" for x
    using codec show_u64_no_sep(1) [of "root x"] by (intro split_slashed) (auto simp: addr_codec_def)
  have "show_u64 (root s) = show_u64 (root s')" "map sh (children s) = map sh (children s')"
    using eq split [of s] split [of s'] by (simp_all add: subnet_to_string_conv)
  moreover have "inj sh" using codec by (metis addr_codec_def injI outcome.inject(1))
  ultimately have "root s = root s'" "children s = children s'" by (auto dest: show_u64_inj simp: inj_map_eq_map)
  then show ?thesis by simp
qed

lemma subnet_string_no_colon:
  "addr_codec sh ps \<Longrightarrow> CHR '':'' \<notin> set (subnet_to_string sh s)"
  using show_u64_no_sep(2) [of "root s"]
  by (auto simp: subnet_to_string_conv slashed_def addr_codec_def)

lemma takeWhile_zip_prefix:
  "take (length (takeWhile (\<lambda>(a, b). a = b) (zip xs ys))) xs = longest_common_prefix xs ys"
proof (induction xs arbitrary: ys)
  case (Cons x xs)
  then show ?case by (cases ys) auto
qed simp

lemma length_takeWhile_zip:
  "length (takeWhile (\<lambda>(a, b). a = b) (zip xs ys)) = length (longest_common_prefix xs ys)"
proof (induction xs arbitrary: ys)
  case (Cons x xs)
  then show ?case by (cases ys) auto
qed simp

lemma subnet_common_parent_conv:
  "subnet_common_parent s t =
     (if root s \<noteq> root t then None
      else Some (length (longest_common_prefix (children s) (children t)),
        subnet_new (root s) (longest_common_prefix (children s) (children t))))"
  using takeWhile_zip_prefix [of "children s" "children t"]
  by (simp add: subnet_common_parent_def Let_def length_takeWhile_zip)

lemma length_lcp_le: "length (longest_common_prefix xs ys) \<le> length xs"
  "length (longest_common_prefix xs ys) \<le> length ys"
  using longest_common_prefix_prefix1 longest_common_prefix_prefix2 prefix_length_le by blast+

lemma lcp_full_iff: "length (longest_common_prefix xs ys) = length xs \<longleftrightarrow> prefix xs ys"
proof (induction xs arbitrary: ys)
  case (Cons x xs)
  then show ?case by (cases ys) auto
qed simp

lemma lcp_of_prefix: "prefix ys xs \<Longrightarrow> longest_common_prefix xs ys = ys"
  by (rule prefix_order.antisym)
    (auto intro: longest_common_prefix_prefix2 longest_common_prefix_max_prefix)

lemma unary_codec: "addr_codec unary_show unary_parse"
  by (auto simp: addr_codec_def unary_show_def unary_parse_def list_all_iff)

section \<open>Properties\<close>

text \<open>C40: printing and parsing are inverse. When the address crate's parser inverts its printer
  and a printed address holds no separator, a subnet identifier with a 64-bit root and an IPC address
  in such a subnet are read back from their own text.\<close>

theorem ipc_address_roundtrip:
  assumes codec: "addr_codec sh ps" and r: "root (subnet_id a) < U64"
  shows "ipc_address_from_str ps (ipc_address_to_string sh a) = Ok a \<and>
    subnet_from_str ps (subnet_to_string sh (subnet_id a)) = Ok (subnet_id a)"
proof -
  let ?s = "subnet_to_string sh (subnet_id a)"
  have sub: "subnet_from_str ps ?s = Ok (subnet_id a)" by (rule subnet_string_roundtrip [OF codec r])
  have "split_on CHR '':'' (ipc_address_to_string sh a) = [?s, sh (raw_address a)]"
    using split_on_first [OF subnet_string_no_colon [OF codec], of "subnet_id a" "sh (raw_address a)"]
      codec by (simp add: ipc_address_to_string_def addr_codec_def split_on_none)
  then show ?thesis using sub codec by (simp add: ipc_address_from_str_def addr_codec_def)
qed

theorem ipc_address_roundtrip_witness:
  "addr_codec unary_show unary_parse \<and>
   ipc_address_from_str unary_parse
     (ipc_address_to_string unary_show \<lparr>subnet_id = \<lparr>root = 31415926, children = [2, 3]\<rparr>, raw_address = 1\<rparr>)
     = Ok \<lparr>subnet_id = \<lparr>root = 31415926, children = [2, 3]\<rparr>, raw_address = 1\<rparr>"
  using ipc_address_roundtrip [OF unary_codec,
      of "\<lparr>subnet_id = \<lparr>root = 31415926, children = [2, 3]\<rparr>, raw_address = 1\<rparr>"] unary_codec
  by (simp add: U64_def)

text \<open>The common parent is the deepest common ancestor. Two subnets have a common parent exactly
  when they share the root network; the route of that parent is a prefix of both routes, every common
  prefix is a prefix of it, the reported index is its depth, and the two directions agree.\<close>

theorem common_parent_deepest:
  "(subnet_common_parent s t = None \<longleftrightarrow> root s \<noteq> root t) \<and>
   subnet_common_parent s t = subnet_common_parent t s \<and>
   (\<forall>i p. subnet_common_parent s t = Some (i, p) \<longrightarrow>
      root p = root s \<and> i = length (children p) \<and>
      prefix (children p) (children s) \<and> prefix (children p) (children t) \<and>
      (\<forall>q. prefix q (children s) \<and> prefix q (children t) \<longrightarrow> prefix q (children p)))"
proof -
  have "longest_common_prefix (children s) (children t) = longest_common_prefix (children t) (children s)"
    by (meson longest_common_prefix_max_prefix longest_common_prefix_prefix1
        longest_common_prefix_prefix2 prefix_order.antisym)
  then show ?thesis
    by (auto simp: subnet_common_parent_conv subnet_new_def longest_common_prefix_prefix1
        longest_common_prefix_prefix2 intro: longest_common_prefix_max_prefix)
qed

theorem common_parent_deepest_witness:
  "\<exists>i p. subnet_common_parent \<lparr>root = 1, children = [7, 8, 9 :: nat]\<rparr> \<lparr>root = 1, children = [7, 8, 5]\<rparr> = Some (i, p) \<and>
     i = 2 \<and> prefix [7] (children p)"
proof -
  let ?s = "\<lparr>root = 1, children = [7, 8, 9 :: nat]\<rparr>" and ?t = "\<lparr>root = 1, children = [7, 8, 5 :: nat]\<rparr>"
  obtain i p where ip: "subnet_common_parent ?s ?t = Some (i, p)" "i = 2"
    by (simp add: subnet_common_parent_conv)
  moreover from this common_parent_deepest [of ?s ?t] have "prefix [7] (children p)" by simp
  ultimately show ?thesis by blast
qed

text \<open>\<open>down\<close> and \<open>up\<close> walk the route. \<open>down\<close> never panics; from a shorter route in the same
  root network it goes one step below the common parent. \<open>up\<close> goes one step above the common
  parent, and panics exactly when the two routes are in the same root network, the argument is not
  deeper and they differ from the first child on, because the slice end underflows.\<close>

theorem subnet_down_up:
  assumes "length (children s) < U64 - 1"
  shows "subnet_down s from = Ok
     (if root s = root from \<and> length (children from) < length (children s)
      then Some (subnet_new (root s)
        (take (Suc (length (longest_common_prefix (children s) (children from)))) (children s)))
      else None) \<and>
   subnet_up s from =
     (if root s = root from \<and> length (children from) \<le> length (children s) then
        (if longest_common_prefix (children s) (children from) = [] then Panic
         else Ok (Some (subnet_new (root s) (butlast (longest_common_prefix (children s) (children from))))))
      else Ok None)"
proof -
  let ?p = "longest_common_prefix (children s) (children from)"
  note le = length_lcp_le [of "children s" "children from"]
  have down: "subnet_down s from = Ok
     (if root s = root from \<and> length (children from) < length (children s)
      then Some (subnet_new (root s) (take (Suc (length ?p)) (children s))) else None)"
    using le by (simp add: subnet_down_def subnet_common_parent_conv slice_to_def)
  have pre: "?p = take (length ?p) (children s)"
    using longest_common_prefix_prefix1 [of "children s" "children from"]
    by (metis append_eq_conv_conj prefix_def)
  have "take (length ?p - 1) (children s) = take (length ?p - 1) (take (length ?p) (children s))" by simp
  also have "\<dots> = butlast ?p" using pre by (metis butlast_conv_take)
  finally have but: "butlast ?p = take (length ?p - 1) (children s)" ..
  have "subnet_up s from =
     (if root s = root from \<and> length (children from) \<le> length (children s) then
        (if ?p = [] then Panic else Ok (Some (subnet_new (root s) (butlast ?p))))
      else Ok None)"
  proof (cases "?p = []")
    case True
    then show ?thesis using assms
      by (simp add: subnet_up_def subnet_common_parent_conv slice_to_def sub_u64_def)
  next
    case False
    then have "1 \<le> length ?p" by (cases ?p) auto
    moreover have "length ?p - 1 \<le> length (children s)" using le(1) by linarith
    ultimately show ?thesis using False but
      by (simp add: subnet_up_def subnet_common_parent_conv slice_to_def sub_u64_def)
  qed
  with down show ?thesis by blast
qed

theorem subnet_down_up_witness:
  "(subnet_up \<lparr>root = 1, children = [7, 8 :: nat]\<rparr> \<lparr>root = 1, children = [9]\<rparr> :: (unit, _) outcome) = Panic"
  by (rule trans [OF conjunct2 [OF subnet_down_up]]) (simp_all add: U64_def)

text \<open>Messages are classified by their routes. Within one root network a message is bottom-up
  exactly when the source subnet is not an ancestor of the destination or the destination itself; so a
  release message goes bottom-up, is applied as bottom-up in the parent, and a fund message goes
  top-down.\<close>

theorem message_direction:
  assumes "root f = root t"
  shows "(is_bottomup f t \<longleftrightarrow> \<not> prefix (children f) (children t)) \<and>
    (new_release_msg f a b v = Ok e \<longrightarrow> ipc_type e = BottomUp \<and>
      (\<forall>p. subnet_parent f = Some p \<longrightarrow> apply_type e p = BottomUp)) \<and>
    (new_fund_msg f a b v = Ok e \<longrightarrow> ipc_type e = TopDown)"
proof (intro conjI impI allI)
  have bu: "is_bottomup x y \<longleftrightarrow> \<not> prefix (children x) (children y)" if "root x = root y"
    for x y :: "'a SubnetID"
    using that lcp_full_iff [of "children x" "children y"] length_lcp_le(1) [of "children x" "children y"]
    by (auto simp: is_bottomup_def subnet_common_parent_conv)
  then show "is_bottomup f t \<longleftrightarrow> \<not> prefix (children f) (children t)" using assms by simp
  have par: "root p = root f" "children p = butlast (children f)" "children f \<noteq> []"
    if "subnet_parent f = Some p" for p
    using that by (auto simp: subnet_parent_def subnet_new_def butlast_conv_take split: if_splits)
  have lcp: "longest_common_prefix (butlast xs) (butlast xs) = butlast xs"
    "longest_common_prefix xs (butlast xs) = butlast xs" for xs :: "'a list"
    by (simp_all add: lcp_of_prefix prefixeq_butlast)
  have notpre: "\<not> prefix xs (butlast xs)" if "xs \<noteq> []" for xs :: "'a list"
    using that prefix_length_le [of xs "butlast xs"] by (cases xs) auto
  {
    assume "new_release_msg f a b v = Ok e"
    then obtain p where p: "subnet_parent f = Some p" and e: "subnet_id (env_to e) = p"
      "subnet_id (env_from e) = f" by (auto simp: new_release_msg_def split: option.splits)
    then show up: "ipc_type e = BottomUp"
      using bu [of f p] par [OF p] notpre by (simp add: ipc_type_def)
    show "apply_type e q = BottomUp" if "subnet_parent f = Some q" for q
      using that p e up par [OF p] lcp
      by (simp add: apply_type_def subnet_common_parent_conv)
  next
    assume "new_fund_msg f a b v = Ok e"
    then obtain p where p: "subnet_parent f = Some p" and "subnet_id (env_to e) = f"
      "subnet_id (env_from e) = p" by (auto simp: new_fund_msg_def split: option.splits)
    then show "ipc_type e = TopDown"
      using bu [of p f] par [OF p] by (simp add: ipc_type_def prefixeq_butlast)
  }
qed

theorem message_direction_witness:
  "is_bottomup \<lparr>root = 1, children = [7 :: nat]\<rparr> \<lparr>root = 1, children = []\<rparr> \<and>
   (\<exists>e. new_release_msg \<lparr>root = 1, children = [7 :: nat]\<rparr> 4 5 10 = Ok e \<and> ipc_type e = BottomUp)"
proof -
  let ?f = "\<lparr>root = 1, children = [7 :: nat]\<rparr>" and ?t = "\<lparr>root = 1, children = [] :: nat list\<rparr>"
  obtain e where e: "new_release_msg ?f 4 5 10 = Ok e"
    by (simp add: new_release_msg_def subnet_parent_def)
  have "is_bottomup ?f ?t" using message_direction [of ?f ?t] by simp
  moreover have "ipc_type e = BottomUp" using message_direction [of ?f ?t 4 5 10 e] e by simp
  ultimately show ?thesis using e by blast
qed

end
