(* ===== verification/Finality_Provider.thy ===== *)
theory Finality_Provider
  imports Seq_Cache Subnet_Ids
begin

text \<open>
  The parent finality provider of the topdown crate: \<open>FinalityWithNull\<close>
  (\<open>finality/null.rs\<close>), the caching provider in front of the parent client
  (\<open>finality/fetch.rs\<close>), the on/off switch (\<open>toggle.rs\<close>) and the shared types (\<open>lib.rs\<close>,
  \<open>error.rs\<close>, \<open>finality/mod.rs\<close>).

  The provider's transactional variables are the fields of a record. An operation that only reads
  returns an outcome, one that writes returns the new provider, inside an outcome when it can abort
  or panic. Logging, events and the waiting time between retries are left out; the answer of the
  parent client to the \<open>n\<close>-th attempt at a height is a parameter.

  The locale \<open>finality_provider\<close> is the contract behind the trait \<open>ParentFinalityProvider\<close>; it
  is interpreted on \<open>FinalityWithNull\<close> and on the switch in front of it.
\<close>

section \<open>Types\<close>

type_synonym BlockHeight = nat
type_synonym BlockHash = "nat list"
type_synonym 'a ParentViewPayload =
  "BlockHash \<times> 'a StakingChangeRequest list \<times> 'a IpcEnvelope list"

record Config =
  chain_head_delay :: nat
  polling_interval :: nat
  exponential_back_off :: nat
  exponential_retry_limit :: nat
  max_proposal_range :: "nat option"
  max_cache_blocks :: "nat option"
  proposal_delay :: "nat option"

record IPCParentFinality =
  fin_height :: BlockHeight
  fin_block_hash :: BlockHash

datatype topdown_error =
    NotSequential
  | NonSequentialParentViewInsert SequentialAppendError
  | ParentChainReorgDetected
  | CannotQueryParent string nat

definition NULL_ROUND_ERR_MSG :: string where
  "NULL_ROUND_ERR_MSG = ''requested epoch was a null round''"

definition DEFAULT_MAX_PROPOSAL_RANGE :: nat where
  "DEFAULT_MAX_PROPOSAL_RANGE = 100"

definition DEFAULT_MAX_CACHE_BLOCK :: nat where
  "DEFAULT_MAX_CACHE_BLOCK = 500"

definition DEFAULT_PROPOSAL_DELAY :: nat where
  "DEFAULT_PROPOSAL_DELAY = 2"

fun unwrap_or :: "'a option \<Rightarrow> 'a \<Rightarrow> 'a" where
  "unwrap_or None d = d"
| "unwrap_or (Some x) d = x"

definition config_new :: "nat \<Rightarrow> nat \<Rightarrow> nat \<Rightarrow> nat \<Rightarrow> Config" where
  "config_new head_delay polling back_off retry_limit =
     \<lparr>chain_head_delay = head_delay, polling_interval = polling, exponential_back_off = back_off,
      exponential_retry_limit = retry_limit, max_proposal_range = None, max_cache_blocks = None,
      proposal_delay = None\<rparr>"

definition config_max_proposal_range :: "Config \<Rightarrow> nat" where
  "config_max_proposal_range cfg = unwrap_or (max_proposal_range cfg) DEFAULT_MAX_PROPOSAL_RANGE"

definition config_proposal_delay :: "Config \<Rightarrow> nat" where
  "config_proposal_delay cfg = unwrap_or (proposal_delay cfg) DEFAULT_PROPOSAL_DELAY"

definition config_max_cache_blocks :: "Config \<Rightarrow> nat" where
  "config_max_cache_blocks cfg = unwrap_or (max_cache_blocks cfg) DEFAULT_MAX_CACHE_BLOCK"

definition is_null_round_str :: "string \<Rightarrow> bool" where
  "is_null_round_str s = sublist NULL_ROUND_ERR_MSG s"

fun handle_null_round :: "(string, 'x) outcome \<Rightarrow> 'x \<Rightarrow> (string, 'x) outcome" where
  "handle_null_round (Err e) d = (if is_null_round_str e then Ok d else Err e)"
| "handle_null_round r d = r"

section \<open>Sequential nonces\<close>

fun ensure_sequential_from :: "('m \<Rightarrow> nat) \<Rightarrow> nat \<Rightarrow> 'm list \<Rightarrow> (topdown_error, unit) outcome" where
  "ensure_sequential_from f nonce [] = Ok ()"
| "ensure_sequential_from f nonce (msg # msgs) =
     (if add_u64 nonce 1 \<noteq> f msg then Err NotSequential
      else ensure_sequential_from f (add_u64 nonce 1) msgs)"

definition ensure_sequential :: "('m \<Rightarrow> nat) \<Rightarrow> 'm list \<Rightarrow> (topdown_error, unit) outcome" where
  "ensure_sequential f msgs =
     (case msgs of [] \<Rightarrow> Ok () | first # rest \<Rightarrow> ensure_sequential_from f (f first) rest)"

definition payload_validator_changes :: "'a ParentViewPayload \<Rightarrow> 'a StakingChangeRequest list" where
  "payload_validator_changes p = fst (snd p)"

definition payload_topdown_cross_msgs :: "'a ParentViewPayload \<Rightarrow> 'a IpcEnvelope list" where
  "payload_topdown_cross_msgs p = snd (snd p)"

section \<open>The provider with null rounds\<close>

record 'a FinalityWithNull =
  fwn_config :: Config
  fwn_genesis_epoch :: BlockHeight
  cached_data :: "'a ParentViewPayload option seq_cache"
  last_committed_finality :: "IPCParentFinality option"

definition fwn_new ::
  "Config \<Rightarrow> BlockHeight \<Rightarrow> IPCParentFinality option \<Rightarrow> 'a FinalityWithNull" where
  "fwn_new cfg genesis committed =
     \<lparr>fwn_config = cfg, fwn_genesis_epoch = genesis, cached_data = cache_sequential,
      last_committed_finality = committed\<rparr>"

definition handle_null_block ::
  "'a FinalityWithNull \<Rightarrow> BlockHeight \<Rightarrow> ('a ParentViewPayload \<Rightarrow> 'x) \<Rightarrow> 'x \<Rightarrow> ('e, 'x option) outcome" where
  "handle_null_block p height f d =
     omap (map_option (\<lambda>v. case v of Some i \<Rightarrow> f i | None \<Rightarrow> d)) (cache_get_value (cached_data p) height)"

definition get_at_height ::
  "'a FinalityWithNull \<Rightarrow> BlockHeight \<Rightarrow> ('a ParentViewPayload \<Rightarrow> 'x) \<Rightarrow> ('e, 'x option) outcome" where
  "get_at_height p height f =
     omap (\<lambda>v. case v of Some (Some i) \<Rightarrow> Some (f i) | _ \<Rightarrow> None) (cache_get_value (cached_data p) height)"

definition fwn_validator_changes ::
  "'a FinalityWithNull \<Rightarrow> BlockHeight \<Rightarrow> ('e, 'a StakingChangeRequest list option) outcome" where
  "fwn_validator_changes p height = handle_null_block p height payload_validator_changes []"

definition fwn_top_down_msgs ::
  "'a FinalityWithNull \<Rightarrow> BlockHeight \<Rightarrow> ('e, 'a IpcEnvelope list option) outcome" where
  "fwn_top_down_msgs p height = handle_null_block p height payload_topdown_cross_msgs []"

definition fwn_reset :: "IPCParentFinality \<Rightarrow> 'a FinalityWithNull \<Rightarrow> 'a FinalityWithNull" where
  "fwn_reset finality p =
     p\<lparr>cached_data := cache_sequential, last_committed_finality := Some finality\<rparr>"

definition fwn_append ::
  "BlockHeight \<Rightarrow> 'a ParentViewPayload option \<Rightarrow> 'a FinalityWithNull \<Rightarrow>
     (topdown_error, 'a FinalityWithNull) outcome" where
  "fwn_append height v p =
     omap (\<lambda>c. p\<lparr>cached_data := c\<rparr>)
       (map_err NonSequentialParentViewInsert (cache_append height v (cached_data p)))"

definition parent_block_filled ::
  "BlockHeight \<Rightarrow> BlockHash \<Rightarrow> 'a StakingChangeRequest list \<Rightarrow> 'a IpcEnvelope list \<Rightarrow>
     'a FinalityWithNull \<Rightarrow> (topdown_error, 'a FinalityWithNull) outcome" where
  "parent_block_filled height hash changes msgs p =
     obind (if msgs \<noteq> [] then ensure_sequential env_nonce msgs else Ok ()) (\<lambda>_.
     obind (if changes \<noteq> [] then ensure_sequential configuration_number changes else Ok ()) (\<lambda>_.
     fwn_append height (Some (hash, changes, msgs)) p))"

definition parent_null_round ::
  "BlockHeight \<Rightarrow> 'a FinalityWithNull \<Rightarrow> (topdown_error, 'a FinalityWithNull) outcome" where
  "parent_null_round height p = fwn_append height None p"

definition fwn_new_parent_view ::
  "BlockHeight \<Rightarrow> 'a ParentViewPayload option \<Rightarrow> 'a FinalityWithNull \<Rightarrow>
     (topdown_error, 'a FinalityWithNull) outcome" where
  "fwn_new_parent_view height maybe_payload p =
     (case maybe_payload of
        Some (hash, changes, msgs) \<Rightarrow> parent_block_filled height hash changes msgs p
      | None \<Rightarrow> parent_null_round height p)"

definition fwn_cached_blocks :: "'a FinalityWithNull \<Rightarrow> nat" where
  "fwn_cached_blocks p = cache_size (cached_data p)"

definition block_hash_at_height ::
  "'a FinalityWithNull \<Rightarrow> BlockHeight \<Rightarrow> ('e, BlockHash option) outcome" where
  "block_hash_at_height p height =
     (case last_committed_finality p of
        Some f \<Rightarrow> if fin_height f = height then Ok (Some (fin_block_hash f))
                 else get_at_height p height fst
      | None \<Rightarrow> get_at_height p height fst)"

definition latest_height_in_cache :: "'a FinalityWithNull \<Rightarrow> BlockHeight option" where
  "latest_height_in_cache p = cache_upper_bound (cached_data p)"

definition fwn_latest_height :: "'a FinalityWithNull \<Rightarrow> BlockHeight option" where
  "fwn_latest_height p =
     (case latest_height_in_cache p of
        Some h \<Rightarrow> Some h
      | None \<Rightarrow> map_option fin_height (last_committed_finality p))"

text \<open>The downward loop \<open>for h in (lower_bound..=height).rev()\<close>.\<close>

primrec scan_non_null ::
  "'v option seq_cache \<Rightarrow> BlockHeight \<Rightarrow> BlockHeight \<Rightarrow> ('e, BlockHeight option) outcome" where
  "scan_non_null c lower 0 =
     (if 0 < lower then Ok None
      else obind (cache_get_value c 0) (\<lambda>v. case v of Some (Some _) \<Rightarrow> Ok (Some 0) | _ \<Rightarrow> Ok None))"
| "scan_non_null c lower (Suc h) =
     (if Suc h < lower then Ok None
      else obind (cache_get_value c (Suc h)) (\<lambda>v.
           case v of Some (Some _) \<Rightarrow> Ok (Some (Suc h)) | _ \<Rightarrow> scan_non_null c lower h))"

definition first_non_null_block ::
  "'a FinalityWithNull \<Rightarrow> BlockHeight \<Rightarrow> ('e, BlockHeight option) outcome" where
  "first_non_null_block p height =
     (case cache_lower_bound (cached_data p) of
        None \<Rightarrow> Ok None
      | Some lower_bound \<Rightarrow> scan_non_null (cached_data p) lower_bound height)"

definition propose_next_height :: "'a FinalityWithNull \<Rightarrow> ('e, BlockHeight option) outcome" where
  "propose_next_height p =
     (case latest_height_in_cache p of
        None \<Rightarrow> Ok None
      | Some latest_height \<Rightarrow>
          (case last_committed_finality p of
             None \<Rightarrow> Panic
           | Some committed \<Rightarrow>
               let last_committed_height = fin_height committed;
                   max_proposal_height =
                     add_u64 last_committed_height (config_max_proposal_range (fwn_config p));
                   candidate_height = min max_proposal_height latest_height
               in obind (first_non_null_block p candidate_height) (\<lambda>first.
                  case first of
                    None \<Rightarrow> Ok None
                  | Some first_non_null_height \<Rightarrow>
                      obind (first_non_null_block p
                               (sub_u64 first_non_null_height (config_proposal_delay (fwn_config p))))
                        (\<lambda>maybe_proposal_height.
                         case maybe_proposal_height of
                           None \<Rightarrow> Ok None
                         | Some proposal_height \<Rightarrow>
                             if last_committed_height = proposal_height then Ok None
                             else Ok (Some proposal_height)))))"

definition fwn_next_proposal :: "'a FinalityWithNull \<Rightarrow> ('e, IPCParentFinality option) outcome" where
  "fwn_next_proposal p =
     obind (propose_next_height p) (\<lambda>next.
     case next of
       None \<Rightarrow> Ok None
     | Some height \<Rightarrow>
         obind (obind (block_hash_at_height p height) unwrap) (\<lambda>hash.
         Ok (Some \<lparr>fin_height = height, fin_block_hash = hash\<rparr>)))"

definition check_height :: "'a FinalityWithNull \<Rightarrow> IPCParentFinality \<Rightarrow> bool" where
  "check_height p proposal =
     (case last_committed_finality p of
        None \<Rightarrow> False
      | Some committed \<Rightarrow>
          if fin_height proposal \<le> fin_height committed then False
          else case latest_height_in_cache p of
            Some latest \<Rightarrow> fin_height proposal \<le> latest
          | None \<Rightarrow> False)"

definition check_block_hash :: "'a FinalityWithNull \<Rightarrow> IPCParentFinality \<Rightarrow> ('e, bool) outcome" where
  "check_block_hash p proposal =
     omap (\<lambda>r. case r of Some hash \<Rightarrow> hash = fin_block_hash proposal | None \<Rightarrow> False)
       (block_hash_at_height p (fin_height proposal))"

definition fwn_check_proposal :: "'a FinalityWithNull \<Rightarrow> IPCParentFinality \<Rightarrow> ('e, bool) outcome" where
  "fwn_check_proposal p proposal =
     (if \<not> check_height p proposal then Ok False else check_block_hash p proposal)"

text \<open>The equality of the previous finality with the stored one is a debug assertion; a release build
  does not check it.\<close>

definition fwn_set_new_finality ::
  "IPCParentFinality \<Rightarrow> IPCParentFinality option \<Rightarrow> 'a FinalityWithNull \<Rightarrow> 'a FinalityWithNull" where
  "fwn_set_new_finality finality previous p =
     p\<lparr>cached_data := cache_remove_key_below (fin_height finality) (cached_data p),
       last_committed_finality := Some finality\<rparr>"

section \<open>The provider in front of the parent client\<close>

text \<open>\<open>retry!\<close>: the \<open>n\<close>-th attempt has the answer \<open>ans n\<close>; an answer that is a null round ends
  the loop, another error is retried while retries are left. \<open>Retry\<close> and \<open>Panic\<close> are not answers
  of a client; they are passed on.\<close>

primrec retry_query :: "(nat \<Rightarrow> (string, 'x) outcome) \<Rightarrow> nat \<Rightarrow> nat \<Rightarrow> (string, 'x) outcome" where
  "retry_query ans 0 n = ans n"
| "retry_query ans (Suc retries) n =
     (case ans n of
        Err e \<Rightarrow> if is_null_round_str e then Err e else retry_query ans retries (Suc n)
      | r \<Rightarrow> r)"

record 'a CachedFinalityProvider =
  cfp_inner :: "'a FinalityWithNull"
  cfp_config :: Config

definition cfp_new ::
  "Config \<Rightarrow> BlockHeight \<Rightarrow> IPCParentFinality option \<Rightarrow> 'a CachedFinalityProvider" where
  "cfp_new cfg genesis committed = \<lparr>cfp_inner = fwn_new cfg genesis committed, cfp_config = cfg\<rparr>"

definition cfp_uninitialized ::
  "Config \<Rightarrow> (string, BlockHeight) outcome \<Rightarrow> (string, 'a CachedFinalityProvider) outcome" where
  "cfp_uninitialized cfg get_genesis_epoch =
     obind get_genesis_epoch (\<lambda>genesis. Ok (cfp_new cfg genesis None))"

definition cfp_validator_changes ::
  "(BlockHeight \<Rightarrow> nat \<Rightarrow> (string, 'a StakingChangeRequest list) outcome) \<Rightarrow>
     'a CachedFinalityProvider \<Rightarrow> BlockHeight \<Rightarrow> (string, 'a StakingChangeRequest list) outcome" where
  "cfp_validator_changes get_validator_changes p height =
     obind (fwn_validator_changes (cfp_inner p) height) (\<lambda>r.
     case r of
       Some v \<Rightarrow> Ok v
     | None \<Rightarrow>
         handle_null_round
           (retry_query (get_validator_changes height) (exponential_retry_limit (cfp_config p)) 0) [])"

definition cfp_top_down_msgs ::
  "(BlockHeight \<Rightarrow> nat \<Rightarrow> (string, 'a IpcEnvelope list) outcome) \<Rightarrow>
     'a CachedFinalityProvider \<Rightarrow> BlockHeight \<Rightarrow> (string, 'a IpcEnvelope list) outcome" where
  "cfp_top_down_msgs get_top_down_msgs p height =
     obind (fwn_top_down_msgs (cfp_inner p) height) (\<lambda>r.
     case r of
       Some v \<Rightarrow> Ok v
     | None \<Rightarrow>
         handle_null_round
           (retry_query (get_top_down_msgs height) (exponential_retry_limit (cfp_config p)) 0) [])"

text \<open>The loops \<open>for h in from..=to\<close> of the range queries.\<close>

fun collect_heights ::
  "(BlockHeight \<Rightarrow> (string, 'x list) outcome) \<Rightarrow> BlockHeight list \<Rightarrow> 'x list \<Rightarrow> (string, 'x list) outcome" where
  "collect_heights get [] v = Ok v"
| "collect_heights get (h # hs) v = obind (get h) (\<lambda>r. collect_heights get hs (v @ r))"

definition cfp_validator_changes_from ::
  "(BlockHeight \<Rightarrow> nat \<Rightarrow> (string, 'a StakingChangeRequest list) outcome) \<Rightarrow>
     'a CachedFinalityProvider \<Rightarrow> BlockHeight \<Rightarrow> BlockHeight \<Rightarrow>
     (string, 'a StakingChangeRequest list) outcome" where
  "cfp_validator_changes_from q p from to =
     collect_heights (cfp_validator_changes q p) [from..<Suc to] []"

definition cfp_top_down_msgs_from ::
  "(BlockHeight \<Rightarrow> nat \<Rightarrow> (string, 'a IpcEnvelope list) outcome) \<Rightarrow>
     'a CachedFinalityProvider \<Rightarrow> BlockHeight \<Rightarrow> BlockHeight \<Rightarrow> (string, 'a IpcEnvelope list) outcome" where
  "cfp_top_down_msgs_from q p from to =
     collect_heights (cfp_top_down_msgs q p) [from..<Suc to] []"

definition cfp_next_proposal :: "'a CachedFinalityProvider \<Rightarrow> ('e, IPCParentFinality option) outcome" where
  "cfp_next_proposal p = fwn_next_proposal (cfp_inner p)"

definition cfp_check_proposal ::
  "'a CachedFinalityProvider \<Rightarrow> IPCParentFinality \<Rightarrow> ('e, bool) outcome" where
  "cfp_check_proposal p proposal = fwn_check_proposal (cfp_inner p) proposal"

definition cfp_set_new_finality ::
  "IPCParentFinality \<Rightarrow> IPCParentFinality option \<Rightarrow> 'a CachedFinalityProvider \<Rightarrow>
     'a CachedFinalityProvider" where
  "cfp_set_new_finality finality previous p =
     p\<lparr>cfp_inner := fwn_set_new_finality finality previous (cfp_inner p)\<rparr>"

definition cfp_reset :: "IPCParentFinality \<Rightarrow> 'a CachedFinalityProvider \<Rightarrow> 'a CachedFinalityProvider" where
  "cfp_reset finality p = p\<lparr>cfp_inner := fwn_reset finality (cfp_inner p)\<rparr>"

definition cfp_new_parent_view ::
  "BlockHeight \<Rightarrow> 'a ParentViewPayload option \<Rightarrow> 'a CachedFinalityProvider \<Rightarrow>
     (topdown_error, 'a CachedFinalityProvider) outcome" where
  "cfp_new_parent_view height v p =
     omap (\<lambda>i. p\<lparr>cfp_inner := i\<rparr>) (fwn_new_parent_view height v (cfp_inner p))"

section \<open>The switch\<close>

type_synonym 'p Toggle = "'p option"

definition toggle_disabled :: "'p Toggle" where
  "toggle_disabled = None"

definition toggle_enabled :: "'p \<Rightarrow> 'p Toggle" where
  "toggle_enabled p = Some p"

definition toggle_is_enabled :: "'p Toggle \<Rightarrow> bool" where
  "toggle_is_enabled t = (t \<noteq> None)"

definition perform_or_else :: "'p Toggle \<Rightarrow> ('p \<Rightarrow> ('e, 'x) outcome) \<Rightarrow> 'x \<Rightarrow> ('e, 'x) outcome" where
  "perform_or_else t f other = (case t of Some p \<Rightarrow> f p | None \<Rightarrow> Ok other)"

definition fwn_get_genesis_epoch :: "'a FinalityWithNull \<Rightarrow> ('e, BlockHeight) outcome" where
  "fwn_get_genesis_epoch p = Ok (fwn_genesis_epoch p)"

definition toggle_genesis_epoch :: "'a CachedFinalityProvider Toggle \<Rightarrow> (string, BlockHeight) outcome" where
  "toggle_genesis_epoch t =
     (case t of
        Some p \<Rightarrow> fwn_get_genesis_epoch (cfp_inner p)
      | None \<Rightarrow> Err ''provider is toggled off'')"

definition toggle_validator_changes_from ::
  "(BlockHeight \<Rightarrow> nat \<Rightarrow> (string, 'a StakingChangeRequest list) outcome) \<Rightarrow>
     'a CachedFinalityProvider Toggle \<Rightarrow> BlockHeight \<Rightarrow> BlockHeight \<Rightarrow>
     (string, 'a StakingChangeRequest list) outcome" where
  "toggle_validator_changes_from q t from to =
     (case t of
        Some p \<Rightarrow> cfp_validator_changes_from q p from to
      | None \<Rightarrow> Err ''provider is toggled off'')"

definition toggle_top_down_msgs_from ::
  "(BlockHeight \<Rightarrow> nat \<Rightarrow> (string, 'a IpcEnvelope list) outcome) \<Rightarrow>
     'a CachedFinalityProvider Toggle \<Rightarrow> BlockHeight \<Rightarrow> BlockHeight \<Rightarrow>
     (string, 'a IpcEnvelope list) outcome" where
  "toggle_top_down_msgs_from q t from to =
     (case t of
        Some p \<Rightarrow> cfp_top_down_msgs_from q p from to
      | None \<Rightarrow> Err ''provider is toggled off'')"

definition toggle_next_proposal ::
  "'a CachedFinalityProvider Toggle \<Rightarrow> ('e, IPCParentFinality option) outcome" where
  "toggle_next_proposal t = perform_or_else t cfp_next_proposal None"

definition toggle_check_proposal ::
  "'a CachedFinalityProvider Toggle \<Rightarrow> IPCParentFinality \<Rightarrow> ('e, bool) outcome" where
  "toggle_check_proposal t proposal = perform_or_else t (\<lambda>p. cfp_check_proposal p proposal) False"

definition toggle_set_new_finality ::
  "IPCParentFinality \<Rightarrow> IPCParentFinality option \<Rightarrow> 'a CachedFinalityProvider Toggle \<Rightarrow>
     'a CachedFinalityProvider Toggle" where
  "toggle_set_new_finality finality previous t =
     map_option (cfp_set_new_finality finality previous) t"

definition toggle_reset ::
  "IPCParentFinality \<Rightarrow> 'a CachedFinalityProvider Toggle \<Rightarrow> 'a CachedFinalityProvider Toggle" where
  "toggle_reset finality t = map_option (cfp_reset finality) t"

definition toggle_new_parent_view ::
  "BlockHeight \<Rightarrow> 'a ParentViewPayload option \<Rightarrow> 'a CachedFinalityProvider Toggle \<Rightarrow>
     (topdown_error, 'a CachedFinalityProvider Toggle) outcome" where
  "toggle_new_parent_view height v t =
     perform_or_else t (\<lambda>p. omap Some (cfp_new_parent_view height v p)) t"

definition toggle_block_hash ::
  "'a CachedFinalityProvider Toggle \<Rightarrow> BlockHeight \<Rightarrow> ('e, BlockHash option) outcome" where
  "toggle_block_hash t height = perform_or_else t (\<lambda>p. block_hash_at_height (cfp_inner p) height) None"

definition toggle_latest_height_in_cache :: "'a CachedFinalityProvider Toggle \<Rightarrow> BlockHeight option" where
  "toggle_latest_height_in_cache t =
     (case t of Some p \<Rightarrow> latest_height_in_cache (cfp_inner p) | None \<Rightarrow> None)"

definition toggle_latest_height :: "'a CachedFinalityProvider Toggle \<Rightarrow> BlockHeight option" where
  "toggle_latest_height t = (case t of Some p \<Rightarrow> fwn_latest_height (cfp_inner p) | None \<Rightarrow> None)"

definition toggle_last_committed_finality ::
  "'a CachedFinalityProvider Toggle \<Rightarrow> IPCParentFinality option" where
  "toggle_last_committed_finality t =
     (case t of Some p \<Rightarrow> last_committed_finality (cfp_inner p) | None \<Rightarrow> None)"

definition toggle_cached_blocks :: "'a CachedFinalityProvider Toggle \<Rightarrow> nat" where
  "toggle_cached_blocks t =
     (case t of Some p \<Rightarrow> fwn_cached_blocks (cfp_inner p) | None \<Rightarrow> U64 - 1)"

definition toggle_first_non_null_block ::
  "'a CachedFinalityProvider Toggle \<Rightarrow> BlockHeight \<Rightarrow> ('e, BlockHeight option) outcome" where
  "toggle_first_non_null_block t height =
     perform_or_else t (\<lambda>p. first_non_null_block (cfp_inner p) height) None"

section \<open>The invariant\<close>

text \<open>The cache is sequential, and its heights lie at or above the committed height; before a finality
  is known nothing is cached.\<close>

definition provider_wf :: "'a FinalityWithNull \<Rightarrow> bool" where
  "provider_wf p =
     (unit_cache (cached_data p) \<and>
      (case last_committed_finality p of
         None \<Rightarrow> sc_data (cached_data p) = []
       | Some f \<Rightarrow> fin_height f < U64 \<and> list_all (\<lambda>e. fin_height f \<le> fst e) (sc_data (cached_data p))))"

text \<open>The payload cached at a height, and whether the height is a known non-null block.\<close>

definition block_at :: "'a FinalityWithNull \<Rightarrow> BlockHeight \<Rightarrow> 'a ParentViewPayload option" where
  "block_at p h = (case cache_map (cached_data p) h of Some v \<Rightarrow> v | None \<Rightarrow> None)"

text \<open>The highest number up to a bound that satisfies a predicate, and the height a provider
  proposes: the highest non-null block that lies at least the delay below the highest non-null block
  in the proposal range, unless it is the committed one.\<close>

primrec highest :: "(nat \<Rightarrow> bool) \<Rightarrow> nat \<Rightarrow> nat option" where
  "highest P 0 = (if P 0 then Some 0 else None)"
| "highest P (Suc n) = (if P (Suc n) then Some (Suc n) else highest P n)"

definition proposal_height :: "'a FinalityWithNull \<Rightarrow> nat option" where
  "proposal_height p =
     (case (last_committed_finality p, latest_height_in_cache p) of
        (Some c, Some u) \<Rightarrow>
          Option.bind (highest (\<lambda>j. block_at p j \<noteq> None)
              (min (add_u64 (fin_height c) (config_max_proposal_range (fwn_config p))) u)) (\<lambda>n.
          Option.bind (highest (\<lambda>j. block_at p j \<noteq> None)
              (sub_u64 n (config_proposal_delay (fwn_config p)))) (\<lambda>h.
          if fin_height c = h then None else Some h))
      | _ \<Rightarrow> None)"

text \<open>What a proposal must satisfy to be voted for: it lies above the committed height, not above the
  cache, and names the hash of the non-null block cached there.\<close>

definition proposal_ok :: "'a FinalityWithNull \<Rightarrow> IPCParentFinality \<Rightarrow> bool" where
  "proposal_ok p f =
     (\<exists>c u. last_committed_finality p = Some c \<and> fin_height c < fin_height f \<and>
        latest_height_in_cache p = Some u \<and> fin_height f \<le> u \<and>
        map_option fst (block_at p (fin_height f)) = Some (fin_block_hash f))"

text \<open>The steps that change a provider: a new parent view that extends what is known, the commitment
  of a proposal that passed the check, and a reset to a finality.\<close>

inductive provider_step :: "'a FinalityWithNull \<Rightarrow> 'a FinalityWithNull \<Rightarrow> bool" where
  view: "fwn_latest_height p = Some l \<Longrightarrow> Suc l < U64 \<Longrightarrow>
    fwn_new_parent_view (Suc l) v p = Ok p' \<Longrightarrow> provider_step p p'"
| commit: "fwn_check_proposal p f = (Ok True :: (unit, bool) outcome) \<Longrightarrow>
    provider_step p (fwn_set_new_finality f prev p)"
| reset: "fin_height f < U64 \<Longrightarrow> provider_step p (fwn_reset f p)"

section \<open>Lemmas on the scan for non-null blocks\<close>

lemma highest_None_iff: "highest P n = None \<longleftrightarrow> (\<forall>j\<le>n. \<not> P j)"
  by (induction n) (auto simp: le_Suc_eq)

lemma highest_Some_iff:
  "highest P n = Some k \<longleftrightarrow> k \<le> n \<and> P k \<and> (\<forall>j. k < j \<and> j \<le> n \<longrightarrow> \<not> P j)"
proof (induction n)
  case (Suc n)
  show ?case
  proof (cases "P (Suc n)")
    case True
    then have "k \<le> Suc n \<and> P k \<and> (\<forall>j. k < j \<and> j \<le> Suc n \<longrightarrow> \<not> P j) \<longleftrightarrow> k = Suc n"
      by (metis leD le_neq_implies_less order_refl)
    with True show ?thesis by auto
  next
    case False
    with Suc show ?thesis by (auto simp: le_Suc_eq)
  qed
qed auto

lemma highest_below: "\<forall>j\<le>n. \<not> P j \<Longrightarrow> highest P n = None"
  by (simp add: highest_None_iff)

lemma scan_non_null_conv:
  assumes "unit_cache c" "\<forall>k. cache_map c k \<noteq> None \<longrightarrow> lower \<le> k"
  shows "scan_non_null c lower h = Ok (highest (\<lambda>j. \<exists>v. cache_map c j = Some (Some v)) h)"
proof (induction h)
  case 0
  then show ?case using assms by (auto split: option.splits)
next
  case (Suc h)
  show ?case
  proof (cases "Suc h < lower")
    case True
    then have "\<forall>j\<le>Suc h. \<nexists>v. cache_map c j = Some v" using assms(2) by (metis leD le_less_trans option.distinct(1))
    then have "highest (\<lambda>j. \<exists>v. cache_map c j = Some (Some v)) (Suc h) = None"
      by (intro highest_below) blast
    with True show ?thesis by simp
  next
    case False
    then show ?thesis using Suc assms(1) by (auto split: option.splits)
  qed
qed

lemma provider_wf_cache [simp]: "provider_wf p \<Longrightarrow> unit_cache (cached_data p)"
  by (simp add: provider_wf_def)

lemma block_at_Some_iff: "block_at p h = Some v \<longleftrightarrow> cache_map (cached_data p) h = Some (Some v)"
  by (auto simp: block_at_def split: option.splits)

lemma first_non_null_conv [simp]:
  assumes "provider_wf p"
  shows "first_non_null_block p h = Ok (highest (\<lambda>j. block_at p j \<noteq> None) h)"
proof (cases "cache_lower_bound (cached_data p)")
  case None
  have "block_at p j = None" for j
    using uc.lower_None [OF provider_wf_cache [OF assms] None] by (simp add: block_at_def)
  with None show ?thesis by (simp add: first_non_null_block_def highest_below)
next
  case (Some l)
  have "\<forall>k. cache_map (cached_data p) k \<noteq> None \<longrightarrow> l \<le> k"
    using uc.interval [OF provider_wf_cache [OF assms] Some] by blast
  note scan_non_null_conv [OF provider_wf_cache [OF assms] this, of h]
  moreover have "(\<lambda>j. \<exists>v. cache_map (cached_data p) j = Some (Some v)) = (\<lambda>j. block_at p j \<noteq> None)"
    by (auto simp: block_at_def fun_eq_iff split: option.splits)
  ultimately show ?thesis using Some by (simp add: first_non_null_block_def)
qed

section \<open>Lemmas on the provider\<close>

lemma provider_wf_above:
  assumes "provider_wf p" "last_committed_finality p = Some f" "cache_map (cached_data p) h \<noteq> None"
  shows "fin_height f \<le> h"
  using assms om_get_Some_in [of "sc_data (cached_data p)" h]
  by (auto simp: provider_wf_def list_all_iff)

lemma block_at_above:
  "provider_wf p \<Longrightarrow> last_committed_finality p = Some f \<Longrightarrow> block_at p h = Some v \<Longrightarrow> fin_height f \<le> h"
  using provider_wf_above [of p f h] by (auto simp: block_at_Some_iff)

lemma block_at_latest:
  assumes "provider_wf p" "block_at p h = Some v"
  shows "\<exists>u. latest_height_in_cache p = Some u \<and> h \<le> u"
proof -
  have h: "cache_map (cached_data p) h \<noteq> None" using assms(2) by (auto simp: block_at_Some_iff)
  then obtain l where "cache_lower_bound (cached_data p) = Some l"
    using uc.lower_None [OF provider_wf_cache [OF assms(1)], of h] by fastforce
  from uc.interval [OF provider_wf_cache [OF assms(1)] this] h show ?thesis
    by (auto simp: latest_height_in_cache_def)
qed

lemma get_at_height_conv:
  "provider_wf p \<Longrightarrow> get_at_height p h f = Ok (map_option f (block_at p h))"
  by (auto simp: get_at_height_def block_at_def split: option.splits)

lemma handle_null_block_conv:
  "provider_wf p \<Longrightarrow> handle_null_block p h f d =
     Ok (map_option (\<lambda>v. case v of Some i \<Rightarrow> f i | None \<Rightarrow> d) (cache_map (cached_data p) h))"
  by (simp add: handle_null_block_def)

lemma block_hash_at_height_conv:
  assumes "provider_wf p"
  shows "block_hash_at_height p h = Ok
     (if \<exists>f. last_committed_finality p = Some f \<and> fin_height f = h
      then map_option fin_block_hash (last_committed_finality p)
      else map_option fst (block_at p h))"
  using get_at_height_conv [OF assms]
  by (auto simp: block_hash_at_height_def split: option.splits)

lemma propose_next_height_conv:
  assumes wf: "provider_wf p"
  shows "propose_next_height p = Ok (proposal_height p)"
proof (cases "latest_height_in_cache p")
  case (Some u)
  with wf obtain c where c: "last_committed_finality p = Some c"
    by (auto simp: provider_wf_def latest_height_in_cache_def cache_upper_bound_def split: option.splits)
  let ?P = "\<lambda>j. block_at p j \<noteq> None"
  let ?cand = "min (add_u64 (fin_height c) (config_max_proposal_range (fwn_config p))) u"
  show ?thesis
  proof (cases "highest ?P ?cand")
    case None
    then show ?thesis
      by (simp only: propose_next_height_def proposal_height_def Some c Let_def option.case
          prod.case first_non_null_conv [OF wf] obind.simps bind.simps)
  next
    case n: (Some n)
    show ?thesis
      by (cases "highest ?P (sub_u64 n (config_proposal_delay (fwn_config p)))")
        (simp_all only: propose_next_height_def proposal_height_def Some c n Let_def option.case
          prod.case first_non_null_conv [OF wf] obind.simps bind.simps split: if_split, simp)
  qed
qed (simp add: propose_next_height_def proposal_height_def split: option.splits)

lemma proposal_height_block:
  assumes "provider_wf p" "proposal_height p = Some h"
  obtains c v where "last_committed_finality p = Some c" "fin_height c < h" "block_at p h = Some v"
proof -
  from assms(2) obtain c v where c: "last_committed_finality p = Some c" "fin_height c \<noteq> h"
    "block_at p h = Some v"
    by (auto simp: proposal_height_def highest_Some_iff split: option.splits Option.bind_splits if_splits)
  then have "fin_height c \<le> h" using block_at_above [OF assms(1)] by blast
  with c that show ?thesis by simp
qed

lemma fwn_next_proposal_conv:
  assumes wf: "provider_wf p"
  shows "fwn_next_proposal p = Ok (map_option
     (\<lambda>h. \<lparr>fin_height = h, fin_block_hash = fst (the (block_at p h))\<rparr>) (proposal_height p))"
proof (cases "proposal_height p")
  case None
  then show ?thesis by (simp add: fwn_next_proposal_def propose_next_height_conv [OF wf])
next
  case (Some h)
  obtain c v where "last_committed_finality p = Some c" "fin_height c < h" "block_at p h = Some v"
    using proposal_height_block [OF wf Some] .
  with Some show ?thesis
    by (simp add: fwn_next_proposal_def propose_next_height_conv [OF wf] block_hash_at_height_conv [OF wf])
qed

lemma fwn_check_proposal_conv:
  assumes wf: "provider_wf p"
  shows "fwn_check_proposal p f = Ok (proposal_ok p f)"
  by (auto simp: proposal_ok_def fwn_check_proposal_def check_height_def check_block_hash_def
      block_hash_at_height_conv [OF wf] split: option.splits)

section \<open>The invariant is kept\<close>

lemma fwn_new_parent_view_append:
  assumes "fwn_new_parent_view h v p = Ok p'"
  shows "\<exists>c. cache_append h v (cached_data p) = Ok c \<and> p' = p\<lparr>cached_data := c\<rparr>"
  using assms
  by (auto simp: fwn_new_parent_view_def parent_block_filled_def parent_null_round_def fwn_append_def
      outcome_simps split: option.splits prod.splits if_splits)

lemma latest_cases:
  assumes "fwn_latest_height p = Some l"
  shows "(latest_height_in_cache p = Some l) \<or>
     (latest_height_in_cache p = None \<and> (\<exists>f. last_committed_finality p = Some f \<and> fin_height f = l))"
  using assms by (auto simp: fwn_latest_height_def split: option.splits)

lemma latest_above_committed:
  assumes "provider_wf p" "fwn_latest_height p = Some l" "last_committed_finality p = Some f"
  shows "fin_height f \<le> l"
proof -
  have "fin_height f \<le> l" if "latest_height_in_cache p = Some l"
    using that provider_wf_above [OF assms(1,3)] uc.upper_bound_iff [OF provider_wf_cache [OF assms(1)], of l]
    by (simp add: latest_height_in_cache_def)
  with latest_cases [OF assms(2)] assms(3) show ?thesis by auto
qed

lemma new_parent_view_keeps:
  assumes wf: "provider_wf p" and l: "fwn_latest_height p = Some l" "Suc l < U64"
    and ok: "fwn_new_parent_view (Suc l) v p = Ok p'"
  shows "provider_wf p' \<and> cache_map (cached_data p') = (cache_map (cached_data p))(Suc l \<mapsto> v) \<and>
     latest_height_in_cache p' = Some (Suc l) \<and>
     last_committed_finality p' = last_committed_finality p \<and> fwn_config p' = fwn_config p"
proof -
  from fwn_new_parent_view_append [OF ok] obtain c where
    c: "cache_append (Suc l) v (cached_data p) = Ok c" "p' = p\<lparr>cached_data := c\<rparr>" by blast
  have room: "\<forall>u. cache_upper_bound (cached_data p) = Some u \<longrightarrow> Suc u < U64"
    using latest_cases [OF l(1)] l(2) by (auto simp: latest_height_in_cache_def)
  note app = uc.append_Ok [OF provider_wf_cache [OF wf] c(1) l(2) room]
  have data: "sc_data c = sc_data (cached_data p) @ [(Suc l, v)]"
    using unit_cache_append(3) [OF provider_wf_cache [OF wf] c(1) l(2) room] .
  obtain f where f: "last_committed_finality p = Some f"
    using latest_cases [OF l(1)] wf
    by (auto simp: provider_wf_def latest_height_in_cache_def cache_upper_bound_def split: option.splits)
  have "fin_height f \<le> l" by (rule latest_above_committed [OF wf l(1) f])
  then have "provider_wf p'" using wf app data c(2) f by (simp add: provider_wf_def)
  with app c(2) show ?thesis by (simp add: latest_height_in_cache_def)
qed

lemma set_new_finality_keeps:
  assumes "provider_wf p" "fin_height f < U64"
  shows "provider_wf (fwn_set_new_finality f prev p)"
    and "cache_map (cached_data (fwn_set_new_finality f prev p)) h =
       (if h < fin_height f then None else cache_map (cached_data p) h)"
proof -
  have uc: "unit_cache (cached_data p)" using assms(1) by simp
  have "sc_data (cache_remove_key_below (fin_height f) (cached_data p)) =
      filter (\<lambda>e. fin_height f \<le> fst e) (sc_data (cached_data p))"
    by (rule cache_wf_remove_key_below(2)) (use uc in \<open>simp add: unit_cache_def\<close>)
  then show "provider_wf (fwn_set_new_finality f prev p)"
    using unit_cache_remove_below(1) [OF uc] assms(2)
    by (simp add: provider_wf_def fwn_set_new_finality_def list_all_iff)
  show "cache_map (cached_data (fwn_set_new_finality f prev p)) h =
       (if h < fin_height f then None else cache_map (cached_data p) h)"
    by (simp add: fwn_set_new_finality_def unit_cache_remove_below(2) [OF uc])
qed

lemma unit_cache_sequential [simp]: "unit_cache cache_sequential"
  by (simp add: unit_cache_def cache_wf_def cache_sequential_def)

lemma reset_keeps: "fin_height f < U64 \<Longrightarrow> provider_wf (fwn_reset f p)"
  by (simp add: provider_wf_def fwn_reset_def) (simp add: cache_sequential_def)

lemma provider_wf_new: "fwn_new cfg g None = p \<Longrightarrow> provider_wf p"
  by (auto simp: provider_wf_def fwn_new_def) (simp add: cache_sequential_def)

lemma proposal_ok_height:
  assumes "provider_wf p" "proposal_ok p f"
  shows "fin_height f < U64"
  using assms uc.upper_less [OF provider_wf_cache [OF assms(1)]]
  by (fastforce simp: proposal_ok_def latest_height_in_cache_def)

lemma provider_step_keeps: "provider_step p q \<Longrightarrow> provider_wf p \<Longrightarrow> provider_wf q"
  by (induction rule: provider_step.induct)
    (auto simp: fwn_check_proposal_conv dest: new_parent_view_keeps
      intro: set_new_finality_keeps(1) proposal_ok_height reset_keeps)

section \<open>The contract of a finality provider\<close>

locale finality_provider =
  fixes inv :: "'p \<Rightarrow> bool"
    and committed :: "'p \<Rightarrow> IPCParentFinality option"
    and next_proposal :: "'p \<Rightarrow> ('e, IPCParentFinality option) outcome"
    and check_proposal :: "'p \<Rightarrow> IPCParentFinality \<Rightarrow> ('e, bool) outcome"
    and set_new_finality :: "IPCParentFinality \<Rightarrow> IPCParentFinality option \<Rightarrow> 'p \<Rightarrow> 'p"
  assumes next_total: "inv p \<Longrightarrow> \<exists>r. next_proposal p = Ok r"
    and check_total: "inv p \<Longrightarrow> \<exists>b. check_proposal p f = Ok b"
    and next_checked: "inv p \<Longrightarrow> next_proposal p = Ok (Some f) \<Longrightarrow> check_proposal p f = Ok True"
    and check_ahead: "inv p \<Longrightarrow> check_proposal p f = Ok True \<Longrightarrow>
        \<exists>c. committed p = Some c \<and> fin_height c < fin_height f"
    and commit_inv: "inv p \<Longrightarrow> check_proposal p f = Ok True \<Longrightarrow> inv (set_new_finality f prev p)"
    and commit_committed: "inv p \<Longrightarrow> check_proposal p f = Ok True \<Longrightarrow>
        committed (set_new_finality f prev p) = Some f"
begin

lemma commit_once:
  assumes "inv p" "check_proposal p f = Ok True" "fin_height g \<le> fin_height f"
  shows "check_proposal (set_new_finality f prev p) g = Ok False"
proof -
  obtain b where b: "check_proposal (set_new_finality f prev p) g = Ok b"
    using check_total [OF commit_inv [OF assms(1,2)]] by blast
  show ?thesis
  proof (cases b)
    case True
    with b have "\<exists>c. committed (set_new_finality f prev p) = Some c \<and> fin_height c < fin_height g"
      by (intro check_ahead commit_inv assms) simp
    with commit_committed [OF assms(1,2), of prev] assms(3) show ?thesis by simp
  qed (use b in simp)
qed

lemma proposal_advances:
  assumes "inv p" "next_proposal p = Ok (Some f)"
  shows "\<exists>c. committed p = Some c \<and> fin_height c < fin_height f"
    and "inv (set_new_finality f prev p)"
    and "committed (set_new_finality f prev p) = Some f"
  using check_ahead commit_inv commit_committed next_checked assms by blast+

end

lemma next_proposal_checked:
  assumes wf: "provider_wf p" and f: "fwn_next_proposal p = Ok (Some f)"
  shows "fwn_check_proposal p f = Ok True"
proof -
  from f wf obtain h where h: "proposal_height p = Some h"
    "f = \<lparr>fin_height = h, fin_block_hash = fst (the (block_at p h))\<rparr>"
    by (auto simp: fwn_next_proposal_conv)
  obtain c v where cv: "last_committed_finality p = Some c" "fin_height c < h" "block_at p h = Some v"
    using proposal_height_block [OF wf h(1)] .
  obtain u where "latest_height_in_cache p = Some u" "h \<le> u"
    using block_at_latest [OF wf cv(3)] by blast
  with cv h(2) wf show ?thesis by (simp add: fwn_check_proposal_conv proposal_ok_def)
qed

interpretation fwn: finality_provider provider_wf last_committed_finality fwn_next_proposal
  fwn_check_proposal fwn_set_new_finality
proof
  fix p :: "'a FinalityWithNull" and f prev
  assume wf: "provider_wf p"
  show "\<exists>r. fwn_next_proposal p = Ok r" using wf by (simp add: fwn_next_proposal_conv)
  show "\<exists>b. fwn_check_proposal p f = Ok b" using wf by (simp add: fwn_check_proposal_conv)
  show "fwn_next_proposal p = Ok (Some f) \<Longrightarrow> fwn_check_proposal p f = Ok True"
    by (rule next_proposal_checked [OF wf])
  assume "fwn_check_proposal p f = Ok True"
  then have ok: "proposal_ok p f" using wf by (simp add: fwn_check_proposal_conv)
  show "\<exists>c. last_committed_finality p = Some c \<and> fin_height c < fin_height f"
    using ok by (auto simp: proposal_ok_def)
  show "provider_wf (fwn_set_new_finality f prev p)"
    using set_new_finality_keeps(1) [OF wf proposal_ok_height [OF wf ok]] .
  show "last_committed_finality (fwn_set_new_finality f prev p) = Some f"
    by (simp add: fwn_set_new_finality_def)
qed

definition toggle_wf :: "'a CachedFinalityProvider Toggle \<Rightarrow> bool" where
  "toggle_wf t = (case t of None \<Rightarrow> True | Some p \<Rightarrow> provider_wf (cfp_inner p))"

lemmas toggle_defs = toggle_next_proposal_def toggle_check_proposal_def toggle_set_new_finality_def
  toggle_last_committed_finality_def perform_or_else_def cfp_next_proposal_def cfp_check_proposal_def
  cfp_set_new_finality_def toggle_wf_def

interpretation tg: finality_provider toggle_wf toggle_last_committed_finality toggle_next_proposal
  toggle_check_proposal toggle_set_new_finality
proof
  fix t :: "'a CachedFinalityProvider Toggle" and f prev
  assume wf: "toggle_wf t"
  show "\<exists>r. toggle_next_proposal t = Ok r"
    using wf by (auto simp: toggle_defs fwn_next_proposal_conv split: option.splits)
  show "\<exists>b. toggle_check_proposal t f = Ok b"
    using wf by (auto simp: toggle_defs fwn_check_proposal_conv split: option.splits)
  show "toggle_next_proposal t = Ok (Some f) \<Longrightarrow> toggle_check_proposal t f = Ok True"
    using wf by (auto simp: toggle_defs split: option.splits intro: next_proposal_checked)
  assume "toggle_check_proposal t f = Ok True"
  then obtain p where p: "t = Some p" "provider_wf (cfp_inner p)" "proposal_ok (cfp_inner p) f"
    using wf by (auto simp: toggle_defs fwn_check_proposal_conv split: option.splits)
  then show "\<exists>c. toggle_last_committed_finality t = Some c \<and> fin_height c < fin_height f"
    by (auto simp: toggle_defs proposal_ok_def)
  have "fin_height f < U64" using proposal_ok_height p(2,3) .
  then show "toggle_wf (toggle_set_new_finality f prev t)"
    using p by (auto simp: toggle_defs intro: set_new_finality_keeps(1))
  show "toggle_last_committed_finality (toggle_set_new_finality f prev t) = Some f"
    using p by (simp add: toggle_defs fwn_set_new_finality_def)
qed

section \<open>Lemmas on nonces and range queries\<close>

lemma ensure_sequential_from_iff:
  "ensure_sequential_from f (f m) ms =
     (if successively (\<lambda>a b. f b = add_u64 (f a) 1) (m # ms) then Ok () else Err NotSequential)"
proof (induction ms arbitrary: m)
  case (Cons m' ms)
  show ?case
  proof (cases "add_u64 (f m) 1 = f m'")
    case True
    with Cons.IH [of m'] show ?thesis by simp
  qed simp
qed simp

lemma ensure_sequential_iff:
  "ensure_sequential f ms =
     (if successively (\<lambda>a b. f b = add_u64 (f a) 1) ms then Ok () else Err NotSequential)"
  by (cases ms) (simp_all add: ensure_sequential_def ensure_sequential_from_iff)

lemma collect_heights_Ok:
  "\<forall>h \<in> set hs. get h = Ok (r h) \<Longrightarrow> collect_heights get hs v = Ok (v @ concat (map r hs))"
  by (induction hs arbitrary: v) auto

lemma collect_heights_inv:
  "collect_heights get hs v = Ok w \<Longrightarrow> \<exists>rs. map get hs = map Ok rs \<and> w = v @ concat rs"
proof (induction hs arbitrary: v)
  case Nil
  then show ?case by (intro exI [of _ "[]"]) simp
next
  case (Cons h hs)
  then obtain r where r: "get h = Ok r" "collect_heights get hs (v @ r) = Ok w"
    by (auto simp: outcome_simps)
  from Cons.IH [OF r(2)] obtain rs where "map get hs = map Ok rs" "w = v @ r @ concat rs" by auto
  with r(1) show ?case by (intro exI [of _ "r # rs"]) simp
qed

lemma retry_query_first:
  "retry_query ans k n = ans (n + j)"
  if "j \<le> k" "\<forall>i<j. \<exists>e. ans (n + i) = Err e \<and> \<not> is_null_round_str e"
    "j = k \<or> (\<nexists>e. ans (n + j) = Err e \<and> \<not> is_null_round_str e)"
  using that
proof (induction k arbitrary: n j)
  case (Suc k)
  show ?case
  proof (cases j)
    case 0
    with Suc.prems(3) show ?thesis by (auto split: outcome.splits)
  next
    case (Suc i)
    with Suc.prems(2) obtain e where "ans n = Err e" "\<not> is_null_round_str e" by auto
    moreover have "retry_query ans k (Suc n) = ans (Suc n + i)"
      using Suc.prems Suc by (intro Suc.IH) auto
    ultimately show ?thesis using Suc by simp
  qed
qed simp

section \<open>A provider for the witnesses\<close>

definition sample_config :: Config where
  "sample_config = \<lparr>chain_head_delay = 2, polling_interval = 10, exponential_back_off = 5,
     exponential_retry_limit = 3, max_proposal_range = Some 6, max_cache_blocks = None,
     proposal_delay = Some 2\<rparr>"

definition sample_provider :: "nat FinalityWithNull" where
  "sample_provider = \<lparr>fwn_config = sample_config, fwn_genesis_epoch = 1,
     cached_data = \<lparr>sc_increment = 1, sc_data = [(101, Some ([1], [], [])), (102, None),
       (103, Some ([3], [], [])), (104, Some ([4], [], [])), (105, Some ([5], [], []))]\<rparr>,
     last_committed_finality = Some \<lparr>fin_height = 100, fin_block_hash = [0]\<rparr>\<rparr>"

lemmas sample_eval = sample_provider_def sample_config_def provider_wf_def unit_cache_def cache_wf_def
  cache_base_def cache_lower_bound_def cache_upper_bound_def latest_height_in_cache_def
  fwn_latest_height_def U64_def config_max_proposal_range_def config_proposal_delay_def block_at_def

lemma sample_provider_wf: "provider_wf sample_provider"
  by (simp add: sample_eval)

lemma sample_proposal:
  "fwn_next_proposal sample_provider = Ok (Some \<lparr>fin_height = 103, fin_block_hash = [3]\<rparr>)"
proof -
  have "highest (\<lambda>j. block_at sample_provider j \<noteq> None) 105 = Some 105"
    "highest (\<lambda>j. block_at sample_provider j \<noteq> None) 103 = Some 103"
    by (simp_all add: highest_Some_iff sample_eval)
  then have "proposal_height sample_provider = Some 103"
    by (simp add: proposal_height_def) (simp add: sample_eval add_u64_def sub_u64_def)
  then show ?thesis
    by (simp add: fwn_next_proposal_conv sample_provider_wf) (simp add: sample_eval)
qed

section \<open>Properties\<close>

text \<open>A block is confirmed up to a bound when a non-null block at most the bound lies at least the
  proposal delay above it.\<close>

definition confirmed :: "'a FinalityWithNull \<Rightarrow> nat \<Rightarrow> nat \<Rightarrow> bool" where
  "confirmed p b j = (block_at p j \<noteq> None \<and>
     (\<exists>n\<le>b. block_at p n \<noteq> None \<and> j + config_proposal_delay (fwn_config p) \<le> n))"

lemma confirmed_conv:
  assumes "highest (\<lambda>j. block_at p j \<noteq> None) b = Some n"
    "config_proposal_delay (fwn_config p) \<le> n"
  shows "confirmed p b j \<longleftrightarrow> block_at p j \<noteq> None \<and> j \<le> n - config_proposal_delay (fwn_config p)"
proof -
  have n: "n \<le> b" "block_at p n \<noteq> None" "\<And>k. k \<le> b \<Longrightarrow> block_at p k \<noteq> None \<Longrightarrow> k \<le> n"
    using assms(1) unfolding highest_Some_iff by (auto simp: not_le [symmetric])
  show ?thesis
  proof
    assume "confirmed p b j"
    then obtain k where "block_at p j \<noteq> None" "k \<le> b" "block_at p k \<noteq> None"
      "j + config_proposal_delay (fwn_config p) \<le> k" by (auto simp: confirmed_def)
    with n(3) [of k] show "block_at p j \<noteq> None \<and> j \<le> n - config_proposal_delay (fwn_config p)" by auto
  next
    assume "block_at p j \<noteq> None \<and> j \<le> n - config_proposal_delay (fwn_config p)"
    with n(1,2) assms(2) show "confirmed p b j" unfolding confirmed_def by (intro conjI exI [of _ n]) auto
  qed
qed

text \<open>C38: the provider proposes the right block. When the proposal range does not overflow and the
  committed height is at least the delay, \<open>next_proposal\<close> never panics; it proposes the highest
  confirmed non-null block within \<open>max_proposal_range\<close> above the committed height, with its hash,
  and proposes nothing only if no block above the committed height is confirmed.\<close>

theorem next_proposal_highest_confirmed:
  assumes wf: "provider_wf p"
    and c: "last_committed_finality p = Some c" and u: "latest_height_in_cache p = Some u"
    and range: "fin_height c + config_max_proposal_range (fwn_config p) < U64"
    and delay: "config_proposal_delay (fwn_config p) \<le> fin_height c"
  shows "case fwn_next_proposal p of
      Ok (Some f) \<Rightarrow> fin_height c < fin_height f \<and>
        confirmed p (min (fin_height c + config_max_proposal_range (fwn_config p)) u) (fin_height f) \<and>
        (\<forall>j. confirmed p (min (fin_height c + config_max_proposal_range (fwn_config p)) u) j \<longrightarrow>
             j \<le> fin_height f) \<and>
        map_option fst (block_at p (fin_height f)) = Some (fin_block_hash f)
    | Ok None \<Rightarrow>
        \<forall>j. confirmed p (min (fin_height c + config_max_proposal_range (fwn_config p)) u) j \<longrightarrow>
            j \<le> fin_height c
    | _ \<Rightarrow> False"
proof -
  let ?P = "\<lambda>j. block_at p j \<noteq> None" and ?d = "config_proposal_delay (fwn_config p)"
  let ?b = "min (fin_height c + config_max_proposal_range (fwn_config p)) u"
  have ph: "proposal_height p = Option.bind (highest ?P ?b) (\<lambda>n. Option.bind (highest ?P (sub_u64 n ?d))
      (\<lambda>h. if fin_height c = h then None else Some h))"
    using range by (simp add: proposal_height_def c u u64_simps)
  show ?thesis
  proof (cases "highest ?P ?b")
    case None
    then have "\<not> confirmed p ?b j" for j
      unfolding highest_None_iff confirmed_def by blast
    with None ph show ?thesis by (simp add: fwn_next_proposal_conv [OF wf])
  next
    case n: (Some n)
    then have "fin_height c \<le> n" using block_at_above [OF wf c, of n] unfolding highest_Some_iff by auto
    then have dn: "?d \<le> n" using delay by simp
    note conf = confirmed_conv [OF n dn]
    show ?thesis
    proof (cases "highest ?P (n - ?d)")
      case None
      then have "\<not> confirmed p ?b j" for j unfolding conf highest_None_iff by blast
      with None n ph dn show ?thesis by (simp add: fwn_next_proposal_conv [OF wf] u64_simps)
    next
      case h: (Some h)
      then have max: "confirmed p ?b h" "\<And>j. confirmed p ?b j \<Longrightarrow> j \<le> h"
        unfolding conf highest_Some_iff by (auto simp: not_le [symmetric])
      have "fin_height c \<le> h" using max(1) block_at_above [OF wf c, of h] by (auto simp: confirmed_def)
      moreover obtain x y z where "block_at p h = Some (x, y, z)" using max(1) by (auto simp: confirmed_def)
      ultimately show ?thesis
        using h n ph dn max by (auto simp: fwn_next_proposal_conv [OF wf] u64_simps)
    qed
  qed
qed

theorem next_proposal_highest_confirmed_witness:
  "provider_wf sample_provider \<and>
   fwn_next_proposal sample_provider = (Ok (Some \<lparr>fin_height = 103, fin_block_hash = [3]\<rparr>) :: (unit, _) outcome) \<and>
   confirmed sample_provider 105 103"
proof -
  have "last_committed_finality sample_provider = Some \<lparr>fin_height = 100, fin_block_hash = [0]\<rparr>"
    "latest_height_in_cache sample_provider = Some 105"
    "fin_height \<lparr>fin_height = 100, fin_block_hash = [0]\<rparr> +
       config_max_proposal_range (fwn_config sample_provider) < U64"
    "config_proposal_delay (fwn_config sample_provider) \<le> fin_height \<lparr>fin_height = 100, fin_block_hash = [0]\<rparr>"
    by (simp_all add: sample_eval)
  from next_proposal_highest_confirmed [OF sample_provider_wf this, where ?'b = unit] show ?thesis
    unfolding sample_proposal
    by (simp add: sample_provider_wf) (simp add: sample_provider_def sample_config_def config_max_proposal_range_def)
qed

text \<open>C16: a proposal passes the proposer's own check, advances the committed height when it is
  committed, and neither it nor anything at or below its height passes the check again. Neither
  operation panics on a well-formed provider.\<close>

theorem proposal_commit_once:
  assumes wf: "provider_wf p" and f: "fwn_next_proposal p = (Ok (Some f) :: (unit, _) outcome)"
    and g: "fin_height g \<le> fin_height f"
  shows "fwn_check_proposal p f = (Ok True :: (unit, _) outcome) \<and>
    (\<exists>c. last_committed_finality p = Some c \<and> fin_height c < fin_height f) \<and>
    provider_wf (fwn_set_new_finality f prev p) \<and>
    last_committed_finality (fwn_set_new_finality f prev p) = Some f \<and>
    fwn_check_proposal (fwn_set_new_finality f prev p) g = (Ok False :: (unit, _) outcome)"
  using fwn.next_checked [OF wf f] fwn.proposal_advances(1) [OF wf f] fwn.proposal_advances(2,3) [OF wf f, of prev]
    fwn.commit_once [OF wf fwn.next_checked [OF wf f] g, of prev] by blast

theorem proposal_commit_once_witness:
  "fwn_check_proposal sample_provider \<lparr>fin_height = 103, fin_block_hash = [3]\<rparr> =
     (Ok True :: (unit, _) outcome) \<and>
   fwn_check_proposal (fwn_set_new_finality \<lparr>fin_height = 103, fin_block_hash = [3]\<rparr> None sample_provider)
     \<lparr>fin_height = 101, fin_block_hash = [1]\<rparr> = (Ok False :: (unit, _) outcome)"
  using proposal_commit_once [OF sample_provider_wf sample_proposal,
      of "\<lparr>fin_height = 101, fin_block_hash = [1]\<rparr>" None] by simp

text \<open>Every reachable provider is well formed. Starting from a well-formed provider, any sequence
  of parent views at the next height, commitments of checked proposals and resets keeps the cache
  sequential and at or above the committed height.\<close>

interpretation fwn_steps: step_invariant provider_step provider_wf
  by unfold_locales (rule provider_step_keeps)

text \<open>The order the provider asks of a block: consecutive nonces and consecutive configuration
  numbers.\<close>

definition payload_sequential :: "'a ParentViewPayload option \<Rightarrow> bool" where
  "payload_sequential v =
     (case v of
        None \<Rightarrow> True
      | Some (_, changes, msgs) \<Rightarrow>
          successively (\<lambda>a b. env_nonce b = add_u64 (env_nonce a) 1) msgs \<and>
          successively (\<lambda>a b. configuration_number b = add_u64 (configuration_number a) 1) changes)"

lemma fwn_new_parent_view_conv:
  "fwn_new_parent_view h v p = (if payload_sequential v then fwn_append h v p else Err NotSequential)"
  by (auto simp: fwn_new_parent_view_def payload_sequential_def parent_block_filled_def
      parent_null_round_def ensure_sequential_iff split: option.splits prod.splits)

lemma fwn_append_next:
  assumes "provider_wf p" "fwn_latest_height p = Some l" "Suc l < U64"
  shows "\<exists>p'. fwn_append (Suc l) v p = Ok p'"
proof (cases "latest_height_in_cache p")
  case None
  then show ?thesis by (simp add: fwn_append_def latest_height_in_cache_def cache_append_def)
next
  case (Some u)
  with assms(2) have "u = l" by (simp add: fwn_latest_height_def)
  with Some uc.append_next [OF provider_wf_cache [OF assms(1)], of l v] assms(3) show ?thesis
    by (auto simp: fwn_append_def latest_height_in_cache_def)
qed

text \<open>The view after a new parent block is exact. A block at the next height is taken exactly
  when its top-down nonces and its configuration numbers are consecutive, and refused with
  \<open>NotSequential\<close> otherwise; once taken, the queries at that height return its content, or the empty
  list for a null round, and every other height is as before.\<close>

theorem new_parent_view_exact:
  assumes wf: "provider_wf p" and l: "fwn_latest_height p = Some l" "Suc l < U64"
  shows "case fwn_new_parent_view (Suc l) v p of
      Ok p' \<Rightarrow> payload_sequential v \<and> provider_wf p' \<and>
        (fwn_validator_changes p' (Suc l) :: (unit, _) outcome) =
          Ok (Some (case v of None \<Rightarrow> [] | Some (_, changes, _) \<Rightarrow> changes)) \<and>
        (fwn_top_down_msgs p' (Suc l) :: (unit, _) outcome) =
          Ok (Some (case v of None \<Rightarrow> [] | Some (_, _, msgs) \<Rightarrow> msgs)) \<and>
        (\<forall>h. h \<noteq> Suc l \<longrightarrow> cache_map (cached_data p') h = cache_map (cached_data p) h)
    | Err e \<Rightarrow> e = NotSequential \<and> \<not> payload_sequential v
    | _ \<Rightarrow> False"
proof (cases "payload_sequential v")
  case True
  then obtain p' where p': "fwn_new_parent_view (Suc l) v p = Ok p'"
    using fwn_append_next [OF wf l] by (auto simp: fwn_new_parent_view_conv)
  note k = new_parent_view_keeps [OF wf l p']
  then have "provider_wf p'" by blast
  then have "(fwn_validator_changes p' (Suc l) :: (unit, _) outcome) =
        Ok (Some (case v of None \<Rightarrow> [] | Some (_, changes, _) \<Rightarrow> changes))"
    "(fwn_top_down_msgs p' (Suc l) :: (unit, _) outcome) =
        Ok (Some (case v of None \<Rightarrow> [] | Some (_, _, msgs) \<Rightarrow> msgs))"
    using k by (auto simp: fwn_validator_changes_def fwn_top_down_msgs_def handle_null_block_conv
        payload_validator_changes_def payload_topdown_cross_msgs_def split: option.splits)
  with k True p' show ?thesis by simp
qed (simp add: fwn_new_parent_view_conv)

theorem new_parent_view_exact_witness:
  "\<exists>p'. fwn_new_parent_view 106 (Some ([6], [], [])) sample_provider = Ok p' \<and> provider_wf p'"
proof -
  have l: "fwn_latest_height sample_provider = Some 105" "Suc 105 < U64" by (simp_all add: sample_eval)
  have "payload_sequential (Some ([6], [], []) :: nat ParentViewPayload option)"
    by (simp add: payload_sequential_def)
  with new_parent_view_exact [OF sample_provider_wf l, of "Some ([6], [], [])"] show ?thesis
    by (cases "fwn_new_parent_view 106 (Some ([6], [], [])) sample_provider") auto
qed

text \<open>A range query over cached heights needs no parent. If every height of the range is cached,
  both range queries return the cached contents in height order, null rounds contributing nothing,
  whatever the parent client would answer.\<close>

theorem range_query_cached:
  assumes wf: "provider_wf (cfp_inner p)"
    and cached: "\<forall>h \<in> {a..b}. cache_map (cached_data (cfp_inner p)) h \<noteq> None"
  shows "cfp_validator_changes_from q p a b =
      Ok (concat (map (\<lambda>h. case block_at (cfp_inner p) h of None \<Rightarrow> [] | Some v \<Rightarrow> fst (snd v)) [a..<Suc b])) \<and>
    cfp_top_down_msgs_from q' p a b =
      Ok (concat (map (\<lambda>h. case block_at (cfp_inner p) h of None \<Rightarrow> [] | Some v \<Rightarrow> snd (snd v)) [a..<Suc b]))"
proof -
  have one: "cfp_validator_changes q p h =
      Ok (case block_at (cfp_inner p) h of None \<Rightarrow> [] | Some v \<Rightarrow> fst (snd v))"
    "cfp_top_down_msgs q' p h =
      Ok (case block_at (cfp_inner p) h of None \<Rightarrow> [] | Some v \<Rightarrow> snd (snd v))"
    if "h \<in> set [a..<Suc b]" for h
  proof -
    from that cached obtain v where "cache_map (cached_data (cfp_inner p)) h = Some v" by fastforce
    with wf show "cfp_validator_changes q p h =
        Ok (case block_at (cfp_inner p) h of None \<Rightarrow> [] | Some v \<Rightarrow> fst (snd v))"
      "cfp_top_down_msgs q' p h =
        Ok (case block_at (cfp_inner p) h of None \<Rightarrow> [] | Some v \<Rightarrow> snd (snd v))"
      by (simp_all add: cfp_validator_changes_def cfp_top_down_msgs_def fwn_validator_changes_def
          fwn_top_down_msgs_def handle_null_block_conv block_at_def payload_validator_changes_def
          payload_topdown_cross_msgs_def split: option.splits)
  qed
  then have "\<forall>h \<in> set [a..<Suc b]. cfp_validator_changes q p h =
      Ok (case block_at (cfp_inner p) h of None \<Rightarrow> [] | Some v \<Rightarrow> fst (snd v))"
    "\<forall>h \<in> set [a..<Suc b]. cfp_top_down_msgs q' p h =
      Ok (case block_at (cfp_inner p) h of None \<Rightarrow> [] | Some v \<Rightarrow> snd (snd v))" by blast+
  from this [THEN collect_heights_Ok] show ?thesis
    by (simp only: cfp_validator_changes_from_def cfp_top_down_msgs_from_def append_Nil)
qed

theorem range_query_cached_witness:
  "cfp_top_down_msgs_from (\<lambda>_ _. Err ''parent down'')
     \<lparr>cfp_inner = sample_provider, cfp_config = sample_config\<rparr> 101 103 = Ok []"
proof -
  let ?p = "\<lparr>cfp_inner = sample_provider, cfp_config = sample_config\<rparr>"
  have "\<forall>h \<in> {101..103}. cache_map (cached_data (cfp_inner ?p)) h \<noteq> None"
    by (auto simp: sample_provider_def)
  moreover have "[101..<104] = [101, 102, 103 :: nat]" by (simp add: upt_rec)
  ultimately show ?thesis
    using range_query_cached [of ?p 101 103 "\<lambda>_ _. Err ''parent down''" "\<lambda>_ _. Err ''parent down''"]
      sample_provider_wf by (simp add: block_at_def sample_provider_def)
qed

text \<open>The retry loop returns the answer of the first attempt that is neither a failure nor worth
  retrying, within \<open>exponential_retry_limit + 1\<close> attempts, and the last failure otherwise; a null
  round is never an error of the query.\<close>

theorem retry_query_bounded:
  "\<exists>j\<le>k. retry_query ans k 0 = ans j \<and>
     (\<forall>i<j. \<exists>e. ans i = Err e \<and> \<not> is_null_round_str e) \<and>
     (j = k \<or> (\<nexists>e. ans j = Err e \<and> \<not> is_null_round_str e)) \<and>
     (\<forall>e. handle_null_round (retry_query ans k 0) d = Err e \<longrightarrow> ans k = Err e \<and> j = k)"
proof -
  let ?bad = "\<lambda>i. \<exists>e. ans i = Err e \<and> \<not> is_null_round_str e"
  obtain j where j: "j \<le> k" "\<forall>i<j. ?bad i" "j = k \<or> \<not> ?bad j"
  proof (cases "\<exists>i<k. \<not> ?bad i")
    case True
    then obtain i where "i < k \<and> \<not> ?bad i" "\<forall>l<i. \<not> (l < k \<and> \<not> ?bad l)"
      using exists_least_iff [of "\<lambda>i. i < k \<and> \<not> ?bad i"] by blast
    then show ?thesis by (intro that [of i]) auto
  qed (auto intro: that [of k])
  then have r: "retry_query ans k 0 = ans j" using retry_query_first [of j k ans 0] by simp
  have "ans k = Err e \<and> j = k" if "handle_null_round (retry_query ans k 0) d = Err e" for e
    using that r j(3) by (cases "ans j") (auto split: if_splits)
  with r j show ?thesis by blast
qed

theorem retry_query_bounded_witness:
  "retry_query (\<lambda>n. if n = 0 then Err ''timeout'' else Ok [n]) 3 0 = Ok [1]"
proof -
  let ?ans = "\<lambda>n. if n = 0 then Err ''timeout'' else Ok [n :: nat]"
  obtain j where j: "j \<le> 3" "retry_query ?ans 3 0 = ?ans j"
    "\<forall>i<j. \<exists>e. ?ans i = Err e \<and> \<not> is_null_round_str e"
    "j = 3 \<or> (\<nexists>e. ?ans j = Err e \<and> \<not> is_null_round_str e)"
    using retry_query_bounded [of 3 ?ans "[]"] by blast
  have "\<not> is_null_round_str ''timeout''" by (auto simp: is_null_round_str_def NULL_ROUND_ERR_MSG_def dest: sublist_length_le)
  then have "j \<noteq> 0" using j(4) by (cases j) auto
  moreover have "j \<le> 1" using j(3) [rule_format, of 1] by (cases "j \<le> 1") auto
  ultimately show ?thesis using j(2) by simp
qed

end
