(* ===== verification/Vote_Tally.thy ===== *)
theory Vote_Tally
  imports IPC_Prelude
begin

text \<open>
  The vote tally of the topdown crate (\<open>voting.rs\<close>): the weights of the validators, the parent
  chain this node considers final, the votes by height and block hash, and the votes on objects. The
  transactional variables are the fields of a record; the chain and the votes are ordered maps, the
  rest hash maps. Sums of weights wrap at \<open>2^64\<close> as in a release build.

  The declarative side is the set \<open>supporters\<close> of validators whose recorded vote is for a block of
  the chain at or above a height, and the \<open>weight\<close> of a set of validators; \<open>find_quorum\<close> is
  shown to return the highest block whose supporters hold more than two thirds of the power.
\<close>

section \<open>The tally and its operations\<close>

datatype ('k, 'v) vote_error =
    Uninitialized
  | UnexpectedBlock nat nat
  | UnpoweredValidator 'k
  | Equivocation 'k nat 'v 'v

record ('k, 'v, 'o) VoteTally =
  power_table :: "('k, nat) hmap"
  chain :: "'v option omap"
  votes :: "('v, 'k hset) hmap omap"
  pause_votes :: bool
  object_votes :: "('o, 'k hset) hmap"
  pause_object_votes :: bool

definition tally_empty :: "('k, 'v, 'o) VoteTally" where
  "tally_empty = \<lparr>power_table = [], chain = [], votes = [], pause_votes = False,
     object_votes = [], pause_object_votes = False\<rparr>"

definition tally_new :: "('k \<times> nat) list \<Rightarrow> nat \<Rightarrow> 'v \<Rightarrow> ('k, 'v, 'o) VoteTally" where
  "tally_new powers height hash = \<lparr>power_table = hm_from powers, chain = [(height, Some hash)],
     votes = [], pause_votes = False, object_votes = [], pause_object_votes = False\<rparr>"

definition has_power :: "('k, 'v, 'o) VoteTally \<Rightarrow> 'k \<Rightarrow> bool" where
  "has_power t k =
     (if power_table t = [] then True
      else case hm_get (power_table t) k of None \<Rightarrow> False | Some weight \<Rightarrow> 0 < weight)"

definition quorum_threshold :: "('k, 'v, 'o) VoteTally \<Rightarrow> nat" where
  "quorum_threshold t = add_u64 (mul_u64 (sum_u64 (map snd (power_table t))) 2 div 3) 1"

definition last_finalized_height :: "('k, 'v, 'o) VoteTally \<Rightarrow> nat" where
  "last_finalized_height t = (case om_min (chain t) of None \<Rightarrow> 0 | Some (h, _) \<Rightarrow> h)"

definition tally_latest_height :: "('k, 'v, 'o) VoteTally \<Rightarrow> nat" where
  "tally_latest_height t = (case om_max (chain t) of None \<Rightarrow> 0 | Some (h, _) \<Rightarrow> h)"

definition tally_block_hash :: "('k, 'v, 'o) VoteTally \<Rightarrow> nat \<Rightarrow> 'v option" where
  "tally_block_hash t height = Option.bind (map_of (chain t) height) (\<lambda>h. h)"

definition add_block ::
  "nat \<Rightarrow> 'v option \<Rightarrow> ('k, 'v, 'o) VoteTally \<Rightarrow> (('k, 'v) vote_error, ('k, 'v, 'o) VoteTally) outcome" where
  "add_block block_height block_hash t =
     (case om_max (chain t) of
        None \<Rightarrow> Err Uninitialized
      | Some (parent_height, _) \<Rightarrow>
          if block_height \<noteq> add_u64 parent_height 1
          then Err (UnexpectedBlock (add_u64 parent_height 1) block_height)
          else Ok (t\<lparr>chain := om_insert block_height block_hash (chain t)\<rparr>))"

text \<open>The loop over the votes at a height looks for the validator under another hash.\<close>

fun find_equivocation :: "'k \<Rightarrow> 'v \<Rightarrow> ('v, 'k hset) hmap \<Rightarrow> 'v option" where
  "find_equivocation k hash [] = None"
| "find_equivocation k hash ((bh, vs) # m) =
     (if bh \<noteq> hash \<and> k \<in> set vs then Some bh else find_equivocation k hash m)"

definition or_default :: "'x list option \<Rightarrow> 'x list" where
  "or_default x = (case x of None \<Rightarrow> [] | Some l \<Rightarrow> l)"

definition add_vote ::
  "'k \<Rightarrow> nat \<Rightarrow> 'v \<Rightarrow> ('k, 'v, 'o) VoteTally \<Rightarrow>
     (('k, 'v) vote_error, bool \<times> ('k, 'v, 'o) VoteTally) outcome" where
  "add_vote k block_height block_hash t =
     (if pause_votes t then Retry
      else if block_height < last_finalized_height t then Ok (False, t)
      else if \<not> has_power t k then Err (UnpoweredValidator k)
      else
        let votes_at_height = or_default (map_of (votes t) block_height) in
        case find_equivocation k block_hash votes_at_height of
          Some bh \<Rightarrow> Err (Equivocation k block_height block_hash bh)
        | None \<Rightarrow>
            let votes_for_block = or_default (hm_get votes_at_height block_hash) in
            if k \<in> set votes_for_block then Ok (False, t)
            else Ok (True, t\<lparr>votes := om_insert block_height
                   (AList.update block_hash (hs_insert k votes_for_block) votes_at_height) (votes t)\<rparr>))"

definition pause_votes_until_find_quorum :: "('k, 'v, 'o) VoteTally \<Rightarrow> ('k, 'v, 'o) VoteTally" where
  "pause_votes_until_find_quorum t = t\<lparr>pause_votes := True\<rparr>"

text \<open>The inner loop of \<open>find_quorum\<close> and of \<open>find_object_quorum\<close>: each voter counts once.\<close>

fun count_voters :: "('k, nat) hmap \<Rightarrow> 'k list \<Rightarrow> nat \<Rightarrow> 'k hset \<Rightarrow> nat \<times> 'k hset" where
  "count_voters pt [] weight voters = (weight, voters)"
| "count_voters pt (vk # vks) weight voters =
     (if vk \<in> set voters then count_voters pt vks weight voters
      else count_voters pt vks
        (add_u64 weight (case hm_get pt vk of None \<Rightarrow> 0 | Some w \<Rightarrow> w)) (hs_insert vk voters))"

fun quorum_loop ::
  "('k, 'v, 'o) VoteTally \<Rightarrow> nat \<Rightarrow> nat \<Rightarrow> (nat \<times> 'v option) list \<Rightarrow> nat \<Rightarrow> 'k hset \<Rightarrow> (nat \<times> 'v) option" where
  "quorum_loop t finalized_height threshold [] weight voters = None"
| "quorum_loop t finalized_height threshold ((block_height, oh) # es) weight voters =
     (if block_height = finalized_height then None
      else case oh of
        None \<Rightarrow> quorum_loop t finalized_height threshold es weight voters
      | Some block_hash \<Rightarrow>
          (case map_of (votes t) block_height of
             None \<Rightarrow> quorum_loop t finalized_height threshold es weight voters
           | Some votes_at_height \<Rightarrow>
               (case hm_get votes_at_height block_hash of
                  None \<Rightarrow> quorum_loop t finalized_height threshold es weight voters
                | Some votes_for_block \<Rightarrow>
                    (case count_voters (power_table t) votes_for_block weight voters of
                       (weight', voters') \<Rightarrow>
                         if threshold \<le> weight' then Some (block_height, block_hash)
                         else quorum_loop t finalized_height threshold es weight' voters'))))"

definition find_quorum ::
  "('k, 'v, 'o) VoteTally \<Rightarrow> (nat \<times> 'v) option \<times> ('k, 'v, 'o) VoteTally" where
  "find_quorum t =
     (let t' = t\<lparr>pause_votes := False\<rparr> in
      case om_min (chain t') of
        None \<Rightarrow> (None, t')
      | Some (finalized_height, _) \<Rightarrow>
          (quorum_loop t' finalized_height (quorum_threshold t') (rev (chain t')) 0 [], t'))"

definition set_finalized :: "nat \<Rightarrow> 'v \<Rightarrow> ('k, 'v, 'o) VoteTally \<Rightarrow> ('k, 'v, 'o) VoteTally" where
  "set_finalized block_height block_hash t =
     t\<lparr>chain := om_insert block_height (Some block_hash) (om_above block_height (chain t)),
       votes := om_above block_height (votes t)\<rparr>"

definition add_object_vote ::
  "'k \<Rightarrow> 'o \<Rightarrow> ('k, 'v, 'o) VoteTally \<Rightarrow>
     (('k, 'o) vote_error, bool \<times> ('k, 'v, 'o) VoteTally) outcome" where
  "add_object_vote k object t =
     (if pause_object_votes t then Retry
      else if \<not> has_power t k then Err (UnpoweredValidator k)
      else
        let votes_for_object = or_default (hm_get (object_votes t) object) in
        if k \<in> set votes_for_object then Ok (False, t)
        else Ok (True, t\<lparr>object_votes :=
               AList.update object (hs_insert k votes_for_object) (object_votes t)\<rparr>))"

definition pause_object_votes_until_find_quorum ::
  "('k, 'v, 'o) VoteTally \<Rightarrow> ('k, 'v, 'o) VoteTally" where
  "pause_object_votes_until_find_quorum t = t\<lparr>pause_object_votes := True\<rparr>"

definition find_object_quorum ::
  "'o \<Rightarrow> ('k, 'v, 'o) VoteTally \<Rightarrow> bool \<times> ('k, 'v, 'o) VoteTally" where
  "find_object_quorum object t =
     (let t' = t\<lparr>pause_object_votes := False\<rparr> in
      case hm_get (object_votes t') object of
        None \<Rightarrow> (False, t')
      | Some votes_for_object \<Rightarrow>
          (case count_voters (power_table t') votes_for_object 0 [] of
             (weight, voters) \<Rightarrow>
               (if power_table t' = [] \<and> voters \<noteq> [] then True
                else quorum_threshold t' \<le> weight, t')))"

definition set_power_table :: "('k \<times> nat) list \<Rightarrow> ('k, 'v, 'o) VoteTally \<Rightarrow> ('k, 'v, 'o) VoteTally" where
  "set_power_table powers t = t\<lparr>power_table := hm_from powers\<rparr>"

fun update_powers :: "('k \<times> nat) list \<Rightarrow> ('k, nat) hmap \<Rightarrow> ('k, nat) hmap" where
  "update_powers [] pt = pt"
| "update_powers ((vk, w) # us) pt =
     update_powers us (if w = 0 then AList.delete vk pt else AList.update vk w pt)"

definition update_power_table ::
  "('k \<times> nat) list \<Rightarrow> ('k, 'v, 'o) VoteTally \<Rightarrow> ('k, 'v, 'o) VoteTally" where
  "update_power_table updates t =
     (if updates = [] then t else t\<lparr>power_table := update_powers updates (power_table t)\<rparr>)"

section \<open>The vote publishing loop\<close>

text \<open>The transaction that picks the next vote, and one iteration of the loop. A transaction that
  retries blocks until the timeout; the third component of the result is the vote handed to the gossip
  client, if any. The loop variable \<open>prev\<close> is left alone by \<open>continue\<close>.\<close>

definition next_vote ::
  "'k \<Rightarrow> nat \<Rightarrow> ('k, 'v, 'o) VoteTally \<Rightarrow>
     (('k, 'v) vote_error, (nat \<times> 'v \<times> bool) \<times> ('k, 'v, 'o) VoteTally) outcome" where
  "next_vote vk prev_height t =
     (let next_height = tally_latest_height t in
      if next_height = prev_height then Retry
      else case tally_block_hash t next_height of
        None \<Rightarrow> Retry
      | Some next_hash \<Rightarrow>
          if has_power t vk
          then obind (add_vote vk next_height next_hash t)
                 (\<lambda>(_, t'). Ok ((next_height, next_hash, True), t'))
          else Ok ((next_height, next_hash, False), t))"

definition publish_vote_iteration ::
  "'k \<Rightarrow> (nat \<times> 'v \<times> bool) option \<Rightarrow> ('k, 'v, 'o) VoteTally \<Rightarrow>
     (nat \<times> 'v \<times> bool) option \<times> ('k, 'v, 'o) VoteTally \<times> (nat \<times> 'v) option" where
  "publish_vote_iteration vk prev t =
     (let prev_height = (case prev of None \<Rightarrow> 0 | Some (h, _, _) \<Rightarrow> h);
          emit = (\<lambda>(h, v, powered). if powered \<and> 0 < prev_height then Some (h, v) else None)
      in case next_vote vk prev_height t of
           Ok (vs, t') \<Rightarrow> (Some vs, t', emit vs)
         | Retry \<Rightarrow> (case prev of Some vs \<Rightarrow> (Some vs, t, emit vs) | None \<Rightarrow> (None, t, None))
         | _ \<Rightarrow> (prev, t, None))"

section \<open>Specification\<close>

definition vpower :: "('k, 'v, 'o) VoteTally \<Rightarrow> 'k \<Rightarrow> nat" where
  "vpower t k = (case hm_get (power_table t) k of None \<Rightarrow> 0 | Some w \<Rightarrow> w)"

definition weight :: "('k, 'v, 'o) VoteTally \<Rightarrow> 'k set \<Rightarrow> nat" where
  "weight t K = sum (vpower t) K"

definition total_weight :: "('k, 'v, 'o) VoteTally \<Rightarrow> nat" where
  "total_weight t = sum_list (map snd (power_table t))"

text \<open>The validators recorded for a block at a height.\<close>

definition voters_for :: "('k, 'v, 'o) VoteTally \<Rightarrow> nat \<Rightarrow> 'v \<Rightarrow> 'k list" where
  "voters_for t h v = or_default (hm_get (or_default (map_of (votes t) h)) v)"

definition entry_voters :: "('k, 'v, 'o) VoteTally \<Rightarrow> nat \<times> 'v option \<Rightarrow> 'k set" where
  "entry_voters t e = (case snd e of None \<Rightarrow> {} | Some v \<Rightarrow> set (voters_for t (fst e) v))"

text \<open>The validators whose vote is for a block of the chain at or above a height, and above the
  finalized one.\<close>

definition supporters :: "('k, 'v, 'o) VoteTally \<Rightarrow> nat \<Rightarrow> 'k set" where
  "supporters t h =
     \<Union> (entry_voters t ` {e \<in> set (chain t). h \<le> fst e \<and> last_finalized_height t < fst e})"

definition object_voters :: "('k, 'v, 'o) VoteTally \<Rightarrow> 'o \<Rightarrow> 'k list" where
  "object_voters t ob = or_default (hm_get (object_votes t) ob)"

text \<open>The invariant: ordered chain and votes, hash maps and sets without repetitions, and no validator
  recorded for two blocks at one height.\<close>

definition votes_wf :: "('v, 'k hset) hmap \<Rightarrow> bool" where
  "votes_wf m = (hm_wf m \<and> list_all (\<lambda>(_, vs). distinct vs) m \<and>
     (\<forall>v w k. k \<in> set (or_default (hm_get m v)) \<and> k \<in> set (or_default (hm_get m w)) \<longrightarrow> v = w))"

definition tally_wf :: "('k, 'v, 'o) VoteTally \<Rightarrow> bool" where
  "tally_wf t = (hm_wf (power_table t) \<and> om_wf (chain t) \<and> om_wf (votes t) \<and>
     list_all (\<lambda>(_, m). votes_wf m) (votes t) \<and>
     hm_wf (object_votes t) \<and> list_all (\<lambda>(_, vs). distinct vs) (object_votes t))"

inductive tally_step :: "('k, 'v, 'o) VoteTally \<Rightarrow> ('k, 'v, 'o) VoteTally \<Rightarrow> bool" where
  block: "add_block h v t = Ok t' \<Longrightarrow> tally_step t t'"
| vote: "add_vote k h v t = Ok (b, t') \<Longrightarrow> tally_step t t'"
| pause: "tally_step t (pause_votes_until_find_quorum t)"
| quorum: "tally_step t (snd (find_quorum t))"
| finalized: "tally_step t (set_finalized h v t)"
| object_vote: "add_object_vote k ob t = Ok (b, t') \<Longrightarrow> tally_step t t'"
| object_pause: "tally_step t (pause_object_votes_until_find_quorum t)"
| object_quorum: "tally_step t (snd (find_object_quorum ob t))"
| powers: "tally_step t (set_power_table ps t)"
| power_updates: "tally_step t (update_power_table ps t)"

abbreviation tally_reach :: "('k, 'v, 'o) VoteTally \<Rightarrow> bool" where
  "tally_reach t \<equiv> tally_step\<^sup>*\<^sup>* tally_empty t"

section \<open>Lemmas on weights\<close>

lemma or_default_simps [simp]: "or_default None = []" "or_default (Some l) = l"
  by (simp_all add: or_default_def)

lemma total_weight_sum: "hm_wf (power_table t) \<Longrightarrow> total_weight t = sum (vpower t) (fst ` set (power_table t))"
proof -
  assume wf: "hm_wf (power_table t)"
  have "sum (vpower t) (fst ` set pt) = sum_list (map snd pt)"
    if "hm_wf pt" "\<forall>e \<in> set pt. vpower t (fst e) = snd e" for pt :: "('a \<times> nat) list"
    using that by (induction pt) auto
  moreover have "\<forall>e \<in> set (power_table t). vpower t (fst e) = snd e"
    using wf by (auto simp: vpower_def)
  ultimately show ?thesis using wf by (simp add: total_weight_def)
qed

lemma weight_le_total:
  assumes "hm_wf (power_table t)" "finite K"
  shows "weight t K \<le> total_weight t"
proof -
  let ?D = "fst ` set (power_table t)"
  have "vpower t k = 0" if "k \<notin> ?D" for k
    using that by (auto simp: vpower_def dest: om_get_Some_in split: option.splits)
  then have "weight t K = sum (vpower t) (K \<inter> ?D)"
    unfolding weight_def using assms(2) by (intro sum.mono_neutral_cong_right) auto
  also have "\<dots> \<le> sum (vpower t) ?D" by (rule sum_mono2) auto
  finally show ?thesis using total_weight_sum [OF assms(1)] by simp
qed

lemma weight_mono: "finite L \<Longrightarrow> K \<subseteq> L \<Longrightarrow> weight t K \<le> weight t L"
  unfolding weight_def by (rule sum_mono2) auto

lemma weight_insert: "finite K \<Longrightarrow> k \<notin> K \<Longrightarrow> weight t (insert k K) = vpower t k + weight t K"
  by (simp add: weight_def)

lemma weight_Un_Int:
  "finite K \<Longrightarrow> finite L \<Longrightarrow> weight t (K \<union> L) + weight t (K \<inter> L) = weight t K + weight t L"
  unfolding weight_def by (rule sum.union_inter)

lemma threshold_exact:
  assumes "2 * total_weight t < U64"
  shows "quorum_threshold t = 2 * total_weight t div 3 + 1"
proof -
  have "sum_u64 (map snd (power_table t)) = total_weight t"
    using assms by (simp add: total_weight_def sum_u64_exact)
  moreover have "2 * total_weight t div 3 + 1 < U64" using assms by (simp add: U64_def)
  ultimately show ?thesis using assms by (simp add: quorum_threshold_def u64_simps mult.commute)
qed

lemma threshold_iff:
  "2 * total_weight t < U64 \<Longrightarrow> quorum_threshold t \<le> w \<longleftrightarrow> 2 * total_weight t < 3 * w"
  by (auto simp: threshold_exact)

lemma count_voters_spec:
  assumes "hm_wf (power_table t)" "2 * total_weight t < U64" "w = weight t (set vs)"
  shows "fst (count_voters (power_table t) ks w vs) = weight t (set vs \<union> set ks) \<and>
     set (snd (count_voters (power_table t) ks w vs)) = set vs \<union> set ks"
  using assms(3)
proof (induction ks arbitrary: w vs)
  case (Cons k ks)
  show ?case
  proof (cases "k \<in> set vs")
    case True
    with Cons show ?thesis by (simp add: insert_absorb)
  next
    case False
    have "weight t (insert k (set vs)) \<le> total_weight t"
      by (rule weight_le_total [OF assms(1)]) simp
    then have "add_u64 w (vpower t k) = weight t (set (hs_insert k vs))"
      using False Cons.prems assms(2) by (simp add: weight_insert u64_simps add.commute)
    from Cons.IH [OF this] False show ?thesis by (simp add: vpower_def)
  qed
qed simp

section \<open>Lemmas on the search for a quorum\<close>

lemma quorum_loop_step:
  assumes "w < thr" "h \<noteq> fin"
  shows "quorum_loop t fin thr ((h, oh) # es) w vs =
     (case oh of
        None \<Rightarrow> quorum_loop t fin thr es w vs
      | Some v \<Rightarrow>
          (case count_voters (power_table t) (voters_for t h v) w vs of
             (w', vs') \<Rightarrow> if thr \<le> w' then Some (h, v) else quorum_loop t fin thr es w' vs'))"
  using assms by (auto simp: voters_for_def split: option.splits prod.splits)

text \<open>What the loop over the entries \<open>es\<close> returns when the voters \<open>V\<close> have been counted.\<close>

definition quorum_result ::
  "('k, 'v, 'o) VoteTally \<Rightarrow> nat \<Rightarrow> 'k set \<Rightarrow> (nat \<times> 'v option) list \<Rightarrow> (nat \<times> 'v) option \<Rightarrow> bool" where
  "quorum_result t thr V es r =
     (case r of
        None \<Rightarrow> weight t (V \<union> \<Union> (entry_voters t ` set es)) < thr
      | Some (h, v) \<Rightarrow> \<exists>es1 es2. es = es1 @ (h, Some v) # es2 \<and>
          weight t (V \<union> \<Union> (entry_voters t ` set es1)) < thr \<and>
          thr \<le> weight t (V \<union> \<Union> (entry_voters t ` set (es1 @ [(h, Some v)]))))"

lemma quorum_result_cons:
  assumes "quorum_result t thr (V \<union> entry_voters t e) es r"
  shows "quorum_result t thr V (e # es) r"
proof (cases r)
  case None
  with assms show ?thesis by (simp add: quorum_result_def Un_assoc)
next
  case (Some hv)
  obtain h v where hv: "hv = (h, v)" by (cases hv)
  with assms Some obtain es1 es2 where "es = es1 @ (h, Some v) # es2"
    "weight t (V \<union> entry_voters t e \<union> \<Union> (entry_voters t ` set es1)) < thr"
    "thr \<le> weight t (V \<union> entry_voters t e \<union> \<Union> (entry_voters t ` set (es1 @ [(h, Some v)])))"
    by (auto simp: quorum_result_def)
  then have "e # es = (e # es1) @ (h, Some v) # es2 \<and>
      weight t (V \<union> \<Union> (entry_voters t ` set (e # es1))) < thr \<and>
      thr \<le> weight t (V \<union> \<Union> (entry_voters t ` set ((e # es1) @ [(h, Some v)])))"
    by (simp add: Un_assoc)
  then show ?thesis unfolding quorum_result_def Some hv option.case prod.case by blast
qed

lemma quorum_loop_spec:
  assumes wf: "hm_wf (power_table t)" "2 * total_weight t < U64"
    and "w = weight t (set vs)" "w < thr" "fin \<notin> fst ` set es"
  shows "quorum_result t thr (set vs) es (quorum_loop t fin thr (es @ [(fin, x)]) w vs)"
  using assms(3-)
proof (induction es arbitrary: w vs)
  case Nil
  then show ?case by (simp add: quorum_result_def)
next
  case (Cons e es)
  obtain h oh where e: "e = (h, oh)" by (cases e)
  from Cons.prems(3) e have h: "h \<noteq> fin" "fin \<notin> fst ` set es" by auto
  note unfold = quorum_loop_step [OF Cons.prems(2) h(1), of t oh "es @ [(fin, x)]" vs]
  show ?case
  proof (cases oh)
    case None
    have "quorum_result t thr (set vs) (e # es) (quorum_loop t fin thr (es @ [(fin, x)]) w vs)"
      using Cons.IH [OF Cons.prems(1,2) h(2)] None e
      by (intro quorum_result_cons) (simp add: entry_voters_def)
    then show ?thesis using unfold None e by simp
  next
    case (Some v)
    let ?c = "count_voters (power_table t) (voters_for t h v) w vs"
    obtain w' vs' where c: "?c = (w', vs')" by (cases ?c)
    with count_voters_spec [OF wf Cons.prems(1), of "voters_for t h v"]
    have vs': "w' = weight t (set vs')" "set vs' = set vs \<union> entry_voters t e"
      by (simp_all add: e Some entry_voters_def)
    show ?thesis
    proof (cases "thr \<le> w'")
      case True
      have "e # es = [] @ (h, Some v) # es \<and> weight t (set vs \<union> \<Union> (entry_voters t ` set [])) < thr \<and>
          thr \<le> weight t (set vs \<union> \<Union> (entry_voters t ` set ([] @ [(h, Some v)])))"
        using True vs' e Some Cons.prems(1,2) by simp
      then have "quorum_result t thr (set vs) (e # es) (Some (h, v))"
        unfolding quorum_result_def option.case prod.case by blast
      then show ?thesis using True unfold Some c e by simp
    next
      case False
      then have "quorum_result t thr (set vs) (e # es) (quorum_loop t fin thr (es @ [(fin, x)]) w' vs')"
        using Cons.IH [OF vs'(1) _ h(2)] vs'(2) by (intro quorum_result_cons) simp
      then show ?thesis using False unfold c e Some by simp
    qed
  qed
qed

lemma chain_split:
  assumes "om_wf c" "om_min c = Some (fin, x)"
  shows "c = (fin, x) # tl c" "fin \<notin> fst ` set (rev (tl c))"
    "\<And>e. e \<in> set (tl c) \<longleftrightarrow> e \<in> set c \<and> fin < fst e"
  using assms by (cases c; auto simp: om_min_def)+

lemma rev_suffix_heights:
  assumes "om_wf c" "rev c = es1 @ (h, v) # es2"
  shows "set (es1 @ [(h, v)]) = {e \<in> set c. h \<le> fst e}" "set es1 = {e \<in> set c. h < fst e}"
proof -
  have c: "c = rev es2 @ (h, v) # rev es1" using assms(2) by (metis append.assoc append_Cons append_Nil rev.simps(2) rev_append rev_rev_ident)
  from assms(1) show "set (es1 @ [(h, v)]) = {e \<in> set c. h \<le> fst e}" "set es1 = {e \<in> set c. h < fst e}"
    unfolding c by (fastforce simp: sorted_wrt_append)+
qed

lemma find_quorum_conv:
  assumes "tally_wf t" "2 * total_weight t < U64" "om_min (chain t) = Some (fin, x)"
  shows "case fst (find_quorum t) of
      None \<Rightarrow> weight t (supporters t 0) < quorum_threshold t
    | Some (h, v) \<Rightarrow> fin < h \<and> (h, Some v) \<in> set (chain t) \<and>
        quorum_threshold t \<le> weight t (supporters t h) \<and>
        weight t (supporters t (Suc h)) < quorum_threshold t"
proof -
  let ?t = "t\<lparr>pause_votes := False\<rparr>" and ?es = "rev (tl (chain t))"
  have wf: "om_wf (chain t)" "hm_wf (power_table t)" using assms(1) by (simp_all add: tally_wf_def)
  note ch = chain_split [OF wf(1) assms(3)]
  have same: "quorum_result ?t = quorum_result t" "quorum_threshold ?t = quorum_threshold t"
    "total_weight ?t = total_weight t" "weight ?t = weight t"
    by (simp_all add: quorum_result_def weight_def vpower_def entry_voters_def voters_for_def
        quorum_threshold_def total_weight_def fun_eq_iff cong: option.case_cong)
  have rev: "rev (chain t) = ?es @ [(fin, x)]" using ch(1) by (metis rev.simps(2))
  have fq: "fst (find_quorum t) = quorum_loop ?t fin (quorum_threshold t) (?es @ [(fin, x)]) 0 []"
    using assms(3) rev same(2) by (simp add: find_quorum_def Let_def)
  have lf: "last_finalized_height t = fin" using assms(3) by (simp add: last_finalized_height_def)
  have sup: "supporters t h = \<Union> (entry_voters t ` {e \<in> set (tl (chain t)). h \<le> fst e})" for h
    unfolding supporters_def lf using ch(3) by (intro arg_cong [where f = Union] image_cong) auto
  have "0 < quorum_threshold t" using threshold_exact [OF assms(2)] by simp
  then have spec: "quorum_result t (quorum_threshold t) {} ?es (fst (find_quorum t))"
    using quorum_loop_spec [of ?t 0 "[]" "quorum_threshold t" fin ?es x] wf(2) assms(2) ch(2)
    unfolding fq same by (simp add: weight_def)
  show ?thesis
  proof (cases "fst (find_quorum t)")
    case None
    with spec show ?thesis by (simp add: sup quorum_result_def)
  next
    case (Some hv)
    obtain h v where hv: "hv = (h, v)" by (cases hv)
    with spec Some obtain es1 es2 where es: "?es = es1 @ (h, Some v) # es2"
      "weight t (\<Union> (entry_voters t ` set es1)) < quorum_threshold t"
      "quorum_threshold t \<le> weight t (\<Union> (entry_voters t ` set (es1 @ [(h, Some v)])))" by (auto simp: quorum_result_def)
    have tl: "om_wf (tl (chain t))" using wf(1) ch(1) by (metis list.simps(9) sorted_wrt.simps(2))
    note heights = rev_suffix_heights [OF tl es(1)]
    have mem: "(h, Some v) \<in> set (tl (chain t))" using es(1) by (metis in_set_conv_decomp set_rev)
    have "supporters t h = \<Union> (entry_voters t ` set (es1 @ [(h, Some v)]))"
      "supporters t (Suc h) = \<Union> (entry_voters t ` set es1)"
      unfolding sup heights by (simp_all add: Suc_le_eq)
    with es mem ch(3) Some hv show ?thesis by auto
  qed
qed

section \<open>The invariant is kept\<close>

lemma set_om_insert: "set (om_insert k v m) \<subseteq> insert (k, v) (set m)"
  by (induction k v m rule: om_insert.induct) auto

lemma set_alist_update: "set (AList.update k v m) \<subseteq> insert (k, v) (set m)"
  by (induction m) auto

lemma list_all_om_insert: "list_all P m \<Longrightarrow> P (k, v) \<Longrightarrow> list_all P (om_insert k v m)"
  using set_om_insert by (fastforce simp: list_all_iff)

lemma list_all_alist_update: "list_all P m \<Longrightarrow> P (k, v) \<Longrightarrow> list_all P (AList.update k v m)"
  using set_alist_update by (fastforce simp: list_all_iff)

lemma find_equivocation_None:
  "hm_wf m \<Longrightarrow> find_equivocation k v m = None \<longleftrightarrow> (\<forall>w. w \<noteq> v \<longrightarrow> k \<notin> set (or_default (hm_get m w)))"
proof (induction m)
  case (Cons e m)
  obtain bh vs where e: "e = (bh, vs)" by (cases e)
  with Cons.prems have "bh \<notin> fst ` set m" "hm_wf m" by auto
  then have no: "hm_get m bh = None" by (simp add: map_of_eq_None_iff)
  show ?case
  proof (cases "bh \<noteq> v \<and> k \<in> set vs")
    case True
    then show ?thesis by (auto simp: e)
  next
    case False
    have "find_equivocation k v (e # m) = find_equivocation k v m" using False by (auto simp: e)
    moreover have "(w \<noteq> v \<longrightarrow> k \<notin> set (or_default (hm_get (e # m) w))) \<longleftrightarrow>
        (w \<noteq> v \<longrightarrow> k \<notin> set (or_default (hm_get m w)))" for w
      using False no by (cases "w = bh") (auto simp: e)
    ultimately show ?thesis using Cons.IH \<open>hm_wf m\<close> by (simp only: simp_thms)
  qed
qed simp

lemma find_equivocation_Some:
  "hm_wf m \<Longrightarrow> find_equivocation k v m = Some w \<Longrightarrow> w \<noteq> v \<and> k \<in> set (or_default (hm_get m w))"
proof (induction m)
  case (Cons e m)
  obtain bh vs where e: "e = (bh, vs)" by (cases e)
  with Cons.prems(1) have no: "hm_get m bh = None" and wf: "hm_wf m"
    by (auto simp: map_of_eq_None_iff)
  show ?case
  proof (cases "bh \<noteq> v \<and> k \<in> set vs")
    case False
    then have "w \<noteq> v \<and> k \<in> set (or_default (hm_get m w))"
      using Cons.IH [OF wf] Cons.prems(2) e by (auto split: if_splits)
    then show ?thesis using no e by auto
  qed (use Cons.prems(2) e in auto)
qed simp

lemma votes_wf_insert:
  assumes wf: "votes_wf m" and no: "find_equivocation k v m = None"
  shows "votes_wf (AList.update v (hs_insert k (or_default (hm_get m v))) m)"
proof -
  have hm: "hm_wf m" and d: "list_all (\<lambda>(_, vs). distinct vs) m"
    and one: "\<And>u w j. j \<in> set (or_default (hm_get m u)) \<Longrightarrow> j \<in> set (or_default (hm_get m w)) \<Longrightarrow> u = w"
    using wf by (auto simp: votes_wf_def)
  have "distinct (or_default (hm_get m v))"
    using d by (cases "hm_get m v") (auto simp: list_all_iff dest: map_of_SomeD)
  then have "list_all (\<lambda>(_, vs). distinct vs) (AList.update v (hs_insert k (or_default (hm_get m v))) m)"
    using d by (intro list_all_alist_update) auto
  moreover have "\<forall>w. w \<noteq> v \<longrightarrow> k \<notin> set (or_default (hm_get m w))"
    using no find_equivocation_None [OF hm] by blast
  ultimately show ?thesis using hm one by (auto simp: votes_wf_def)
qed

lemma votes_wf_empty [simp]: "votes_wf []"
  by (simp add: votes_wf_def)

lemma tally_wf_votes: "tally_wf t \<Longrightarrow> votes_wf (or_default (map_of (votes t) h))"
  by (cases "map_of (votes t) h") (auto simp: tally_wf_def list_all_iff dest!: map_of_SomeD)

lemma add_vote_Ok:
  assumes wf: "tally_wf t" and ok: "add_vote k h v t = Ok (b, t')"
  shows "if b then t' = t\<lparr>votes := votes t'\<rparr> \<and> tally_wf t' \<and> k \<notin> set (voters_for t h v) \<and>
       has_power t k \<and> last_finalized_height t \<le> h \<and>
       (\<forall>h' v'. voters_for t' h' v' =
          (if h' = h \<and> v' = v then voters_for t h v @ [k] else voters_for t h' v'))
     else t' = t \<and> (h < last_finalized_height t \<or> k \<in> set (voters_for t h v))"
proof -
  let ?m = "or_default (map_of (votes t) h)"
  let ?vs = "or_default (hm_get ?m v)"
  have om: "om_wf (votes t)" using wf by (simp add: tally_wf_def)
  show ?thesis
  proof (cases b)
    case True
    with ok have c: "\<not> pause_votes t" "\<not> h < last_finalized_height t" "has_power t k"
      "find_equivocation k v ?m = None" "k \<notin> set ?vs"
      "t' = t\<lparr>votes := om_insert h (AList.update v (hs_insert k ?vs) ?m) (votes t)\<rparr>"
      by (auto simp: add_vote_def Let_def split: if_splits option.splits)
    have "votes_wf (AList.update v (hs_insert k ?vs) ?m)"
      using votes_wf_insert [OF tally_wf_votes [OF wf] c(4)] .
    then have "tally_wf t'" using wf c(6) by (simp add: tally_wf_def list_all_om_insert)
    moreover have "voters_for t' h' v' =
        (if h' = h \<and> v' = v then voters_for t h v @ [k] else voters_for t h' v')" for h' v'
      using c(5,6) om by (simp add: voters_for_def hs_insert_def)
    ultimately show ?thesis using True c by (simp add: voters_for_def)
  next
    case False
    with ok show ?thesis
      by (auto simp: add_vote_def voters_for_def Let_def split: if_splits option.splits)
  qed
qed

lemma hm_wf_update_powers: "hm_wf pt \<Longrightarrow> hm_wf (update_powers us pt)"
  by (induction us pt rule: update_powers.induct) auto

lemma list_all_filter: "list_all P m \<Longrightarrow> list_all P (filter Q m)"
  by (auto simp: list_all_iff)

lemma add_object_vote_keeps:
  assumes wf: "tally_wf t" and ok: "add_object_vote k ob t = Ok (b, t')"
  shows "tally_wf t'"
proof -
  have "distinct (or_default (hm_get (object_votes t) ob))"
    using wf by (cases "hm_get (object_votes t) ob")
      (auto simp: tally_wf_def list_all_iff dest!: map_of_SomeD)
  with ok wf show ?thesis
    by (auto simp: add_object_vote_def tally_wf_def Let_def list_all_alist_update split: if_splits)
qed

lemma find_quorum_snd: "snd (find_quorum t) = t\<lparr>pause_votes := False\<rparr>"
  by (simp add: find_quorum_def Let_def split: option.splits prod.splits)

lemma find_object_quorum_snd: "snd (find_object_quorum ob t) = t\<lparr>pause_object_votes := False\<rparr>"
  by (simp add: find_object_quorum_def Let_def split: option.splits prod.splits)

lemma tally_wf_paused:
  "tally_wf (t\<lparr>pause_votes := b\<rparr>) = tally_wf t" "tally_wf (t\<lparr>pause_object_votes := b\<rparr>) = tally_wf t"
  by (simp_all add: tally_wf_def)

lemma tally_step_keeps: "tally_step t t' \<Longrightarrow> tally_wf t \<Longrightarrow> tally_wf t'"
proof (induction rule: tally_step.induct)
  case (block h v t t')
  then show ?case
    by (auto simp: add_block_def tally_wf_def split: option.splits if_splits)
next
  case (vote k h v t b t')
  then show ?case using add_vote_Ok [OF vote.prems vote.hyps] by (auto split: if_splits)
next
  case (finalized t h v)
  then show ?case by (auto simp: set_finalized_def tally_wf_def om_above_def om_wf_filter list_all_filter)
next
  case (object_vote k ob t b t')
  show ?case by (rule add_object_vote_keeps [OF object_vote.prems object_vote.hyps])
next
  case (powers t ps)
  then show ?case by (simp add: set_power_table_def tally_wf_def)
next
  case (power_updates t ps)
  then show ?case by (simp add: update_power_table_def tally_wf_def hm_wf_update_powers)
qed (simp_all add: find_quorum_snd find_object_quorum_snd pause_votes_until_find_quorum_def
    pause_object_votes_until_find_quorum_def tally_wf_paused)

interpretation tally: start_invariant tally_step tally_wf "\<lambda>t. t = tally_empty"
  by (unfold_locales, erule (1) tally_step_keeps) (simp add: tally_empty_def tally_wf_def)

lemma tally_wf_no_equivocation:
  "tally_wf t \<Longrightarrow> k \<in> set (voters_for t h v) \<Longrightarrow> k \<in> set (voters_for t h w) \<Longrightarrow> v = w"
  using tally_wf_votes [of t h] by (auto simp: votes_wf_def voters_for_def)

lemma supporters_finite [simp]: "finite (supporters t h)"
  by (auto simp: supporters_def entry_voters_def split: option.splits)

lemma supporters_antimono: "h \<le> h' \<Longrightarrow> supporters t h' \<subseteq> supporters t h"
  unfolding supporters_def by (intro Union_mono image_mono) auto

lemma find_quorum_above:
  assumes "tally_wf t" "2 * total_weight t < U64" "fst (find_quorum t) = Some (h, v)"
  shows "last_finalized_height t < h"
proof (cases "om_min (chain t)")
  case None
  with assms(3) show ?thesis by (simp add: find_quorum_def om_min_def)
next
  case (Some fx)
  then show ?thesis
    using find_quorum_conv [OF assms(1,2), of "fst fx" "snd fx"] assms(3)
    by (cases fx) (simp add: last_finalized_height_def)
qed

section \<open>A tally for the witnesses\<close>

definition sample_tally :: "(nat, nat, nat) VoteTally" where
  "sample_tally = \<lparr>power_table = [(1, 10), (2, 10), (3, 10)],
     chain = [(5, Some 50), (6, Some 60), (7, None), (8, Some 80)],
     votes = [(6, [(60, [1])]), (8, [(80, [2, 3])])], pause_votes = False,
     object_votes = [(9, [1, 2, 3])], pause_object_votes = False\<rparr>"

lemma sample_tally_wf: "tally_wf sample_tally"
  by (auto simp: tally_wf_def sample_tally_def votes_wf_def)

lemma sample_tally_quorum: "fst (find_quorum sample_tally) = Some (6, 60)"
  by (simp add: find_quorum_def sample_tally_def om_min_def quorum_threshold_def sum_u64_def
      add_u64_def mul_u64_def U64_def hs_insert_def)

section \<open>Properties\<close>

text \<open>C5: \<open>find_quorum\<close> returns the best block. When twice the total power fits into 64 bits, it
  returns the highest block of this node's chain, above the finalized one, whose supporters (the
  validators that voted for it or for a later block of the chain) hold more than two thirds of the
  power; it returns nothing exactly when there is no such height, and it lifts the pause on votes.\<close>

theorem find_quorum_highest:
  assumes wf: "tally_wf t" and fits: "2 * total_weight t < U64"
  shows "snd (find_quorum t) = t\<lparr>pause_votes := False\<rparr> \<and>
    (case fst (find_quorum t) of
       None \<Rightarrow> \<forall>h. 3 * weight t (supporters t h) \<le> 2 * total_weight t
     | Some (h, v) \<Rightarrow> last_finalized_height t < h \<and> map_of (chain t) h = Some (Some v) \<and>
         2 * total_weight t < 3 * weight t (supporters t h) \<and>
         (\<forall>h'>h. 3 * weight t (supporters t h') \<le> 2 * total_weight t))"
proof (cases "om_min (chain t)")
  case None
  then have "chain t = []" by simp
  then show ?thesis
    by (simp add: find_quorum_def Let_def supporters_def weight_def om_min_def)
next
  case (Some fx)
  then obtain fin x where fin: "om_min (chain t) = Some (fin, x)" by (cases fx) simp
  note conv = find_quorum_conv [OF wf fits fin]
  have mono: "weight t (supporters t h') \<le> weight t (supporters t h)" if "h \<le> h'" for h h'
    by (rule weight_mono [OF supporters_finite supporters_antimono [OF that]])
  have below: "3 * weight t K \<le> 2 * total_weight t" if "weight t K < quorum_threshold t" for K
    using that threshold_iff [OF fits, of "weight t K"] by linarith
  show ?thesis
  proof (cases "fst (find_quorum t)")
    case None
    then have "weight t (supporters t h) < quorum_threshold t" for h
      using conv mono [of 0 h] by simp
    with None below show ?thesis by (simp add: find_quorum_snd)
  next
    case (Some hv)
    obtain h v where hv: "fst (find_quorum t) = Some (h, v)" using Some by (cases hv) simp
    have "weight t (supporters t h') < quorum_threshold t" if "h < h'" for h'
      using conv mono [of "Suc h" h'] that hv by (simp add: Suc_le_eq)
    moreover have "map_of (chain t) h = Some (Some v)"
      using conv hv wf by (simp add: tally_wf_def om_wf_distinct)
    ultimately show ?thesis
      using conv hv below fin threshold_iff [OF fits]
      by (simp add: find_quorum_snd last_finalized_height_def)
  qed
qed

theorem find_quorum_highest_witness:
  "fst (find_quorum sample_tally) = Some (6, 60) \<and>
   2 * total_weight sample_tally < 3 * weight sample_tally (supporters sample_tally 6)"
proof -
  have "2 * total_weight sample_tally < U64" by (simp add: total_weight_def sample_tally_def U64_def)
  from find_quorum_highest [OF sample_tally_wf this] show ?thesis
    unfolding sample_tally_quorum by simp
qed

text \<open>C7: no equivocation is ever recorded. In every tally reachable from the empty one by the
  public operations, in any order, a validator is recorded for at most one block at a height, and
  recorded at most once.\<close>

theorem no_equivocation:
  assumes "tally_reach t"
  shows "(k \<in> set (voters_for t h v) \<and> k \<in> set (voters_for t h w) \<longrightarrow> v = w) \<and>
    distinct (voters_for t h v) \<and> tally_wf t"
proof -
  have wf: "tally_wf t" by (rule tally.reachable_good [OF refl assms])
  have "votes_wf (or_default (map_of (votes t) h))" by (rule tally_wf_votes [OF wf])
  then have "distinct (voters_for t h v)"
    by (cases "hm_get (or_default (map_of (votes t) h)) v")
      (auto simp: voters_for_def votes_wf_def list_all_iff dest: map_of_SomeD)
  then show ?thesis using wf tally_wf_no_equivocation [OF wf] by blast
qed

theorem no_equivocation_witness:
  "\<exists>t :: (nat, nat, nat) VoteTally. tally_reach t \<and> voters_for t 4 9 = [1] \<and> distinct (voters_for t 4 9) \<and> 1 \<notin> set (voters_for t 4 8)"
proof -
  let ?t1 = "set_power_table [(1, 10)] tally_empty :: (nat, nat, nat) VoteTally"
  let ?t2 = "set_finalized 3 7 ?t1"
  obtain t where t: "add_vote 1 4 9 ?t2 = Ok (True, t)" "voters_for t 4 9 = [1]"
    by (simp add: add_vote_def set_power_table_def set_finalized_def tally_empty_def voters_for_def last_finalized_height_def
        om_min_def om_above_def hm_from_def or_default_def Let_def votes_wf_def hs_insert_def has_power_def)
  have "tally_step tally_empty ?t1" "tally_step ?t1 ?t2" "tally_step ?t2 t"
    by (rule tally_step.powers, rule tally_step.finalized, rule tally_step.vote [OF t(1)])
  then have r: "tally_reach t" by (auto intro: rtranclp.rtrancl_into_rtrancl)
  from no_equivocation [OF r, of 1 4 9 8] t(2) r show ?thesis by auto
qed



text \<open>A vote is recorded exactly once and only when it should be. A paused tally makes the
  transaction wait; a vote below the finalized height or already recorded changes nothing; a vote of a
  validator without power is refused; a vote against an earlier vote of the same validator at that
  height is refused and names that earlier block; otherwise exactly this vote is added. A vote at the
  finalized height itself is recorded.\<close>

theorem add_vote_exact:
  assumes wf: "tally_wf t"
  shows "case add_vote k h v t of
      Retry \<Rightarrow> pause_votes t
    | Err (UnpoweredValidator k') \<Rightarrow> k' = k \<and> \<not> has_power t k
    | Err (Equivocation k' h' v' w) \<Rightarrow> k' = k \<and> h' = h \<and> v' = v \<and> w \<noteq> v \<and> k \<in> set (voters_for t h w)
    | Ok (False, t') \<Rightarrow> t' = t \<and> (h < last_finalized_height t \<or> k \<in> set (voters_for t h v))
    | Ok (True, t') \<Rightarrow> has_power t k \<and> last_finalized_height t \<le> h \<and> tally_wf t' \<and>
        t' = t\<lparr>votes := votes t'\<rparr> \<and>
        (\<forall>h' v'. voters_for t' h' v' =
           (if h' = h \<and> v' = v then voters_for t h v @ [k] else voters_for t h' v'))
    | _ \<Rightarrow> False"
proof (cases "add_vote k h v t")
  case (Ok r)
  obtain b t' where r: "r = (b, t')" by (cases r)
  with Ok add_vote_Ok [OF wf, of k h v b t'] show ?thesis by (cases b) simp_all
next
  case (Err e)
  have "hm_wf (or_default (map_of (votes t) h))" using tally_wf_votes [OF wf] by (simp add: votes_wf_def)
  then show ?thesis
    using Err find_equivocation_Some [of "or_default (map_of (votes t) h)" k v]
    by (auto simp: add_vote_def Let_def voters_for_def split: if_splits option.splits)
qed (auto simp: add_vote_def Let_def split: if_splits option.splits)

theorem add_vote_exact_witness:
  "\<exists>t'. add_vote 2 5 50 sample_tally = Ok (True, t') \<and> last_finalized_height sample_tally = 5 \<and>
     voters_for t' 5 50 = [2]"
proof -
  obtain t' where t': "add_vote 2 5 50 sample_tally = Ok (True, t')"
    by (simp add: add_vote_def sample_tally_def last_finalized_height_def om_min_def has_power_def)
  moreover have "voters_for sample_tally 5 50 = []" "last_finalized_height sample_tally = 5"
    by (simp_all add: voters_for_def sample_tally_def last_finalized_height_def om_min_def)
  ultimately show ?thesis using add_vote_exact [OF sample_tally_wf, of 2 5 50] by simp
qed

text \<open>Finalizing a block trims the tally to it. The finalized block becomes the first of the
  chain, later blocks and the votes on them stay, and everything at or below its height is forgotten,
  so a later \<open>find_quorum\<close> can only return a higher block.\<close>

theorem set_finalized_trims:
  assumes wf: "tally_wf t" and fits: "2 * total_weight t < U64"
  shows "last_finalized_height (set_finalized h v t) = h \<and>
    tally_block_hash (set_finalized h v t) h = Some v \<and>
    (\<forall>h'>h. map_of (chain (set_finalized h v t)) h' = map_of (chain t) h' \<and>
       voters_for (set_finalized h v t) h' w = voters_for t h' w) \<and>
    (\<forall>h'\<le>h. voters_for (set_finalized h v t) h' w = []) \<and>
    (\<forall>h' w'. fst (find_quorum (set_finalized h v t)) = Some (h', w') \<longrightarrow> h < h')"
proof -
  have om: "om_wf (chain t)" using wf by (simp add: tally_wf_def)
  then have above: "om_wf (om_above h (chain t))" by simp
  have keys: "\<forall>j \<in> fst ` set (om_above h (chain t)). h < j" by (auto simp: om_above_def)
  then have fin: "last_finalized_height (set_finalized h v t) = h"
    by (simp add: last_finalized_height_def set_finalized_def om_insert_cons om_min_def)
  have wf': "tally_wf (set_finalized h v t)"
    by (rule tally_step_keeps [OF tally_step.finalized wf])
  have fits': "2 * total_weight (set_finalized h v t) < U64"
    using fits by (simp add: total_weight_def set_finalized_def)
  have "h < h'" if "fst (find_quorum (set_finalized h v t)) = Some (h', w')" for h' w'
    using find_quorum_above [OF wf' fits' that] fin by simp
  then show ?thesis
    using fin above by (simp add: tally_block_hash_def voters_for_def set_finalized_def)
qed

theorem set_finalized_trims_witness:
  "last_finalized_height (set_finalized 6 60 sample_tally) = 6 \<and>
   voters_for (set_finalized 6 60 sample_tally) 8 80 = [2, 3] \<and>
   voters_for (set_finalized 6 60 sample_tally) 6 60 = []"
proof -
  have "2 * total_weight sample_tally < U64" by (simp add: total_weight_def sample_tally_def U64_def)
  note f = set_finalized_trims [OF sample_tally_wf this, of 6 60]
  from f [of 80] f [of 60] show ?thesis by (simp add: voters_for_def sample_tally_def)
qed

lemma update_powers_get:
  "(case hm_get (update_powers us pt) k of None \<Rightarrow> 0 | Some w \<Rightarrow> w) =
     (case map_of (rev us) k of
        Some w \<Rightarrow> w | None \<Rightarrow> (case hm_get pt k of None \<Rightarrow> 0 | Some w \<Rightarrow> w))"
proof (induction us pt rule: update_powers.induct)
  case (2 vk w us pt)
  then show ?case by (auto simp: map_add_def split: option.splits)
qed simp

lemma vpower_update:
  "vpower (update_power_table us t) k = (case map_of (rev us) k of Some w \<Rightarrow> w | None \<Rightarrow> vpower t k)"
  using update_powers_get [of us "power_table t" k]
  by (simp add: vpower_def update_power_table_def split: option.splits)

text \<open>Updating the power table sets exactly the named validators. The power of a validator after
  \<open>update_power_table\<close> is that of its last update, a zero removing it, and its old power when it is
  not named.\<close>

theorem update_power_table_pointwise:
  "vpower (update_power_table us t) k = (case map_of (rev us) k of Some w \<Rightarrow> w | None \<Rightarrow> vpower t k)"
  by (rule vpower_update)

text \<open>An object is finalized by the same two-thirds rule. With a power table, an object has a
  quorum exactly when its voters hold more than two thirds of the power; without one (a subnet without
  a parent) a single vote is enough.\<close>

theorem find_object_quorum_iff:
  assumes wf: "tally_wf t" and fits: "2 * total_weight t < U64"
  shows "fst (find_object_quorum ob t) \<longleftrightarrow>
    (if power_table t = [] then object_voters t ob \<noteq> []
     else 2 * total_weight t < 3 * weight t (set (object_voters t ob)))"
proof (cases "hm_get (object_votes t) ob")
  case None
  then show ?thesis by (simp add: find_object_quorum_def object_voters_def weight_def)
next
  case (Some vs)
  let ?c = "count_voters (power_table t) vs 0 []"
  obtain w ks where c: "?c = (w, ks)" by (cases ?c)
  have "hm_wf (power_table t)" using wf by (simp add: tally_wf_def)
  from count_voters_spec [OF this fits, of 0 "[]" vs] c
  have w: "w = weight t (set vs)" "set ks = set vs" by (simp_all add: weight_def)
  have "total_weight t = 0" "w = 0" if "power_table t = []"
    using that w(1) by (simp_all add: total_weight_def weight_def vpower_def)
  moreover have "ks = [] \<longleftrightarrow> vs = []" using w(2) by (metis set_empty)
  ultimately show ?thesis
    using Some c w threshold_iff [OF fits, of w]
    by (auto simp: find_object_quorum_def object_voters_def quorum_threshold_def Let_def)
qed

theorem find_object_quorum_iff_witness:
  "fst (find_object_quorum 9 sample_tally) \<and> \<not> fst (find_object_quorum 4 sample_tally)"
proof -
  have "2 * total_weight sample_tally < U64" by (simp add: total_weight_def sample_tally_def U64_def)
  note f = find_object_quorum_iff [OF sample_tally_wf this]
  from f [of 9] f [of 4] show ?thesis
    by (simp add: object_voters_def weight_def total_weight_def vpower_def sample_tally_def)
qed

text \<open>The threshold wraps. For any total power that fits into 64 bits the threshold is computed
  from twice that power modulo \<open>2^64\<close>; from \<open>2^63\<close> on it is no longer two thirds, and at exactly
  \<open>2^63\<close> a single unit of power reaches it.\<close>

theorem quorum_threshold_wraps:
  assumes "total_weight t < U64"
  shows "quorum_threshold t = (2 * total_weight t) mod U64 div 3 + 1"
proof -
  have s: "sum_u64 (map snd (power_table t)) = total_weight t"
    using assms by (simp add: total_weight_def sum_u64_exact)
  have "(2 * total_weight t) mod U64 < U64" by simp
  then have "(2 * total_weight t) mod U64 div 3 + 1 < U64" by (simp add: U64_def)
  then show ?thesis unfolding quorum_threshold_def s mul_u64_def
    by (subst add_u64_exact) (simp_all add: mult.commute)
qed

theorem quorum_threshold_wraps_witness:
  "quorum_threshold (set_power_table [(1, 2 ^ 62), (2, 2 ^ 62)] tally_empty :: (nat, nat, nat) VoteTally) = 1"
proof -
  let ?t = "set_power_table [(1, 2 ^ 62), (2, 2 ^ 62)] tally_empty :: (nat, nat, nat) VoteTally"
  have "total_weight ?t = 2 ^ 63"
    by (simp add: total_weight_def set_power_table_def tally_empty_def hm_from_def)
  with quorum_threshold_wraps [of ?t] show ?thesis by (simp add: U64_def)
qed

end
