(* ===== verification/Parent_Syncer.thy ===== *)
theory Parent_Syncer
  imports Finality_Provider Vote_Tally
begin

text \<open>
  The polling syncer of the topdown crate (\<open>sync/mod.rs\<close>, \<open>sync/syncer.rs\<close>,
  \<open>sync/tendermint.rs\<close>) and the proxy to the parent (\<open>proxy.rs\<close>). It fills the finality
  provider and the vote tally from the parent chain.

  The parent is a record of answers: within one round of \<open>sync\<close> every height is asked for at most
  once, so an answer is a function of the height. The ledger's answers to the start-up query, which is
  repeated every five seconds until it succeeds, are a list. A round is not a transaction: it returns
  the state it has reached together with its result.

  The invariant \<open>syncer_wf\<close> ties the two components together: above the committed finality the
  vote tally's chain is exactly what the provider has cached.
\<close>

section \<open>The parent\<close>

record 'a Parent =
  get_chain_head_height :: "(string, BlockHeight) outcome"
  get_genesis_epoch :: "(string, BlockHeight) outcome"
  get_block_hash :: "BlockHeight \<Rightarrow> (string, BlockHash \<times> BlockHash) outcome"
  get_top_down_msgs :: "BlockHeight \<Rightarrow> (string, 'a IpcEnvelope list \<times> BlockHash) outcome"
  get_validator_changes :: "BlockHeight \<Rightarrow> (string, 'a StakingChangeRequest list \<times> BlockHash) outcome"

text \<open>\<open>IPCProviderProxy\<close> sorts what the provider returns; the provider's answers are parameters.\<close>

definition proxy_get_top_down_msgs ::
  "(BlockHeight \<Rightarrow> (string, 'a IpcEnvelope list \<times> BlockHash) outcome) \<Rightarrow> BlockHeight \<Rightarrow>
     (string, 'a IpcEnvelope list \<times> BlockHash) outcome" where
  "proxy_get_top_down_msgs q height = omap (\<lambda>(v, hash). (sort_key env_nonce v, hash)) (q height)"

definition proxy_get_validator_changes ::
  "(BlockHeight \<Rightarrow> (string, 'a StakingChangeRequest list \<times> BlockHash) outcome) \<Rightarrow> BlockHeight \<Rightarrow>
     (string, 'a StakingChangeRequest list \<times> BlockHash) outcome" where
  "proxy_get_validator_changes q height =
     omap (\<lambda>(v, hash). (sort_key configuration_number v, hash)) (q height)"

section \<open>The syncer\<close>

record ('a, 'k, 'o) LotusParentSyncer =
  sy_config :: Config
  sy_provider :: "'a CachedFinalityProvider Toggle"
  sy_vote_tally :: "('k, BlockHash, 'o) VoteTally"
  sync_many :: bool

datatype sync_error = TopdownErr topdown_error | ClientErr string

definition syncer_new ::
  "Config \<Rightarrow> 'a CachedFinalityProvider Toggle \<Rightarrow> ('k, BlockHash, 'o) VoteTally \<Rightarrow>
     ('a, 'k, 'o) LotusParentSyncer" where
  "syncer_new cfg provider tally =
     \<lparr>sy_config = cfg, sy_provider = provider, sy_vote_tally = tally, sync_many = True\<rparr>"

text \<open>The start-up query: the ledger's successive answers; \<open>None\<close> while it is still waiting.\<close>

fun query_starting_finality ::
  "'a Parent \<Rightarrow> (string, IPCParentFinality option) outcome list \<Rightarrow>
     (string, IPCParentFinality) outcome option" where
  "query_starting_finality parent [] = None"
| "query_starting_finality parent (ans # rest) =
     (case ans of
        Ok (Some finality) \<Rightarrow>
          Some (if fin_height finality = 0
                then obind (get_genesis_epoch parent) (\<lambda>genesis_epoch.
                     obind (get_block_hash parent genesis_epoch) (\<lambda>r.
                     Ok \<lparr>fin_height = genesis_epoch, fin_block_hash = fst r\<rparr>))
                else Ok finality)
      | _ \<Rightarrow> query_starting_finality parent rest)"

fun query_starting_comittee ::
  "(string, ('k \<times> nat) list option) outcome list \<Rightarrow> ('k \<times> nat) list option" where
  "query_starting_comittee [] = None"
| "query_starting_comittee (ans # rest) =
     (case ans of Ok (Some pt) \<Rightarrow> Some pt | _ \<Rightarrow> query_starting_comittee rest)"

text \<open>The initialisation in \<open>launch_polling_syncer\<close>, given the results of the two start-up
  queries.\<close>

definition launch_polling_syncer ::
  "Config \<Rightarrow> 'a CachedFinalityProvider Toggle \<Rightarrow> ('k, BlockHash, 'o) VoteTally \<Rightarrow>
     (string, IPCParentFinality) outcome \<Rightarrow> ('k \<times> nat) list \<Rightarrow>
     (string, ('a, 'k, 'o) LotusParentSyncer) outcome" where
  "launch_polling_syncer cfg provider tally starting_finality committee =
     (if \<not> toggle_is_enabled provider then Err ''provider not enabled, enable to run syncer''
      else obind starting_finality (\<lambda>finality.
        let provider' = toggle_set_new_finality finality None provider;
            tally' = set_power_table committee
              (set_finalized (fin_height finality) (fin_block_hash finality) tally)
        in Ok (syncer_new cfg provider' tally')))"

definition exceed_cache_size_limit :: "('a, 'k, 'o) LotusParentSyncer \<Rightarrow> bool" where
  "exceed_cache_size_limit s =
     (config_max_cache_blocks (sy_config s) < toggle_cached_blocks (sy_provider s))"

definition latest_cached_data ::
  "('a, 'k, 'o) LotusParentSyncer \<Rightarrow> ('e, BlockHeight \<times> BlockHash) outcome" where
  "latest_cached_data s =
     (case toggle_latest_height (sy_provider s) of
        None \<Rightarrow> Panic
      | Some latest_height \<Rightarrow>
          obind (toggle_first_non_null_block (sy_provider s) latest_height) (\<lambda>first.
          obind (case first of
                   Some height \<Rightarrow> Ok height
                 | None \<Rightarrow>
                     (case toggle_last_committed_finality (sy_provider s) of
                        Some p \<Rightarrow> Ok (fin_height p)
                      | None \<Rightarrow> Panic)) (\<lambda>prev_non_null_height.
          obind (toggle_block_hash (sy_provider s) prev_non_null_height) (\<lambda>hash.
          case hash of Some h \<Rightarrow> Ok (latest_height, h) | None \<Rightarrow> Panic))))"

definition map_voting_err :: "('k, 'v) vote_error \<Rightarrow> topdown_error" where
  "map_voting_err e = NotSequential"

text \<open>The transaction that adds a block, or a null round, to the provider and the tally.\<close>

definition push_view ::
  "BlockHeight \<Rightarrow> 'a ParentViewPayload option \<Rightarrow> ('a, 'k, 'o) LotusParentSyncer \<Rightarrow>
     (topdown_error, ('a, 'k, 'o) LotusParentSyncer) outcome" where
  "push_view height data s =
     obind (toggle_new_parent_view height data (sy_provider s)) (\<lambda>provider.
     obind (map_err map_voting_err (add_block height (map_option fst data) (sy_vote_tally s))) (\<lambda>tally.
     Ok (s\<lparr>sy_provider := provider, sy_vote_tally := tally\<rparr>)))"

definition fetch_data ::
  "'a Parent \<Rightarrow> BlockHeight \<Rightarrow> BlockHash \<Rightarrow> (topdown_error, 'a ParentViewPayload) outcome" where
  "fetch_data parent height block_hash =
     obind (map_err (\<lambda>e. CannotQueryParent (''get_validator_changes: '' @ e) height)
              (get_validator_changes parent height)) (\<lambda>changes_res.
     obind (map_err (\<lambda>e. CannotQueryParent (''get_top_down_msgs: '' @ e) height)
              (get_top_down_msgs parent height)) (\<lambda>topdown_msgs_res.
     if snd changes_res \<noteq> block_hash then Err ParentChainReorgDetected
     else if snd topdown_msgs_res \<noteq> block_hash then Err ParentChainReorgDetected
     else Ok (block_hash, fst changes_res, fst topdown_msgs_res)))"

definition poll_next ::
  "'a Parent \<Rightarrow> BlockHeight \<Rightarrow> BlockHash \<Rightarrow> ('a, 'k, 'o) LotusParentSyncer \<Rightarrow>
     (topdown_error, BlockHash \<times> ('a, 'k, 'o) LotusParentSyncer) outcome" where
  "poll_next parent height parent_block_hash s =
     (case get_block_hash parent height of
        Err e \<Rightarrow>
          if is_null_round_str e
          then obind (push_view height None s) (\<lambda>s'. Ok (parent_block_hash, s'))
          else Err (CannotQueryParent (''get_block_hash: '' @ e) height)
      | Ok (block_hash, its_parent_hash) \<Rightarrow>
          if its_parent_hash \<noteq> parent_block_hash then Err ParentChainReorgDetected
          else obind (fetch_data parent height block_hash) (\<lambda>data.
               obind (push_view height (Some data) s) (\<lambda>s'. Ok (fst data, s')))
      | Retry \<Rightarrow> Retry
      | Panic \<Rightarrow> Panic)"

definition finalized_chain_head ::
  "'a Parent \<Rightarrow> ('a, 'k, 'o) LotusParentSyncer \<Rightarrow> (string, BlockHeight option) outcome" where
  "finalized_chain_head parent s =
     obind (get_chain_head_height parent) (\<lambda>head.
     if head < chain_head_delay (sy_config s) then Ok None
     else Ok (Some (head - chain_head_delay (sy_config s))))"

definition syncer_reset ::
  "(string, IPCParentFinality) outcome \<Rightarrow> ('a, 'k, 'o) LotusParentSyncer \<Rightarrow>
     ('a, 'k, 'o) LotusParentSyncer \<times> (sync_error, unit) outcome" where
  "syncer_reset starting_finality s =
     (case starting_finality of
        Ok finality \<Rightarrow> (s\<lparr>sy_provider := toggle_reset finality (sy_provider s)\<rparr>, Ok ())
      | Err e \<Rightarrow> (s, Err (ClientErr e))
      | Retry \<Rightarrow> (s, Retry)
      | Panic \<Rightarrow> (s, Panic))"

text \<open>The loop of \<open>sync\<close>, with the number \<open>gap\<close> of heights left to the chain head: the loop
  variable \<open>latest_height_fetched\<close> is \<open>head - gap\<close>.\<close>

primrec sync_loop ::
  "'a Parent \<Rightarrow> (string, IPCParentFinality) outcome \<Rightarrow> BlockHeight \<Rightarrow> nat \<Rightarrow> BlockHash \<Rightarrow>
     ('a, 'k, 'o) LotusParentSyncer \<Rightarrow>
     ('a, 'k, 'o) LotusParentSyncer \<times> (sync_error, unit) outcome" where
  "sync_loop parent starting head 0 parent_hash s = (s, Ok ())"
| "sync_loop parent starting head (Suc gap) parent_hash s =
     (if exceed_cache_size_limit s then (s, Ok ())
      else case poll_next parent (head - gap) parent_hash s of
        Ok (hash, s') \<Rightarrow>
          if gap = 0 then (s', Ok ())
          else if \<not> sync_many s' then (s', Ok ())
          else sync_loop parent starting head gap hash s'
      | Err e \<Rightarrow>
          if e = ParentChainReorgDetected then syncer_reset starting s
          else (s, Err (TopdownErr e))
      | Retry \<Rightarrow> (s, Retry)
      | Panic \<Rightarrow> (s, Panic))"

definition sync ::
  "'a Parent \<Rightarrow> (string, IPCParentFinality) outcome \<Rightarrow> ('a, 'k, 'o) LotusParentSyncer \<Rightarrow>
     ('a, 'k, 'o) LotusParentSyncer \<times> (sync_error, unit) outcome" where
  "sync parent starting s =
     (case finalized_chain_head parent s of
        Ok None \<Rightarrow> (s, Ok ())
      | Ok (Some chain_head) \<Rightarrow>
          (case latest_cached_data s of
             Ok (latest_height_fetched, parent_hash) \<Rightarrow>
               if chain_head < latest_height_fetched then syncer_reset starting s
               else if latest_height_fetched = chain_head then (s, Ok ())
               else sync_loop parent starting chain_head (chain_head - latest_height_fetched) parent_hash s
           | Err e \<Rightarrow> (s, Err (ClientErr e))
           | Retry \<Rightarrow> (s, Retry)
           | Panic \<Rightarrow> (s, Panic))
      | Err e \<Rightarrow> (s, Err (ClientErr e))
      | Retry \<Rightarrow> (s, Retry)
      | Panic \<Rightarrow> (s, Panic))"

text \<open>\<open>TendermintAwareSyncer::sync\<close>: no parent syncing while CometBFT catches up.\<close>

definition tendermint_sync ::
  "(string, bool) outcome \<Rightarrow> 'a Parent \<Rightarrow> (string, IPCParentFinality) outcome \<Rightarrow>
     ('a, 'k, 'o) LotusParentSyncer \<Rightarrow>
     ('a, 'k, 'o) LotusParentSyncer \<times> (sync_error, unit) outcome" where
  "tendermint_sync is_syncing_peer parent starting s =
     (case is_syncing_peer of
        Ok True \<Rightarrow> (s, Ok ())
      | Ok False \<Rightarrow> sync parent starting s
      | Err e \<Rightarrow> (s, Err (ClientErr e))
      | Retry \<Rightarrow> (s, Retry)
      | Panic \<Rightarrow> (s, Panic))"

fun fetch_topdown_events ::
  "'a Parent \<Rightarrow> BlockHeight list \<Rightarrow> (BlockHeight \<times> 'a ParentViewPayload) list \<Rightarrow>
     (topdown_error, (BlockHeight \<times> 'a ParentViewPayload) list) outcome" where
  "fetch_topdown_events parent [] events = Ok events"
| "fetch_topdown_events parent (height # heights) events =
     (case get_block_hash parent height of
        Ok (block_hash, _) \<Rightarrow>
          obind (fetch_data parent height block_hash) (\<lambda>data.
          case data of (hash, changes, msgs) \<Rightarrow>
            fetch_topdown_events parent heights
              (if changes = [] \<and> msgs = [] then events else events @ [(height, data)]))
      | Err e \<Rightarrow>
          if is_null_round_str e then fetch_topdown_events parent heights events
          else Err (CannotQueryParent (''get_block_hash: '' @ e) height)
      | Retry \<Rightarrow> Retry
      | Panic \<Rightarrow> Panic)"

section \<open>The invariant\<close>

text \<open>The chain the tally should hold for a provider: the committed block, then the cached heights
  above it, each with its hash or as a null round.\<close>

definition view_at :: "'a FinalityWithNull \<Rightarrow> BlockHeight \<Rightarrow> BlockHash option option" where
  "view_at p h =
     (case last_committed_finality p of
        None \<Rightarrow> None
      | Some f \<Rightarrow>
          if h = fin_height f then Some (Some (fin_block_hash f))
          else if fin_height f < h then map_option (map_option fst) (cache_map (cached_data p) h)
          else None)"

definition syncer_wf :: "('a, 'k, 'o) LotusParentSyncer \<Rightarrow> bool" where
  "syncer_wf s =
     (case sy_provider s of
        None \<Rightarrow> False
      | Some p \<Rightarrow> provider_wf (cfp_inner p) \<and> tally_wf (sy_vote_tally s) \<and>
          last_committed_finality (cfp_inner p) \<noteq> None \<and>
          map_of (chain (sy_vote_tally s)) = view_at (cfp_inner p))"

text \<open>The steps of the topdown subsystem: a successful poll of the next height, the commitment of a
  finality by the ledger (which updates provider and tally in one transaction), and every change of
  the tally that leaves its chain alone (votes, quorum searches, power updates).\<close>

definition commit_finality_step ::
  "IPCParentFinality \<Rightarrow> IPCParentFinality option \<Rightarrow> ('a, 'k, 'o) LotusParentSyncer \<Rightarrow>
     ('a, 'k, 'o) LotusParentSyncer" where
  "commit_finality_step f prev s =
     s\<lparr>sy_provider := toggle_set_new_finality f prev (sy_provider s),
       sy_vote_tally := set_finalized (fin_height f) (fin_block_hash f) (sy_vote_tally s)\<rparr>"

inductive topdown_step :: "('a, 'k, 'o) LotusParentSyncer \<Rightarrow> ('a, 'k, 'o) LotusParentSyncer \<Rightarrow> bool" where
  poll: "toggle_latest_height (sy_provider s) = Some l \<Longrightarrow> Suc l < U64 \<Longrightarrow>
    poll_next parent (Suc l) parent_hash s = Ok (hash, s') \<Longrightarrow> topdown_step s s'"
| commit: "toggle_last_committed_finality (sy_provider s) = Some c \<Longrightarrow>
    fin_height c \<le> fin_height f \<Longrightarrow> fin_height f < U64 \<Longrightarrow>
    topdown_step s (commit_finality_step f prev s)"
| tally: "tally_step (sy_vote_tally s) t \<Longrightarrow> chain t = chain (sy_vote_tally s) \<Longrightarrow>
    topdown_step s (s\<lparr>sy_vote_tally := t\<rparr>)"

inductive_cases topdown_stepE: "topdown_step s s'"

section \<open>Lemmas\<close>

lemma om_max_eqI:
  assumes "om_wf c" "map_of c l = Some x" "\<And>h. map_of c h \<noteq> None \<Longrightarrow> h \<le> l"
  shows "om_max c = Some (l, x)"
proof -
  have "c \<noteq> []" using assms(2) by auto
  then obtain m y where m: "om_max c = Some (m, y)" by (cases "om_max c") auto
  have "(m, y) \<in> set c" by (rule om_max_in_set [OF m])
  then have my: "map_of c m = Some y" using om_wf_distinct [OF assms(1)] by simp
  then have "m \<le> l" using assms(3) by simp
  moreover have "l \<le> m" by (rule om_max_ge [OF assms(1) m om_get_Some_in [OF assms(2)]])
  ultimately show ?thesis using m my assms(2) by simp
qed

lemma syncer_wfD:
  assumes "syncer_wf s"
  obtains p c where "sy_provider s = Some p" "provider_wf (cfp_inner p)" "tally_wf (sy_vote_tally s)"
    "last_committed_finality (cfp_inner p) = Some c"
    "map_of (chain (sy_vote_tally s)) = view_at (cfp_inner p)"
  using assms by (auto simp: syncer_wf_def split: option.splits)

lemma latest_view:
  assumes wf: "provider_wf p" and c: "last_committed_finality p = Some c"
    and l: "fwn_latest_height p = Some l"
  shows "view_at p l \<noteq> None" "view_at p h \<noteq> None \<Longrightarrow> h \<le> l"
proof -
  have cl: "fin_height c \<le> l" by (rule latest_above_committed [OF wf l c])
  consider "latest_height_in_cache p = Some l" | "latest_height_in_cache p = None" "fin_height c = l"
    using latest_cases [OF l] c by auto
  then have "view_at p l \<noteq> None \<and> (view_at p h \<noteq> None \<longrightarrow> h \<le> l)"
  proof cases
    case 1
    then have u: "cache_map (cached_data p) l \<noteq> None" "\<And>k. cache_map (cached_data p) k \<noteq> None \<Longrightarrow> k \<le> l"
      using uc.upper_bound_iff [OF provider_wf_cache [OF wf], of l] by (auto simp: latest_height_in_cache_def)
    then have "h \<le> l" if "cache_map (cached_data p) h \<noteq> None" using that by blast
    then show ?thesis using u(1) cl by (cases "cache_map (cached_data p) h") (auto simp: view_at_def c)
  next
    case 2
    then have "cache_lower_bound (cached_data p) = None"
      by (auto simp: latest_height_in_cache_def cache_lower_bound_conv cache_upper_bound_conv split: if_splits)
    then have "cache_map (cached_data p) k = None" for k
      using uc.lower_None [OF provider_wf_cache [OF wf]] by blast
    then show ?thesis using 2 by (auto simp: view_at_def c)
  qed
  then show "view_at p l \<noteq> None" "view_at p h \<noteq> None \<Longrightarrow> h \<le> l" by simp_all
qed

lemma tally_latest:
  assumes "syncer_wf s" "toggle_latest_height (sy_provider s) = Some l"
  shows "\<exists>x. om_max (chain (sy_vote_tally s)) = Some (l, x)"
proof -
  obtain p c where p: "sy_provider s = Some p" "provider_wf (cfp_inner p)" "tally_wf (sy_vote_tally s)"
    "last_committed_finality (cfp_inner p) = Some c"
    "map_of (chain (sy_vote_tally s)) = view_at (cfp_inner p)" using syncer_wfD [OF assms(1)] .
  have l: "fwn_latest_height (cfp_inner p) = Some l" using assms(2) p(1) by (simp add: toggle_latest_height_def)
  obtain x where "view_at (cfp_inner p) l = Some x" using latest_view(1) [OF p(2,4) l] by auto
  then have "om_max (chain (sy_vote_tally s)) = Some (l, x)"
    using p latest_view(2) [OF p(2,4) l] by (intro om_max_eqI) (auto simp: tally_wf_def)
  then show ?thesis ..
qed

lemma add_block_next:
  assumes "tally_wf t" "om_max (chain t) = Some (l, x)" "Suc l < U64"
  shows "add_block h v t = (if h = Suc l then Ok (t\<lparr>chain := om_insert h v (chain t)\<rparr>)
     else Err (UnexpectedBlock (Suc l) h))"
  using assms(2,3) by (simp add: add_block_def u64_simps)

lemma push_view_conv:
  assumes wf: "syncer_wf s" and l: "toggle_latest_height (sy_provider s) = Some l" "Suc l < U64"
  shows "if payload_sequential v
     then \<exists>s'. push_view (Suc l) v s = Ok s' \<and> syncer_wf s' \<and>
       toggle_latest_height (sy_provider s') = Some (Suc l) \<and>
       sy_config s' = sy_config s \<and> sync_many s' = sync_many s
     else push_view (Suc l) v s = Err NotSequential"
proof -
  obtain p c where p: "sy_provider s = Some p" "provider_wf (cfp_inner p)" "tally_wf (sy_vote_tally s)"
    "last_committed_finality (cfp_inner p) = Some c"
    "map_of (chain (sy_vote_tally s)) = view_at (cfp_inner p)" using syncer_wfD [OF wf] .
  let ?p = "cfp_inner p" and ?t = "sy_vote_tally s"
  have lp: "fwn_latest_height ?p = Some l" using l(1) p(1) by (simp add: toggle_latest_height_def)
  obtain x where mx: "om_max (chain ?t) = Some (l, x)" using tally_latest [OF wf l(1)] by blast
  note block = add_block_next [OF p(3) mx l(2), of "Suc l" "map_option fst v"]
  show ?thesis
  proof (cases "payload_sequential v")
    case True
    obtain p' where p': "fwn_new_parent_view (Suc l) v ?p = Ok p'"
      using fwn_append_next [OF p(2) lp l(2)] True by (auto simp: fwn_new_parent_view_conv)
    note k = new_parent_view_keeps [OF p(2) lp l(2) p']
    let ?t' = "?t\<lparr>chain := om_insert (Suc l) (map_option fst v) (chain ?t)\<rparr>"
    let ?s' = "s\<lparr>sy_provider := Some (p\<lparr>cfp_inner := p'\<rparr>), sy_vote_tally := ?t'\<rparr>"
    have push: "push_view (Suc l) v s = Ok ?s'"
      using p(1) p' block
      by (simp add: push_view_def toggle_new_parent_view_def perform_or_else_def cfp_new_parent_view_def)
    have "tally_wf ?t'" using tally_step_keeps [OF tally_step.block p(3)] block by simp
    moreover have "fin_height c \<le> l" by (rule latest_above_committed [OF p(2) lp p(4)])
    then have "map_of (chain ?t') = view_at p'"
      using k p(3,4,5) by (auto simp: fun_eq_iff view_at_def tally_wf_def)
    ultimately have "syncer_wf ?s'" using k p(4) by (simp add: syncer_wf_def)
    moreover have "toggle_latest_height (sy_provider ?s') = Some (Suc l)"
      using k by (simp add: toggle_latest_height_def fwn_latest_height_def)
    ultimately show ?thesis using True push by auto
  next
    case False
    then show ?thesis using p(1)
      by (simp add: push_view_def toggle_new_parent_view_def perform_or_else_def cfp_new_parent_view_def
          fwn_new_parent_view_conv)
  qed
qed

lemma poll_next_Ok:
  assumes "poll_next parent h ph s = Ok (hash, s')"
  shows "\<exists>v. push_view h v s = Ok s' \<and> (case v of None \<Rightarrow> hash = ph | Some d \<Rightarrow> hash = fst d)"
  using assms by (force simp: poll_next_def outcome_simps split: outcome.splits if_splits)

lemma push_view_keeps:
  assumes "syncer_wf s" "toggle_latest_height (sy_provider s) = Some l" "Suc l < U64"
    "push_view (Suc l) v s = Ok s'"
  shows "payload_sequential v" "syncer_wf s'" "toggle_latest_height (sy_provider s') = Some (Suc l)"
    "sync_many s' = sync_many s"
  using push_view_conv [OF assms(1-3), of v] assms(4) by (auto split: if_splits)

lemma commit_finality_keeps:
  assumes wf: "syncer_wf s" and c: "toggle_last_committed_finality (sy_provider s) = Some c"
    and f: "fin_height c \<le> fin_height f" "fin_height f < U64"
  shows "syncer_wf (commit_finality_step f prev s)"
proof -
  obtain p c' where p: "sy_provider s = Some p" "provider_wf (cfp_inner p)" "tally_wf (sy_vote_tally s)"
    "last_committed_finality (cfp_inner p) = Some c'"
    "map_of (chain (sy_vote_tally s)) = view_at (cfp_inner p)" using syncer_wfD [OF wf] .
  then have "c' = c" using c by (simp add: toggle_last_committed_finality_def)
  note k = set_new_finality_keeps [OF p(2) f(2), of prev]
  let ?p = "fwn_set_new_finality f prev (cfp_inner p)"
  let ?t = "set_finalized (fin_height f) (fin_block_hash f) (sy_vote_tally s)"
  have t: "tally_wf ?t" by (rule tally_step_keeps [OF tally_step.finalized p(3)])
  have last: "last_committed_finality ?p = Some f" by (simp add: fwn_set_new_finality_def)
  have "om_wf (chain (sy_vote_tally s))" using p(3) by (simp add: tally_wf_def)
  then have "map_of (chain ?t) h = view_at ?p h" for h
    using p(4,5) \<open>c' = c\<close> f(1) k(2) [of h]
    by (simp add: set_finalized_def view_at_def last)
  then have "map_of (chain ?t) = view_at ?p" ..
  then show ?thesis
    using k(1) t last p(1)
    by (simp add: syncer_wf_def commit_finality_step_def toggle_set_new_finality_def cfp_set_new_finality_def)
qed

lemma topdown_step_keeps: "topdown_step s s' \<Longrightarrow> syncer_wf s \<Longrightarrow> syncer_wf s'"
proof (induction rule: topdown_step.induct)
  case (poll s l parent parent_hash hash s')
  then show ?case using poll_next_Ok [OF poll.hyps(3)] push_view_keeps(2) by blast
next
  case (commit s c f prev)
  show ?case by (rule commit_finality_keeps [OF commit.prems commit.hyps])
next
  case (tally s t)
  then show ?case using tally_step_keeps by (auto simp: syncer_wf_def split: option.splits)
qed

interpretation topdown: step_invariant topdown_step syncer_wf
  by unfold_locales (rule topdown_step_keeps)

lemma launch_wf:
  assumes "fin_height f < U64"
    and "launch_polling_syncer cfg (toggle_enabled (cfp_new cfg genesis None)) tally_empty (Ok f) powers = Ok s"
  shows "syncer_wf s"
proof -
  let ?p = "fwn_new cfg genesis None :: 'a FinalityWithNull"
  have p: "provider_wf ?p" by (rule provider_wf_new [OF refl])
  have wf': "provider_wf (fwn_set_new_finality f None ?p)" by (rule set_new_finality_keeps(1) [OF p assms(1)])
  have empty: "cache_map (cached_data (fwn_set_new_finality f None ?p)) h = None" for h
    using set_new_finality_keeps(2) [OF p assms(1), of None h] by (simp add: fwn_new_def cache_sequential_def)
  have "tally_wf (tally_empty :: ('b, BlockHash, 'c) VoteTally)"
    by (simp add: tally_empty_def tally_wf_def)
  then have t: "tally_wf (set_power_table powers (set_finalized (fin_height f) (fin_block_hash f)
      (tally_empty :: ('b, BlockHash, 'c) VoteTally)))"
    by (intro tally_step_keeps [OF tally_step.powers] tally_step_keeps [OF tally_step.finalized])
  have "last_committed_finality (fwn_set_new_finality f None ?p) = Some f"
    by (simp add: fwn_set_new_finality_def)
  then have "view_at (fwn_set_new_finality f None ?p) = [fin_height f \<mapsto> Some (fin_block_hash f)]"
    by (auto simp: view_at_def empty fun_eq_iff)
  with assms(2) wf' t \<open>last_committed_finality _ = Some f\<close> show ?thesis
    by (auto simp: launch_polling_syncer_def toggle_enabled_def toggle_is_enabled_def syncer_new_def
        syncer_wf_def toggle_set_new_finality_def cfp_set_new_finality_def cfp_new_def
        set_power_table_def set_finalized_def tally_empty_def om_above_def)
qed

section \<open>A state for the witnesses\<close>

definition sample_parent :: "nat Parent" where
  "sample_parent = \<lparr>get_chain_head_height = Ok 108, get_genesis_epoch = Ok 1,
     get_block_hash = (\<lambda>h. Ok ([h], if h = 106 then [5] else [h - 1])),
     get_top_down_msgs = (\<lambda>h. Ok ([], [h])), get_validator_changes = (\<lambda>h. Ok ([], [h]))\<rparr>"

definition sample_syncer :: "(nat, nat, nat) LotusParentSyncer" where
  "sample_syncer = \<lparr>sy_config = sample_config,
     sy_provider = Some \<lparr>cfp_inner = sample_provider, cfp_config = sample_config\<rparr>,
     sy_vote_tally = \<lparr>power_table = [(1, 10), (2, 10), (3, 10)],
       chain = [(100, Some [0]), (101, Some [1]), (102, None), (103, Some [3]), (104, Some [4]), (105, Some [5])],
       votes = [(103, [([3], [1, 2, 3])])], pause_votes = False, object_votes = [],
       pause_object_votes = False\<rparr>,
     sync_many = True\<rparr>"

lemma sample_syncer_wf: "syncer_wf sample_syncer"
proof -
  have "tally_wf (sy_vote_tally sample_syncer)"
    by (auto simp: sample_syncer_def tally_wf_def votes_wf_def)
  moreover have "map_of (chain (sy_vote_tally sample_syncer)) = view_at sample_provider"
    by (auto simp: sample_syncer_def sample_provider_def view_at_def fun_eq_iff)
  ultimately show ?thesis
    using sample_provider_wf by (simp add: syncer_wf_def sample_syncer_def sample_provider_def)
qed

lemma sample_syncer_latest: "toggle_latest_height (sy_provider sample_syncer) = Some 105"
  by (simp add: sample_syncer_def toggle_latest_height_def sample_eval)

section \<open>Properties\<close>

text \<open>C1: the provider and the tally agree at every step. From the state a launch leaves behind, along
  any sequence of polls, commitments, votes, quorum searches and power updates, the tally's chain
  above the committed finality is exactly the provider's cache, height by height, hash by hash.\<close>

theorem topdown_agreement:
  assumes f: "fin_height f < U64"
    and launch: "launch_polling_syncer cfg (toggle_enabled (cfp_new cfg genesis None)) tally_empty (Ok f)
        powers = Ok s0"
    and reach: "topdown_step\<^sup>*\<^sup>* s0 s"
  shows "syncer_wf s \<and>
    (\<forall>p c h. sy_provider s = Some p \<and> last_committed_finality (cfp_inner p) = Some c \<and> fin_height c < h \<longrightarrow>
       map_of (chain (sy_vote_tally s)) h =
         map_option (map_option fst) (cache_map (cached_data (cfp_inner p)) h))"
proof -
  have wf: "syncer_wf s" by (rule topdown.steps_good [OF reach launch_wf [OF f launch]])
  then show ?thesis by (auto simp: syncer_wf_def view_at_def)
qed

theorem topdown_agreement_witness:
  "\<exists>s0 s :: (nat, nat, nat) LotusParentSyncer.
     launch_polling_syncer sample_config (toggle_enabled (cfp_new sample_config 1 None)) tally_empty
       (Ok \<lparr>fin_height = 100, fin_block_hash = [100]\<rparr>) [(1, 10)] = Ok s0 \<and>
     poll_next sample_parent 101 [100] s0 = Ok ([101], s) \<and> syncer_wf s \<and> toggle_latest_height (sy_provider s) = Some 101"
proof -
  let ?f = "\<lparr>fin_height = 100, fin_block_hash = [100]\<rparr>"
  have f: "fin_height ?f < U64" and l: "Suc 100 < U64" by (simp_all add: U64_def)
  obtain s0 :: "(nat, nat, nat) LotusParentSyncer" where s0:
    "launch_polling_syncer sample_config (toggle_enabled (cfp_new sample_config 1 None)) tally_empty (Ok ?f) [(1, 10)] = Ok s0"
    and latest: "toggle_latest_height (sy_provider s0) = Some 100"
    by (simp add: launch_polling_syncer_def toggle_enabled_def toggle_is_enabled_def Let_def syncer_new_def
        toggle_set_new_finality_def toggle_latest_height_def cfp_new_def cfp_set_new_finality_def fwn_new_def
        fwn_set_new_finality_def fwn_latest_height_def latest_height_in_cache_def cache_sequential_def cache_upper_bound_def
        cache_remove_key_below_def)
  obtain s where s: "push_view (Suc 100) (Some ([101], [], [])) s0 = Ok s" "toggle_latest_height (sy_provider s) = Some (Suc 100)"
    using push_view_conv [OF launch_wf [OF f s0] latest l, of "Some ([101], [], [])"] by (auto simp: payload_sequential_def)
  then have poll: "poll_next sample_parent (Suc 100) [100] s0 = Ok ([101], s)"
    by (simp add: poll_next_def sample_parent_def fetch_data_def)
  have "topdown_step\<^sup>*\<^sup>* s0 s" using topdown_step.poll [OF latest l poll] by blast
  from topdown_agreement [OF f s0 this] s0 poll s(2) show ?thesis by auto
qed

lemma quorum_checked:
  assumes wf: "syncer_wf s" and fits: "2 * total_weight (sy_vote_tally s) < U64"
    and q: "fst (find_quorum (sy_vote_tally s)) = Some (h, v)"
  shows "toggle_check_proposal (sy_provider s) \<lparr>fin_height = h, fin_block_hash = v\<rparr> = Ok True"
proof -
  obtain p c where p: "sy_provider s = Some p" "provider_wf (cfp_inner p)" "tally_wf (sy_vote_tally s)"
    "last_committed_finality (cfp_inner p) = Some c"
    "map_of (chain (sy_vote_tally s)) = view_at (cfp_inner p)" using syncer_wfD [OF wf] .
  have "om_min (chain (sy_vote_tally s)) \<noteq> None"
    using q by (cases "chain (sy_vote_tally s)") (auto simp: find_quorum_def om_min_def Let_def)
  then obtain fin x where fin: "om_min (chain (sy_vote_tally s)) = Some (fin, x)"
    by (metis option.exhaust surj_pair)
  have hv: "fin < h" "(h, Some v) \<in> set (chain (sy_vote_tally s))"
    using find_quorum_conv [OF p(3) fits fin] q by simp_all
  have om: "om_wf (chain (sy_vote_tally s))" using p(3) by (simp add: tally_wf_def)
  have view: "view_at (cfp_inner p) h = Some (Some v)"
    using hv(2) om_wf_distinct [OF om] p(5) by (metis map_of_is_SomeI)
  have "view_at (cfp_inner p) (fin_height c) \<noteq> None" by (simp add: view_at_def p(4))
  then have "fin_height c \<in> fst ` set (chain (sy_vote_tally s))"
    using p(5) by (metis map_of_eq_None_iff)
  then have "fin \<le> fin_height c" by (rule om_min_le [OF om fin])
  moreover have "fin_height c \<le> fin"
  proof -
    have "(fin, x) \<in> set (chain (sy_vote_tally s))" using fin by (auto simp: om_min_def split: list.splits)
    then have "view_at (cfp_inner p) fin = Some x"
      using om_wf_distinct [OF om] p(5) by (metis map_of_is_SomeI)
    then show ?thesis by (auto simp: view_at_def p(4) split: if_splits)
  qed
  ultimately have "fin_height c < h" using hv(1) by simp
  with view have hash: "map_option fst (block_at (cfp_inner p) h) = Some v"
    by (auto simp: view_at_def p(4) block_at_def)
  then obtain b where b: "block_at (cfp_inner p) h = Some b" by auto
  obtain u where "latest_height_in_cache (cfp_inner p) = Some u" "h \<le> u"
    using block_at_latest [OF p(2) b] by blast
  then have "proposal_ok (cfp_inner p) \<lparr>fin_height = h, fin_block_hash = v\<rparr>"
    using \<open>fin_height c < h\<close> hash p(4) by (simp add: proposal_ok_def)
  then show ?thesis
    using p(1,2) by (simp add: toggle_defs fwn_check_proposal_conv)
qed

text \<open>C2: a block with a quorum passes this node's own check. When provider and tally agree, whatever
  \<open>find_quorum\<close> returns is accepted by \<open>check_proposal\<close>: it is above the committed finality, in the
  cache and has the cached hash.\<close>

theorem quorum_passes_check:
  assumes "syncer_wf s" "2 * total_weight (sy_vote_tally s) < U64"
    and "fst (find_quorum (sy_vote_tally s)) = Some (h, v)"
  shows "toggle_check_proposal (sy_provider s) \<lparr>fin_height = h, fin_block_hash = v\<rparr> = Ok True"
  by (rule quorum_checked [OF assms])

theorem quorum_passes_check_witness:
  "toggle_check_proposal (sy_provider sample_syncer) \<lparr>fin_height = 103, fin_block_hash = [3]\<rparr> =
     (Ok True :: (unit, _) outcome)"
proof -
  have "2 * total_weight (sy_vote_tally sample_syncer) < U64"
    by (simp add: total_weight_def sample_syncer_def U64_def)
  moreover have "fst (find_quorum (sy_vote_tally sample_syncer)) = Some (103, [3])"
    by (simp add: sample_syncer_def find_quorum_def om_min_def quorum_threshold_def sum_u64_def
        add_u64_def mul_u64_def U64_def hs_insert_def)
  ultimately show ?thesis by (rule quorum_passes_check [OF sample_syncer_wf])
qed

lemma latest_cached_data_latest:
  assumes "latest_cached_data s = Ok (l, hash)"
  shows "toggle_latest_height (sy_provider s) = Some l"
  using assms by (auto simp: latest_cached_data_def outcome_simps split: option.splits)

lemma syncer_latest_exists:
  assumes "syncer_wf s"
  shows "\<exists>l. toggle_latest_height (sy_provider s) = Some l"
proof -
  obtain p c where "sy_provider s = Some p" "last_committed_finality (cfp_inner p) = Some c"
    using syncer_wfD [OF assms] .
  then show ?thesis by (simp add: toggle_latest_height_def fwn_latest_height_def split: option.splits)
qed

lemma sync_loop_result:
  assumes "syncer_wf s" "toggle_latest_height (sy_provider s) = Some l" "l + gap = head" "head < U64"
  shows "\<exists>s1 l1. syncer_wf s1 \<and> toggle_latest_height (sy_provider s1) = Some l1 \<and> l \<le> l1 \<and> l1 \<le> head \<and>
     sync_many s1 = sync_many s \<and>
     (sync_loop parent starting head gap ph s = syncer_reset starting s1 \<or>
      fst (sync_loop parent starting head gap ph s) = s1 \<and>
      (snd (sync_loop parent starting head gap ph s) = Ok () \<longrightarrow>
         l1 = head \<or> exceed_cache_size_limit s1 \<or> \<not> sync_many s))"
  using assms(1-3)
proof (induction gap arbitrary: s l ph)
  case 0
  then show ?case by (intro exI [of _ s] exI [of _ l]) simp
next
  case (Suc gap)
  let ?r = "sync_loop parent starting head (Suc gap) ph s"
  have hd: "head - gap = Suc l" using Suc.prems(3) by simp
  have room: "Suc l < U64" using Suc.prems(3) assms(4) by simp
  have here: ?case if "?r = syncer_reset starting s \<or> fst ?r = s \<and>
      (snd ?r = Ok () \<longrightarrow> exceed_cache_size_limit s)"
    using that Suc.prems by (intro exI [of _ s] exI [of _ l]) auto
  show ?case
  proof (cases "exceed_cache_size_limit s")
    case True
    then show ?thesis by (intro here) simp
  next
    case False
    show ?thesis
    proof (cases "poll_next parent (Suc l) ph s")
      case (Ok hs)
      then obtain hash s' where hs: "poll_next parent (Suc l) ph s = Ok (hash, s')" by (cases hs) simp
      then obtain v where v: "push_view (Suc l) v s = Ok s'" using poll_next_Ok by blast
      note keep = push_view_keeps [OF Suc.prems(1,2) room v]
      show ?thesis
      proof (cases "gap = 0 \<or> \<not> sync_many s'")
        case True
        then have "?r = (s', Ok ())" using False hs hd by auto
        with True keep Suc.prems(3) show ?thesis
          by (intro exI [of _ s'] exI [of _ "Suc l"]) auto
      next
        case more: False
        then have r: "?r = sync_loop parent starting head gap hash s'" using False hs hd by simp
        have "Suc l + gap = head" using Suc.prems(3) by simp
        from Suc.IH [OF keep(2,3) this, of hash] keep(4) show ?thesis unfolding r
          by (metis Suc_leD)
      qed
    next
      case (Err e)
      then show ?thesis using False hd by (intro here) simp
    next
      case Retry
      then show ?thesis using False hd by (intro here) simp
    next
      case Panic
      then show ?thesis using False hd by (intro here) simp
    qed
  qed
qed

text \<open>C19: a round of \<open>sync\<close> ends and makes the progress it reports. From an agreeing state with a
  head below \<open>2^64\<close>, the loop visits each height once; the state it leaves agrees again unless a
  reorg made it reset, never passes the finalized chain head, and when the round reports success
  without a reset it has reached that head, or the cache limit, or was told to take one block at a
  time.\<close>

theorem sync_progress:
  assumes wf: "syncer_wf s" and head: "finalized_chain_head parent s = Ok (Some head)" "head < U64"
    and data: "latest_cached_data s = (Ok (l, ph) :: (string, _) outcome)" "l \<le> head"
  shows "\<exists>s1 l1. syncer_wf s1 \<and> toggle_latest_height (sy_provider s1) = Some l1 \<and> l \<le> l1 \<and> l1 \<le> head \<and>
     (sync parent starting s = syncer_reset starting s1 \<or>
      fst (sync parent starting s) = s1 \<and>
      (snd (sync parent starting s) = Ok () \<longrightarrow>
         l1 = head \<or> exceed_cache_size_limit s1 \<or> \<not> sync_many s))"
proof (cases "l = head")
  case True
  then have "sync parent starting s = (s, Ok ())" using head(1) data(1) by (simp add: sync_def)
  then show ?thesis
    using True wf latest_cached_data_latest [OF data(1)] by (intro exI [of _ s] exI [of _ l]) simp
next
  case False
  then have "sync parent starting s = sync_loop parent starting head (head - l) ph s"
    using head(1) data by (simp add: sync_def)
  then show ?thesis
    using sync_loop_result [OF wf latest_cached_data_latest [OF data(1)] _ head(2), of "head - l"
        parent starting ph] data(2) by auto
qed

theorem sync_progress_witness:
  "\<exists>s1 l1. syncer_wf s1 \<and> toggle_latest_height (sy_provider s1) = Some l1 \<and> 105 \<le> l1 \<and> l1 \<le> 106 \<and>
     (sync sample_parent (Err ''down'') sample_syncer = syncer_reset (Err ''down'') s1 \<or>
      fst (sync sample_parent (Err ''down'') sample_syncer) = s1 \<and>
      (snd (sync sample_parent (Err ''down'') sample_syncer) = Ok () \<longrightarrow>
         l1 = 106 \<or> exceed_cache_size_limit s1 \<or> \<not> sync_many sample_syncer))"
proof -
  have "finalized_chain_head sample_parent sample_syncer = Ok (Some 106)"
    by (simp add: finalized_chain_head_def sample_parent_def sample_syncer_def sample_config_def)
  moreover have "highest (\<lambda>j. block_at sample_provider j \<noteq> None) 105 = Some 105"
    by (simp add: highest_Some_iff sample_eval)
  then have "latest_cached_data sample_syncer = (Ok (105, [5]) :: (string, _) outcome)"
    using sample_syncer_latest sample_provider_wf
    by (simp add: latest_cached_data_def toggle_first_non_null_block_def toggle_block_hash_def
        perform_or_else_def sample_syncer_def block_hash_at_height_conv)
      (simp add: sample_provider_def block_at_def)
  ultimately show ?thesis
    by (intro sync_progress [OF sample_syncer_wf]) (auto simp: U64_def)
qed



text \<open>A reset leaves the tally behind. Resetting the provider to the committed finality, as the
  syncer does on a reorg, while the tally already knows a later block, makes the next poll fail with
  \<open>NotSequential\<close> for every parent answer that would otherwise be taken: the tally expects the
  height after its own last block.\<close>

theorem reset_blocks_polling:
  assumes wf: "syncer_wf s" and p: "sy_provider s = Some p" "last_committed_finality (cfp_inner p) = Some f"
    and ahead: "toggle_latest_height (sy_provider s) = Some l" "fin_height f < l" "Suc l < U64"
    and seq: "payload_sequential v"
  shows "push_view (Suc (fin_height f)) v (fst (syncer_reset (Ok f) s)) = Err NotSequential"
proof -
  obtain x where mx: "om_max (chain (sy_vote_tally s)) = Some (l, x)" using tally_latest [OF wf ahead(1)] by blast
  have t: "tally_wf (sy_vote_tally s)" using wf p(1) by (simp add: syncer_wf_def)
  let ?p = "fwn_reset f (cfp_inner p)"
  have "cache_append (Suc (fin_height f)) v (cached_data ?p) =
      Ok (cache_sequential\<lparr>sc_data := [(Suc (fin_height f), v)]\<rparr>)"
    by (simp add: fwn_reset_def cache_sequential_def cache_append_def cache_upper_bound_def)
  then show ?thesis
    using add_block_next [OF t mx ahead(3), of "Suc (fin_height f)" "map_option fst v"] ahead(2) p seq
    by (simp add: syncer_reset_def push_view_def toggle_reset_def cfp_reset_def toggle_new_parent_view_def
        perform_or_else_def cfp_new_parent_view_def fwn_new_parent_view_conv fwn_append_def map_voting_err_def)
qed

theorem reset_blocks_polling_witness:
  "push_view 101 (Some ([7], [], []))
     (fst (syncer_reset (Ok \<lparr>fin_height = 100, fin_block_hash = [0]\<rparr>) sample_syncer)) = Err NotSequential"
proof -
  let ?p = "\<lparr>cfp_inner = sample_provider, cfp_config = sample_config\<rparr>"
  have "sy_provider sample_syncer = Some ?p"
    "last_committed_finality (cfp_inner ?p) = Some \<lparr>fin_height = 100, fin_block_hash = [0]\<rparr>"
    by (simp_all add: sample_syncer_def sample_provider_def)
  from reset_blocks_polling [OF sample_syncer_wf this sample_syncer_latest, of "Some ([7], [], [])"]
  show ?thesis by (simp add: U64_def payload_sequential_def)
qed

end
