(* ===== verification/Resolve_Pools.thy ===== *)
theory Resolve_Pools
  imports Vote_Tally
begin

text \<open>
  The two resolution pools and the resolvers that serve them: checkpoints resolved from other subnets
  (\<open>fendermint/vm/resolver/src/pool.rs\<close>, \<open>ipld.rs\<close>) and objects resolved from IPFS
  (\<open>fendermint/vm/ipfs_resolver/src/pool.rs\<close>, \<open>ipfs.rs\<close>).

  A status and the task queued for it share transactional variables, and a status can be dropped from
  the pool while its task is still running. The variables are therefore kept in an explicit store,
  a list of cells; a status and a task hold the index of their cell. The key of an item (the trait
  \<open>From<&T> for ResolveKey\<close>) is the parameter \<open>key\<close>.

  The locale \<open>resolve_pool\<close> is what the chain interpreter relies on; both pools interpret it.
\<close>

section \<open>The checkpoint pool\<close>

record 'i ResolveStatus =
  is_resolved :: bool
  use_own_subnet :: bool
  status_items :: "'i hset"

type_synonym 'k ResolveTask = "'k \<times> nat"

record ('k, 'i) ResolvePool =
  store :: "'i ResolveStatus list"
  items :: "('k, nat) hmap"
  queue :: "'k ResolveTask list"

definition resolve_status_new :: "'i \<Rightarrow> bool \<Rightarrow> 'i ResolveStatus" where
  "resolve_status_new item own = \<lparr>is_resolved = False, use_own_subnet = own, status_items = [item]\<rparr>"

definition pool_new :: "('k, 'i) ResolvePool" where
  "pool_new = \<lparr>store = [], items = [], queue = []\<rparr>"

definition pool_add :: "('i \<Rightarrow> 'k) \<Rightarrow> 'i \<Rightarrow> bool \<Rightarrow> ('k, 'i) ResolvePool \<Rightarrow> nat \<times> ('k, 'i) ResolvePool" where
  "pool_add key item own p =
     (case hm_get (items p) (key item) of
        Some r \<Rightarrow>
          (r, p\<lparr>store := (store p)[r := (store p ! r)
                 \<lparr>use_own_subnet := use_own_subnet (store p ! r) \<or> own,
                  status_items := hs_insert item (status_items (store p ! r))\<rparr>]\<rparr>)
      | None \<Rightarrow>
          let r = length (store p) in
          (r, p\<lparr>store := store p @ [resolve_status_new item own],
                items := AList.update (key item) r (items p),
                queue := queue p @ [(key item, r)]\<rparr>))"

definition pool_get_status :: "('i \<Rightarrow> 'k) \<Rightarrow> 'i \<Rightarrow> ('k, 'i) ResolvePool \<Rightarrow> nat option" where
  "pool_get_status key item p = hm_get (items p) (key item)"

definition pool_collect_resolved :: "('k, 'i) ResolvePool \<Rightarrow> 'i hset" where
  "pool_collect_resolved p =
     fold (\<lambda>(_, r) resolved.
        if is_resolved (store p ! r) then fold hs_insert (status_items (store p ! r)) resolved else resolved)
       (items p) []"

text \<open>Reading from an empty queue retries the transaction.\<close>

definition pool_next :: "('k, 'i) ResolvePool \<Rightarrow> ('e, 'k ResolveTask \<times> ('k, 'i) ResolvePool) outcome" where
  "pool_next p = (case queue p of [] \<Rightarrow> Retry | t # ts \<Rightarrow> Ok (t, p\<lparr>queue := ts\<rparr>))"

definition task_set_resolved :: "'k ResolveTask \<Rightarrow> ('k, 'i) ResolvePool \<Rightarrow> ('k, 'i) ResolvePool" where
  "task_set_resolved t p =
     p\<lparr>store := (store p)[snd t := (store p ! snd t)\<lparr>is_resolved := True\<rparr>]\<rparr>"

definition task_use_own_subnet :: "'k ResolveTask \<Rightarrow> ('k, 'i) ResolvePool \<Rightarrow> bool" where
  "task_use_own_subnet t p = use_own_subnet (store p ! snd t)"

section \<open>The checkpoint resolver\<close>

text \<open>The reply of the network client to a request: the request could not be submitted, the content
  was resolved, or the resolution failed.\<close>

datatype resolve_reply = SubmitErr | Resolved | Failed

datatype resolve_verdict = GiveUp | MarkResolved | RetryLater

definition resolve_verdict :: "resolve_reply \<Rightarrow> resolve_reply option \<Rightarrow> resolve_verdict" where
  "resolve_verdict theirs own =
     (case theirs of
        SubmitErr \<Rightarrow> GiveUp
      | Resolved \<Rightarrow> MarkResolved
      | Failed \<Rightarrow> if own = Some Resolved then MarkResolved else RetryLater)"

text \<open>The resolver runs tasks concurrently: those taken from the queue and not yet answered, and those
  waiting for their retry delay.\<close>

record ('k, 'i) ipld_resolver =
  rs_pool :: "('k, 'i) ResolvePool"
  rs_running :: "'k ResolveTask list"
  rs_waiting :: "'k ResolveTask list"

definition resolver_take :: "('k, 'i) ipld_resolver \<Rightarrow> ('e, ('k, 'i) ipld_resolver) outcome" where
  "resolver_take s =
     obind (pool_next (rs_pool s)) (\<lambda>(t, p).
       Ok (s\<lparr>rs_pool := p, rs_running := t # rs_running s\<rparr>))"

definition resolver_answer ::
  "'k ResolveTask \<Rightarrow> resolve_reply \<Rightarrow> resolve_reply option \<Rightarrow> ('k, 'i) ipld_resolver \<Rightarrow>
     ('k, 'i) ipld_resolver" where
  "resolver_answer t theirs own s =
     (let s' = s\<lparr>rs_running := remove1 t (rs_running s)\<rparr> in
      case resolve_verdict theirs own of
        GiveUp \<Rightarrow> s'
      | MarkResolved \<Rightarrow> s'\<lparr>rs_pool := task_set_resolved t (rs_pool s)\<rparr>
      | RetryLater \<Rightarrow> s'\<lparr>rs_waiting := t # rs_waiting s\<rparr>)"

definition resolver_requeue :: "'k ResolveTask \<Rightarrow> ('k, 'i) ipld_resolver \<Rightarrow> ('k, 'i) ipld_resolver" where
  "resolver_requeue t s =
     s\<lparr>rs_waiting := remove1 t (rs_waiting s),
       rs_pool := (rs_pool s)\<lparr>queue := queue (rs_pool s) @ [t]\<rparr>\<rparr>"

inductive resolver_step :: "('i \<Rightarrow> 'k) \<Rightarrow> ('k, 'i) ipld_resolver \<Rightarrow> ('k, 'i) ipld_resolver \<Rightarrow> bool"
  for key :: "'i \<Rightarrow> 'k" where
  add: "resolver_step key s (s\<lparr>rs_pool := snd (pool_add key item own (rs_pool s))\<rparr>)"
| take: "resolver_take s = (Ok s' :: (unit, _) outcome) \<Longrightarrow> resolver_step key s s'"
| answer: "t \<in> set (rs_running s) \<Longrightarrow>
    own = None \<or> task_use_own_subnet t (rs_pool s) \<Longrightarrow> theirs \<noteq> SubmitErr \<Longrightarrow>
    resolver_step key s (resolver_answer t theirs own s)"
| requeue: "t \<in> set (rs_waiting s) \<Longrightarrow> resolver_step key s (resolver_requeue t s)"

abbreviation resolver_init :: "('k, 'i) ipld_resolver" where
  "resolver_init \<equiv> \<lparr>rs_pool = pool_new, rs_running = [], rs_waiting = []\<rparr>"

section \<open>The object pool\<close>

record 'i IpfsStatus =
  ipfs_resolved :: bool
  ipfs_status_items :: "'i hset"

record ('k, 'i) IpfsPool =
  ipfs_store :: "'i IpfsStatus list"
  ipfs_items :: "('k, nat) hmap"
  ipfs_queue :: "'k ResolveTask list"

definition ipfs_pool_new :: "('k, 'i) IpfsPool" where
  "ipfs_pool_new = \<lparr>ipfs_store = [], ipfs_items = [], ipfs_queue = []\<rparr>"

definition ipfs_pool_add :: "('i \<Rightarrow> 'k) \<Rightarrow> 'i \<Rightarrow> ('k, 'i) IpfsPool \<Rightarrow> nat \<times> ('k, 'i) IpfsPool" where
  "ipfs_pool_add key item p =
     (case hm_get (ipfs_items p) (key item) of
        Some r \<Rightarrow>
          (r, p\<lparr>ipfs_store := (ipfs_store p)[r := (ipfs_store p ! r)
                 \<lparr>ipfs_status_items := hs_insert item (ipfs_status_items (ipfs_store p ! r))\<rparr>]\<rparr>)
      | None \<Rightarrow>
          let r = length (ipfs_store p) in
          (r, p\<lparr>ipfs_store := ipfs_store p @ [\<lparr>ipfs_resolved = False, ipfs_status_items = [item]\<rparr>],
                ipfs_items := AList.update (key item) r (ipfs_items p),
                ipfs_queue := ipfs_queue p @ [(key item, r)]\<rparr>))"

definition ipfs_pool_count :: "('k, 'i) IpfsPool \<Rightarrow> nat" where
  "ipfs_pool_count p = length (ipfs_items p)"

definition ipfs_pool_get_status :: "('i \<Rightarrow> 'k) \<Rightarrow> 'i \<Rightarrow> ('k, 'i) IpfsPool \<Rightarrow> nat option" where
  "ipfs_pool_get_status key item p = hm_get (ipfs_items p) (key item)"

definition ipfs_pool_collect_resolved :: "('k, 'i) IpfsPool \<Rightarrow> 'i hset" where
  "ipfs_pool_collect_resolved p =
     fold (\<lambda>(_, r) resolved.
        if ipfs_resolved (ipfs_store p ! r)
        then fold hs_insert (ipfs_status_items (ipfs_store p ! r)) resolved else resolved)
       (ipfs_items p) []"

definition ipfs_pool_next :: "('k, 'i) IpfsPool \<Rightarrow> ('e, 'k ResolveTask \<times> ('k, 'i) IpfsPool) outcome" where
  "ipfs_pool_next p = (case ipfs_queue p of [] \<Rightarrow> Retry | t # ts \<Rightarrow> Ok (t, p\<lparr>ipfs_queue := ts\<rparr>))"

definition ipfs_pool_remove :: "('i \<Rightarrow> 'k) \<Rightarrow> 'i \<Rightarrow> ('k, 'i) IpfsPool \<Rightarrow> nat option \<times> ('k, 'i) IpfsPool" where
  "ipfs_pool_remove key item p =
     (hm_get (ipfs_items p) (key item), p\<lparr>ipfs_items := AList.delete (key item) (ipfs_items p)\<rparr>)"

definition ipfs_task_set_resolved :: "'k ResolveTask \<Rightarrow> ('k, 'i) IpfsPool \<Rightarrow> ('k, 'i) IpfsPool" where
  "ipfs_task_set_resolved t p =
     p\<lparr>ipfs_store := (ipfs_store p)[snd t := (ipfs_store p ! snd t)\<lparr>ipfs_resolved := True\<rparr>]\<rparr>"

text \<open>The background task: on success it marks the task, and if the vote can be signed records it in
  the tally and publishes it when it was new. The result is the pool, the tally, the object whose vote
  was published and the task to retry later. The transaction on a paused tally waits, which is
  \<open>Retry\<close>.\<close>

definition ipfs_start_resolve ::
  "resolve_reply \<Rightarrow> bool \<Rightarrow> 'vk \<Rightarrow> 'k ResolveTask \<Rightarrow> ('k, 'i) IpfsPool \<Rightarrow> ('vk, 'v, 'k) VoteTally \<Rightarrow>
     ('e, ('k, 'i) IpfsPool \<times> ('vk, 'v, 'k) VoteTally \<times> 'k option \<times> 'k ResolveTask option) outcome" where
  "ipfs_start_resolve res signed validator_key task p t =
     (case res of
        SubmitErr \<Rightarrow> Ok (p, t, None, None)
      | Failed \<Rightarrow> Ok (p, t, None, Some task)
      | Resolved \<Rightarrow>
          let p' = ipfs_task_set_resolved task p in
          if \<not> signed then Ok (p', t, None, None)
          else case add_object_vote validator_key (fst task) t of
            Ok (added, t') \<Rightarrow> Ok (p', t', if added then Some (fst task) else None, None)
          | Err _ \<Rightarrow> Ok (p', t, None, None)
          | Retry \<Rightarrow> Retry
          | Panic \<Rightarrow> Panic)"

section \<open>Invariants\<close>

text \<open>Every pool entry points to its own existing cell, and the items in a cell have the key of the
  entry.\<close>

definition pool_wf :: "('i \<Rightarrow> 'k) \<Rightarrow> ('k, 'i) ResolvePool \<Rightarrow> bool" where
  "pool_wf key p = (hm_wf (items p) \<and> inj_on snd (set (items p)) \<and>
     (\<forall>(k, r) \<in> set (items p). r < length (store p) \<and> (\<forall>i \<in> set (status_items (store p ! r)). key i = k)) \<and>
     (\<forall>(k, r) \<in> set (queue p). r < length (store p)))"

text \<open>The object pool is a checkpoint pool that never asks the own subnet.\<close>

definition cell_of :: "'i IpfsStatus \<Rightarrow> 'i ResolveStatus" where
  "cell_of c = \<lparr>is_resolved = ipfs_resolved c, use_own_subnet = False, status_items = ipfs_status_items c\<rparr>"

definition pool_of :: "('k, 'i) IpfsPool \<Rightarrow> ('k, 'i) ResolvePool" where
  "pool_of p = \<lparr>store = map cell_of (ipfs_store p), items = ipfs_items p, queue = ipfs_queue p\<rparr>"

definition ipfs_pool_wf :: "('i \<Rightarrow> 'k) \<Rightarrow> ('k, 'i) IpfsPool \<Rightarrow> bool" where
  "ipfs_pool_wf key p = pool_wf key (pool_of p)"

text \<open>What a pool says about a key: whether it is resolved, and which items wait for it.\<close>

definition pool_view :: "('k, 'i) ResolvePool \<Rightarrow> 'k \<Rightarrow> (bool \<times> 'i set) option" where
  "pool_view p k =
     map_option (\<lambda>r. (is_resolved (store p ! r), set (status_items (store p ! r)))) (hm_get (items p) k)"

definition ipfs_pool_view :: "('k, 'i) IpfsPool \<Rightarrow> 'k \<Rightarrow> (bool \<times> 'i set) option" where
  "ipfs_pool_view p k =
     map_option (\<lambda>r. (ipfs_resolved (ipfs_store p ! r), set (ipfs_status_items (ipfs_store p ! r))))
       (hm_get (ipfs_items p) k)"

section \<open>What the chain interpreter relies on\<close>

locale resolve_pool =
  fixes key :: "'i \<Rightarrow> 'k"
    and inv :: "'p \<Rightarrow> bool"
    and view :: "'p \<Rightarrow> 'k \<Rightarrow> (bool \<times> 'i set) option"
    and new :: 'p
    and add :: "'i \<Rightarrow> 'p \<Rightarrow> 'p"
    and collect :: "'p \<Rightarrow> 'i list"
  assumes inv_new: "inv new"
    and view_new: "view new k = None"
    and inv_add: "inv p \<Longrightarrow> inv (add i p)"
    and view_add: "inv p \<Longrightarrow> view (add i p) k =
        (if k = key i then Some (case view p k of None \<Rightarrow> (False, {i}) | Some (b, S) \<Rightarrow> (b, insert i S))
         else view p k)"
    and collect_view: "inv p \<Longrightarrow> i \<in> set (collect p) \<longleftrightarrow> (\<exists>S. view p (key i) = Some (True, S) \<and> i \<in> S)"
begin

lemma collect_added:
  assumes "inv p"
  shows "i \<in> set (collect (add i p)) \<longleftrightarrow> (\<exists>S. view p (key i) = Some (True, S))"
  using assms by (auto simp: collect_view inv_add view_add split: option.splits)

lemma collect_add_other:
  assumes "inv p" "j \<noteq> i"
  shows "j \<in> set (collect (add i p)) \<longleftrightarrow> j \<in> set (collect p)"
  using assms by (auto simp: collect_view inv_add view_add split: option.splits)

lemma inv_adds: "inv p \<Longrightarrow> inv (fold add is p)"
  by (induction "is" arbitrary: p) (simp_all add: inv_add)

lemma resolved_add:
  "inv p \<Longrightarrow> (\<exists>S. view (add i p) k = Some (True, S)) \<longleftrightarrow> (\<exists>S. view p k = Some (True, S))"
  by (auto simp: view_add split: option.splits)

lemma resolved_adds:
  "inv p \<Longrightarrow> (\<exists>S. view (fold add is p) k = Some (True, S)) \<longleftrightarrow> (\<exists>S. view p k = Some (True, S))"
  by (induction "is" arbitrary: p) (simp_all add: inv_add resolved_add)

lemma adds_not_collected: "i \<notin> set (collect (fold add is new))"
  using resolved_adds [OF inv_new, of "is" "key i"] view_new by (auto simp: collect_view inv_adds inv_new)

end

lemma set_fold_hs_insert: "set (fold hs_insert xs acc) = set acc \<union> set xs"
  by (induction xs arbitrary: acc) auto

lemma set_fold_collect:
  "set (fold (\<lambda>(_, r) acc. if P r then fold hs_insert (f r) acc else acc) m acc) =
     set acc \<union> {i. \<exists>e \<in> set m. P (snd e) \<and> i \<in> set (f (snd e))}"
proof (induction m arbitrary: acc)
  case (Cons e m)
  show ?case using Cons.IH [of "if P (snd e) then fold hs_insert (f (snd e)) acc else acc"]
    by (cases e) (auto simp: set_fold_hs_insert)
qed simp

lemma inj_snd_update:
  assumes "inj_on snd (set m)" "\<forall>(k, r) \<in> set m. r < (n :: nat)"
  shows "inj_on snd (set (AList.update k n m))"
proof -
  have "set (AList.update k n m) \<subseteq> insert (k, n) (set m)" by (rule set_alist_update)
  moreover have "n \<notin> snd ` set m" using assms(2) by fastforce
  then have "inj_on snd (insert (k, n) (set m))" using assms(1) by (auto simp: inj_on_insert)
  ultimately show ?thesis by (blast intro: inj_on_subset)
qed

lemma hm_get_ref_unique:
  assumes "inj_on snd (set m)" "hm_get m k = Some r" "hm_get m j = Some r"
  shows "k = j"
proof -
  have "(k, r) \<in> set m" "(j, r) \<in> set m" using assms(2,3) by (auto dest: map_of_SomeD)
  then show ?thesis using inj_onD [OF assms(1), of "(k, r)" "(j, r)"] by simp
qed

lemma pool_wf_ref:
  assumes "pool_wf key p" "hm_get (items p) k = Some r"
  shows "r < length (store p)" "i \<in> set (status_items (store p ! r)) \<Longrightarrow> key i = k"
  using assms map_of_SomeD [OF assms(2)] by (auto simp: pool_wf_def)

lemma pool_add_wf:
  assumes wf: "pool_wf key p"
  shows "pool_wf key (snd (pool_add key item own p))"
proof (cases "hm_get (items p) (key item)")
  case None
  have "set (AList.update (key item) (length (store p)) (items p)) \<subseteq>
      insert (key item, length (store p)) (set (items p))" by (rule set_alist_update)
  moreover have "inj_on snd (set (AList.update (key item) (length (store p)) (items p)))"
    using wf by (intro inj_snd_update) (auto simp: pool_wf_def)
  ultimately show ?thesis
    using wf None
    by (fastforce simp: pool_wf_def pool_add_def Let_def nth_append resolve_status_new_def)
next
  case (Some r)
  note ref = pool_wf_ref [OF wf Some]
  let ?c = "(store p ! r)\<lparr>use_own_subnet := use_own_subnet (store p ! r) \<or> own,
      status_items := hs_insert item (status_items (store p ! r))\<rparr>"
  have "key i = k" if "(k, r') \<in> set (items p)" "i \<in> set (status_items ((store p)[r := ?c] ! r'))" for k r' i
  proof (cases "r' = r")
    case True
    have "hm_get (items p) k = Some r" using that(1) True wf by (simp add: pool_wf_def)
    then have "k = key item" using hm_get_ref_unique [OF _ _ Some] wf by (simp add: pool_wf_def)
    then show ?thesis using that(2) True ref by auto
  next
    case False
    then show ?thesis using that wf by (auto simp: pool_wf_def)
  qed
  then have "\<forall>(k, r') \<in> set (items p). r' < length ((store p)[r := ?c]) \<and>
      (\<forall>i \<in> set (status_items ((store p)[r := ?c] ! r')). key i = k)"
    using wf by (force simp only: pool_wf_def length_list_update split_beta)
  moreover have "snd (pool_add key item own p) = p\<lparr>store := (store p)[r := ?c]\<rparr>"
    by (simp add: pool_add_def Some)
  ultimately show ?thesis using wf by (simp add: pool_wf_def)
qed

lemma pool_add_view:
  assumes wf: "pool_wf key p"
  shows "pool_view (snd (pool_add key item own p)) k =
     (if k = key item
      then Some (case pool_view p k of None \<Rightarrow> (False, {item}) | Some (b, S) \<Rightarrow> (b, insert item S))
      else pool_view p k)"
proof (cases "hm_get (items p) (key item)")
  case None
  have "hm_get (items p) k = Some r \<Longrightarrow> r < length (store p)" for r
    using pool_wf_ref(1) [OF wf] by blast
  then show ?thesis using None
    by (cases "hm_get (items p) k")
      (auto simp: pool_view_def pool_add_def Let_def resolve_status_new_def nth_append)
next
  case (Some r)
  note ref = pool_wf_ref [OF wf Some]
  show ?thesis
  proof (cases "k = key item")
    case True
    then show ?thesis using Some ref(1) by (simp add: pool_view_def pool_add_def)
  next
    case False
    then have "hm_get (items p) k \<noteq> Some r"
      using hm_get_ref_unique [OF _ _ Some, of k] wf by (auto simp: pool_wf_def)
    then show ?thesis using False Some
      by (cases "hm_get (items p) k") (auto simp: pool_view_def pool_add_def)
  qed
qed

lemma pool_collect_view:
  assumes wf: "pool_wf key p"
  shows "i \<in> set (pool_collect_resolved p) \<longleftrightarrow> (\<exists>S. pool_view p (key i) = Some (True, S) \<and> i \<in> S)"
proof -
  have "i \<in> set (pool_collect_resolved p) \<longleftrightarrow>
      (\<exists>e \<in> set (items p). is_resolved (store p ! snd e) \<and> i \<in> set (status_items (store p ! snd e)))"
    unfolding pool_collect_resolved_def set_fold_collect by auto
  also have "\<dots> \<longleftrightarrow> (\<exists>r. hm_get (items p) (key i) = Some r \<and> is_resolved (store p ! r) \<and>
      i \<in> set (status_items (store p ! r)))"
  proof
    assume "\<exists>e \<in> set (items p). is_resolved (store p ! snd e) \<and> i \<in> set (status_items (store p ! snd e))"
    then obtain k r where r: "(k, r) \<in> set (items p)" "is_resolved (store p ! r)"
      "i \<in> set (status_items (store p ! r))" by auto
    then have g: "hm_get (items p) k = Some r" using wf by (simp add: pool_wf_def)
    then have "key i = k" using pool_wf_ref(2) [OF wf g r(3)] by simp
    with g r show "\<exists>r. hm_get (items p) (key i) = Some r \<and> is_resolved (store p ! r) \<and>
        i \<in> set (status_items (store p ! r))" by blast
  next
    assume "\<exists>r. hm_get (items p) (key i) = Some r \<and> is_resolved (store p ! r) \<and>
        i \<in> set (status_items (store p ! r))"
    then obtain r where "hm_get (items p) (key i) = Some r" "is_resolved (store p ! r)"
      "i \<in> set (status_items (store p ! r))" by blast
    then show "\<exists>e \<in> set (items p). is_resolved (store p ! snd e) \<and> i \<in> set (status_items (store p ! snd e))"
      by (intro bexI [of _ "(key i, r)"]) (auto dest: map_of_SomeD)
  qed
  finally show ?thesis by (auto simp: pool_view_def)
qed

interpretation cp: resolve_pool key "pool_wf key" pool_view pool_new
  "\<lambda>i p. snd (pool_add key i own p)" pool_collect_resolved
  for key :: "'i \<Rightarrow> 'k" and own
  by unfold_locales
    (auto simp: pool_add_wf pool_add_view pool_collect_view, auto simp: pool_wf_def pool_new_def pool_view_def)

section \<open>The object pool as a checkpoint pool\<close>

lemma pool_of_ref:
  assumes "ipfs_pool_wf key p" "hm_get (ipfs_items p) k = Some r"
  shows "r < length (ipfs_store p)"
  using pool_wf_ref(1) [of key "pool_of p" k r] assms by (simp add: ipfs_pool_wf_def pool_of_def)

lemma pool_of_add:
  assumes "ipfs_pool_wf key p"
  shows "pool_of (snd (ipfs_pool_add key i p)) = snd (pool_add key i False (pool_of p)) \<and>
     fst (ipfs_pool_add key i p) = fst (pool_add key i False (pool_of p))"
proof (cases "hm_get (ipfs_items p) (key i)")
  case None
  then show ?thesis
    by (simp add: pool_of_def ipfs_pool_add_def pool_add_def Let_def cell_of_def resolve_status_new_def)
next
  case (Some r)
  then show ?thesis using pool_of_ref [OF assms Some]
    by (simp add: pool_of_def ipfs_pool_add_def pool_add_def map_update cell_of_def)
qed

lemma pool_of_view:
  assumes "ipfs_pool_wf key p"
  shows "ipfs_pool_view p k = pool_view (pool_of p) k"
  using pool_of_ref [OF assms, of k]
  by (cases "hm_get (ipfs_items p) k") (auto simp: ipfs_pool_view_def pool_view_def pool_of_def cell_of_def)

lemma pool_of_collect:
  assumes wf: "ipfs_pool_wf key p"
  shows "ipfs_pool_collect_resolved p = pool_collect_resolved (pool_of p)"
proof -
  have "snd e < length (ipfs_store p)" if "e \<in> set (ipfs_items p)" for e
    using wf that by (force simp: ipfs_pool_wf_def pool_wf_def pool_of_def)
  then show ?thesis
    unfolding ipfs_pool_collect_resolved_def pool_collect_resolved_def
    by (intro fold_cong) (auto simp: pool_of_def cell_of_def)
qed

lemma pool_of_set_resolved:
  "snd t < length (ipfs_store p) \<Longrightarrow>
     pool_of (ipfs_task_set_resolved t p) = task_set_resolved t (pool_of p)"
  by (simp add: pool_of_def ipfs_task_set_resolved_def task_set_resolved_def map_update cell_of_def)

interpretation ip: resolve_pool key "ipfs_pool_wf key" ipfs_pool_view ipfs_pool_new
  "\<lambda>i p. snd (ipfs_pool_add key i p)" ipfs_pool_collect_resolved
  for key :: "'i \<Rightarrow> 'k"
proof
  show new: "ipfs_pool_wf key ipfs_pool_new"
    by (simp add: ipfs_pool_wf_def pool_of_def ipfs_pool_new_def pool_wf_def)
  show "ipfs_pool_view ipfs_pool_new k = None" for k :: 'k
    by (simp add: ipfs_pool_view_def ipfs_pool_new_def)
  fix p :: "('k, 'i) IpfsPool" and i k
  assume wf: "ipfs_pool_wf key p"
  then have wf': "pool_wf key (pool_of p)" by (simp add: ipfs_pool_wf_def)
  show add: "ipfs_pool_wf key (snd (ipfs_pool_add key i p))"
    using pool_add_wf [OF wf', of i False] by (simp add: ipfs_pool_wf_def pool_of_add [OF wf])
  show "ipfs_pool_view (snd (ipfs_pool_add key i p)) k =
      (if k = key i then Some (case ipfs_pool_view p k of None \<Rightarrow> (False, {i}) | Some (b, S) \<Rightarrow> (b, insert i S))
       else ipfs_pool_view p k)"
    using pool_add_view [OF wf', of i False k]
    by (simp add: pool_of_view [OF add] pool_of_view [OF wf] pool_of_add [OF wf])
  show "i \<in> set (ipfs_pool_collect_resolved p) \<longleftrightarrow>
      (\<exists>S. ipfs_pool_view p (key i) = Some (True, S) \<and> i \<in> S)"
    using pool_collect_view [OF wf', of i]
    by (simp add: pool_of_collect [OF wf] pool_of_view [OF wf])
qed

lemma ipfs_remove_wf:
  assumes "ipfs_pool_wf key p"
  shows "ipfs_pool_wf key (snd (ipfs_pool_remove key i p))"
proof -
  have sub: "set (AList.delete (key i) (ipfs_items p)) \<subseteq> set (ipfs_items p)"
    by (auto simp: AList.delete_eq)
  then have "inj_on snd (set (AList.delete (key i) (ipfs_items p)))"
    using assms by (auto simp: ipfs_pool_wf_def pool_wf_def pool_of_def intro: inj_on_subset)
  then show ?thesis
    using assms sub by (fastforce simp: ipfs_pool_wf_def pool_wf_def pool_of_def ipfs_pool_remove_def)
qed

lemma ipfs_remove_view:
  "ipfs_pool_view (snd (ipfs_pool_remove key i p)) k = (if k = key i then None else ipfs_pool_view p k)"
  by (simp add: ipfs_pool_view_def ipfs_pool_remove_def)

section \<open>The resolver loses no task\<close>

definition resolver_wf :: "('i \<Rightarrow> 'k) \<Rightarrow> ('k, 'i) ipld_resolver \<Rightarrow> bool" where
  "resolver_wf key s = (pool_wf key (rs_pool s) \<and>
     (\<forall>e \<in> set (rs_running s) \<union> set (rs_waiting s). snd e < length (store (rs_pool s))) \<and>
     (\<forall>e \<in> set (items (rs_pool s)). \<not> is_resolved (store (rs_pool s) ! snd e) \<longrightarrow>
        e \<in> set (queue (rs_pool s)) \<union> set (rs_running s) \<union> set (rs_waiting s)))"

lemma set_remove1_insert: "set xs \<subseteq> insert t (set (remove1 t xs))"
  by (induction xs) auto

lemma resolver_add_keeps:
  assumes wf: "resolver_wf key s"
  shows "resolver_wf key (s\<lparr>rs_pool := snd (pool_add key item own (rs_pool s))\<rparr>)"
proof -
  let ?p = "rs_pool s"
  have p: "pool_wf key ?p" using wf by (simp add: resolver_wf_def)
  have p': "pool_wf key (snd (pool_add key item own ?p))" by (rule pool_add_wf [OF p])
  show ?thesis
  proof (cases "hm_get (items ?p) (key item)")
    case None
    have "set (AList.update (key item) (length (store ?p)) (items ?p)) \<subseteq>
        insert (key item, length (store ?p)) (set (items ?p))" by (rule set_alist_update)
    moreover have "snd e < length (store ?p)" if "e \<in> set (items ?p)" for e
      using p that by (force simp: pool_wf_def)
    ultimately have "e = (key item, length (store ?p)) \<or> e \<in> set (items ?p) \<and> snd e < length (store ?p)"
      if "e \<in> set (AList.update (key item) (length (store ?p)) (items ?p))" for e
      using that by blast
    then have "\<forall>e \<in> set (AList.update (key item) (length (store ?p)) (items ?p)).
        \<not> is_resolved ((store ?p @ [resolve_status_new item own]) ! snd e) \<longrightarrow>
        e \<in> set (queue ?p @ [(key item, length (store ?p))]) \<union> set (rs_running s) \<union> set (rs_waiting s)"
      using wf by (fastforce simp: resolver_wf_def nth_append)
    moreover have "snd (pool_add key item own ?p) = ?p\<lparr>store := store ?p @ [resolve_status_new item own],
        items := AList.update (key item) (length (store ?p)) (items ?p),
        queue := queue ?p @ [(key item, length (store ?p))]\<rparr>"
      using None by (simp add: pool_add_def Let_def)
    ultimately show ?thesis
      using wf p' by (auto simp: resolver_wf_def less_Suc_eq)
  next
    case (Some r)
    note ref = pool_wf_ref(1) [OF p Some]
    show ?thesis
      using wf p' Some ref by (auto simp: resolver_wf_def pool_add_def nth_list_update)
  qed
qed

lemma resolver_take_keeps:
  assumes wf: "resolver_wf key s" and ok: "resolver_take s = Ok s'"
  shows "resolver_wf key s'"
proof -
  obtain t ts where q: "queue (rs_pool s) = t # ts"
    "s' = s\<lparr>rs_pool := (rs_pool s)\<lparr>queue := ts\<rparr>, rs_running := t # rs_running s\<rparr>"
    using ok by (auto simp: resolver_take_def pool_next_def outcome_simps split: list.splits)
  have "snd t < length (store (rs_pool s))" using wf q(1) by (force simp: resolver_wf_def pool_wf_def)
  then show ?thesis using wf q by (auto simp: resolver_wf_def pool_wf_def)
qed

lemma resolver_answer_keeps:
  assumes wf: "resolver_wf key s" and t: "t \<in> set (rs_running s)" and sub: "theirs \<noteq> SubmitErr"
  shows "resolver_wf key (resolver_answer t theirs own s)"
proof -
  have run: "set (rs_running s) \<subseteq> insert t (set (remove1 t (rs_running s)))" by (rule set_remove1_insert)
  have sub1: "set (remove1 t (rs_running s)) \<subseteq> set (rs_running s)" by (rule set_remove1_subset)
  have ref: "snd t < length (store (rs_pool s))" using wf t by (auto simp: resolver_wf_def)
  consider "resolve_verdict theirs own = MarkResolved" | "resolve_verdict theirs own = RetryLater"
    using sub by (cases "resolve_verdict theirs own") (auto simp: resolve_verdict_def split: resolve_reply.splits if_splits)
  then show ?thesis
  proof cases
    case 1
    let ?p = "task_set_resolved t (rs_pool s)"
    have p: "pool_wf key ?p"
      using wf ref by (auto simp: resolver_wf_def pool_wf_def task_set_resolved_def nth_list_update)
    have "e \<in> set (queue ?p) \<union> set (remove1 t (rs_running s)) \<union> set (rs_waiting s)"
      if "e \<in> set (items ?p)" "\<not> is_resolved (store ?p ! snd e)" for e
    proof -
      have "snd e \<noteq> snd t" using that(2) ref by (auto simp: task_set_resolved_def)
      then have "e \<noteq> t" "store ?p ! snd e = store (rs_pool s) ! snd e"
        by (auto simp: task_set_resolved_def)
      with that wf run show ?thesis by (auto simp: resolver_wf_def task_set_resolved_def)
    qed
    with p show ?thesis
      using wf 1 sub1 by (auto simp: resolver_wf_def resolver_answer_def Let_def task_set_resolved_def)
  next
    case 2
    have "e \<in> set (queue (rs_pool s)) \<union> set (remove1 t (rs_running s)) \<union> set (t # rs_waiting s)"
      if "e \<in> set (items (rs_pool s))" "\<not> is_resolved (store (rs_pool s) ! snd e)" for e
      using that wf run by (auto simp: resolver_wf_def)
    then show ?thesis
      using wf 2 sub1 ref by (auto simp: resolver_wf_def resolver_answer_def Let_def)
  qed
qed

lemma resolver_requeue_keeps:
  assumes wf: "resolver_wf key s" and t: "t \<in> set (rs_waiting s)"
  shows "resolver_wf key (resolver_requeue t s)"
proof -
  let ?p = "rs_pool s"
  have sub: "set (remove1 t (rs_waiting s)) \<subseteq> set (rs_waiting s)" by (rule set_remove1_subset)
  have ref: "snd t < length (store ?p)" using wf t by (auto simp: resolver_wf_def)
  have "pool_wf key (?p\<lparr>queue := queue ?p @ [t]\<rparr>)"
    using wf ref by (cases t) (simp add: resolver_wf_def pool_wf_def)
  moreover have "e \<in> set (queue ?p @ [t]) \<union> set (rs_running s) \<union> set (remove1 t (rs_waiting s))"
    if "e \<in> set (items ?p)" "\<not> is_resolved (store ?p ! snd e)" for e
    using wf that set_remove1_insert [of "rs_waiting s" t] by (auto simp: resolver_wf_def)
  ultimately show ?thesis
    using wf sub by (auto simp: resolver_wf_def resolver_requeue_def)
qed

lemma resolver_step_keeps: "resolver_step key s s' \<Longrightarrow> resolver_wf key s \<Longrightarrow> resolver_wf key s'"
  by (induction rule: resolver_step.induct)
    (auto intro: resolver_add_keeps resolver_take_keeps resolver_answer_keeps resolver_requeue_keeps)

interpretation resolver: start_invariant "resolver_step key" "resolver_wf key" "\<lambda>s. s = resolver_init"
  by (unfold_locales, erule (1) resolver_step_keeps) (simp add: resolver_wf_def pool_wf_def pool_new_def)

section \<open>Properties\<close>



text \<open>Adding an item makes it collectable exactly when its content is already resolved, and
  changes nothing else that can be collected. This holds for checkpoints and for objects.\<close>

theorem collect_after_add:
  assumes "pool_wf key p" "ipfs_pool_wf key q"
  shows "(j \<in> set (pool_collect_resolved (snd (pool_add key i own p))) \<longleftrightarrow>
      (if j = i then \<exists>S. pool_view p (key i) = Some (True, S) else j \<in> set (pool_collect_resolved p))) \<and>
    (j \<in> set (ipfs_pool_collect_resolved (snd (ipfs_pool_add key i q))) \<longleftrightarrow>
      (if j = i then \<exists>S. ipfs_pool_view q (key i) = Some (True, S) else j \<in> set (ipfs_pool_collect_resolved q)))"
  using cp.collect_added [OF assms(1)] cp.collect_add_other [OF assms(1)]
    ip.collect_added [OF assms(2)] ip.collect_add_other [OF assms(2)] by simp

theorem collect_after_add_witness:
  "3 \<notin> set (pool_collect_resolved (snd (pool_add (\<lambda>i :: nat. i) 3 False pool_new)))"
  using collect_after_add [OF cp.inv_new ip.inv_new, of "3 :: nat" "\<lambda>i. i" 3 False]
  by (simp add: pool_view_def pool_new_def)

text \<open>A removed object starts over. If an object is removed from the pool while its task is still
  out and then added again, it is unresolved, a new task is queued for it, and the answer to the old
  task does not mark it as resolved.\<close>

theorem ipfs_readd_fresh:
  assumes wf: "ipfs_pool_wf key p" and old: "hm_get (ipfs_items p) (key i) = Some r"
  defines "p' \<equiv> snd (ipfs_pool_add key i (snd (ipfs_pool_remove key i p)))"
  shows "ipfs_pool_view p' (key i) = Some (False, {i}) \<and>
    (key i, length (ipfs_store p)) \<in> set (ipfs_queue p') \<and>
    ipfs_pool_view (ipfs_task_set_resolved (key i, r) p') (key i) = Some (False, {i})"
proof -
  have r: "r < length (ipfs_store p)" by (rule pool_of_ref [OF wf old])
  have p': "p' = p\<lparr>ipfs_store := ipfs_store p @ [\<lparr>ipfs_resolved = False, ipfs_status_items = [i]\<rparr>],
      ipfs_items := AList.update (key i) (length (ipfs_store p)) (AList.delete (key i) (ipfs_items p)),
      ipfs_queue := ipfs_queue p @ [(key i, length (ipfs_store p))]\<rparr>"
    by (simp add: p'_def ipfs_pool_add_def ipfs_pool_remove_def Let_def)
  then show ?thesis using r
    by (simp add: ipfs_pool_view_def ipfs_task_set_resolved_def nth_append)
qed

theorem ipfs_readd_fresh_witness:
  "ipfs_pool_view (ipfs_task_set_resolved (5, 0)
     (snd (ipfs_pool_add (\<lambda>i :: nat. i) 5 (snd (ipfs_pool_remove (\<lambda>i. i) 5
       (snd (ipfs_pool_add (\<lambda>i. i) 5 ipfs_pool_new))))))) 5 = Some (False, {5})"
proof -
  let ?p = "snd (ipfs_pool_add (\<lambda>i :: nat. i) 5 ipfs_pool_new)"
  have "ipfs_pool_wf (\<lambda>i. i) ?p" by (rule ip.inv_add [OF ip.inv_new])
  moreover have "hm_get (ipfs_items ?p) 5 = Some 0" by (simp add: ipfs_pool_add_def ipfs_pool_new_def)
  ultimately show ?thesis using ipfs_readd_fresh [of "\<lambda>i. i" ?p 5 0] by simp
qed

end
