(* ===== verification/Exec_State.thy ===== *)
theory Exec_State
  imports Subnet_Ids
begin

text \<open>
  The execution state of a block and what runs on it below the signature check:
  \<open>fendermint/vm/interpreter/src/fvm/state/exec.rs\<close>, \<open>upgrades.rs\<close>, \<open>check.rs\<close> and the
  retry policy of \<open>broadcast.rs\<close>.

  The FVM itself (executor, state tree, built-in actors) is the record \<open>machine\<close>, an argument of
  the definitions that call it; its state is the type parameter \<open>'s\<close>. Addresses are the type
  parameter \<open>'a\<close>, token amounts are integers, bytes are lists of numbers. What the theorems
  rely on of the state tree is the predicate \<open>state_tree_ok\<close>. An \<open>anyhow\<close> error is its text.
\<close>

section \<open>Messages and receipts of the FVM\<close>

record 'a FvmMessage =
  msg_version :: nat
  msg_from :: 'a
  msg_to :: 'a
  msg_sequence :: nat
  msg_value :: int
  msg_method_num :: nat
  msg_params :: "nat list"
  msg_gas_limit :: nat
  msg_gas_fee_cap :: int
  msg_gas_premium :: int

text \<open>The exit codes that the sources tell apart.\<close>

datatype ExitCode = EXIT_OK | SYS_SENDER_INVALID | SYS_SENDER_STATE_INVALID | SYS_INSUFFICIENT_FUNDS
  | SYS_OUT_OF_GAS | SYS_ASSERTION_FAILED | USR_INSUFFICIENT_FUNDS | OtherCode nat

record ApplyRet =
  exit_code :: ExitCode
  return_data :: "nat list"
  gas_used :: nat
  failure_info :: "string option"
  event_emitters :: "nat list"

record 'a ActorState =
  act_code :: nat
  act_state :: "nat list"
  act_sequence :: nat
  act_balance :: int
  act_delegated :: "'a option"

datatype ApplyKind = Explicit | Implicit

definition is_success :: "ApplyRet \<Rightarrow> bool" where
  "is_success r = (exit_code r = EXIT_OK)"

text \<open>The machine: the basic check of a message, its encoded length, execution, the state tree with
  its nested transactions, the context of the block, the block gas limit, the numbering of exported
  methods, the IPLD encoding of the parameters the interpreters send (a \<open>Get\<close> reply is decoded to the
  \<open>resolved\<close> flag of the object, if there is one), and the addresses of the singleton actors.\<close>

record ('a, 's) machine =
  mx_check :: "'a FvmMessage \<Rightarrow> string option"
  mx_raw_length :: "'a FvmMessage \<Rightarrow> (string, nat) outcome"
  mx_execute :: "'a FvmMessage \<Rightarrow> ApplyKind \<Rightarrow> nat \<Rightarrow> 's \<Rightarrow> (string, ApplyRet \<times> 's) outcome"
  mx_lookup_id :: "'a \<Rightarrow> 's \<Rightarrow> (string, nat option) outcome"
  mx_get_actor :: "nat \<Rightarrow> 's \<Rightarrow> (string, 'a ActorState option) outcome"
  mx_set_actor :: "nat \<Rightarrow> 'a ActorState \<Rightarrow> 's \<Rightarrow> 's"
  mx_mutate_actor :: "nat \<Rightarrow> ('a ActorState \<Rightarrow> 'a ActorState) \<Rightarrow> 's \<Rightarrow> (string, 's) outcome"
  mx_begin_transaction :: "'s \<Rightarrow> 's"
  mx_end_transaction :: "bool \<Rightarrow> 's \<Rightarrow> (string, 's) outcome"
  mx_epoch :: "'s \<Rightarrow> int"
  mx_chain_id :: "'s \<Rightarrow> nat"
  mx_is_placeholder :: "nat \<Rightarrow> bool"
  mx_block_gas_limit :: nat
  mx_method_hash :: "string \<Rightarrow> nat"
  mx_encode_push_block :: "int \<Rightarrow> nat list \<Rightarrow> (string, nat list) outcome"
  mx_encode_get :: "nat list \<Rightarrow> (string, nat list) outcome"
  mx_encode_resolve :: "nat list \<Rightarrow> nat list \<Rightarrow> (string, nat list) outcome"
  mx_decode_object :: "nat list \<Rightarrow> (string, bool option) outcome"
  mx_system_addr :: 'a
  mx_cron_addr :: 'a
  mx_chainmetadata_addr :: 'a
  mx_gateway_addr :: 'a

section \<open>The execution state\<close>

record FvmUpdatableParams =
  app_version :: nat
  base_fee :: int
  circ_supply :: int
  power_scale :: int

record 's FvmExecState =
  executor :: 's
  block_hash :: "nat list option"
  validator_id :: "nat list option"
  params :: FvmUpdatableParams
  params_dirty :: bool

definition exec_state_new :: "'s \<Rightarrow> FvmUpdatableParams \<Rightarrow> 's FvmExecState" where
  "exec_state_new ex ps =
     \<lparr>executor = ex, block_hash = None, validator_id = None, params = ps, params_dirty = False\<rparr>"

definition with_block_hash :: "nat list \<Rightarrow> 's FvmExecState \<Rightarrow> 's FvmExecState" where
  "with_block_hash h st = st\<lparr>block_hash := Some h\<rparr>"

definition with_validator_id :: "nat list \<Rightarrow> 's FvmExecState \<Rightarrow> 's FvmExecState" where
  "with_validator_id v st = st\<lparr>validator_id := Some v\<rparr>"

text \<open>The receipt fabricated for a message that does not pass the basic check.\<close>

definition check_error :: "string \<Rightarrow> ApplyRet \<times> (nat, 'a) hmap" where
  "check_error e =
     (\<lparr>exit_code = SYS_ASSERTION_FAILED, return_data = [], gas_used = 0, failure_info = Some e,
       event_emitters = []\<rparr>, [])"

fun collect_emitters ::
  "(nat \<Rightarrow> (string, 'a ActorState option) outcome) \<Rightarrow> nat list \<Rightarrow> (nat, 'a) hmap \<Rightarrow>
     (string, (nat, 'a) hmap) outcome" where
  "collect_emitters get [] emitters = Ok emitters"
| "collect_emitters get (i # ids) emitters =
     obind (get i) (\<lambda>actor.
       collect_emitters get ids
         (case actor of
            Some a \<Rightarrow> (case act_delegated a of Some addr \<Rightarrow> AList.update i addr emitters | None \<Rightarrow> emitters)
          | None \<Rightarrow> emitters))"

definition emitter_delegated_addresses ::
  "('a, 's) machine \<Rightarrow> ApplyRet \<Rightarrow> 's FvmExecState \<Rightarrow> (string, (nat, 'a) hmap) outcome" where
  "emitter_delegated_addresses mx ret st =
     collect_emitters (\<lambda>i. mx_get_actor mx i (executor st)) (fold hs_insert (event_emitters ret) []) []"

definition execute_message ::
  "('a, 's) machine \<Rightarrow> 'a FvmMessage \<Rightarrow> ApplyKind \<Rightarrow> 's FvmExecState \<Rightarrow>
     (string, (ApplyRet \<times> (nat, 'a) hmap) \<times> 's FvmExecState) outcome" where
  "execute_message mx msg kind st =
     (case mx_check mx msg of
        Some e \<Rightarrow> Ok (check_error e, st)
      | None \<Rightarrow>
          obind (mx_raw_length mx msg) (\<lambda>raw_length.
          obind (mx_execute mx msg kind raw_length (executor st)) (\<lambda>(ret, ex).
          let st' = st\<lparr>executor := ex\<rparr> in
          obind (emitter_delegated_addresses mx ret st') (\<lambda>addrs.
          Ok ((ret, addrs), st')))))"

definition execute_implicit ::
  "('a, 's) machine \<Rightarrow> 'a FvmMessage \<Rightarrow> 's FvmExecState \<Rightarrow>
     (string, (ApplyRet \<times> (nat, 'a) hmap) \<times> 's FvmExecState) outcome" where
  "execute_implicit mx msg st = execute_message mx msg Implicit st"

definition execute_explicit ::
  "('a, 's) machine \<Rightarrow> 'a FvmMessage \<Rightarrow> 's FvmExecState \<Rightarrow>
     (string, (ApplyRet \<times> (nat, 'a) hmap) \<times> 's FvmExecState) outcome" where
  "execute_explicit mx msg st = execute_message mx msg Explicit st"

definition update_params ::
  "(FvmUpdatableParams \<Rightarrow> FvmUpdatableParams) \<Rightarrow> 's FvmExecState \<Rightarrow> 's FvmExecState" where
  "update_params f st = st\<lparr>params := f (params st), params_dirty := True\<rparr>"

definition update_app_version :: "(nat \<Rightarrow> nat) \<Rightarrow> 's FvmExecState \<Rightarrow> 's FvmExecState" where
  "update_app_version f = update_params (\<lambda>p. p\<lparr>app_version := f (app_version p)\<rparr>)"

definition update_base_fee :: "(int \<Rightarrow> int) \<Rightarrow> 's FvmExecState \<Rightarrow> 's FvmExecState" where
  "update_base_fee f = update_params (\<lambda>p. p\<lparr>base_fee := f (base_fee p)\<rparr>)"

definition update_circ_supply :: "(int \<Rightarrow> int) \<Rightarrow> 's FvmExecState \<Rightarrow> 's FvmExecState" where
  "update_circ_supply f = update_params (\<lambda>p. p\<lparr>circ_supply := f (circ_supply p)\<rparr>)"

definition exec_commit ::
  "('s \<Rightarrow> (string, nat list) outcome) \<Rightarrow> 's FvmExecState \<Rightarrow>
     (string, nat list \<times> FvmUpdatableParams \<times> bool) outcome" where
  "exec_commit flush st = obind (flush (executor st)) (\<lambda>c. Ok (c, params st, params_dirty st))"

section \<open>Upgrades\<close>

datatype UpgradeKey = UpgradeKey nat nat

instantiation UpgradeKey :: linorder
begin

fun less_eq_UpgradeKey :: "UpgradeKey \<Rightarrow> UpgradeKey \<Rightarrow> bool" where
  "less_eq_UpgradeKey (UpgradeKey c h) (UpgradeKey c' h') = (if c = c' then h \<le> h' else c < c')"

definition less_UpgradeKey :: "UpgradeKey \<Rightarrow> UpgradeKey \<Rightarrow> bool" where
  "less_UpgradeKey k k' = (k \<le> k' \<and> \<not> k' \<le> k)"

instance
proof
  fix x y z :: UpgradeKey
  show "x < y \<longleftrightarrow> x \<le> y \<and> \<not> y \<le> x" by (rule less_UpgradeKey_def)
  show "x \<le> x" by (cases x) simp
  show "x \<le> y \<Longrightarrow> y \<le> z \<Longrightarrow> x \<le> z" by (cases x; cases y; cases z) (auto split: if_splits)
  show "x \<le> y \<Longrightarrow> y \<le> x \<Longrightarrow> x = y" by (cases x; cases y) (auto split: if_splits)
  show "x \<le> y \<or> y \<le> x" by (cases x; cases y) auto
qed

end

text \<open>A migration changes the state or fails.\<close>

record 's Upgrade =
  up_chain_id :: nat
  up_block_height :: nat
  up_new_app_version :: "nat option"
  up_migration :: "'s FvmExecState \<Rightarrow> (string, 's FvmExecState) outcome"

definition upgrade_new_by_id ::
  "nat \<Rightarrow> nat \<Rightarrow> nat option \<Rightarrow> ('s FvmExecState \<Rightarrow> (string, 's FvmExecState) outcome) \<Rightarrow> 's Upgrade" where
  "upgrade_new_by_id chain_id height version migration =
     \<lparr>up_chain_id = chain_id, up_block_height = height, up_new_app_version = version,
      up_migration = migration\<rparr>"

definition upgrade_new ::
  "(string \<Rightarrow> (string, nat) outcome) \<Rightarrow> string \<Rightarrow> nat \<Rightarrow> nat option \<Rightarrow>
     ('s FvmExecState \<Rightarrow> (string, 's FvmExecState) outcome) \<Rightarrow> (string, 's Upgrade) outcome" where
  "upgrade_new from_str_hashed name height version migration =
     obind (from_str_hashed name) (\<lambda>chain_id. Ok (upgrade_new_by_id chain_id height version migration))"

definition upgrade_execute ::
  "'s Upgrade \<Rightarrow> 's FvmExecState \<Rightarrow> (string, nat option \<times> 's FvmExecState) outcome" where
  "upgrade_execute u st = obind (up_migration u st) (\<lambda>st'. Ok (up_new_app_version u, st'))"

type_synonym 's UpgradeScheduler = "(UpgradeKey, 's Upgrade) btree_map"

definition upgrade_key :: "'s Upgrade \<Rightarrow> UpgradeKey" where
  "upgrade_key u = UpgradeKey (up_chain_id u) (up_block_height u)"

definition scheduler_new :: "'s UpgradeScheduler" where
  "scheduler_new = []"

definition scheduler_add :: "'s Upgrade \<Rightarrow> 's UpgradeScheduler \<Rightarrow> (string, 's UpgradeScheduler) outcome" where
  "scheduler_add u m =
     (case map_of m (upgrade_key u) of
        None \<Rightarrow> Ok (om_insert (upgrade_key u) u m)
      | Some _ \<Rightarrow> Err ''Upgrade already exists'')"

definition scheduler_get :: "'s UpgradeScheduler \<Rightarrow> nat \<Rightarrow> nat \<Rightarrow> 's Upgrade option" where
  "scheduler_get m chain_id height = map_of m (UpgradeKey chain_id height)"

section \<open>Checking a message for the mempool\<close>

record 'a FvmCheckRet =
  chk_sender :: 'a
  chk_gas_limit :: nat
  chk_exit_code :: ExitCode
  chk_return_data :: "nat list option"
  chk_info :: "string option"

definition checked ::
  "'a FvmMessage \<Rightarrow> ExitCode \<Rightarrow> nat list option \<Rightarrow> string option \<Rightarrow> 'a FvmCheckRet" where
  "checked msg code ret info =
     \<lparr>chk_sender = msg_from msg, chk_gas_limit = msg_gas_limit msg, chk_exit_code = code,
      chk_return_data = ret, chk_info = info\<rparr>"

definition balance_needed :: "'a FvmMessage \<Rightarrow> int" where
  "balance_needed msg = msg_gas_fee_cap msg * int (msg_gas_limit msg)"

definition fvm_check ::
  "('a, 's) machine \<Rightarrow> bool \<Rightarrow> 's FvmExecState \<Rightarrow> 'a FvmMessage \<Rightarrow>
     (string, 's FvmExecState \<times> 'a FvmCheckRet) outcome" where
  "fvm_check mx exec_in_check st msg =
     (case mx_check mx msg of
        Some e \<Rightarrow> Ok (st, checked msg SYS_ASSERTION_FAILED None (Some (''pre-check failure: '' @ e)))
      | None \<Rightarrow>
          let missing = Ok (st, checked msg SYS_SENDER_INVALID None (Some ''cannot find actor'')) in
          obind (mx_lookup_id mx (msg_from msg) (executor st)) (\<lambda>found.
          case found of
            None \<Rightarrow> missing
          | Some i \<Rightarrow>
              obind (mx_get_actor mx i (executor st)) (\<lambda>actor.
              case actor of
                None \<Rightarrow> missing
              | Some a \<Rightarrow>
                  if act_balance a < balance_needed msg
                  then Ok (st, checked msg SYS_SENDER_STATE_INVALID None (Some ''actor balance less than needed''))
                  else if act_sequence a \<noteq> msg_sequence msg
                  then Ok (st, checked msg SYS_SENDER_STATE_INVALID None (Some ''expected sequence''))
                  else if exec_in_check
                  then obind (execute_explicit mx msg st) (\<lambda>((ret, _), st').
                    Ok (st', checked msg (exit_code ret) (Some (return_data ret))
                          (case failure_info ret of
                             Some i \<Rightarrow> if i = [] then None else Some i
                           | None \<Rightarrow> None)))
                  else Ok (st\<lparr>executor := mx_set_actor mx i
                        (a\<lparr>act_sequence := add_u64 (act_sequence a) 1,
                           act_balance := act_balance a - balance_needed msg\<rparr>) (executor st)\<rparr>,
                      checked msg EXIT_OK None None))))"

section \<open>Retrying a broadcast\<close>

definition can_retry :: "ExitCode \<Rightarrow> bool" where
  "can_retry code = (code = SYS_SENDER_STATE_INVALID)"

text \<open>The loop of the macro \<open>retry!\<close>: \<open>attempts n\<close> is what the \<open>n\<close>-th broadcast returns, either
  the exit code and message of a failed check or the hash of the transaction; an error of the client
  ends the loop at once. Attempts are counted from 0, so the guard \<open>attempt == max_retries\<close> of the
  source is \<open>max_retries \<le> attempt\<close>. The result carries the number of broadcasts made.\<close>

function retry_broadcast ::
  "(nat \<Rightarrow> (string, (ExitCode \<times> string) + 'h) outcome) \<Rightarrow> nat \<Rightarrow> nat \<Rightarrow> nat \<times> (string, 'h) outcome" where
  "retry_broadcast attempts max_retries attempt =
     (case attempts attempt of
        Ok (Inr h) \<Rightarrow> (Suc attempt, Ok h)
      | Ok (Inl (code, m)) \<Rightarrow>
          if max_retries \<le> attempt \<or> \<not> can_retry code then (Suc attempt, Err m)
          else retry_broadcast attempts max_retries (Suc attempt)
      | Err e \<Rightarrow> (Suc attempt, Err e)
      | Retry \<Rightarrow> (Suc attempt, Retry)
      | Panic \<Rightarrow> (Suc attempt, Panic))"
  by pat_completeness auto
termination by (relation "measure (\<lambda>(_, m, a). m - a)") auto

declare retry_broadcast.simps [simp del]

section \<open>What the state tree promises\<close>

definition state_tree_ok :: "('a, 's) machine \<Rightarrow> bool" where
  "state_tree_ok mx =
     ((\<forall>i j a s. mx_get_actor mx j (mx_set_actor mx i a s) =
         (if j = i then Ok (Some a) else mx_get_actor mx j s)) \<and>
      (\<forall>x i a s. mx_lookup_id mx x (mx_set_actor mx i a s) = mx_lookup_id mx x s) \<and>
      (\<forall>i f a s. mx_get_actor mx i s = Ok (Some a) \<longrightarrow>
         mx_mutate_actor mx i f s = Ok (mx_set_actor mx i (f a) s)) \<and>
      (\<forall>i a s. mx_epoch mx (mx_set_actor mx i a s) = mx_epoch mx s))"

lemma state_tree_okD:
  assumes "state_tree_ok mx"
  shows "mx_get_actor mx j (mx_set_actor mx i a s) = (if j = i then Ok (Some a) else mx_get_actor mx j s)"
    and "mx_lookup_id mx x (mx_set_actor mx i a s) = mx_lookup_id mx x s"
    and "mx_get_actor mx i s = Ok (Some a) \<Longrightarrow> mx_mutate_actor mx i f s = Ok (mx_set_actor mx i (f a) s)"
    and "mx_epoch mx (mx_set_actor mx i a s) = mx_epoch mx s"
  using assms by (auto simp: state_tree_ok_def)

text \<open>A machine whose state is a table of accounts, used to evaluate the model: address \<open>n\<close> belongs
  to actor \<open>n\<close>, and executing a message succeeds without effect.\<close>

type_synonym accounts = "(nat, nat ActorState) hmap"

definition sample_machine :: "(nat, accounts) machine" where
  "sample_machine =
     \<lparr>mx_check = (\<lambda>m. if msg_gas_limit m = 0 then Some ''no gas'' else None),
      mx_raw_length = (\<lambda>m. Ok (length (msg_params m))),
      mx_execute = (\<lambda>m k n s. Ok (\<lparr>exit_code = EXIT_OK, return_data = [], gas_used = 0,
         failure_info = None, event_emitters = []\<rparr>, s)),
      mx_lookup_id = (\<lambda>x s. Ok (Some x)),
      mx_get_actor = (\<lambda>i s. Ok (hm_get s i)),
      mx_set_actor = (\<lambda>i a s. AList.update i a s),
      mx_mutate_actor = (\<lambda>i f s. case hm_get s i of
         Some a \<Rightarrow> Ok (AList.update i (f a) s) | None \<Rightarrow> Err ''actor not found''),
      mx_begin_transaction = (\<lambda>s. s), mx_end_transaction = (\<lambda>r s. Ok s),
      mx_epoch = (\<lambda>s. 5), mx_chain_id = (\<lambda>s. 1), mx_is_placeholder = (\<lambda>c. c = 0),
      mx_block_gas_limit = 10000000000, mx_method_hash = length,
      mx_encode_push_block = (\<lambda>e b. Ok (nat e # b)), mx_encode_get = Ok, mx_encode_resolve = (\<lambda>k v. Ok (k @ v)),
      mx_decode_object = (\<lambda>d. Ok (Some (d = [1]))), mx_system_addr = 0, mx_cron_addr = 3,
      mx_chainmetadata_addr = 48, mx_gateway_addr = 64\<rparr>"

lemma sample_machine_ok: "state_tree_ok sample_machine"
  by (simp add: state_tree_ok_def sample_machine_def)

definition sample_msg :: "nat \<Rightarrow> nat \<Rightarrow> nat FvmMessage" where
  "sample_msg from seq =
     \<lparr>msg_version = 0, msg_from = from, msg_to = 7, msg_sequence = seq, msg_value = 0, msg_method_num = 2,
      msg_params = [], msg_gas_limit = 10, msg_gas_fee_cap = 3, msg_gas_premium = 1\<rparr>"

definition sample_accounts :: accounts where
  "sample_accounts =
     [(7, \<lparr>act_code = 1, act_state = [], act_sequence = 4, act_balance = 70, act_delegated = None\<rparr>),
      (64, \<lparr>act_code = 1, act_state = [], act_sequence = 0, act_balance = 500, act_delegated = None\<rparr>)]"

definition sample_params :: FvmUpdatableParams where
  "sample_params = \<lparr>app_version = 0, base_fee = 0, circ_supply = 1000, power_scale = 3\<rparr>"

definition sample_state :: "accounts FvmExecState" where
  "sample_state = exec_state_new sample_accounts sample_params"

lemmas sample_exec_defs = sample_machine_def sample_msg_def sample_accounts_def sample_params_def
  sample_state_def exec_state_new_def

section \<open>Messages of one sender in the mempool\<close>

text \<open>The mempool checks messages one after the other on the same projected state.\<close>

fun check_all ::
  "('a, 's) machine \<Rightarrow> bool \<Rightarrow> 's FvmExecState \<Rightarrow> 'a FvmMessage list \<Rightarrow>
     (string, 's FvmExecState \<times> 'a FvmCheckRet list) outcome" where
  "check_all mx ex st [] = Ok (st, [])"
| "check_all mx ex st (m # ms) =
     obind (fvm_check mx ex st m) (\<lambda>(st', r).
     obind (check_all mx ex st' ms) (\<lambda>(st'', rs). Ok (st'', r # rs)))"

definition sender_at :: "('a, 's) machine \<Rightarrow> 'a \<Rightarrow> nat \<Rightarrow> 'a ActorState \<Rightarrow> 's FvmExecState \<Rightarrow> bool" where
  "sender_at mx x i a st =
     (mx_lookup_id mx x (executor st) = Ok (Some i) \<and> mx_get_actor mx i (executor st) = Ok (Some a))"

definition charged :: "'a FvmMessage \<Rightarrow> 'a ActorState \<Rightarrow> 'a ActorState" where
  "charged m a = a\<lparr>act_sequence := act_sequence a + 1, act_balance := act_balance a - balance_needed m\<rparr>"

lemma fvm_check_cases:
  assumes ok: "state_tree_ok mx" and at: "sender_at mx (msg_from m) i a st"
    and m: "mx_check mx m = None" and small: "act_sequence a + 1 < U64"
  shows "\<exists>st' r. fvm_check mx False st m = Ok (st', r) \<and>
      (if balance_needed m \<le> act_balance a \<and> msg_sequence m = act_sequence a
       then chk_exit_code r = EXIT_OK \<and> sender_at mx (msg_from m) i (charged m a) st'
       else chk_exit_code r = SYS_SENDER_STATE_INVALID \<and> st' = st)"
  using at m small by (auto simp: fvm_check_def sender_at_def checked_def state_tree_okD [OF ok] charged_def u64_simps)

lemma sums_cover:
  fixes need :: "'x \<Rightarrow> int"
  shows "(\<forall>k < length (m # ms). sum_list (map need (take (Suc k) (m # ms))) \<le> b) \<longleftrightarrow>
     need m \<le> b \<and> (\<forall>k < length ms. sum_list (map need (take (Suc k) ms)) \<le> b - need m)"
  unfolding length_Cons All_less_Suc2 by (auto simp: algebra_simps)

lemma upt_sequence: "map f (m # ms) = [n..<n + length (m # ms)] \<longleftrightarrow>
     f m = n \<and> map f ms = [Suc n..<Suc n + length ms]"
  by (simp add: upt_conv_Cons del: upt_Suc)

lemma charged_simps [simp]:
  "act_sequence (charged m a) = Suc (act_sequence a)"
  "act_balance (charged m a) = act_balance a - balance_needed m"
  by (simp_all add: charged_def)

lemma check_all_spec:
  assumes ok: "state_tree_ok mx"
  shows "sender_at mx x i a st \<Longrightarrow> \<forall>m \<in> set ms. mx_check mx m = None \<and> msg_from m = x \<Longrightarrow>
     act_sequence a + length ms < U64 \<Longrightarrow>
     \<exists>st' rs. check_all mx False st ms = Ok (st', rs) \<and>
       ((\<forall>r \<in> set rs. chk_exit_code r = EXIT_OK) \<longleftrightarrow>
         map msg_sequence ms = [act_sequence a..<act_sequence a + length ms] \<and>
         (\<forall>k < length ms. sum_list (map balance_needed (take (Suc k) ms)) \<le> act_balance a)) \<and>
       ((\<forall>r \<in> set rs. chk_exit_code r = EXIT_OK) \<longrightarrow>
         sender_at mx x i (fold charged ms a) st')"
proof (induction ms arbitrary: st a)
  case Nil
  then show ?case by simp
next
  case (Cons m ms)
  have m: "mx_check mx m = None" "msg_from m = x" using Cons.prems(2) by auto
  obtain st1 r where r: "fvm_check mx False st m = Ok (st1, r)"
    "if balance_needed m \<le> act_balance a \<and> msg_sequence m = act_sequence a
     then chk_exit_code r = EXIT_OK \<and> sender_at mx x i (charged m a) st1
     else chk_exit_code r = SYS_SENDER_STATE_INVALID \<and> st1 = st"
    using fvm_check_cases [OF ok, of m i a st] Cons.prems m by auto
  show ?case
  proof (cases "balance_needed m \<le> act_balance a \<and> msg_sequence m = act_sequence a")
    case True
    then have at: "sender_at mx x i (charged m a) st1" and code: "chk_exit_code r = EXIT_OK" using r by auto
    have small: "act_sequence (charged m a) + length ms < U64" using Cons.prems(3) by (simp add: charged_def)
    have rest: "\<forall>m \<in> set ms. mx_check mx m = None \<and> msg_from m = x" using Cons.prems(2) by simp
    obtain st2 rs where IH: "check_all mx False st1 ms = Ok (st2, rs)"
      "(\<forall>r \<in> set rs. chk_exit_code r = EXIT_OK) \<longleftrightarrow>
         map msg_sequence ms = [Suc (act_sequence a)..<Suc (act_sequence a) + length ms] \<and>
         (\<forall>k < length ms. sum_list (map balance_needed (take (Suc k) ms)) \<le> act_balance a - balance_needed m)"
      "(\<forall>r \<in> set rs. chk_exit_code r = EXIT_OK) \<longrightarrow> sender_at mx x i (fold charged ms (charged m a)) st2"
      using Cons.IH [OF at rest small] by (auto simp del: upt_Suc)
    show ?thesis unfolding upt_sequence sums_cover
      by (rule exI [of _ st2], rule exI [of _ "r # rs"]) (use IH r(1) code True in simp)
  next
    case False
    then have st1: "st1 = st" and code: "chk_exit_code r \<noteq> EXIT_OK" using r by auto
    obtain st2 rs where "check_all mx False st ms = Ok (st2, rs)"
      using Cons.IH [OF Cons.prems(1)] Cons.prems by auto
    with st1 code r(1) False show ?thesis unfolding upt_sequence sums_cover by auto
  qed
qed

lemma fold_charged:
  "act_sequence (fold charged ms a) = act_sequence a + length ms"
  "act_balance (fold charged ms a) = act_balance a - sum_list (map balance_needed ms)"
  by (induction ms arbitrary: a) (simp_all add: charged_def)

lemma retry_exhausted:
  "n \<le> max_retries \<Longrightarrow>
     retry_broadcast (\<lambda>_. Ok (Inl (SYS_SENDER_STATE_INVALID, e))) max_retries n = (Suc max_retries, Err e)"
  by (induction "max_retries - n" arbitrary: n) (subst retry_broadcast.simps, simp add: can_retry_def)+

section \<open>Properties\<close>

text \<open>C31: the mempool accepts a run of well-formed messages of one sender, checked without execution,
  exactly when their nonces continue the sender's nonce without a gap and every prefix of them can be
  paid from the balance; the projected state has then counted every nonce and charged every fee.\<close>

theorem mempool_check_sequence:
  assumes "state_tree_ok mx" "sender_at mx x i a st"
    and "\<forall>m \<in> set ms. mx_check mx m = None \<and> msg_from m = x"
    and "act_sequence a + length ms < U64"
  shows "\<exists>st' rs. check_all mx False st ms = Ok (st', rs) \<and>
     ((\<forall>r \<in> set rs. chk_exit_code r = EXIT_OK) \<longleftrightarrow>
        map msg_sequence ms = [act_sequence a..<act_sequence a + length ms] \<and>
        (\<forall>k < length ms. sum_list (map balance_needed (take (Suc k) ms)) \<le> act_balance a)) \<and>
     ((\<forall>r \<in> set rs. chk_exit_code r = EXIT_OK) \<longrightarrow>
        (\<exists>a'. sender_at mx x i a' st' \<and> act_sequence a' = act_sequence a + length ms \<and>
           act_balance a' = act_balance a - sum_list (map balance_needed ms)))"
  using check_all_spec [OF assms] fold_charged [of ms a] by metis

theorem mempool_check_sequence_witness:
  "\<exists>st' rs. check_all sample_machine False sample_state [sample_msg 7 4, sample_msg 7 5] = Ok (st', rs) \<and>
     (\<forall>r \<in> set rs. chk_exit_code r = EXIT_OK)"
proof -
  let ?a = "\<lparr>act_code = 1, act_state = [], act_sequence = 4, act_balance = 70, act_delegated = None\<rparr> :: nat ActorState"
  have at: "sender_at sample_machine 7 7 ?a sample_state"
    by (simp add: sender_at_def sample_exec_defs)
  have len: "act_sequence ?a + length [sample_msg 7 4, sample_msg 7 5] < U64" by (simp add: U64_def)
  show ?thesis
    using mempool_check_sequence [OF sample_machine_ok at _ len]
    by (fastforce simp: sample_exec_defs balance_needed_def upt_conv_Cons less_Suc_eq)
qed

text \<open>A sender without the funds for the gas is reported as \<open>SYS_SENDER_STATE_INVALID\<close>, the code of a
  wrong nonce, so the broadcaster, which does not mean to retry when funds are missing, repeats the
  transaction until its retries are used up.\<close>

theorem broadcast_retries_without_funds:
  assumes "mx_check mx m = None" "sender_at mx (msg_from m) i a st" "act_balance a < balance_needed m"
  shows "retry_broadcast (\<lambda>n. omap (\<lambda>(_, r). Inl (chk_exit_code r, the (chk_info r))) (fvm_check mx ex st m))
       max_retries 0 = (Suc max_retries, Err ''actor balance less than needed'')"
  using assms retry_exhausted [of 0 max_retries] by (simp add: fvm_check_def sender_at_def checked_def)

theorem broadcast_retries_without_funds_witness:
  "retry_broadcast (\<lambda>n. omap (\<lambda>(_, r). Inl (chk_exit_code r, the (chk_info r)))
      (fvm_check sample_machine False sample_state ((sample_msg 7 4)\<lparr>msg_gas_fee_cap := 8\<rparr>)))
     5 0 = (6, (Err ''actor balance less than needed'' :: (string, nat) outcome))"
proof -
  let ?m = "(sample_msg 7 4)\<lparr>msg_gas_fee_cap := 8\<rparr>"
  let ?a = "\<lparr>act_code = 1, act_state = [], act_sequence = 4, act_balance = 70, act_delegated = None\<rparr> :: nat ActorState"
  have "mx_check sample_machine ?m = None" "sender_at sample_machine (msg_from ?m) 7 ?a sample_state"
    "act_balance ?a < balance_needed ?m"
    by (simp_all add: sender_at_def sample_exec_defs balance_needed_def)
  from broadcast_retries_without_funds [OF this, of False 5] show ?thesis by simp
qed

text \<open>A schedule returns exactly the upgrades added to it: an upgrade is accepted if and only if its
  chain and height are free, it is then the one found there, and every other slot is unchanged.\<close>

theorem scheduler_add_get:
  assumes "om_wf m"
  shows "case scheduler_add u m of
       Ok m' \<Rightarrow> scheduler_get m (up_chain_id u) (up_block_height u) = None \<and> om_wf m' \<and>
         (\<forall>c h. scheduler_get m' c h =
            (if c = up_chain_id u \<and> h = up_block_height u then Some u else scheduler_get m c h))
     | Err _ \<Rightarrow> scheduler_get m (up_chain_id u) (up_block_height u) \<noteq> None
     | _ \<Rightarrow> False"
  using assms by (auto simp: scheduler_add_def scheduler_get_def upgrade_key_def split: option.splits)

theorem scheduler_add_get_witness:
  "case scheduler_add (upgrade_new_by_id 1 10 (Some 2) Ok) (scheduler_new :: nat UpgradeScheduler) of
     Ok m' \<Rightarrow> scheduler_get m' 1 10 = Some (upgrade_new_by_id 1 10 (Some 2) Ok) \<and> scheduler_get m' 1 11 = None
   | _ \<Rightarrow> False"
  using scheduler_add_get [of "scheduler_new :: nat UpgradeScheduler" "upgrade_new_by_id 1 10 (Some 2) Ok"]
  by (auto simp: scheduler_new_def scheduler_get_def upgrade_new_by_id_def scheduler_add_def split: outcome.splits)

end
