(* ===== verification/Merkle_Tree.thy ===== *)
theory Merkle_Tree
  imports IPC_Prelude "HOL-Library.List_Lexorder" "HOL-Library.Multiset" "HOL-Library.Countable"
begin

text \<open>
  The Merkle trees of \<open>ext/merkle-tree-rs\<close>: the array of hashes with its single and multiple proofs
  (\<open>core.rs\<close>) and the tree over encoded values (\<open>standard.rs\<close>).

  A hash is a list of bytes, ordered lexicographically. The hash function, the ABI encoding and the hexadecimal
  notation are not part of the repository and come in as the record \<open>hash_lib\<close>. The loops over queues of
  indices are recursive functions; an access outside of an array is a \<open>Panic\<close>.
\<close>

section \<open>The array of hashes\<close>

type_synonym Hash = "nat list"

record ('l, 'p) MultiProof =
  mp_leaves :: "'l list"
  mp_proof :: "'p list"
  mp_flags :: "bool list"

text \<open>The pair is sorted before it is hashed.\<close>

definition hash_pair_node :: "(nat list \<Rightarrow> Hash) \<Rightarrow> Hash \<Rightarrow> Hash \<Rightarrow> Hash" where
  "hash_pair_node keccak a b = keccak (min a b @ max a b)"

definition left_child_index :: "nat \<Rightarrow> nat" where
  "left_child_index i = 2 * i + 1"

definition right_child_index :: "nat \<Rightarrow> nat" where
  "right_child_index i = 2 * i + 2"

definition parent_index :: "nat \<Rightarrow> (string, nat) outcome" where
  "parent_index i = (if i > 0 then Ok ((i - 1) div 2) else Err ''Root has no parent'')"

text \<open>Indices are converted to \<open>i32\<close> to find the sibling.\<close>

definition to_i32 :: "nat \<Rightarrow> (string, int) outcome" where
  "to_i32 i = (if i < 2 ^ 31 then Ok (int i) else Err ''out of range integral type conversion attempted'')"

definition sibling_index :: "int \<Rightarrow> (string, nat) outcome" where
  "sibling_index i = (if i > 0 then Ok (nat (i - (- 1) ^ nat (i mod 2))) else Err ''Root has no sibling'')"

definition is_tree_node :: "Hash list \<Rightarrow> nat \<Rightarrow> bool" where
  "is_tree_node tree i = (i < length tree)"

definition is_internal_node :: "Hash list \<Rightarrow> nat \<Rightarrow> bool" where
  "is_internal_node tree i = is_tree_node tree (left_child_index i)"

definition is_leaf_node :: "Hash list \<Rightarrow> nat \<Rightarrow> bool" where
  "is_leaf_node tree i = (is_tree_node tree i \<and> \<not> is_internal_node tree i)"

definition check_leaf_node :: "Hash list \<Rightarrow> nat \<Rightarrow> (string, unit) outcome" where
  "check_leaf_node tree i = (if is_leaf_node tree i then Ok () else Err ''Index is not in tree'')"

definition fill_step :: "(nat list \<Rightarrow> Hash) \<Rightarrow> nat \<Rightarrow> Hash list \<Rightarrow> Hash list" where
  "fill_step keccak i tree =
     tree[i := hash_pair_node keccak (tree ! left_child_index i) (tree ! right_child_index i)]"

definition make_merkle_tree :: "(nat list \<Rightarrow> Hash) \<Rightarrow> Hash list \<Rightarrow> (string, Hash list) outcome" where
  "make_merkle_tree keccak leaves =
     (if leaves = [] then Err ''Expected non-zero number of leaves''
      else let tree_length = 2 * length leaves - 1;
               tree = fold (\<lambda>(i, v) tree. tree[tree_length - 1 - i := v]) (zip [0..<length leaves] leaves)
                        (replicate tree_length (replicate 32 0)) in
      Ok (fold (fill_step keccak) (rev [0..<tree_length - length leaves]) tree))"

function proof_loop :: "Hash list \<Rightarrow> nat \<Rightarrow> (string, Hash list) outcome" where
  "proof_loop tree i =
     (if i > 0
      then obind (obind (to_i32 i) sibling_index) (\<lambda>sibling_i.
           if sibling_i \<ge> length tree then Panic
           else obind (parent_index i) (\<lambda>p. omap ((#) (tree ! sibling_i)) (proof_loop tree p)))
      else Ok [])"
  by auto
termination by (relation "measure snd") (auto simp: parent_index_def split: if_splits)

declare proof_loop.simps [simp del]

definition get_proof :: "Hash list \<Rightarrow> nat \<Rightarrow> (string, Hash list) outcome" where
  "get_proof tree i = obind (check_leaf_node tree i) (\<lambda>_. proof_loop tree i)"

definition process_proof :: "(nat list \<Rightarrow> Hash) \<Rightarrow> Hash \<Rightarrow> Hash list \<Rightarrow> (string, Hash) outcome" where
  "process_proof keccak leaf proof = Ok (fold (\<lambda>b a. hash_pair_node keccak a b) proof leaf)"

text \<open>The queue of a multi-proof: the proofs and flags that are added while it is worked off.\<close>

function multi_proof_loop :: "Hash list \<Rightarrow> nat list \<Rightarrow> (string, Hash list \<times> bool list) outcome" where
  "multi_proof_loop tree stack =
     (case stack of
        [] \<Rightarrow> Ok ([], [])
      | j # rest \<Rightarrow>
          if j > 0
          then obind (obind (to_i32 j) sibling_index) (\<lambda>s.
               obind (parent_index j) (\<lambda>p.
               if rest \<noteq> [] \<and> s = hd rest
               then omap (\<lambda>(proof, flags). (proof, True # flags)) (multi_proof_loop tree (tl rest @ [p]))
               else if s \<ge> length tree then Panic
               else omap (\<lambda>(proof, flags). (tree ! s # proof, False # flags)) (multi_proof_loop tree (rest @ [p]))))
          else Ok ([], []))"
  by pat_completeness auto
termination
proof (relation "measure (\<lambda>(tree, stack). sum_list stack)", goal_cases)
  case (2 tree stack j rest s p)
  have "sum_list (tl rest) \<le> sum_list rest" by (cases rest) auto
  with 2 show ?case by (auto simp: parent_index_def split: if_splits)
next
  case (3 tree stack j rest s p)
  then show ?case by (auto simp: parent_index_def split: if_splits)
qed simp

declare multi_proof_loop.simps [simp del]

definition get_multi_proof :: "Hash list \<Rightarrow> nat list \<Rightarrow> (string, (Hash, Hash) MultiProof) outcome" where
  "get_multi_proof tree indices =
     obind (try_all (check_leaf_node tree) indices) (\<lambda>_.
     let indices = rev (sort indices) in
     if \<not> distinct indices then Err ''Cannot prove duplicated index''
     else obind (multi_proof_loop tree indices) (\<lambda>(proof, flags).
     if indices = [] \<and> tree = [] then Panic
     else Ok \<lparr>mp_leaves = map ((!) tree) indices, mp_proof = (if indices = [] then proof @ [tree ! 0] else proof),
              mp_flags = flags\<rparr>))"

fun process_flags ::
  "(nat list \<Rightarrow> Hash) \<Rightarrow> bool list \<Rightarrow> Hash list \<Rightarrow> Hash list \<Rightarrow> (string, Hash list \<times> Hash list) outcome" where
  "process_flags keccak [] stack proof = Ok (stack, proof)"
| "process_flags keccak (flag # flags) stack proof =
     (case stack of
        [] \<Rightarrow> Panic
      | a # stack \<Rightarrow>
          if flag
          then (case stack of
                  [] \<Rightarrow> Panic
                | b # stack \<Rightarrow> process_flags keccak flags (stack @ [hash_pair_node keccak a b]) proof)
          else (case proof of
                  [] \<Rightarrow> Panic
                | b # proof \<Rightarrow> process_flags keccak flags (stack @ [hash_pair_node keccak a b]) proof))"

definition process_multi_proof :: "(nat list \<Rightarrow> Hash) \<Rightarrow> (Hash, Hash) MultiProof \<Rightarrow> (string, Hash) outcome" where
  "process_multi_proof keccak mp =
     (if length (mp_proof mp) < length (filter Not (mp_flags mp)) then Err ''Invalid multiproof format''
      else if length (mp_leaves mp) + length (mp_proof mp) \<noteq> length (mp_flags mp) + 1
      then Err ''Provide leaves and multi_proof are not compatible''
      else obind (process_flags keccak (mp_flags mp) (mp_leaves mp) (mp_proof mp)) (\<lambda>(stack, proof).
           if stack \<noteq> [] then Ok (last stack) else if proof \<noteq> [] then Ok (hd proof) else Panic))"

definition is_valid_merkle_tree :: "(nat list \<Rightarrow> Hash) \<Rightarrow> Hash list \<Rightarrow> bool" where
  "is_valid_merkle_tree keccak tree =
     ((\<forall>i < length tree.
         if right_child_index i \<ge> length tree then left_child_index i \<ge> length tree
         else tree ! i = hash_pair_node keccak (tree ! left_child_index i) (tree ! right_child_index i)) \<and>
      tree \<noteq> [])"

section \<open>Trees over values\<close>

text \<open>Keccak-256, the types and tokens of the ABI, and hexadecimal notation.\<close>

record ('ty, 'tok) hash_lib =
  hl_keccak :: "nat list \<Rightarrow> Hash"
  hl_read :: "string \<Rightarrow> (string, 'ty) outcome"
  hl_tokenize :: "'ty \<Rightarrow> string \<Rightarrow> (string, 'tok) outcome"
  hl_encode :: "'tok list \<Rightarrow> nat list"
  hl_hex :: "nat list \<Rightarrow> string"
  hl_unhex :: "string \<Rightarrow> (string, nat list) outcome"

fun leaf_tokens :: "('ty, 'tok) hash_lib \<Rightarrow> string list \<Rightarrow> string list \<Rightarrow> (string, 'tok list) outcome" where
  "leaf_tokens hl vals [] = Ok []"
| "leaf_tokens hl vals (p # ps) =
     obind (hl_read hl p) (\<lambda>ty.
     case vals of
       [] \<Rightarrow> Panic
     | v # vals \<Rightarrow> obind (hl_tokenize hl ty v) (\<lambda>t. omap ((#) t) (leaf_tokens hl vals ps)))"

definition standard_leaf_hash :: "('ty, 'tok) hash_lib \<Rightarrow> string list \<Rightarrow> string list \<Rightarrow> (string, Hash) outcome" where
  "standard_leaf_hash hl vals ps =
     obind (leaf_tokens hl vals ps) (\<lambda>tokens. Ok (hl_keccak hl (hl_keccak hl (hl_encode hl tokens))))"

record Values =
  v_value :: "string list"
  v_tree_index :: nat

record StandardMerkleTreeData =
  data_format :: string
  data_tree :: "string list"
  data_values :: "Values list"
  data_leaf_encoding :: "string list"

record StandardMerkleTree =
  hash_lookup :: "(Hash, nat) hmap"
  smt_tree :: "Hash list"
  smt_values :: "Values list"
  leaf_encoding :: "string list"

datatype LeafType = Number nat | LeafBytes "string list"

definition check_bounds :: "'x list \<Rightarrow> nat \<Rightarrow> (string, unit) outcome" where
  "check_bounds xs index = (if index \<ge> length xs then Err ''Index out of range'' else Ok ())"

definition smt_new ::
  "('ty, 'tok) hash_lib \<Rightarrow> Hash list \<Rightarrow> Values list \<Rightarrow> string list \<Rightarrow> (string, StandardMerkleTree) outcome" where
  "smt_new hl tree vals enc =
     obind (try_all (\<lambda>(i, v). omap (\<lambda>h. (h, i)) (standard_leaf_hash hl (v_value v) enc)) (zip [0..<length vals] vals))
       (\<lambda>kvs. Ok \<lparr>hash_lookup = hm_from kvs, smt_tree = tree, smt_values = vals, leaf_encoding = enc\<rparr>)"

text \<open>Hashed values are triples of the value, its index and its hash.\<close>

definition smt_of ::
  "('ty, 'tok) hash_lib \<Rightarrow> string list list \<Rightarrow> string list \<Rightarrow> (string, StandardMerkleTree) outcome" where
  "smt_of hl vals enc =
     obind (try_all (\<lambda>(i, v). omap (\<lambda>h. (v, i, h)) (standard_leaf_hash hl v enc)) (zip [0..<length vals] vals)) (\<lambda>hashed.
     let hashed = sort_key (\<lambda>(v, i, h). h) hashed in
     obind (make_merkle_tree (hl_keccak hl) (map (\<lambda>(v, i, h). h) hashed)) (\<lambda>tree.
     let indexed = fold (\<lambda>(k, v, i, h) xs. xs[i := (xs ! i)\<lparr>v_tree_index := length tree - k - 1\<rparr>])
                     (zip [0..<length hashed] hashed) (map (\<lambda>v. \<lparr>v_value = v, v_tree_index = 0\<rparr>) vals) in
     smt_new hl tree indexed enc))"

definition load_hash :: "('ty, 'tok) hash_lib \<Rightarrow> string \<Rightarrow> (string, Hash) outcome" where
  "load_hash hl leaf =
     (if length leaf < 2 then Panic
      else case hl_unhex hl (drop 2 leaf) of
             Ok b \<Rightarrow> if length b = 32 then Ok b else Panic
           | _ \<Rightarrow> Panic)"

definition smt_load ::
  "('ty, 'tok) hash_lib \<Rightarrow> StandardMerkleTreeData \<Rightarrow> (string, StandardMerkleTree) outcome" where
  "smt_load hl d =
     (if data_format d \<noteq> ''standard-v1'' then Err ''Unknown format''
      else obind (try_all (load_hash hl) (data_tree d)) (\<lambda>tree.
           smt_new hl tree (data_values d) (data_leaf_encoding d)))"

definition smt_dump :: "('ty, 'tok) hash_lib \<Rightarrow> StandardMerkleTree \<Rightarrow> StandardMerkleTreeData" where
  "smt_dump hl t =
     \<lparr>data_format = ''standard-v1'', data_tree = map (\<lambda>leaf. ''0x'' @ hl_hex hl leaf) (smt_tree t),
      data_values = smt_values t, data_leaf_encoding = leaf_encoding t\<rparr>"

text \<open>Hashes are given out in a format, as they are or in hexadecimal notation.\<close>

definition smt_root :: "(Hash \<Rightarrow> 'f) \<Rightarrow> StandardMerkleTree \<Rightarrow> (string, 'f) outcome" where
  "smt_root format t = (if smt_tree t = [] then Panic else Ok (format (smt_tree t ! 0)))"

definition validate_value :: "('ty, 'tok) hash_lib \<Rightarrow> StandardMerkleTree \<Rightarrow> nat \<Rightarrow> (string, unit) outcome" where
  "validate_value hl t index =
     obind (check_bounds (smt_values t) index) (\<lambda>_.
     let v = smt_values t ! index in
     obind (check_bounds (smt_tree t) (v_tree_index v)) (\<lambda>_.
     obind (standard_leaf_hash hl (v_value v) (leaf_encoding t)) (\<lambda>leaf.
     if leaf \<noteq> smt_tree t ! v_tree_index v then Err ''Merkle tree does not contain the expected value'' else Ok ())))"

definition smt_validate :: "('ty, 'tok) hash_lib \<Rightarrow> StandardMerkleTree \<Rightarrow> (string, unit) outcome" where
  "smt_validate hl t = obind (try_all (validate_value hl t) [0..<length (smt_values t)]) (\<lambda>_. Ok ())"

definition leaf_lookup :: "('ty, 'tok) hash_lib \<Rightarrow> StandardMerkleTree \<Rightarrow> string list \<Rightarrow> (string, nat) outcome" where
  "leaf_lookup hl t leaf =
     obind (standard_leaf_hash hl leaf (leaf_encoding t)) (\<lambda>h.
     case hm_get (hash_lookup t) h of Some i \<Rightarrow> Ok i | None \<Rightarrow> Err ''Leaf is not in tree'')"

fun leaf_index :: "('ty, 'tok) hash_lib \<Rightarrow> StandardMerkleTree \<Rightarrow> LeafType \<Rightarrow> (string, nat) outcome" where
  "leaf_index hl t (Number i) = Ok i"
| "leaf_index hl t (LeafBytes v) = leaf_lookup hl t v"

definition smt_get_proof ::
  "('ty, 'tok) hash_lib \<Rightarrow> (Hash \<Rightarrow> 'f) \<Rightarrow> StandardMerkleTree \<Rightarrow> LeafType \<Rightarrow> (string, 'f list) outcome" where
  "smt_get_proof hl format t leaf =
     obind (leaf_index hl t leaf) (\<lambda>value_index.
     obind (validate_value hl t value_index) (\<lambda>_.
     let i = v_tree_index (smt_values t ! value_index) in
     obind (get_proof (smt_tree t) i) (\<lambda>proof.
     obind (process_proof (hl_keccak hl) (smt_tree t ! i) proof) (\<lambda>implied_root.
     if implied_root \<noteq> smt_tree t ! 0 then Err ''Unable to prove value'' else Ok (map format proof)))))"

definition smt_get_multi_proof ::
  "('ty, 'tok) hash_lib \<Rightarrow> (Hash \<Rightarrow> 'f) \<Rightarrow> StandardMerkleTree \<Rightarrow> LeafType list \<Rightarrow>
     (string, (string list, 'f) MultiProof) outcome" where
  "smt_get_multi_proof hl format t leaves =
     obind (try_all (leaf_index hl t) leaves) (\<lambda>value_indices.
     obind (try_all (validate_value hl t) value_indices) (\<lambda>_.
     obind (get_multi_proof (smt_tree t) (map (\<lambda>i. v_tree_index (smt_values t ! i)) value_indices)) (\<lambda>mp.
     obind (process_multi_proof (hl_keccak hl) mp) (\<lambda>implied_root.
     if smt_tree t = [] then Panic
     else if implied_root \<noteq> smt_tree t ! 0 then Err ''Unable to prove value''
     else obind (try_all (\<lambda>leaf. unwrap (map_option (\<lambda>i. v_value (smt_values t ! i)) (hm_get (hash_lookup t) leaf)))
                   (mp_leaves mp)) (\<lambda>ls.
          Ok \<lparr>mp_leaves = ls, mp_proof = map format (mp_proof mp), mp_flags = mp_flags mp\<rparr>)))))"

definition smt_next :: "StandardMerkleTree \<Rightarrow> StandardMerkleTree \<times> string list option" where
  "smt_next t =
     (case smt_values t of
        [] \<Rightarrow> (t, None)
      | v # vs \<Rightarrow> (t\<lparr>smt_values := vs\<rparr>, Some (v_value v)))"

section \<open>Lemmas\<close>

subsection \<open>The tree\<close>

lemma hash_pair_commute: "hash_pair_node kc a b = hash_pair_node kc b a"
  by (simp add: hash_pair_node_def min.commute max.commute)

text \<open>A tree over \<open>n\<close> leaves: the leaves are its last \<open>n\<close> nodes, and every other node is the hash of its children.\<close>

definition hash_tree :: "(nat list \<Rightarrow> Hash) \<Rightarrow> nat \<Rightarrow> Hash list \<Rightarrow> bool" where
  "hash_tree kc n tree =
     (0 < n \<and> Suc (length tree) = 2 * n \<and> (\<forall>i < n - 1. tree ! i = hash_pair_node kc (tree ! (2 * i + 1)) (tree ! (2 * i + 2))))"

lemma hash_tree_valid: "hash_tree kc n tree \<Longrightarrow> is_valid_merkle_tree kc tree"
  by (auto simp: hash_tree_def is_valid_merkle_tree_def right_child_index_def left_child_index_def) presburger+

lemma place_length [simp]: "length (fold (\<lambda>(i, v) t. t[N - i := v]) ivs t) = length t"
  by (induction ivs arbitrary: t) auto

lemma place_nth:
  "N < length t \<Longrightarrow> a + length vs \<le> Suc N \<Longrightarrow> j \<le> N \<Longrightarrow>
   fold (\<lambda>(i, v) t. t[N - i := v]) (zip [a..<a + length vs] vs) t ! j =
     (if a \<le> N - j \<and> N - j < a + length vs then vs ! (N - j - a) else t ! j)"
proof (induction vs arbitrary: a t)
  case (Cons v vs)
  have z: "zip [a..<a + length (v # vs)] (v # vs) = (a, v) # zip [Suc a..<Suc a + length vs] vs"
    by (simp add: upt_conv_Cons del: upt_Suc)
  have "N - j = a \<longleftrightarrow> j = N - a" using Cons.prems by auto
  then show ?case
    unfolding z using Cons.prems Cons.IH [of "t[N - a := v]" "Suc a"]
    by (auto simp: nth_Cons' Suc_le_eq)
qed auto

lemma fill_spec:
  assumes "2 * m \<le> length t"
  shows "length (fold (fill_step kc) (rev [0..<m]) t) = length t \<and>
     (\<forall>j \<ge> m. fold (fill_step kc) (rev [0..<m]) t ! j = t ! j) \<and>
     (2 * m < length t \<longrightarrow> (\<forall>i < m. fold (fill_step kc) (rev [0..<m]) t ! i =
        hash_pair_node kc (fold (fill_step kc) (rev [0..<m]) t ! (2 * i + 1)) (fold (fill_step kc) (rev [0..<m]) t ! (2 * i + 2))))"
  using assms
proof (induction m arbitrary: t)
  case (Suc m)
  let ?t1 = "fill_step kc m t" and ?r = "fold (fill_step kc) (rev [0..<Suc m]) t"
  have r: "?r = fold (fill_step kc) (rev [0..<m]) ?t1" by simp
  have len: "length ?t1 = length t" by (simp add: fill_step_def)
  have IH: "length ?r = length t" "\<And>j. m \<le> j \<Longrightarrow> ?r ! j = ?t1 ! j"
    "\<And>i. i < m \<Longrightarrow> 2 * m < length t \<Longrightarrow> ?r ! i = hash_pair_node kc (?r ! (2 * i + 1)) (?r ! (2 * i + 2))"
    using Suc.IH [of ?t1] Suc.prems unfolding r len by auto
  have above: "?t1 ! j = t ! j" if "j \<noteq> m" for j using that by (simp add: fill_step_def)
  have "?r ! m = hash_pair_node kc (?r ! (2 * m + 1)) (?r ! (2 * m + 2))"
    using IH(2) [of m] IH(2) [of "2 * m + 1"] IH(2) [of "2 * m + 2"] above Suc.prems by (simp add: fill_step_def left_child_index_def right_child_index_def)
  then show ?case using IH above by (auto simp: less_Suc_eq)
qed simp

lemma make_merkle_tree_spec:
  assumes "leaves \<noteq> []"
  shows "\<exists>tree. make_merkle_tree kc leaves = Ok tree \<and> hash_tree kc (length leaves) tree \<and>
     (\<forall>k < length leaves. tree ! (2 * length leaves - 2 - k) = leaves ! k)"
proof -
  let ?n = "length leaves"
  let ?N = "2 * ?n - 1 - 1"
  define t where "t = fold (\<lambda>(i, v) tree. tree[?N - i := v]) (zip [0..<?n] leaves) (replicate (2 * ?n - 1) (replicate 32 (0 :: nat)))"
  have n: "0 < ?n" using assms by simp
  have len: "length t = 2 * ?n - 1" unfolding t_def place_length by simp
  have leaf: "t ! (?N - k) = leaves ! k" if "k < ?n" for k
  proof -
    have k: "?N - (?N - k) = k" "?N < 2 * ?n - 1" "0 + ?n \<le> Suc ?N" using that n by auto
    show ?thesis
      using place_nth [of ?N "replicate (2 * ?n - 1) (replicate 32 (0 :: nat))" 0 leaves "?N - k"] that k
      unfolding t_def by simp
  qed
  let ?r = "fold (fill_step kc) (rev [0..<?n - 1]) t"
  have make: "make_merkle_tree kc leaves = Ok ?r"
    using assms n by (simp add: make_merkle_tree_def Let_def t_def del: replicate.simps)
  have r: "length ?r = 2 * ?n - 1" "\<And>j. ?n - 1 \<le> j \<Longrightarrow> ?r ! j = t ! j"
    "\<And>i. i < ?n - 1 \<Longrightarrow> ?r ! i = hash_pair_node kc (?r ! (2 * i + 1)) (?r ! (2 * i + 2))"
    using fill_spec [of "?n - 1" t kc] n by (auto simp: len)
  have "?r ! (2 * ?n - 2 - k) = leaves ! k" if "k < ?n" for k
  proof -
    have "?N - k = 2 * ?n - 2 - k" "?n - 1 \<le> 2 * ?n - 2 - k" using that by auto
    then show ?thesis using r(2) [of "2 * ?n - 2 - k"] leaf [OF that] by simp
  qed
  moreover have "hash_tree kc ?n ?r" using r(1,3) n by (simp add: hash_tree_def)
  ultimately show ?thesis using make by blast
qed

subsection \<open>Single proofs\<close>

lemma sibling_Ok:
  assumes "0 < i" "i < 2 ^ 31"
  shows "obind (to_i32 i) sibling_index = Ok (if odd i then i + 1 else i - 1)"
proof -
  have "int i mod 2 = (if odd i then 1 else 0)" by presburger
  then show ?thesis using assms by (auto simp: to_i32_def sibling_index_def nat_diff_distrib nat_add_distrib)
qed

lemma parent_Ok: "0 < i \<Longrightarrow> parent_index i = Ok ((i - 1) div 2)"
  by (simp add: parent_index_def)

text \<open>A node and its sibling hash to their parent.\<close>

lemma hash_tree_parent:
  assumes t: "hash_tree kc n tree" and i: "0 < i" "i < length tree"
  shows "(if odd i then i + 1 else i - 1) < length tree"
    and "hash_pair_node kc (tree ! i) (tree ! (if odd i then i + 1 else i - 1)) = tree ! ((i - 1) div 2)"
proof -
  have len: "Suc (length tree) = 2 * n" and p: "(i - 1) div 2 < n - 1" using t i by (auto simp: hash_tree_def)
  have node: "tree ! ((i - 1) div 2) = hash_pair_node kc (tree ! (2 * ((i - 1) div 2) + 1)) (tree ! (2 * ((i - 1) div 2) + 2))"
    using t p by (simp add: hash_tree_def)
  show "(if odd i then i + 1 else i - 1) < length tree" using len i by presburger
  show "hash_pair_node kc (tree ! i) (tree ! (if odd i then i + 1 else i - 1)) = tree ! ((i - 1) div 2)"
  proof (cases "odd i")
    case True
    then have "2 * ((i - 1) div 2) + 1 = i" by (auto elim!: oddE)
    then show ?thesis using node True by simp
  next
    case False
    then have "2 * ((i - 1) div 2) + 2 = i" "2 * ((i - 1) div 2) + 1 = i - 1" using i(1) by presburger+
    then show ?thesis using node False by (simp add: hash_pair_commute)
  qed
qed

lemma proof_loop_spec:
  assumes t: "hash_tree kc n tree" and n: "length tree \<le> 2 ^ 31"
  shows "i < length tree \<Longrightarrow> \<exists>pr. proof_loop tree i = Ok pr \<and> fold (\<lambda>b a. hash_pair_node kc a b) pr (tree ! i) = tree ! 0"
proof (induction i rule: less_induct)
  case (less i)
  show ?case
  proof (cases "i = 0")
    case True
    then show ?thesis by (simp add: proof_loop.simps [of tree 0])
  next
    case False
    let ?s = "if odd i then i + 1 else i - 1" and ?p = "(i - 1) div 2"
    have s: "?s < length tree" "hash_pair_node kc (tree ! i) (tree ! ?s) = tree ! ?p"
      using hash_tree_parent [OF t, of i] False less.prems by auto
    have "?p < i" using False by auto
    then obtain pr where p: "proof_loop tree ?p = Ok pr" "fold (\<lambda>b a. hash_pair_node kc a b) pr (tree ! ?p) = tree ! 0"
      using less.IH [of ?p] less.prems by auto
    have "proof_loop tree i = Ok (tree ! ?s # pr)"
      using False sibling_Ok [of i] n less.prems s(1) p(1)
      by (simp add: proof_loop.simps [of tree i] parent_Ok del: One_nat_def)
    then show ?thesis using p(2) s(2) by simp
  qed
qed

subsection \<open>Multiple proofs\<close>

text \<open>The queue of indices descends, and stays above the parent of its first index, so that parents can be added at
  its end.\<close>

definition queue_ok :: "nat list \<Rightarrow> bool" where
  "queue_ok stack =
     (sorted_wrt (>) stack \<and> (\<forall>j rest. stack = j # rest \<and> 0 < j \<longrightarrow> (\<forall>k \<in> set stack. (j - 1) div 2 < k)))"

lemma parent_less:
  assumes "h < j" "0 < h" "\<not> (even j \<and> h = j - 1)"
  shows "(h - 1) div 2 < (j - 1) div (2 :: nat)"
proof -
  define p where "p = (j - 1) div 2"
  have "j = 2 * p + 1 \<or> j = 2 * p + 2" using assms(1) unfolding p_def by presburger
  then have "h - 1 < p * 2" using assms by auto
  then show ?thesis unfolding p_def [symmetric] by (rule less_mult_imp_div_less)
qed

lemma queue_ok_step:
  assumes ok: "queue_ok (j # rest)" and j: "0 < j" and rest': "rest' = rest \<or> rest' = tl rest"
    and h: "rest' \<noteq> [] \<Longrightarrow> \<not> (even j \<and> hd rest' = j - 1)"
  shows "queue_ok (rest' @ [(j - 1) div 2])"
proof -
  let ?p = "(j - 1) div 2"
  have rest: "sorted_wrt (>) rest'" "\<forall>k \<in> set rest'. k < j \<and> ?p < k"
    using ok j rest' by (cases rest; auto simp: queue_ok_def)+
  have head: "(h - 1) div 2 < k" if "rest' @ [?p] = h # tail" "0 < h" "k \<in> set (rest' @ [?p])" for h tail k
  proof (cases rest')
    case Nil
    with that show ?thesis by auto
  next
    case (Cons g gs)
    then have g: "g = h" "h < j" "?p < h" using that rest(2) by auto
    have "\<not> (even j \<and> h = j - 1)" using h unfolding Cons g(1) list.sel by blast
    then have "(h - 1) div 2 < ?p" by (rule parent_less [OF g(2) that(2)])
    then show ?thesis using that(3) rest(2) by auto
  qed
  have "sorted_wrt (>) (rest' @ [?p])" using rest by (simp add: sorted_wrt_append)
  with head show ?thesis unfolding queue_ok_def by blast
qed

lemma multi_proof_loop_spec:
  assumes t: "hash_tree kc n tree" and len: "length tree \<le> 2 ^ 31"
  shows "stack \<noteq> [] \<Longrightarrow> queue_ok stack \<Longrightarrow> \<forall>j \<in> set stack. j < length tree \<Longrightarrow>
     \<exists>pr fl. multi_proof_loop tree stack = Ok (pr, fl) \<and> length stack + length pr = length fl + 1 \<and>
       length (filter Not fl) = length pr \<and>
       (\<forall>extra. process_flags kc fl (map ((!) tree) stack) (pr @ extra) = Ok ([tree ! 0], extra))"
proof (induction stack rule: measure_induct_rule [of sum_list])
  case (less stack)
  obtain j rest where stack: "stack = j # rest" using less.prems(1) by (cases stack) auto
  have jlen: "j < length tree" using less.prems(3) stack by simp
  show ?case
  proof (cases "j = 0")
    case True
    then have "rest = []" using less.prems(2) stack by (cases rest) (auto simp: queue_ok_def)
    then show ?thesis using True stack by (simp add: multi_proof_loop.simps [of tree "[0]"])
  next
    case False
    let ?p = "(j - 1) div 2"
    define sib where "sib = (if odd j then j + 1 else j - 1)"
    have s: "sib < length tree" "hash_pair_node kc (tree ! j) (tree ! sib) = tree ! ?p"
      using hash_tree_parent [OF t, of j] False jlen by (auto simp: sib_def)
    have sib: "obind (to_i32 j) sibling_index = Ok sib" using sibling_Ok [of j] False jlen len by (simp add: sib_def)
    have p: "?p < j" using False by auto
    show ?thesis
    proof (cases "rest \<noteq> [] \<and> sib = hd rest")
      case True
      then obtain rs where rest: "rest = sib # rs" by (cases rest) auto
      have "sib < j" using less.prems(2) stack rest by (auto simp: queue_ok_def)
      then have "sib = j - 1" by (auto simp: sib_def split: if_splits)
      have "queue_ok (rs @ [?p])"
      proof (rule queue_ok_step [of j rest])
        assume "rs \<noteq> []"
        moreover have "sorted_wrt (>) (sib # rs)" using less.prems(2) stack rest by (simp add: queue_ok_def)
        ultimately have "hd rs < sib" by (cases rs) auto
        then show "\<not> (even j \<and> hd rs = j - 1)" using \<open>sib = j - 1\<close> by simp
      qed (use less.prems(2) stack rest False in auto)
      moreover have "sum_list (rs @ [?p]) < sum_list stack" using p by (simp add: stack rest)
      moreover have "\<forall>k \<in> set (rs @ [?p]). k < length tree" using less.prems(3) p jlen by (auto simp: stack rest)
      ultimately obtain pr fl where IH: "multi_proof_loop tree (rs @ [?p]) = Ok (pr, fl)"
        "length (rs @ [?p]) + length pr = length fl + 1" "length (filter Not fl) = length pr"
        "\<And>extra. process_flags kc fl (map ((!) tree) (rs @ [?p])) (pr @ extra) = Ok ([tree ! 0], extra)"
        using less.IH [of "rs @ [?p]"] by blast
      have "multi_proof_loop tree stack = Ok (pr, True # fl)"
        unfolding multi_proof_loop.simps [of tree stack] using False sib IH(1)
        by (simp add: stack rest parent_Ok del: One_nat_def)
      then show ?thesis using IH(2-4) s(2) by (simp add: stack rest)
    next
      case other: False
      have "queue_ok (rest @ [?p])"
        by (rule queue_ok_step [of j rest]) (use less.prems(2) stack False other in \<open>auto simp: sib_def\<close>)
      moreover have "sum_list (rest @ [?p]) < sum_list stack" using p by (simp add: stack)
      moreover have "\<forall>k \<in> set (rest @ [?p]). k < length tree" using less.prems(3) p jlen by (auto simp: stack)
      ultimately obtain pr fl where IH: "multi_proof_loop tree (rest @ [?p]) = Ok (pr, fl)"
        "length (rest @ [?p]) + length pr = length fl + 1" "length (filter Not fl) = length pr"
        "\<And>extra. process_flags kc fl (map ((!) tree) (rest @ [?p])) (pr @ extra) = Ok ([tree ! 0], extra)"
        using less.IH [of "rest @ [?p]"] by blast
      have "multi_proof_loop tree stack = Ok (tree ! sib # pr, False # fl)"
        unfolding multi_proof_loop.simps [of tree stack] using False other sib IH(1) s(1)
        by (auto simp: stack parent_Ok simp del: One_nat_def)
      then show ?thesis using IH(2-4) s(2) by (simp add: stack)
    qed
  qed
qed

lemma leaf_node_iff: "hash_tree kc n tree \<Longrightarrow> is_leaf_node tree i \<longleftrightarrow> i < length tree \<and> n \<le> Suc i"
  by (auto simp: hash_tree_def is_leaf_node_def is_internal_node_def is_tree_node_def left_child_index_def)

lemma leaves_queue_ok:
  assumes "hash_tree kc n tree" "distinct indices" "\<forall>i \<in> set indices. is_leaf_node tree i"
  shows "queue_ok (rev (sort indices))"
proof -
  have "sorted_wrt (<) (sort indices)" using assms(2) by (simp add: strict_sorted_iff)
  then have "sorted_wrt (>) (rev (sort indices))" by (simp add: sorted_wrt_rev)
  moreover have "(j - 1) div 2 < k" if "j \<in> set indices" "k \<in> set indices" "0 < j" for j k
  proof -
    have "j < length tree" "n \<le> Suc k" using that assms(1,3) by (auto simp: leaf_node_iff [OF assms(1)])
    then show ?thesis using assms(1) that(3) by (auto simp: hash_tree_def)
  qed
  ultimately show ?thesis unfolding queue_ok_def by (metis list.set_intros(1) set_rev set_sort)
qed

lemma get_multi_proof_spec:
  assumes t: "hash_tree kc n tree" and len: "length tree \<le> 2 ^ 31"
    and ix: "distinct indices" "\<forall>i \<in> set indices. is_leaf_node tree i"
  shows "\<exists>mp. get_multi_proof tree indices = Ok mp \<and> mp_leaves mp = map ((!) tree) (rev (sort indices)) \<and>
     process_multi_proof kc mp = Ok (tree ! 0)"
proof -
  have check: "try_all (check_leaf_node tree) indices = Ok (map (\<lambda>_. ()) indices)"
    using ix(2) by (intro try_all_map) (simp add: check_leaf_node_def)
  have ne: "tree \<noteq> []" using t by (auto simp: hash_tree_def)
  show ?thesis
  proof (cases "indices = []")
    case True
    then show ?thesis
      using ne by (simp add: get_multi_proof_def process_multi_proof_def multi_proof_loop.simps [of tree "[]"])
  next
    case False
    let ?ix = "rev (sort indices)"
    have "?ix \<noteq> []" "\<forall>j \<in> set ?ix. j < length tree"
      using False ix(2) by (auto simp: is_leaf_node_def is_tree_node_def)
        (metis length_0_conv length_sort)
    then obtain pr fl where l: "multi_proof_loop tree ?ix = Ok (pr, fl)" "length ?ix + length pr = length fl + 1"
      "length (filter Not fl) = length pr" "\<forall>extra. process_flags kc fl (map ((!) tree) ?ix) (pr @ extra) = Ok ([tree ! 0], extra)"
      using multi_proof_loop_spec [OF t len _ leaves_queue_ok [OF t ix]] by blast
    have "process_flags kc fl (map ((!) tree) ?ix) pr = Ok ([tree ! 0], [])" using l(4) [rule_format, of "[]"] by simp
    then show ?thesis
      using l(1-3) check ne ix(1) \<open>?ix \<noteq> []\<close>
      by (simp add: get_multi_proof_def process_multi_proof_def Let_def)
  qed
qed

subsection \<open>Soundness\<close>

text \<open>What is hashed when the tree is built, and when a proof is checked.\<close>

definition pair_bytes :: "Hash \<Rightarrow> Hash \<Rightarrow> nat list" where
  "pair_bytes a b = min a b @ max a b"

definition tree_inputs :: "nat \<Rightarrow> Hash list \<Rightarrow> nat list set" where
  "tree_inputs n tree = (\<lambda>i. pair_bytes (tree ! (2 * i + 1)) (tree ! (2 * i + 2))) ` {i. i < n - 1}"

fun proof_inputs :: "(nat list \<Rightarrow> Hash) \<Rightarrow> Hash \<Rightarrow> Hash list \<Rightarrow> nat list set" where
  "proof_inputs kc a [] = {}"
| "proof_inputs kc a (b # bs) = insert (pair_bytes a b) (proof_inputs kc (hash_pair_node kc a b) bs)"

lemma hash_pair_bytes: "hash_pair_node kc a b = kc (pair_bytes a b)"
  by (simp add: hash_pair_node_def pair_bytes_def)

lemma proof_inputs_snoc:
  "proof_inputs kc a (bs @ [b]) = insert (pair_bytes (fold (\<lambda>b a. hash_pair_node kc a b) bs a) b) (proof_inputs kc a bs)"
  by (induction bs arbitrary: a) auto

lemma pair_bytes_inject:
  assumes "length a = 32" "length b = 32" "length c = 32" "length d = 32" "pair_bytes a b = pair_bytes c d"
  shows "a = c \<or> a = d"
proof -
  have "length (min a b) = length (min c d)" using assms(1-4) by (simp add: min_def)
  then have "min a b = min c d" "max a b = max c d" using assms(5) by (simp_all add: pair_bytes_def)
  then show ?thesis by (auto simp: min_def max_def split: if_splits)
qed

lemma proof_binds:
  assumes t: "hash_tree kc n tree" and out: "\<And>x. length (kc x) = 32" and nodes: "\<forall>h \<in> set tree. length h = 32"
    and leaf: "length leaf = 32" "leaf \<notin> kc ` tree_inputs n tree"
  shows "\<forall>b \<in> set bs. length b = 32 \<Longrightarrow> inj_on kc (tree_inputs n tree \<union> proof_inputs kc leaf bs) \<Longrightarrow>
    \<forall>i. is_leaf_node tree i \<longrightarrow> tree ! i \<notin> kc ` proof_inputs kc leaf bs \<Longrightarrow> i < length tree \<Longrightarrow>
    fold (\<lambda>b a. hash_pair_node kc a b) bs leaf = tree ! i \<Longrightarrow> \<exists>l. is_leaf_node tree l \<and> leaf = tree ! l"
proof (induction bs arbitrary: i rule: rev_induct)
  case Nil
  show ?case
  proof (cases "is_leaf_node tree i")
    case False
    then have "tree ! i \<in> kc ` tree_inputs n tree"
      using t Nil.prems(4) by (auto simp: leaf_node_iff [OF t] hash_tree_def tree_inputs_def hash_pair_bytes)
    then show ?thesis using Nil.prems(5) leaf(2) by simp
  qed (use Nil in auto)
next
  case (snoc b bs)
  let ?a = "fold (\<lambda>b a. hash_pair_node kc a b) bs leaf"
  have eq: "kc (pair_bytes ?a b) = tree ! i" using snoc.prems(5) by (simp add: hash_pair_bytes)
  have int: "\<not> is_leaf_node tree i" using snoc.prems(3) eq by (auto simp: proof_inputs_snoc)
  then have i: "i < n - 1" using snoc.prems(4) by (auto simp: leaf_node_iff [OF t])
  let ?l = "tree ! (2 * i + 1)" and ?r = "tree ! (2 * i + 2)"
  have len: "2 * i + 2 < length tree" using i t by (auto simp: hash_tree_def)
  have "tree ! i = kc (pair_bytes ?l ?r)" using t i by (simp add: hash_tree_def hash_pair_bytes)
  with eq have "kc (pair_bytes ?a b) = kc (pair_bytes ?l ?r)" by simp
  moreover have "pair_bytes ?a b \<in> tree_inputs n tree \<union> proof_inputs kc leaf (bs @ [b])" by (simp add: proof_inputs_snoc)
  moreover have "pair_bytes ?l ?r \<in> tree_inputs n tree \<union> proof_inputs kc leaf (bs @ [b])"
    using i unfolding tree_inputs_def by blast
  ultimately have "pair_bytes ?a b = pair_bytes ?l ?r" by (rule inj_onD [OF snoc.prems(2)])
  moreover have "length ?a = 32"
    using leaf(1) out by (cases bs rule: rev_cases) (simp_all add: hash_pair_node_def)
  ultimately have "?a = ?l \<or> ?a = ?r"
    using snoc.prems(1) nodes len by (intro pair_bytes_inject [of ?a b ?l ?r]) simp_all
  moreover have "inj_on kc (tree_inputs n tree \<union> proof_inputs kc leaf bs)"
    by (rule inj_on_subset [OF snoc.prems(2)]) (auto simp: proof_inputs_snoc)
  moreover have "\<forall>i. is_leaf_node tree i \<longrightarrow> tree ! i \<notin> kc ` proof_inputs kc leaf bs"
    using snoc.prems(3) by (auto simp: proof_inputs_snoc)
  ultimately show ?case
    using snoc.IH [of "2 * i + 1"] snoc.IH [of "2 * i + 2"] snoc.prems(1) len by auto
qed

subsection \<open>Trees over values\<close>

lemma update_each:
  assumes "distinct (map pos es)"
  shows "length (fold (\<lambda>e xs. xs[pos e := f e (xs ! pos e)]) es xs) = length xs"
    and "(\<forall>e \<in> set es. pos e \<noteq> j) \<Longrightarrow> fold (\<lambda>e xs. xs[pos e := f e (xs ! pos e)]) es xs ! j = xs ! j"
    and "e \<in> set es \<Longrightarrow> pos e < length xs \<Longrightarrow> fold (\<lambda>e xs. xs[pos e := f e (xs ! pos e)]) es xs ! pos e = f e (xs ! pos e)"
  using assms
proof (induction es arbitrary: xs j e)
  case (Cons d es)
  { case 1 then show ?case using Cons.IH(1) by simp }
  { case 2 then show ?case using Cons.IH(2) by simp }
  { case 3
    show ?case
    proof (cases "e = d")
      case True
      have "\<forall>e' \<in> set es. pos e' \<noteq> pos d" using 3(3) by (auto simp: rev_image_eqI)
      then show ?thesis using True 3 Cons.IH(2) by simp
    next
      case False
      then have "pos e \<noteq> pos d" using 3 by (auto simp: rev_image_eqI)
      then show ?thesis using False 3 Cons.IH(3) by simp
    qed }
qed simp_all

definition tree_over ::
  "('ty, 'tok) hash_lib \<Rightarrow> string list \<Rightarrow> (string list \<Rightarrow> Hash) \<Rightarrow> string list list \<Rightarrow> StandardMerkleTree \<Rightarrow> bool" where
  "tree_over hl enc H vals t =
     (hash_tree (hl_keccak hl) (length vals) (smt_tree t) \<and> leaf_encoding t = enc \<and> map v_value (smt_values t) = vals \<and>
      distinct (map v_tree_index (smt_values t)) \<and>
      (\<forall>v \<in> set (smt_values t). is_leaf_node (smt_tree t) (v_tree_index v) \<and> smt_tree t ! v_tree_index v = H (v_value v)) \<and>
      (\<forall>k. is_leaf_node (smt_tree t) k \<longrightarrow> (\<exists>v \<in> set vals. smt_tree t ! k = H v)) \<and>
      hash_lookup t = hm_from (zip (map H vals) [0..<length vals]))"

definition hashed_values :: "(string list \<Rightarrow> Hash) \<Rightarrow> string list list \<Rightarrow> (string list \<times> nat \<times> Hash) list" where
  "hashed_values H vals = map (\<lambda>(i, v). (v, i, H v)) (zip [0..<length vals] vals)"

lemma mem_hashed_values: "(v, i, h) \<in> set (hashed_values H vals) \<longleftrightarrow> i < length vals \<and> v = vals ! i \<and> h = H v"
  unfolding hashed_values_def by (force simp: set_zip image_iff)

lemma hashed_values_positions: "map (\<lambda>(v, i, h). i) (hashed_values H vals) = [0..<length vals]"
  by (rule nth_equalityI) (simp_all add: hashed_values_def)

lemma index_values:
  fixes L :: nat and H :: "string list \<Rightarrow> Hash"
  assumes perm: "mset hs = mset (hashed_values H vals)"
  defines "indexed \<equiv> fold (\<lambda>(k, v, i, h) xs. xs[i := (xs ! i)\<lparr>v_tree_index := L - k - 1\<rparr>])
                       (zip [0..<length hs] hs) (map (\<lambda>v. \<lparr>v_value = v, v_tree_index = 0\<rparr>) vals)"
  shows "length indexed = length vals"
    and "i < length vals \<Longrightarrow> \<exists>k < length vals. indexed ! i = \<lparr>v_value = vals ! i, v_tree_index = L - k - 1\<rparr> \<and>
           hs ! k = (vals ! i, i, H (vals ! i))"
proof -
  let ?n = "length vals" and ?es = "zip [0..<length hs] hs"
  let ?pos = "\<lambda>(k, v, i, h). i" and ?f = "\<lambda>(k, v, i, h) x. x\<lparr>v_tree_index := L - k - 1\<rparr>"
  have len: "length hs = ?n" using mset_eq_length [OF perm] by (simp add: hashed_values_def)
  have "(\<lambda>(k, v, i, h) xs. xs[i := (xs ! i)\<lparr>v_tree_index := L - k - 1\<rparr>]) = (\<lambda>e xs. xs[?pos e := ?f e (xs ! ?pos e)])"
    by (auto simp: fun_eq_iff)
  then have indexed: "indexed = fold (\<lambda>e xs. xs[?pos e := ?f e (xs ! ?pos e)]) ?es (map (\<lambda>v. \<lparr>v_value = v, v_tree_index = 0\<rparr>) vals)"
    unfolding indexed_def by (rule arg_cong)
  have pos: "map ?pos ?es = map (\<lambda>(v, i, h). i) hs"
    using len by (intro nth_equalityI) (auto split: prod.splits)
  have "mset (map (\<lambda>(v, i, h). i) hs) = mset [0..<?n]"
    using perm by (metis hashed_values_positions mset_map)
  then have distinct: "distinct (map ?pos ?es)"
    unfolding pos by (metis distinct_upt mset_eq_imp_distinct_iff)
  show "length indexed = ?n" unfolding indexed update_each(1) [OF distinct] by simp
  assume i: "i < ?n"
  then have "(vals ! i, i, H (vals ! i)) \<in> set hs" using mset_eq_setD [OF perm] by (simp add: mem_hashed_values)
  then obtain k where k: "k < ?n" "hs ! k = (vals ! i, i, H (vals ! i))" using len by (metis in_set_conv_nth)
  let ?e = "(k, vals ! i, i, H (vals ! i))"
  have "?e \<in> set ?es" using k len by (force simp: set_zip)
  then have "indexed ! i = ?f ?e (map (\<lambda>v. \<lparr>v_value = v, v_tree_index = 0\<rparr>) vals ! i)"
    using update_each(3) [OF distinct, of ?e "map (\<lambda>v. \<lparr>v_value = v, v_tree_index = 0\<rparr>) vals" ?f] i
    unfolding indexed by simp
  then show "\<exists>k < ?n. indexed ! i = \<lparr>v_value = vals ! i, v_tree_index = L - k - 1\<rparr> \<and> hs ! k = (vals ! i, i, H (vals ! i))"
    using i k len by (intro exI [of _ k]) auto
qed

lemma smt_new_hashes:
  assumes H: "\<And>v. v \<in> set vals \<Longrightarrow> standard_leaf_hash hl v enc = Ok (H v)" and vals: "map v_value indexed = vals"
  shows "smt_new hl tree indexed enc =
    Ok \<lparr>hash_lookup = hm_from (zip (map H vals) [0..<length vals]), smt_tree = tree, smt_values = indexed, leaf_encoding = enc\<rparr>"
proof -
  have "try_all (\<lambda>(i, v). omap (\<lambda>h. (h, i)) (standard_leaf_hash hl (v_value v) enc)) (zip [0..<length indexed] indexed) =
      Ok (map (\<lambda>(i, v). (H (v_value v), i)) (zip [0..<length indexed] indexed))"
  proof (rule try_all_map)
    fix x assume "x \<in> set (zip [0..<length indexed] indexed)"
    then obtain i v where x: "x = (i, v)" "v \<in> set indexed" by (metis set_zip_rightD surj_pair)
    then have "v_value v \<in> set vals" using vals by (metis image_eqI set_map)
    then show "(case x of (i, v) \<Rightarrow> omap (\<lambda>h. (h, i)) (standard_leaf_hash hl (v_value v) enc)) = Ok (case x of (i, v) \<Rightarrow> (H (v_value v), i))"
      using H x by simp
  qed
  moreover have "map (\<lambda>(i, v). (H (v_value v), i)) (zip [0..<length indexed] indexed) = zip (map H vals) [0..<length vals]"
    unfolding vals [symmetric] by (rule nth_equalityI) simp_all
  ultimately show ?thesis by (simp add: smt_new_def)
qed

lemma smt_of_spec:
  assumes ne: "vals \<noteq> []" and H: "\<And>v. v \<in> set vals \<Longrightarrow> standard_leaf_hash hl v enc = Ok (H v)"
  shows "\<exists>t. smt_of hl vals enc = Ok t \<and> tree_over hl enc H vals t"
proof -
  let ?n = "length vals"
  define hs where "hs = sort_key (\<lambda>(v, i, h). h) (hashed_values H vals)"
  let ?leaves = "map (\<lambda>(v, i, h). h) hs"
  have first: "try_all (\<lambda>(i, v). omap (\<lambda>h. (v, i, h)) (standard_leaf_hash hl v enc)) (zip [0..<?n] vals) = Ok (hashed_values H vals)"
    unfolding hashed_values_def by (rule try_all_map) (auto simp: H dest: set_zip_rightD)
  have perm: "mset hs = mset (hashed_values H vals)" by (simp add: hs_def)
  have len: "length hs = ?n" using mset_eq_length [OF perm] by (simp add: hashed_values_def)
  obtain tree where tree: "make_merkle_tree (hl_keccak hl) ?leaves = Ok tree" "hash_tree (hl_keccak hl) ?n tree"
    "\<And>k. k < ?n \<Longrightarrow> tree ! (2 * ?n - 2 - k) = ?leaves ! k"
    using make_merkle_tree_spec [of ?leaves "hl_keccak hl"] ne len by (metis length_map length_0_conv)
  have tlen: "length tree = 2 * ?n - 1" using tree(2) unfolding hash_tree_def by linarith
  define indexed where "indexed = fold (\<lambda>(k, v, i, h) xs. xs[i := (xs ! i)\<lparr>v_tree_index := length tree - k - 1\<rparr>])
                          (zip [0..<length hs] hs) (map (\<lambda>v. \<lparr>v_value = v, v_tree_index = 0\<rparr>) vals)"
  have ilen: "length indexed = ?n" unfolding indexed_def by (rule index_values(1) [OF perm])
  have entry: "\<exists>k < ?n. indexed ! i = \<lparr>v_value = vals ! i, v_tree_index = length tree - k - 1\<rparr> \<and> hs ! k = (vals ! i, i, H (vals ! i))"
    if "i < ?n" for i unfolding indexed_def by (rule index_values(2) [OF perm that])
  have vals: "map v_value indexed = vals"
    by (rule nth_equalityI) (use ilen entry in \<open>fastforce+\<close>)
  define t where "t = \<lparr>hash_lookup = hm_from (zip (map H vals) [0..<?n]), smt_tree = tree, smt_values = indexed, leaf_encoding = enc\<rparr>"
  have "smt_of hl vals enc = smt_new hl tree indexed enc"
    by (simp only: smt_of_def first obind.simps Let_def hs_def [symmetric] tree(1) indexed_def)
  then have "smt_of hl vals enc = Ok t" by (simp add: smt_new_hashes [OF H vals] t_def)
  moreover have "is_leaf_node tree (v_tree_index v) \<and> tree ! v_tree_index v = H (v_value v)" if v: "v \<in> set indexed" for v
  proof -
    obtain i where i: "i < ?n" "v = indexed ! i" using v by (auto simp: in_set_conv_nth ilen)
    obtain k where "k < ?n" "v_value v = vals ! i" "v_tree_index v = length tree - k - 1" "?leaves ! k = H (vals ! i)"
      using entry [OF i(1)] i(2) len by auto
    then show ?thesis using tree(3) [of k] by (auto simp: leaf_node_iff [OF tree(2)] tlen)
  qed
  moreover have "distinct (map v_tree_index indexed)"
  proof (clarsimp simp: distinct_conv_nth ilen)
    fix i j assume ij: "i < ?n" "j < ?n" "i \<noteq> j" "v_tree_index (indexed ! i) = v_tree_index (indexed ! j)"
    obtain k l where "k < ?n" "l < ?n" "v_tree_index (indexed ! i) = length tree - k - 1" "hs ! k = (vals ! i, i, H (vals ! i))"
      "v_tree_index (indexed ! j) = length tree - l - 1" "hs ! l = (vals ! j, j, H (vals ! j))"
      using entry [OF ij(1)] entry [OF ij(2)] by auto
    moreover from this have "k = l" using ij(4) tlen by linarith
    ultimately show False using ij(3) by simp
  qed
  moreover have "\<exists>v \<in> set vals. tree ! k = H v" if "is_leaf_node tree k" for k
  proof -
    have k: "2 * ?n - 2 - k < ?n" "k = 2 * ?n - 2 - (2 * ?n - 2 - k)" using that by (auto simp: leaf_node_iff [OF tree(2)] tlen)
    then have "tree ! k = ?leaves ! (2 * ?n - 2 - k)" using tree(3) by metis
    moreover obtain v i h where e: "hs ! (2 * ?n - 2 - k) = (v, i, h)" by (cases "hs ! (2 * ?n - 2 - k)") auto
    moreover have "(v, i, h) \<in> set (hashed_values H vals)" using e k(1) len mset_eq_setD [OF perm] by (metis nth_mem)
    ultimately show ?thesis using k(1) len by (auto simp: mem_hashed_values)
  qed
  ultimately show ?thesis using tree(2) vals unfolding tree_over_def t_def by (intro exI [of _ t]) (simp add: t_def)
qed

lemma tree_over_value:
  assumes "tree_over hl enc H vals t" "i < length vals"
  shows "i < length (smt_values t)" "v_value (smt_values t ! i) = vals ! i"
    "is_leaf_node (smt_tree t) (v_tree_index (smt_values t ! i))"
    "smt_tree t ! v_tree_index (smt_values t ! i) = H (vals ! i)"
    "v_tree_index (smt_values t ! i) < length (smt_tree t)"
proof -
  have vals: "map v_value (smt_values t) = vals" using assms(1) by (simp add: tree_over_def)
  show i: "i < length (smt_values t)" using vals assms(2) by (metis length_map)
  show v: "v_value (smt_values t ! i) = vals ! i" using vals i by (metis nth_map)
  show l: "is_leaf_node (smt_tree t) (v_tree_index (smt_values t ! i))"
    "smt_tree t ! v_tree_index (smt_values t ! i) = H (vals ! i)"
    using assms(1) nth_mem [OF i] v unfolding tree_over_def by metis+
  show "v_tree_index (smt_values t ! i) < length (smt_tree t)"
    using l(1) by (simp add: is_leaf_node_def is_tree_node_def)
qed

lemma validate_value_Ok:
  assumes "tree_over hl enc H vals t" "\<And>v. v \<in> set vals \<Longrightarrow> standard_leaf_hash hl v enc = Ok (H v)" "i < length vals"
  shows "validate_value hl t i = Ok ()"
  using tree_over_value [OF assms(1,3)] assms(2) [OF nth_mem [OF assms(3)]] assms(1)
  by (simp add: validate_value_def check_bounds_def Let_def tree_over_def)

lemma tree_over_valid:
  assumes "tree_over hl enc H vals t" "\<And>v. v \<in> set vals \<Longrightarrow> standard_leaf_hash hl v enc = Ok (H v)"
  shows "smt_validate hl t = Ok ()"
proof -
  have "length (smt_values t) = length vals" using assms(1) by (auto simp: tree_over_def)
  then have "try_all (validate_value hl t) [0..<length (smt_values t)] = Ok (map (\<lambda>_. ()) [0..<length (smt_values t)])"
    by (intro try_all_map) (auto intro: validate_value_Ok [OF assms])
  then show ?thesis by (simp add: smt_validate_def)
qed

lemma tree_over_lookup:
  assumes "tree_over hl enc H vals t" "v \<in> set vals"
  obtains i where "hm_get (hash_lookup t) (H v) = Some i" "i < length vals" "H (vals ! i) = H v"
proof -
  let ?kvs = "zip (map H vals) [0..<length vals]"
  obtain j where "j < length vals" "vals ! j = v" using assms(2) by (metis in_set_conv_nth)
  then have "(H v, j) \<in> set (rev ?kvs)" by (force simp: set_zip)
  then obtain i where i: "map_of (rev ?kvs) (H v) = Some i" by (metis map_of_eq_None_iff option.exhaust fst_conv image_eqI)
  then have "(H v, i) \<in> set ?kvs" by (metis map_of_SomeD set_rev)
  then have "i < length vals" "H (vals ! i) = H v" by (auto simp: set_zip)
  then show ?thesis using that i assms(1) by (simp add: tree_over_def hm_get_from)
qed

text \<open>A value of the tree gets a proof, and the proof leads from the hash of the value to the root.\<close>

lemma smt_get_proof_spec:
  assumes t: "tree_over hl enc H vals t" and H: "\<And>v. v \<in> set vals \<Longrightarrow> standard_leaf_hash hl v enc = Ok (H v)"
    and len: "length (smt_tree t) \<le> 2 ^ 31" and v: "v \<in> set vals"
  shows "\<exists>pr. smt_get_proof hl id t (LeafBytes v) = Ok pr \<and> process_proof (hl_keccak hl) (H v) pr = Ok (smt_tree t ! 0)"
proof -
  obtain i where i: "hm_get (hash_lookup t) (H v) = Some i" "i < length vals" "H (vals ! i) = H v"
    using tree_over_lookup [OF t v] by blast
  let ?j = "v_tree_index (smt_values t ! i)"
  note at = tree_over_value [OF t i(2)]
  have tree: "hash_tree (hl_keccak hl) (length vals) (smt_tree t)" "leaf_encoding t = enc" using t by (simp_all add: tree_over_def)
  obtain pr where pr: "proof_loop (smt_tree t) ?j = Ok pr"
    "fold (\<lambda>b a. hash_pair_node (hl_keccak hl) a b) pr (smt_tree t ! ?j) = smt_tree t ! 0"
    using proof_loop_spec [OF tree(1) len at(5)] by blast
  then have "process_proof (hl_keccak hl) (H v) pr = Ok (smt_tree t ! 0)" using at(4) i(3) by (simp add: process_proof_def)
  then show ?thesis
    using pr(1) i(1,3) at(3,4) H [OF v] validate_value_Ok [OF t H i(2)] tree(2)
    by (simp add: smt_get_proof_def leaf_lookup_def Let_def get_proof_def check_leaf_node_def)
qed

lemma smt_get_multi_proof_spec:
  assumes t: "tree_over hl enc H vals t" and H: "\<And>v. v \<in> set vals \<Longrightarrow> standard_leaf_hash hl v enc = Ok (H v)"
    and len: "length (smt_tree t) \<le> 2 ^ 31" and ix: "distinct ix" "\<forall>i \<in> set ix. i < length vals"
  shows "\<exists>mp. smt_get_multi_proof hl id t (map Number ix) = Ok mp \<and> set (mp_leaves mp) \<subseteq> set vals \<and>
     mset (map H (mp_leaves mp)) = mset (map (\<lambda>i. H (vals ! i)) ix) \<and>
     process_multi_proof (hl_keccak hl) \<lparr>mp_leaves = map H (mp_leaves mp), mp_proof = mp_proof mp, mp_flags = mp_flags mp\<rparr> =
       Ok (smt_tree t ! 0)"
proof -
  let ?kc = "hl_keccak hl" and ?tix = "map (\<lambda>i. v_tree_index (smt_values t ! i)) ix"
  have tree: "hash_tree ?kc (length vals) (smt_tree t)" "distinct (map v_tree_index (smt_values t))" using t by (simp_all add: tree_over_def)
  have "distinct ?tix"
    using ix tree_over_value(1) [OF t] tree(2) by (auto simp: distinct_map inj_on_def distinct_conv_nth)
  moreover have leaves: "\<forall>i \<in> set ?tix. is_leaf_node (smt_tree t) i" using tree_over_value(3) [OF t] ix(2) by auto
  ultimately obtain mp where mp: "get_multi_proof (smt_tree t) ?tix = Ok mp"
    "mp_leaves mp = map ((!) (smt_tree t)) (rev (sort ?tix))" "process_multi_proof ?kc mp = Ok (smt_tree t ! 0)"
    using get_multi_proof_spec [OF tree(1) len] by blast
  define look where "look l = v_value (smt_values t ! the (hm_get (hash_lookup t) l))" for l
  have look: "unwrap (map_option (\<lambda>i. v_value (smt_values t ! i)) (hm_get (hash_lookup t) l)) = (Ok (look l) :: (string, _) outcome) \<and>
      look l \<in> set vals \<and> H (look l) = l"
    if l: "l \<in> set (mp_leaves mp)" for l
  proof -
    obtain v where "v \<in> set vals" "l = H v" using l leaves t unfolding mp(2) tree_over_def by auto
    then obtain i where "hm_get (hash_lookup t) l = Some i" "i < length vals" "H (vals ! i) = l"
      using tree_over_lookup [OF t] by metis
    then show ?thesis using tree_over_value [OF t] by (simp add: look_def)
  qed
  have hashes: "map H (map look (mp_leaves mp)) = mp_leaves mp" using look by (simp add: map_idI)
  have "try_all (leaf_index hl t) (map Number ix) = Ok (map (\<lambda>l. case l of Number i \<Rightarrow> i) (map Number ix))"
    by (rule try_all_map) auto
  moreover have "try_all (validate_value hl t) ix = Ok (map (\<lambda>_. ()) ix)"
    using ix(2) validate_value_Ok [OF t H] by (intro try_all_map) auto
  moreover have "try_all (\<lambda>l. unwrap (map_option (\<lambda>i. v_value (smt_values t ! i)) (hm_get (hash_lookup t) l))) (mp_leaves mp) =
      (Ok (map look (mp_leaves mp)) :: (string, _) outcome)"
    using look by (intro try_all_map) auto
  moreover have "smt_tree t \<noteq> []" using tree(1) by (auto simp: hash_tree_def)
  ultimately have "smt_get_multi_proof hl id t (map Number ix) =
      Ok \<lparr>mp_leaves = map look (mp_leaves mp), mp_proof = mp_proof mp, mp_flags = mp_flags mp\<rparr>"
    using mp(1,3) by (simp add: smt_get_multi_proof_def comp_def)
  moreover have "mset (mp_leaves mp) = mset (map (\<lambda>i. H (vals ! i)) ix)"
  proof -
    have "mset (mp_leaves mp) = image_mset ((!) (smt_tree t)) (mset ?tix)" unfolding mp(2) by simp
    also have "\<dots> = mset (map (\<lambda>i. H (vals ! i)) ix)"
      using tree_over_value(4) [OF t] ix(2) by (simp flip: mset_map add: comp_def cong: map_cong)
    finally show ?thesis .
  qed
  moreover have "process_multi_proof ?kc \<lparr>mp_leaves = mp_leaves mp, mp_proof = mp_proof mp, mp_flags = mp_flags mp\<rparr> = Ok (smt_tree t ! 0)"
    using mp(3) by (cases mp) simp
  moreover have "set (map look (mp_leaves mp)) \<subseteq> set vals" using look by auto
  ultimately show ?thesis using hashes
    by (intro exI [of _ "\<lparr>mp_leaves = map look (mp_leaves mp), mp_proof = mp_proof mp, mp_flags = mp_flags mp\<rparr>"]) simp
qed

text \<open>Hexadecimal notation: what was written is read back.\<close>

definition hex_ok :: "('ty, 'tok) hash_lib \<Rightarrow> bool" where
  "hex_ok hl = (\<forall>b. hl_unhex hl (hl_hex hl b) = Ok b)"

lemma load_dump:
  assumes "hex_ok hl" "tree_over hl enc H vals t" "\<And>v. v \<in> set vals \<Longrightarrow> standard_leaf_hash hl v enc = Ok (H v)"
    "\<forall>h \<in> set (smt_tree t). length h = 32"
  shows "smt_load hl (smt_dump hl t) = Ok t"
proof -
  have vals: "map v_value (smt_values t) = vals" using assms(2) by (simp add: tree_over_def)
  have "try_all (\<lambda>h. load_hash hl (''0x'' @ hl_hex hl h)) (smt_tree t) = Ok (map id (smt_tree t))"
    using assms(1,4) by (intro try_all_map) (simp add: load_hash_def hex_ok_def)
  moreover have "try_all f (map g xs) = try_all (\<lambda>x. f (g x)) xs" for f :: "string \<Rightarrow> (string, Hash) outcome" and g and xs :: "Hash list"
    by (induction xs) simp_all
  ultimately show ?thesis
    using smt_new_hashes [OF assms(3) vals] assms(2) by (cases t) (simp add: smt_load_def smt_dump_def tree_over_def)
qed

text \<open>A library to evaluate the model with: types are their names, tokens are texts, and hashes are lists of
  32 numbers, the first of which encodes the input.\<close>

definition sample_hash_lib :: "(string, string) hash_lib" where
  "sample_hash_lib =
     \<lparr>hl_keccak = (\<lambda>xs. list_encode xs # replicate 31 0), hl_read = Ok, hl_tokenize = (\<lambda>ty v. Ok v),
      hl_encode = (\<lambda>tokens. concat (map (\<lambda>t. length t # map of_char t) tokens)),
      hl_hex = map char_of, hl_unhex = (\<lambda>s. Ok (map of_char s))\<rparr>"

section \<open>Properties\<close>

text \<open>C27: a tree over values proves any selection of them. Building the tree succeeds, a multiple proof of
  distinct positions is given out without an error, the leaves it names have the hashes of the selected
  values, and folding these hashes with the proof leads to the root. The number of values is bounded, since
  the indices of siblings are computed with signed 32-bit integers.\<close>

theorem multi_proof_verifies:
  assumes "vals \<noteq> []" "2 * length vals \<le> 2 ^ 31" "try_all (\<lambda>v. standard_leaf_hash hl v enc) vals = Ok hs"
    "distinct ix" "\<forall>i \<in> set ix. i < length vals"
  shows "\<exists>t root mp ls. smt_of hl vals enc = Ok t \<and> smt_validate hl t = Ok () \<and> smt_root id t = Ok root \<and>
     smt_get_multi_proof hl id t (map Number ix) = Ok mp \<and>
     try_all (\<lambda>v. standard_leaf_hash hl v enc) (mp_leaves mp) = Ok ls \<and> mset ls = mset (map ((!) hs) ix) \<and>
     process_multi_proof (hl_keccak hl) \<lparr>mp_leaves = ls, mp_proof = mp_proof mp, mp_flags = mp_flags mp\<rparr> = Ok root"
proof -
  define H where "H v = the_Ok (standard_leaf_hash hl v enc)" for v
  have hs: "hs = map H vals" and H: "\<And>v. v \<in> set vals \<Longrightarrow> standard_leaf_hash hl v enc = Ok (H v)"
    using try_all_OkD [OF assms(3)] by (auto simp: H_def)
  obtain t where t: "smt_of hl vals enc = Ok t" "tree_over hl enc H vals t"
    using smt_of_spec [of vals hl enc H] assms(1) H by blast
  have ht: "hash_tree (hl_keccak hl) (length vals) (smt_tree t)" using t(2) by (simp add: tree_over_def)
  then have len: "length (smt_tree t) \<le> 2 ^ 31" "smt_tree t \<noteq> []" using assms(2) by (auto simp: hash_tree_def)
  obtain mp where mp: "smt_get_multi_proof hl id t (map Number ix) = Ok mp" "set (mp_leaves mp) \<subseteq> set vals"
    "mset (map H (mp_leaves mp)) = mset (map (\<lambda>i. H (vals ! i)) ix)"
    "process_multi_proof (hl_keccak hl) \<lparr>mp_leaves = map H (mp_leaves mp), mp_proof = mp_proof mp, mp_flags = mp_flags mp\<rparr> =
       Ok (smt_tree t ! 0)"
    using smt_get_multi_proof_spec [OF t(2) H len(1) assms(4,5)] by blast
  have "try_all (\<lambda>v. standard_leaf_hash hl v enc) (mp_leaves mp) = Ok (map H (mp_leaves mp))"
    using mp(2) H by (intro try_all_map) auto
  moreover have same: "map ((!) hs) ix = map (\<lambda>i. H (vals ! i)) ix" using assms(5) by (simp add: hs)
  have "mset (map H (mp_leaves mp)) = mset (map ((!) hs) ix)" unfolding same by (rule mp(3))
  ultimately show ?thesis using t(1) mp(1,4) len(2) tree_over_valid [OF t(2) H]
    by (intro exI [of _ t] exI [of _ "smt_tree t ! 0"] exI [of _ mp] exI [of _ "map H (mp_leaves mp)"]) (simp add: smt_root_def)
qed

theorem multi_proof_verifies_witness:
  "\<exists>t root mp ls. smt_of sample_hash_lib [[''a''], [''b''], [''c'']] [''string''] = Ok t \<and> smt_root id t = Ok root \<and>
     smt_get_multi_proof sample_hash_lib id t [Number 2, Number 0] = Ok mp \<and>
     try_all (\<lambda>v. standard_leaf_hash sample_hash_lib v [''string'']) (mp_leaves mp) = Ok ls \<and>
     process_multi_proof (hl_keccak sample_hash_lib) \<lparr>mp_leaves = ls, mp_proof = mp_proof mp, mp_flags = mp_flags mp\<rparr> = Ok root"
proof -
  have "try_all (\<lambda>v. standard_leaf_hash sample_hash_lib v [''string'']) [[''a''], [''b''], [''c'']] =
      Ok (map (\<lambda>v. the_Ok (standard_leaf_hash sample_hash_lib v [''string''])) [[''a''], [''b''], [''c'']])"
    by (rule try_all_map) (auto simp: standard_leaf_hash_def sample_hash_lib_def)
  from multi_proof_verifies [OF _ _ this, of "[2, 0]"] show ?thesis unfolding list.map by fastforce
qed

end
