(* ===== verification/Validator_Tree.thy ===== *)
theory Validator_Tree
  imports Merkle_Tree Subnet_Ids
begin

text \<open>
  The Merkle tree of a power table (\<open>ValidatorMerkleTree\<close> of \<open>fendermint/vm/actor_interface/src/ipc.rs\<close>): a
  checkpoint carries its root, and a signature is accepted together with a proof that the signer is a
  validator with the power it claims.

  A leaf is the pair of the validator's Ethereum address and its power, as texts. The address of a public key
  is a parameter, as are the hash function and the ABI encoding (\<open>hash_lib\<close>).
\<close>

record 'k Validator =
  val_key :: 'k
  val_power :: nat

definition VALIDATOR_TREE_FIELDS :: "string list" where
  "VALIDATOR_TREE_FIELDS = [''address'', ''uint256'']"

record ValidatorMerkleTree =
  vmt_tree :: StandardMerkleTree

definition validator_to_vec :: "('ty, 'tok) hash_lib \<Rightarrow> ('k \<Rightarrow> nat list) \<Rightarrow> 'k Validator \<Rightarrow> string list" where
  "validator_to_vec hl eth v = [''0x'' @ hl_hex hl (eth (val_key v)), show_u64 (val_power v)]"

definition vmt_new ::
  "('ty, 'tok) hash_lib \<Rightarrow> ('k \<Rightarrow> nat list) \<Rightarrow> 'k Validator list \<Rightarrow> (string, ValidatorMerkleTree) outcome" where
  "vmt_new hl eth validators =
     obind (with_context ''failed to construct Merkle tree''
              (smt_of hl (map (validator_to_vec hl eth) validators) VALIDATOR_TREE_FIELDS))
       (\<lambda>tree. Ok \<lparr>vmt_tree = tree\<rparr>)"

definition vmt_root_hash :: "ValidatorMerkleTree \<Rightarrow> (string, Hash) outcome" where
  "vmt_root_hash t = smt_root id (vmt_tree t)"

definition vmt_prove ::
  "('ty, 'tok) hash_lib \<Rightarrow> ('k \<Rightarrow> nat list) \<Rightarrow> ValidatorMerkleTree \<Rightarrow> 'k Validator \<Rightarrow> (string, Hash list) outcome" where
  "vmt_prove hl eth t v =
     with_context ''failed to produce Merkle proof'' (smt_get_proof hl id (vmt_tree t) (LeafBytes (validator_to_vec hl eth v)))"

definition vmt_validate ::
  "('ty, 'tok) hash_lib \<Rightarrow> ('k \<Rightarrow> nat list) \<Rightarrow> 'k Validator \<Rightarrow> Hash \<Rightarrow> Hash list \<Rightarrow> (string, bool) outcome" where
  "vmt_validate hl eth v rt proof =
     obind (standard_leaf_hash hl (validator_to_vec hl eth v) VALIDATOR_TREE_FIELDS) (\<lambda>h.
     obind (with_context ''failed to process Merkle proof'' (process_proof (hl_keccak hl) h proof)) (\<lambda>r.
     Ok (rt = r)))"

section \<open>Membership proofs\<close>

text \<open>What the encoding of a leaf promises: an address of 20 bytes and a number are read from the texts that
  were written for them, and the encoding of the pair determines both.\<close>

definition is_address :: "nat list \<Rightarrow> bool" where
  "is_address a = (length a = 20 \<and> (\<forall>x \<in> set a. x < 256))"

definition abi_ok :: "('ty, 'tok) hash_lib \<Rightarrow> bool" where
  "abi_ok hl =
     (\<exists>ta tu aty uty. hl_read hl ''address'' = Ok aty \<and> hl_read hl ''uint256'' = Ok uty \<and>
        (\<forall>a. is_address a \<longrightarrow> hl_tokenize hl aty (''0x'' @ hl_hex hl a) = Ok (ta a)) \<and>
        (\<forall>n < U64. hl_tokenize hl uty (show_u64 n) = Ok (tu n)) \<and>
        (\<forall>a b m n. is_address a \<and> is_address b \<and> m < U64 \<and> n < U64 \<and>
           hl_encode hl [ta a, tu m] = hl_encode hl [ta b, tu n] \<longrightarrow> a = b \<and> m = n))"

definition validator_ok :: "('k \<Rightarrow> nat list) \<Rightarrow> 'k Validator \<Rightarrow> bool" where
  "validator_ok eth v = (is_address (eth (val_key v)) \<and> val_power v < U64)"

definition leaf_bytes :: "('ty, 'tok) hash_lib \<Rightarrow> ('k \<Rightarrow> nat list) \<Rightarrow> 'k Validator \<Rightarrow> nat list" where
  "leaf_bytes hl eth v = hl_encode hl (the_Ok (leaf_tokens hl (validator_to_vec hl eth v) VALIDATOR_TREE_FIELDS))"

definition vmt_leaf :: "('ty, 'tok) hash_lib \<Rightarrow> ('k \<Rightarrow> nat list) \<Rightarrow> 'k Validator \<Rightarrow> Hash" where
  "vmt_leaf hl eth v = hl_keccak hl (hl_keccak hl (leaf_bytes hl eth v))"

lemma abi_okE:
  fixes eth :: "'k \<Rightarrow> nat list"
  assumes "abi_ok hl"
  obtains ta tu where
    "\<And>v. validator_ok eth v \<Longrightarrow>
       leaf_tokens hl (validator_to_vec hl eth v) VALIDATOR_TREE_FIELDS = Ok [ta (eth (val_key v)), tu (val_power v)]"
    "\<And>a b m n. is_address a \<Longrightarrow> is_address b \<Longrightarrow> m < U64 \<Longrightarrow> n < U64 \<Longrightarrow>
       hl_encode hl [ta a, tu m] = hl_encode hl [ta b, tu n] \<Longrightarrow> a = b \<and> m = n"
proof -
  obtain ta tu aty uty where abi: "hl_read hl ''address'' = Ok aty" "hl_read hl ''uint256'' = Ok uty"
    "\<And>a. is_address a \<Longrightarrow> hl_tokenize hl aty (''0x'' @ hl_hex hl a) = Ok (ta a)"
    "\<And>n. n < U64 \<Longrightarrow> hl_tokenize hl uty (show_u64 n) = Ok (tu n)"
    "\<And>a b m n. is_address a \<Longrightarrow> is_address b \<Longrightarrow> m < U64 \<Longrightarrow> n < U64 \<Longrightarrow>
       hl_encode hl [ta a, tu m] = hl_encode hl [ta b, tu n] \<Longrightarrow> a = b \<and> m = n"
    using assms unfolding abi_ok_def by metis
  have "leaf_tokens hl (validator_to_vec hl eth v) VALIDATOR_TREE_FIELDS = Ok [ta (eth (val_key v)), tu (val_power v)]"
    if "validator_ok eth v" for v
    using that abi(1-4) by (simp add: validator_ok_def validator_to_vec_def VALIDATOR_TREE_FIELDS_def)
  then show ?thesis using that abi(5) by blast
qed

lemma leaf_Ok:
  assumes "abi_ok hl" "validator_ok eth v"
  shows "standard_leaf_hash hl (validator_to_vec hl eth v) VALIDATOR_TREE_FIELDS = Ok (vmt_leaf hl eth v)"
  using abi_okE [OF assms(1), of eth] assms(2) by (metis standard_leaf_hash_def obind.simps(1) vmt_leaf_def leaf_bytes_def the_Ok_Ok)

lemma leaf_bytes_inject:
  assumes "abi_ok hl" "validator_ok eth v" "validator_ok eth w" "leaf_bytes hl eth v = leaf_bytes hl eth w"
  shows "eth (val_key v) = eth (val_key w) \<and> val_power v = val_power w"
  proof (rule abi_okE [OF assms(1), of eth])
  fix ta tu
  assume "\<And>v. validator_ok eth v \<Longrightarrow>
      leaf_tokens hl (validator_to_vec hl eth v) VALIDATOR_TREE_FIELDS = Ok [ta (eth (val_key v)), tu (val_power v)]"
    "\<And>a b m n. is_address a \<Longrightarrow> is_address b \<Longrightarrow> m < U64 \<Longrightarrow> n < U64 \<Longrightarrow>
       hl_encode hl [ta a, tu m] = hl_encode hl [ta b, tu n] \<Longrightarrow> a = b \<and> m = n"
  note toks = this
  have "hl_encode hl [ta (eth (val_key v)), tu (val_power v)] = hl_encode hl [ta (eth (val_key w)), tu (val_power w)]"
    using assms(2-4) toks(1) by (simp add: leaf_bytes_def)
  then show ?thesis using toks(2) assms(2,3) unfolding validator_ok_def by blast
qed

text \<open>The inputs of the hash function while a tree is built and a proof is checked: the leaves, which are hashed
  twice, and the pairs of hashes.\<close>

definition hashed_inputs ::
  "('ty, 'tok) hash_lib \<Rightarrow> ('k \<Rightarrow> nat list) \<Rightarrow> 'k Validator list \<Rightarrow> Hash list \<Rightarrow> 'k Validator \<Rightarrow> Hash list \<Rightarrow> nat list set" where
  "hashed_inputs hl eth pt tree v proof =
     leaf_bytes hl eth ` insert v (set pt) \<union> (\<lambda>w. hl_keccak hl (leaf_bytes hl eth w)) ` insert v (set pt) \<union>
     tree_inputs (length pt) tree \<union> proof_inputs (hl_keccak hl) (vmt_leaf hl eth v) proof"

lemma vmt_new_spec:
  assumes "abi_ok hl" "pt \<noteq> []" "\<forall>v \<in> set pt. validator_ok eth v"
  shows "\<exists>t H. vmt_new hl eth pt = Ok t \<and> tree_over hl VALIDATOR_TREE_FIELDS H (map (validator_to_vec hl eth) pt) (vmt_tree t) \<and>
     (\<forall>v \<in> set pt. H (validator_to_vec hl eth v) = vmt_leaf hl eth v)"
proof -
  define H where "H x = the_Ok (standard_leaf_hash hl x VALIDATOR_TREE_FIELDS)" for x
  have leaf: "H (validator_to_vec hl eth v) = vmt_leaf hl eth v" if "v \<in> set pt" for v
    using leaf_Ok [OF assms(1), of eth] assms(3) that by (simp add: H_def)
  have "standard_leaf_hash hl x VALIDATOR_TREE_FIELDS = Ok (H x)" if "x \<in> set (map (validator_to_vec hl eth) pt)" for x
    using that leaf leaf_Ok [OF assms(1), of eth] assms(3) by auto
  then obtain t where "smt_of hl (map (validator_to_vec hl eth) pt) VALIDATOR_TREE_FIELDS = Ok t"
    "tree_over hl VALIDATOR_TREE_FIELDS H (map (validator_to_vec hl eth) pt) t"
    using smt_of_spec [of "map (validator_to_vec hl eth) pt" hl VALIDATOR_TREE_FIELDS H] assms(2) by auto
  then show ?thesis using leaf by (intro exI [of _ "\<lparr>vmt_tree = t\<rparr>"] exI [of _ H]) (simp add: vmt_new_def with_context_def)
qed

lemma show_u64_inject: "m < U64 \<Longrightarrow> n < U64 \<Longrightarrow> show_u64 m = show_u64 n \<Longrightarrow> m = n"
  by (metis option.inject parse_digits_show)

lemma sample_abi: "abi_ok sample_hash_lib"
proof -
  have inj: "map of_char s = (map of_char s' :: nat list) \<Longrightarrow> s = s'" for s s' :: string
    by (drule map_injective) (auto simp: inj_on_def)
  have id: "map (\<lambda>x. x mod 256) a = a" if "is_address a" for a :: "nat list"
    using that by (simp add: is_address_def map_idI)
  have inject: "a = b \<and> m = n"
    if "is_address a" "is_address b" "m < U64" "n < U64"
      "hl_encode sample_hash_lib [''0x'' @ map char_of a, show_u64 m] = hl_encode sample_hash_lib [''0x'' @ map char_of b, show_u64 n]" for a b m n
  proof -
    have "a @ length (show_u64 m) # map of_char (show_u64 m) = b @ length (show_u64 n) # map of_char (show_u64 n)"
      using that by (simp add: sample_hash_lib_def comp_def id)
    then show ?thesis using that inj show_u64_inject by (auto simp: is_address_def)
  qed
  show ?thesis
    unfolding abi_ok_def
    by (intro exI [of _ "\<lambda>a. ''0x'' @ map char_of a"] exI [of _ show_u64], rule exI [of _ "''address''"], rule exI [of _ "''uint256''"])
      (use inject in \<open>simp add: sample_hash_lib_def, blast\<close>)
qed

lemma sample_keccak: "length (hl_keccak sample_hash_lib x) = 32" "inj_on (hl_keccak sample_hash_lib) A"
  by (auto simp: sample_hash_lib_def inj_on_def dest: arg_cong [of "list_encode _" _ list_decode])

text \<open>A step that does not look at the root goes ahead for every table that is not empty.\<close>

lemma sample_root_step:
  assumes "pt \<noteq> []"
  shows "obind (map_err g (vmt_new sample_hash_lib eth pt)) (\<lambda>t. obind (vmt_root_hash t) (\<lambda>rt. k)) = k"
proof -
  let ?vals = "map (validator_to_vec sample_hash_lib eth) pt"
  have "standard_leaf_hash sample_hash_lib x VALIDATOR_TREE_FIELDS =
      Ok (the_Ok (standard_leaf_hash sample_hash_lib x VALIDATOR_TREE_FIELDS))" if "x \<in> set ?vals" for x
    using that by (auto simp: standard_leaf_hash_def validator_to_vec_def VALIDATOR_TREE_FIELDS_def sample_hash_lib_def)
  then obtain t H where "smt_of sample_hash_lib ?vals VALIDATOR_TREE_FIELDS = Ok t"
    "tree_over sample_hash_lib VALIDATOR_TREE_FIELDS H ?vals t"
    using smt_of_spec [of ?vals sample_hash_lib VALIDATOR_TREE_FIELDS
        "\<lambda>x. the_Ok (standard_leaf_hash sample_hash_lib x VALIDATOR_TREE_FIELDS)"] assms by auto
  moreover from this(2) have "smt_tree t \<noteq> []" by (auto simp: tree_over_def hash_tree_def)
  ultimately show ?thesis by (simp add: vmt_new_def with_context_def vmt_root_hash_def smt_root_def)
qed

lemma pair_bytes_length: "length a = 32 \<Longrightarrow> length b = 32 \<Longrightarrow> length (pair_bytes a b) = 64"
  by (simp add: pair_bytes_def min_def max_def)

lemma proof_inputs_length:
  assumes "\<And>x. length (kc x) = 32"
  shows "length a = 32 \<Longrightarrow> \<forall>b \<in> set bs. length b = 32 \<Longrightarrow> x \<in> proof_inputs kc a bs \<Longrightarrow> length x = 64"
proof (induction bs arbitrary: a)
  case (Cons b bs)
  then show ?case using Cons.IH [of "hash_pair_node kc a b"] assms by (auto simp: pair_bytes_length hash_pair_bytes)
qed simp

lemma tree_over_nodes:
  assumes t: "tree_over hl enc H vals t" and H: "\<forall>v \<in> set vals. length (H v) = 32" and kc: "\<And>x. length (hl_keccak hl x) = 32"
  shows "\<forall>h \<in> set (smt_tree t). length h = 32"
proof
  fix h assume "h \<in> set (smt_tree t)"
  then obtain i where i: "i < length (smt_tree t)" "h = smt_tree t ! i" by (metis in_set_conv_nth)
  have tree: "hash_tree (hl_keccak hl) (length vals) (smt_tree t)" using t by (simp add: tree_over_def)
  show "length h = 32"
  proof (cases "is_leaf_node (smt_tree t) i")
    case True
    then show ?thesis using t H i(2) unfolding tree_over_def by metis
  next
    case False
    then have "i < length vals - 1" using leaf_node_iff [OF tree] i(1) by auto
    then show ?thesis using tree i(2) kc by (auto simp: hash_tree_def hash_pair_bytes)
  qed
qed

lemma vmt_sound:
  assumes abi: "abi_ok hl" and kc: "\<And>x. length (hl_keccak hl x) = 32" and ok: "\<forall>w \<in> set pt. validator_ok eth w" "validator_ok eth v"
    and t: "tree_over hl VALIDATOR_TREE_FIELDS H (map (validator_to_vec hl eth) pt) t"
    and H: "\<forall>w \<in> set pt. H (validator_to_vec hl eth w) = vmt_leaf hl eth w"
    and pr: "\<forall>b \<in> set proof. length b = 32" and inj: "inj_on (hl_keccak hl) (hashed_inputs hl eth pt (smt_tree t) v proof)"
    and valid: "vmt_validate hl eth v (smt_tree t ! 0) proof = Ok True"
  shows "\<exists>w \<in> set pt. eth (val_key w) = eth (val_key v) \<and> val_power w = val_power v"
proof -
  let ?kc = "hl_keccak hl" and ?n = "length pt" and ?tree = "smt_tree t" and ?leaf = "vmt_leaf hl eth v"
  have leaf32: "length (vmt_leaf hl eth w) = 32" for w :: "'c Validator" by (simp add: vmt_leaf_def kc)
  have tree: "hash_tree ?kc ?n ?tree" using t by (simp add: tree_over_def)
  have nodes: "\<forall>h \<in> set ?tree. length h = 32" by (rule tree_over_nodes [OF t _ kc]) (use H leaf32 in auto)
  have t64: "length x = 64" if "x \<in> tree_inputs ?n ?tree" for x
    using that nodes tree by (auto simp: tree_inputs_def hash_tree_def intro!: pair_bytes_length)
  have p64: "length x = 64" if "x \<in> proof_inputs ?kc ?leaf proof" for x
    using proof_inputs_length [OF kc leaf32 pr that] .
  have apart: "vmt_leaf hl eth w \<noteq> ?kc x" if "w \<in> insert v (set pt)" "x \<in> tree_inputs ?n ?tree \<union> proof_inputs ?kc ?leaf proof" for w x
  proof
    assume "vmt_leaf hl eth w = ?kc x"
    then have "?kc (?kc (leaf_bytes hl eth w)) = ?kc x" by (simp add: vmt_leaf_def)
    then have "?kc (leaf_bytes hl eth w) = x"
      by (rule inj_onD [OF inj]) (use that in \<open>auto simp: hashed_inputs_def\<close>)
    then show False using kc [of "leaf_bytes hl eth w"] t64 p64 that(2) by auto
  qed
  have leaves: "\<exists>w \<in> set pt. ?tree ! i = vmt_leaf hl eth w" if "is_leaf_node ?tree i" for i
    using t H that unfolding tree_over_def by fastforce
  have "?leaf \<notin> ?kc ` tree_inputs ?n ?tree" using apart by blast
  moreover have "inj_on ?kc (tree_inputs ?n ?tree \<union> proof_inputs ?kc ?leaf proof)"
    by (rule inj_on_subset [OF inj]) (auto simp: hashed_inputs_def)
  moreover have "\<forall>i. is_leaf_node ?tree i \<longrightarrow> ?tree ! i \<notin> ?kc ` proof_inputs ?kc ?leaf proof"
  proof (intro allI impI)
    fix i assume "is_leaf_node ?tree i"
    then obtain w where "w \<in> set pt" "?tree ! i = vmt_leaf hl eth w" using leaves by blast
    then show "?tree ! i \<notin> ?kc ` proof_inputs ?kc ?leaf proof" using apart [of w] by auto
  qed
  moreover have "0 < length ?tree" using tree by (auto simp: hash_tree_def)
  moreover have "fold (\<lambda>b a. hash_pair_node ?kc a b) proof ?leaf = ?tree ! 0"
    using valid leaf_Ok [OF abi ok(2)] by (simp add: vmt_validate_def process_proof_def with_context_def)
  ultimately obtain l where "is_leaf_node ?tree l" "?leaf = ?tree ! l"
    using proof_binds [OF tree kc nodes leaf32 _ pr] by blast
  then obtain w where w: "w \<in> set pt" "?leaf = vmt_leaf hl eth w" using leaves by auto
  from w(2) have "?kc (?kc (leaf_bytes hl eth v)) = ?kc (?kc (leaf_bytes hl eth w))" by (simp add: vmt_leaf_def)
  then have "?kc (leaf_bytes hl eth v) = ?kc (leaf_bytes hl eth w)"
    by (rule inj_onD [OF inj]) (use w(1) in \<open>auto simp: hashed_inputs_def\<close>)
  then have "leaf_bytes hl eth v = leaf_bytes hl eth w"
    by (rule inj_onD [OF inj]) (use w(1) in \<open>auto simp: hashed_inputs_def\<close>)
  then show ?thesis using leaf_bytes_inject [OF abi ok(2)] ok(1) w(1) by metis
qed

section \<open>Properties\<close>

text \<open>C14: the tree of a power table is a test of membership. Building the tree of a table that is not empty
  succeeds, every validator of the table gets a proof that validates against the root, and, as long as the
  hash function has no collision among the inputs it was given, a proof validates only for an address and a
  power that are in the table.\<close>

theorem validator_tree_membership:
  assumes "abi_ok hl" "\<And>x. length (hl_keccak hl x) = 32" "pt \<noteq> []" "2 * length pt \<le> 2 ^ 31" "\<forall>v \<in> set pt. validator_ok eth v"
  shows "\<exists>t rt. vmt_new hl eth pt = Ok t \<and> vmt_root_hash t = Ok rt \<and>
     (\<forall>v \<in> set pt. \<exists>proof. vmt_prove hl eth t v = Ok proof \<and> vmt_validate hl eth v rt proof = Ok True) \<and>
     (\<forall>v proof. validator_ok eth v \<and> (\<forall>b \<in> set proof. length b = 32) \<and>
        inj_on (hl_keccak hl) (hashed_inputs hl eth pt (smt_tree (vmt_tree t)) v proof) \<and>
        vmt_validate hl eth v rt proof = Ok True \<longrightarrow>
        (\<exists>w \<in> set pt. eth (val_key w) = eth (val_key v) \<and> val_power w = val_power v))"
proof -
  obtain t H where t: "vmt_new hl eth pt = Ok t" "tree_over hl VALIDATOR_TREE_FIELDS H (map (validator_to_vec hl eth) pt) (vmt_tree t)"
    and H: "\<forall>v \<in> set pt. H (validator_to_vec hl eth v) = vmt_leaf hl eth v"
    using vmt_new_spec [OF assms(1,3,5)] by blast
  have tree: "hash_tree (hl_keccak hl) (length pt) (smt_tree (vmt_tree t))" using t(2) by (simp add: tree_over_def)
  then have len: "smt_tree (vmt_tree t) \<noteq> []" "length (smt_tree (vmt_tree t)) \<le> 2 ^ 31"
    using assms(4) by (auto simp: hash_tree_def)
  have leaf: "standard_leaf_hash hl x VALIDATOR_TREE_FIELDS = Ok (H x)" if "x \<in> set (map (validator_to_vec hl eth) pt)" for x
    using that H leaf_Ok [OF assms(1), of eth] assms(5) by auto
  have "\<exists>proof. vmt_prove hl eth t v = Ok proof \<and> vmt_validate hl eth v (smt_tree (vmt_tree t) ! 0) proof = Ok True"
    if v: "v \<in> set pt" for v
    using smt_get_proof_spec [OF t(2) leaf len(2), of "validator_to_vec hl eth v"] v H leaf_Ok [OF assms(1), of eth v] assms(5)
    by (auto simp: vmt_prove_def vmt_validate_def with_context_def)
  moreover have "\<exists>w \<in> set pt. eth (val_key w) = eth (val_key v) \<and> val_power w = val_power v"
    if "validator_ok eth v" "\<forall>b \<in> set pr. length b = 32"
      "inj_on (hl_keccak hl) (hashed_inputs hl eth pt (smt_tree (vmt_tree t)) v pr)"
      "vmt_validate hl eth v (smt_tree (vmt_tree t) ! 0) pr = Ok True" for v pr
    using vmt_sound [OF assms(1,2,5) that(1) t(2) H that(2-4)] .
  moreover have "vmt_root_hash t = Ok (smt_tree (vmt_tree t) ! 0)" using len(1) by (simp add: vmt_root_hash_def smt_root_def)
  ultimately show ?thesis using t(1) by blast
qed

theorem validator_tree_membership_witness:
  "\<exists>t rt. vmt_new sample_hash_lib (replicate 20) [\<lparr>val_key = 1, val_power = 5\<rparr>, \<lparr>val_key = 2, val_power = 7\<rparr>] = Ok t \<and>
     vmt_root_hash t = Ok rt \<and>
     (\<exists>proof. vmt_prove sample_hash_lib (replicate 20) t \<lparr>val_key = 2, val_power = 7\<rparr> = Ok proof \<and>
        vmt_validate sample_hash_lib (replicate 20) \<lparr>val_key = 2, val_power = 7\<rparr> rt proof = Ok True) \<and>
     vmt_validate sample_hash_lib (replicate 20) \<lparr>val_key = 2, val_power = 9\<rparr> rt [replicate 32 0] \<noteq> Ok True"
proof -
  let ?pt = "[\<lparr>val_key = 1, val_power = 5\<rparr>, \<lparr>val_key = 2, val_power = 7\<rparr>] :: nat Validator list"
  have ok: "validator_ok (replicate 20) v" if "val_key v < 3" "val_power v < 10" for v :: "nat Validator"
    using that by (auto simp: validator_ok_def is_address_def U64_def)
  have pt: "?pt \<noteq> []" "2 * length ?pt \<le> 2 ^ 31" "\<forall>v \<in> set ?pt. validator_ok (replicate 20) v" using ok by auto
  have out: "\<not> (\<exists>w \<in> set ?pt. replicate 20 (val_key w) = replicate 20 (2 :: nat) \<and> val_power w = 9)" by simp
  from validator_tree_membership [OF sample_abi sample_keccak(1) pt] obtain t rt where
    t: "vmt_new sample_hash_lib (replicate 20) ?pt = Ok t" "vmt_root_hash t = Ok rt"
      "\<forall>v \<in> set ?pt. \<exists>proof. vmt_prove sample_hash_lib (replicate 20) t v = Ok proof \<and>
         vmt_validate sample_hash_lib (replicate 20) v rt proof = Ok True"
    and sound: "\<And>v proof. validator_ok (replicate 20) v \<Longrightarrow> \<forall>b \<in> set proof. length b = 32 \<Longrightarrow>
       vmt_validate sample_hash_lib (replicate 20) v rt proof = Ok True \<Longrightarrow>
       \<exists>w \<in> set ?pt. replicate 20 (val_key w) = replicate 20 (val_key v) \<and> val_power w = val_power v"
    using sample_keccak(2) by blast
  have "vmt_validate sample_hash_lib (replicate 20) \<lparr>val_key = 2, val_power = 9\<rparr> rt [replicate 32 0] \<noteq> Ok True"
    using sound [of "\<lparr>val_key = 2, val_power = 9\<rparr>" "[replicate 32 0]"] ok [of "\<lparr>val_key = 2, val_power = 9\<rparr>"] out by auto
  then show ?thesis using t by auto
qed

end
