(* ===== verification/Fvm_Interpreter.thy ===== *)
theory Fvm_Interpreter
  imports Exec_State Finality_Provider Validator_Tree
begin

text \<open>
  The FVM interpreter: the gateway calls (\<open>fendermint/vm/interpreter/src/fvm/state/ipc.rs\<close>), topdown
  execution (\<open>fvm/topdown.rs\<close>), bottom-up checkpoints (\<open>fvm/checkpoint.rs\<close>), the conversion of
  collateral to power (\<open>fendermint/vm/genesis/src/lib.rs\<close>) and the life cycle of a block
  (\<open>fvm/exec.rs\<close>).

  The gateway contract and the encoding of calls to it are the record \<open>gateway\<close>: each method runs on
  the state of the machine. Public keys are the type parameter \<open>'k\<close>, in their serialized form, so that
  they can be the keys of a hash map.
\<close>

section \<open>Power\<close>

definition as_i8 :: "int \<Rightarrow> int" where
  "as_i8 x = (x + 128) mod 256 - 128"

definition TOKEN_DECIMALS :: int where
  "TOKEN_DECIMALS = 18"

text \<open>\<open>scale\<close> is an \<open>i8\<close>: the addition in the negative branch wraps.\<close>

definition atto_per_power :: "int \<Rightarrow> int" where
  "atto_per_power scale =
     10 ^ (if 0 \<le> scale then nat (TOKEN_DECIMALS - min TOKEN_DECIMALS scale)
           else nat (as_i8 (TOKEN_DECIMALS + as_i8 \<bar>scale\<bar>) mod 2 ^ 32))"

definition div_ceil :: "int \<Rightarrow> int \<Rightarrow> int" where
  "div_ceil a b = - ((- a) div b)"

definition into_power :: "int \<Rightarrow> int \<Rightarrow> ('e, nat) outcome" where
  "into_power atto scale =
     (let power = min (div_ceil atto (atto_per_power scale)) (int U64 - 1) in
      if power < 0 then Panic else Ok (nat power))"

section \<open>The gateway\<close>

record 'a BottomUpCheckpoint =
  cp_subnet_id :: "'a SubnetID"
  cp_block_height :: nat
  cp_block_hash :: "nat list"
  cp_next_configuration_number :: nat
  cp_msgs :: "'a IpcEnvelope list"

record 'a FvmApplyRet =
  far_apply_ret :: ApplyRet
  far_from :: 'a
  far_to :: 'a
  far_method_num :: nat
  far_gas_limit :: nat
  far_emitters :: "(nat, 'a) hmap"

text \<open>The contract's methods, the conversions to its types, the parsing of a public key, the Ethereum
  address of a key, and the hashing and encoding of leaves, with types and tokens in their serialized form. A
  member has metadata and a weight.\<close>

record ('a, 'k, 's) gateway =
  gw_network_name :: "'s \<Rightarrow> (string, 'a SubnetID \<times> 's) outcome"
  gw_bottom_up_check_period :: "'s \<Rightarrow> (string, nat \<times> 's) outcome"
  gw_bottom_up_msg_batch :: "nat \<Rightarrow> 's \<Rightarrow> (string, (nat \<times> 'a IpcEnvelope list) \<times> 's) outcome"
  gw_create_bottom_up_checkpoint ::
    "'a BottomUpCheckpoint \<Rightarrow> nat list \<Rightarrow> nat \<Rightarrow> 's \<Rightarrow> (string, unit \<times> 's) outcome"
  gw_get_incomplete_checkpoints :: "'s \<Rightarrow> (string, 'a BottomUpCheckpoint list \<times> 's) outcome"
  gw_apply_finality_changes :: "'s \<Rightarrow> (string, nat \<times> 's) outcome"
  gw_get_current_membership :: "'s \<Rightarrow> (string, (nat \<times> (nat list \<times> nat) list) \<times> 's) outcome"
  gw_commit_parent_finality ::
    "IPCParentFinality \<Rightarrow> 's \<Rightarrow> (string, (bool \<times> IPCParentFinality) \<times> 's) outcome"
  gw_store_validator_changes :: "'a StakingChangeRequest list \<Rightarrow> 's \<Rightarrow> (string, unit \<times> 's) outcome"
  gw_apply_cross_messages :: "'a IpcEnvelope list \<Rightarrow> 's \<Rightarrow> (string, 'a FvmApplyRet \<times> 's) outcome"
  gw_get_latest_parent_finality :: "'s \<Rightarrow> (string, IPCParentFinality \<times> 's) outcome"
  gw_get_checkpoint_signatories :: "nat \<Rightarrow> 's \<Rightarrow> (string, nat list list \<times> 's) outcome"
  gw_try_finality :: "IPCParentFinality \<Rightarrow> (string, IPCParentFinality) outcome"
  gw_try_change :: "'a StakingChangeRequest \<Rightarrow> (string, 'a StakingChangeRequest) outcome"
  gw_try_envelope :: "'a IpcEnvelope \<Rightarrow> (string, 'a IpcEnvelope) outcome"
  gw_parse_key :: "nat list \<Rightarrow> 'k option"
  gw_eth_address :: "'k \<Rightarrow> nat list"
  gw_hashes :: "(string, string) hash_lib"

definition GATEWAY_ACTOR_ID :: nat where
  "GATEWAY_ACTOR_ID = 64"

text \<open>A call through a \<open>ContractCaller\<close> runs on the executor and leaves the rest of the state.\<close>

definition contract_call ::
  "('s \<Rightarrow> (string, 'x \<times> 's) outcome) \<Rightarrow> 's FvmExecState \<Rightarrow> (string, 'x \<times> 's FvmExecState) outcome" where
  "contract_call f st = obind (f (executor st)) (\<lambda>(x, ex). Ok (x, st\<lparr>executor := ex\<rparr>))"

definition gateway_enabled :: "('a, 's) machine \<Rightarrow> 's FvmExecState \<Rightarrow> (string, bool) outcome" where
  "gateway_enabled mx st =
     obind (mx_get_actor mx GATEWAY_ACTOR_ID (executor st)) (\<lambda>actor.
       Ok (case actor of None \<Rightarrow> False | Some a \<Rightarrow> \<not> mx_is_placeholder mx (act_code a)))"

definition is_root ::
  "('a, 'k, 's) gateway \<Rightarrow> 's FvmExecState \<Rightarrow> (string, bool \<times> 's FvmExecState) outcome" where
  "is_root gw st = obind (contract_call (gw_network_name gw) st) (\<lambda>(sid, st). Ok (children sid = [], st))"

text \<open>Members whose metadata is not a public key are ignored.\<close>

fun membership_to_power_table ::
  "(nat list \<Rightarrow> 'k option) \<Rightarrow> int \<Rightarrow> (nat list \<times> nat) list \<Rightarrow> ('e, 'k Validator list) outcome" where
  "membership_to_power_table parse scale [] = Ok []"
| "membership_to_power_table parse scale ((metadata, weight) # vs) =
     (case parse metadata of
        Some pk \<Rightarrow>
          obind (into_power (int weight) scale) (\<lambda>p.
          obind (membership_to_power_table parse scale vs) (\<lambda>pt.
          Ok (\<lparr>val_key = pk, val_power = p\<rparr> # pt)))
      | None \<Rightarrow> membership_to_power_table parse scale vs)"

definition current_power_table ::
  "('a, 'k, 's) gateway \<Rightarrow> 's FvmExecState \<Rightarrow>
     (string, (nat \<times> 'k Validator list) \<times> 's FvmExecState) outcome" where
  "current_power_table gw st =
     obind (with_context ''failed to get current membership''
       (contract_call (gw_get_current_membership gw) st)) (\<lambda>((number, members), st).
     obind (membership_to_power_table (gw_parse_key gw) (power_scale (params st)) members) (\<lambda>pt.
     Ok ((number, pt), st)))"

text \<open>The total power is a saturating sum of 256-bit integers.\<close>

definition create_bottom_up_checkpoint ::
  "('a, 'k, 's) gateway \<Rightarrow> 'a BottomUpCheckpoint \<Rightarrow> 'k Validator list \<Rightarrow> 's FvmExecState \<Rightarrow>
     (string, unit \<times> 's FvmExecState) outcome" where
  "create_bottom_up_checkpoint gw cp pt st =
     obind (with_context ''failed to create validator tree'' (vmt_new (gw_hashes gw) (gw_eth_address gw) pt)) (\<lambda>tree.
     let total_power = fold (\<lambda>v p. min (p + val_power v) (2 ^ 256 - 1)) pt 0 in
     obind (vmt_root_hash tree) (\<lambda>rt. contract_call (gw_create_bottom_up_checkpoint gw cp rt total_power) st))"

definition commit_parent_finality ::
  "('a, 'k, 's) gateway \<Rightarrow> IPCParentFinality \<Rightarrow> 's FvmExecState \<Rightarrow>
     (string, IPCParentFinality option \<times> 's FvmExecState) outcome" where
  "commit_parent_finality gw f st =
     obind (gw_try_finality gw f) (\<lambda>f.
     obind (contract_call (gw_commit_parent_finality gw f) st) (\<lambda>((has_committed, prev), st).
     Ok (if \<not> has_committed then None else Some prev, st)))"

definition store_validator_changes ::
  "('a, 'k, 's) gateway \<Rightarrow> 'a StakingChangeRequest list \<Rightarrow> 's FvmExecState \<Rightarrow>
     (string, unit \<times> 's FvmExecState) outcome" where
  "store_validator_changes gw changes st =
     (if changes = [] then Ok ((), st)
      else obind (try_all (gw_try_change gw) changes) (\<lambda>reqs.
        contract_call (gw_store_validator_changes gw reqs) st))"

definition mint_to_gateway ::
  "('a, 's) machine \<Rightarrow> int \<Rightarrow> 's FvmExecState \<Rightarrow> (string, 's FvmExecState) outcome" where
  "mint_to_gateway mx v st =
     obind (mx_mutate_actor mx GATEWAY_ACTOR_ID (\<lambda>a. a\<lparr>act_balance := act_balance a + v\<rparr>) (executor st))
       (\<lambda>ex. Ok (st\<lparr>executor := ex\<rparr>))"

definition apply_cross_messages ::
  "('a, 'k, 's) gateway \<Rightarrow> 'a IpcEnvelope list \<Rightarrow> 's FvmExecState \<Rightarrow>
     (string, 'a FvmApplyRet \<times> 's FvmExecState) outcome" where
  "apply_cross_messages gw msgs st =
     obind (with_context ''failed to convert cross messages'' (try_all (gw_try_envelope gw) msgs)) (\<lambda>ms.
     contract_call (gw_apply_cross_messages gw ms) st)"

definition tokens_to_mint :: "'a IpcEnvelope list \<Rightarrow> int" where
  "tokens_to_mint msgs = fold (\<lambda>m total. total + env_value m) msgs 0"

definition tokens_to_burn :: "'a IpcEnvelope list \<Rightarrow> int" where
  "tokens_to_burn msgs = fold (\<lambda>m total. total + env_value m) msgs 0"

section \<open>Topdown execution\<close>

definition topdown_commit_finality ::
  "('a, 'k, 's) gateway \<Rightarrow> IPCParentFinality \<Rightarrow> 'b CachedFinalityProvider Toggle \<Rightarrow> 's FvmExecState \<Rightarrow>
     (string, (BlockHeight \<times> IPCParentFinality option) \<times> 's FvmExecState) outcome" where
  "topdown_commit_finality gw f provider st =
     obind (commit_parent_finality gw f st) (\<lambda>(prev, st).
     case prev of
       Some pf \<Rightarrow> Ok ((fin_height pf, Some pf), st)
     | None \<Rightarrow> obind (toggle_genesis_epoch provider) (\<lambda>genesis. Ok ((genesis, None), st)))"

definition execute_topdown_msgs ::
  "('a, 's) machine \<Rightarrow> ('a, 'k, 's) gateway \<Rightarrow> 'a IpcEnvelope list \<Rightarrow> 's FvmExecState \<Rightarrow>
     (string, 'a FvmApplyRet \<times> 's FvmExecState) outcome" where
  "execute_topdown_msgs mx gw msgs st =
     (let minted = tokens_to_mint msgs in
      obind (if minted \<noteq> 0
             then omap (update_circ_supply (\<lambda>c. c + minted))
               (with_context ''failed to mint to gateway'' (mint_to_gateway mx minted st))
             else Ok st) (\<lambda>st.
      apply_cross_messages gw msgs st))"

section \<open>Bottom-up checkpoints\<close>

definition into_power_map :: "'k Validator list \<Rightarrow> ('k, 'k Validator) hmap" where
  "into_power_map pt = hm_from (map (\<lambda>v. (val_key v, v)) pt)"

definition power_diff :: "'k Validator list \<Rightarrow> 'k Validator list \<Rightarrow> 'k Validator list" where
  "power_diff current_pt next_pt =
     (let cur = into_power_map current_pt; nxt = into_power_map next_pt in
      map (\<lambda>(k, v). v\<lparr>val_power := 0\<rparr>) (filter (\<lambda>(k, v). hm_get nxt k = None) cur) @
      map snd (filter (\<lambda>(k, v). hm_get cur k \<noteq> Some v) nxt))"

text \<open>A checkpoint is due if the gateway is deployed, the subnet is not the root, and there is a batch
  of messages for this height or the height is a multiple of the period; a period of zero panics.\<close>

definition should_create_checkpoint ::
  "('a, 's) machine \<Rightarrow> ('a, 'k, 's) gateway \<Rightarrow> nat \<Rightarrow> 's FvmExecState \<Rightarrow>
     (string, ('a IpcEnvelope list \<times> 'a SubnetID) option \<times> 's FvmExecState) outcome" where
  "should_create_checkpoint mx gw height st =
     obind (gateway_enabled mx st) (\<lambda>enabled.
     if \<not> enabled then Ok (None, st)
     else obind (contract_call (gw_network_name gw) st) (\<lambda>(sid, st).
     if children sid = [] then Ok (None, st)
     else obind (contract_call (gw_bottom_up_msg_batch gw height) st) (\<lambda>((batch_height, msgs), st).
     if batch_height \<noteq> 0 then Ok (Some (msgs, sid), st)
     else obind (contract_call (gw_bottom_up_check_period gw) st) (\<lambda>(period, st).
     if period = 0 then Panic
     else if height mod period = 0 then Ok (Some (msgs, sid), st)
     else Ok (None, st)))))"

definition ipc_power_table ::
  "('a, 'k, 's) gateway \<Rightarrow> 's FvmExecState \<Rightarrow>
     (string, (nat \<times> 'k Validator list) \<times> 's FvmExecState) outcome" where
  "ipc_power_table gw st = with_context ''failed to get current power table'' (current_power_table gw st)"

definition maybe_create_checkpoint ::
  "('a, 's) machine \<Rightarrow> ('a, 'k, 's) gateway \<Rightarrow> 's FvmExecState \<Rightarrow>
     (string, ('a BottomUpCheckpoint \<times> 'k Validator list) option \<times> 's FvmExecState) outcome" where
  "maybe_create_checkpoint mx gw st =
     (if mx_epoch mx (executor st) < 0 then Err ''block height is not u64''
      else case block_hash st of
        None \<Rightarrow> Err ''block hash not set''
      | Some hash \<Rightarrow>
          let height = nat (mx_epoch mx (executor st)) in
          obind (should_create_checkpoint mx gw height st) (\<lambda>(due, st).
          case due of
            None \<Rightarrow> Ok (None, st)
          | Some (msgs, sid) \<Rightarrow>
              obind (with_context ''failed to get the current power table'' (ipc_power_table gw st))
                (\<lambda>((_, curr), st).
              obind (with_context ''failed to apply validator changes''
                (contract_call (gw_apply_finality_changes gw) st)) (\<lambda>(next_number, st).
              let st = update_circ_supply (\<lambda>c. c - tokens_to_burn msgs) st;
                  cp = \<lparr>cp_subnet_id = sid, cp_block_height = height, cp_block_hash = hash,
                        cp_next_configuration_number = next_number, cp_msgs = msgs\<rparr> in
              obind (with_context ''failed to store checkpoint''
                (create_bottom_up_checkpoint gw cp curr st)) (\<lambda>(_, st).
              if next_number = 0 then Ok (Some (cp, []), st)
              else obind (with_context ''failed to get next power table'' (ipc_power_table gw st))
                (\<lambda>((_, nxt), st). Ok (Some (cp, power_diff curr nxt), st)))))))"

text \<open>The incomplete checkpoints that the validator has not signed.\<close>

fun collect_unsigned ::
  "('a, 'k, 's) gateway \<Rightarrow> nat list \<Rightarrow> 'a BottomUpCheckpoint list \<Rightarrow> 's FvmExecState \<Rightarrow>
     (string, 'a BottomUpCheckpoint list \<times> 's FvmExecState) outcome" where
  "collect_unsigned gw addr [] st = Ok ([], st)"
| "collect_unsigned gw addr (cp # cps) st =
     obind (with_context ''failed to get checkpoint signatories''
       (contract_call (gw_get_checkpoint_signatories gw (cp_block_height cp)) st)) (\<lambda>(signatories, st).
     obind (collect_unsigned gw addr cps st) (\<lambda>(rest, st).
     Ok (if addr \<in> set signatories then rest else cp # rest, st)))"

definition unsigned_checkpoints ::
  "('a, 'k, 's) gateway \<Rightarrow> 'k \<Rightarrow> 's FvmExecState \<Rightarrow>
     (string, 'a BottomUpCheckpoint list \<times> 's FvmExecState) outcome" where
  "unsigned_checkpoints gw validator_key st =
     obind (with_context ''failed to fetch incomplete checkpoints''
       (contract_call (gw_get_incomplete_checkpoints gw) st)) (\<lambda>(cps, st).
     collect_unsigned gw (gw_eth_address gw validator_key) cps st)"

section \<open>The life cycle of a block\<close>

text \<open>The interpreter: the upgrade schedule, whether block hashes are pushed to the chain metadata actor,
  whether messages are executed when they are checked, the validator's key if the node validates, and
  whether the node is catching up.\<close>

record ('a, 'k, 's) fvm_interpreter =
  fi_gateway :: "('a, 'k, 's) gateway"
  fi_upgrades :: "'s UpgradeScheduler"
  fi_push_chain_meta :: bool
  fi_exec_in_check :: bool
  fi_validator :: "'k option"
  fi_syncing :: bool

definition system_msg ::
  "('a, 's) machine \<Rightarrow> 'a \<Rightarrow> nat \<Rightarrow> nat \<Rightarrow> nat \<Rightarrow> nat list \<Rightarrow> 'a FvmMessage" where
  "system_msg mx to sequence gas_limit method_num ps =
     \<lparr>msg_version = 0, msg_from = mx_system_addr mx, msg_to = to, msg_sequence = sequence, msg_value = 0,
      msg_method_num = method_num, msg_params = ps, msg_gas_limit = gas_limit, msg_gas_fee_cap = 0,
      msg_gas_premium = 0\<rparr>"

definition EPOCH_TICK :: nat where
  "EPOCH_TICK = 2"

definition run_upgrade ::
  "'s UpgradeScheduler \<Rightarrow> nat \<Rightarrow> nat \<Rightarrow> 's FvmExecState \<Rightarrow> (string, 's FvmExecState) outcome" where
  "run_upgrade upgrades chain_id height st =
     (case scheduler_get upgrades chain_id height of
        None \<Rightarrow> Ok st
      | Some u \<Rightarrow>
          obind (with_context ''upgrade failed'' (upgrade_execute u st)) (\<lambda>(version, st).
          Ok (case version of Some v \<Rightarrow> update_app_version (\<lambda>_. v) st | None \<Rightarrow> st)))"

definition fvm_begin ::
  "('a, 's) machine \<Rightarrow> ('a, 'k, 's) fvm_interpreter \<Rightarrow> 's FvmExecState \<Rightarrow>
     (string, 's FvmExecState \<times> 'a FvmApplyRet) outcome" where
  "fvm_begin mx fi st =
     (let height = mx_epoch mx (executor st) in
      if height < 0 then Panic
      else obind (run_upgrade (fi_upgrades fi) (mx_chain_id mx (executor st)) (nat height) st) (\<lambda>st.
      let gas_limit = mul_u64 (mx_block_gas_limit mx) 10000;
          msg = system_msg mx (mx_cron_addr mx) (nat height) gas_limit EPOCH_TICK [] in
      obind (execute_implicit mx msg st) (\<lambda>((ret, emitters), st).
      case failure_info ret of
        Some e \<Rightarrow> Err (''failed to apply block cron message: '' @ e)
      | None \<Rightarrow>
          let out = \<lparr>far_apply_ret = ret, far_from = mx_system_addr mx, far_to = mx_cron_addr mx,
                     far_method_num = EPOCH_TICK, far_gas_limit = gas_limit, far_emitters = emitters\<rparr> in
          case (fi_push_chain_meta fi, block_hash st) of
            (True, Some hash) \<Rightarrow>
              obind (mx_encode_push_block mx height hash) (\<lambda>ps.
              obind (execute_implicit mx
                (system_msg mx (mx_chainmetadata_addr mx) (nat height) gas_limit
                   (mx_method_hash mx ''PushBlockHash'') ps) st) (\<lambda>((ret, _), st).
              case failure_info ret of
                Some e \<Rightarrow> Err (''failed to apply chainmetadata message: '' @ e)
              | None \<Rightarrow> Ok (st, out)))
          | _ \<Rightarrow> Ok (st, out))))"

text \<open>Messages of the system actor are executed implicitly.\<close>

definition fvm_deliver ::
  "('a, 's) machine \<Rightarrow> 's FvmExecState \<Rightarrow> 'a FvmMessage \<Rightarrow>
     (string, 's FvmExecState \<times> 'a FvmApplyRet) outcome" where
  "fvm_deliver mx st msg =
     obind (if msg_from msg = mx_system_addr mx then execute_implicit mx msg st
            else execute_explicit mx msg st) (\<lambda>((ret, emitters), st).
     Ok (st, \<lparr>far_apply_ret = ret, far_from = msg_from msg, far_to = msg_to msg,
              far_method_num = msg_method_num msg, far_gas_limit = msg_gas_limit msg,
              far_emitters = emitters\<rparr>))"

text \<open>The power updates of the block, and the checkpoints whose signatures a validating node that is
  not catching up goes on to broadcast.\<close>

definition fvm_end ::
  "('a, 's) machine \<Rightarrow> ('a, 'k, 's) fvm_interpreter \<Rightarrow> 's FvmExecState \<Rightarrow>
     (string, 's FvmExecState \<times> 'k Validator list \<times> 'a BottomUpCheckpoint list) outcome" where
  "fvm_end mx fi st =
     obind (with_context ''failed to create checkpoint'' (maybe_create_checkpoint mx (fi_gateway fi) st))
       (\<lambda>(res, st).
     case res of
       None \<Rightarrow> Ok (st, [], [])
     | Some (cp, updates) \<Rightarrow>
         (case fi_validator fi of
            Some k \<Rightarrow>
              if fi_syncing fi then Ok (st, updates, [])
              else obind (with_context ''failed to fetch incomplete checkpoints''
                (unsigned_checkpoints (fi_gateway fi) k st)) (\<lambda>(cps, st). Ok (st, updates, cps))
          | None \<Rightarrow> Ok (st, updates, [])))"

section \<open>Lemmas on power tables\<close>

text \<open>The power a table gives to a key: that of its last entry for the key.\<close>

definition power_in :: "'k Validator list \<Rightarrow> 'k \<Rightarrow> nat option" where
  "power_in pt k = map_of (rev (map (\<lambda>v. (val_key v, val_power v)) pt)) k"

lemma into_power_map_wf: "hm_wf (into_power_map pt)"
  by (simp add: into_power_map_def)

lemma into_power_map_get: "hm_get (into_power_map pt) k = map_of (rev (map (\<lambda>v. (val_key v, v)) pt)) k"
  by (simp add: into_power_map_def hm_get_from)

lemma into_power_map_key: "hm_get (into_power_map pt) k = Some v \<Longrightarrow> val_key v = k"
  unfolding into_power_map_get by (drule map_of_SomeD) auto

lemma into_power_map_power: "map_option val_power (hm_get (into_power_map pt) k) = power_in pt k"
proof -
  have "rev (map (\<lambda>v. (val_key v, val_power v)) pt) =
      map (\<lambda>(k, v). (k, val_power v)) (rev (map (\<lambda>v. (val_key v, v)) pt))"
    by (simp add: rev_map comp_def)
  then show ?thesis by (simp add: into_power_map_get power_in_def map_of_map)
qed

lemma into_power_map_in: "(k, v) \<in> set (into_power_map pt) \<longleftrightarrow> hm_get (into_power_map pt) k = Some v"
  by (simp add: into_power_map_wf)

lemma validator_eqI: "val_key v = val_key w \<Longrightarrow> val_power v = val_power w \<Longrightarrow> (v :: 'k Validator) = w"
  by simp

text \<open>The entries of a difference as a map: removals and updates have different keys.\<close>

lemma map_of_keyed:
  assumes "hm_wf m" "\<And>k v. (k, v) \<in> set m \<Longrightarrow> f (k, v) = k"
  shows "map_of (map (\<lambda>e. (f e, g e)) (filter P m)) k =
     (case hm_get m k of Some v \<Rightarrow> if P (k, v) then Some (g (k, v)) else None | None \<Rightarrow> None)"
  using assms
proof (induction m)
  case (Cons e m)
  obtain j w where e: "e = (j, w)" by (cases e)
  have "f e = j" using Cons.prems(2) e by simp
  moreover have "j \<notin> fst ` set m" "hm_wf m" using Cons.prems(1) e by auto
  moreover have "hm_get m j = None" using \<open>j \<notin> fst ` set m\<close> by (simp add: map_of_eq_None_iff)
  ultimately show ?case using Cons.IH Cons.prems(2) e by (auto split: option.splits)
qed simp

lemma power_diff_map:
  "map_of (map (\<lambda>v. (val_key v, val_power v)) (power_diff c n)) k =
     (if power_in n k = power_in c k then None
      else Some (case power_in n k of Some p \<Rightarrow> p | None \<Rightarrow> 0))"
proof -
  let ?c = "into_power_map c" and ?n = "into_power_map n"
  have key: "val_key v = j" if "(j, v) \<in> set (into_power_map q)" for j v and q :: "'a Validator list"
    using that by (simp add: into_power_map_in into_power_map_key)
  have del: "map_of (map (\<lambda>e. (val_key (snd e), 0 :: nat)) (filter (\<lambda>e. hm_get ?n (fst e) = None) ?c)) k =
      (case hm_get ?c k of Some v \<Rightarrow> if hm_get ?n k = None then Some 0 else None | None \<Rightarrow> None)"
    by (subst map_of_keyed [OF into_power_map_wf]) (use key in \<open>auto split: option.splits\<close>)
  have upd: "map_of (map (\<lambda>e. (val_key (snd e), val_power (snd e))) (filter (\<lambda>e. hm_get ?c (fst e) \<noteq> Some (snd e)) ?n)) k =
      (case hm_get ?n k of Some v \<Rightarrow> if hm_get ?c k \<noteq> Some v then Some (val_power v) else None | None \<Rightarrow> None)"
    by (subst map_of_keyed [OF into_power_map_wf]) (use key in \<open>auto split: option.splits\<close>)
  have "map (\<lambda>v. (val_key v, val_power v)) (power_diff c n) =
      map (\<lambda>e. (val_key (snd e), 0)) (filter (\<lambda>e. hm_get ?n (fst e) = None) ?c) @
      map (\<lambda>e. (val_key (snd e), val_power (snd e))) (filter (\<lambda>e. hm_get ?c (fst e) \<noteq> Some (snd e)) ?n)"
    by (simp add: power_diff_def Let_def split_def comp_def)
  then have "map_of (map (\<lambda>v. (val_key v, val_power v)) (power_diff c n)) k =
      (case hm_get ?n k of
         Some v \<Rightarrow> if hm_get ?c k \<noteq> Some v then Some (val_power v) else None
       | None \<Rightarrow> if hm_get ?c k = None then None else Some 0)"
    using del upd by (auto simp: map_add_def split: option.splits)
  moreover have "val_power v = val_power w \<longleftrightarrow> v = w"
    if "hm_get ?n k = Some v" "hm_get ?c k = Some w" for v w
    using that by (metis into_power_map_key validator_eqI)
  ultimately show ?thesis
    unfolding into_power_map_power [symmetric]
    by (cases "hm_get ?n k"; cases "hm_get ?c k") auto
qed

section \<open>Lemmas on gateway calls\<close>

text \<open>The contract touches the machine only: \<open>outside\<close> is the rest of the state.\<close>

definition outside :: "'s FvmExecState \<Rightarrow> nat list option \<times> nat list option \<times> FvmUpdatableParams \<times> bool" where
  "outside st = (block_hash st, validator_id st, params st, params_dirty st)"

lemma outside_executor [simp]: "outside (st\<lparr>executor := ex\<rparr>) = outside st"
  by (simp add: outside_def)

lemma outsideD: "outside st' = outside st \<Longrightarrow> block_hash st' = block_hash st \<and> params st' = params st \<and>
    params_dirty st' = params_dirty st"
  by (simp add: outside_def)

lemma contract_call_outside: "contract_call f st = Ok (x, st') \<Longrightarrow> outside st' = outside st"
  by (auto simp: contract_call_def outcome_simps)

lemma with_context_Ok [outcome_simps]: "with_context c r = Ok x \<longleftrightarrow> r = Ok x"
  by (simp add: with_context_def outcome_simps)

lemma ipc_power_table_outside: "ipc_power_table gw st = Ok (x, st') \<Longrightarrow> outside st' = outside st"
  by (auto simp: ipc_power_table_def current_power_table_def outcome_simps dest: contract_call_outside)

lemma create_checkpoint_outside:
  "create_bottom_up_checkpoint gw cp pt st = Ok (x, st') \<Longrightarrow> outside st' = outside st"
  by (auto simp: create_bottom_up_checkpoint_def outcome_simps dest: contract_call_outside)

lemma should_create_checkpoint_outside:
  assumes "should_create_checkpoint mx gw height st = Ok (res, st')"
  shows "outside st' = outside st \<and> (\<forall>msgs sid. res = Some (msgs, sid) \<longrightarrow> children sid \<noteq> [])"
  using assms unfolding should_create_checkpoint_def
  by (auto simp: outcome_simps split: if_splits dest!: contract_call_outside)

text \<open>The steps of a checkpoint.\<close>

lemma maybe_create_checkpointE:
  assumes "maybe_create_checkpoint mx gw st = Ok (res, st')"
  obtains (none) "should_create_checkpoint mx gw (nat (mx_epoch mx (executor st))) st = Ok (None, st')" "res = None"
  | (some) hash msgs sid st1 c curr st2 number st3 st4 where
      "block_hash st = Some hash" "0 \<le> mx_epoch mx (executor st)"
      "should_create_checkpoint mx gw (nat (mx_epoch mx (executor st))) st = Ok (Some (msgs, sid), st1)"
      "ipc_power_table gw st1 = Ok ((c, curr), st2)"
      "contract_call (gw_apply_finality_changes gw) st2 = Ok (number, st3)"
      "create_bottom_up_checkpoint gw \<lparr>cp_subnet_id = sid, cp_block_height = nat (mx_epoch mx (executor st)),
         cp_block_hash = hash, cp_next_configuration_number = number, cp_msgs = msgs\<rparr> curr
         (update_circ_supply (\<lambda>c. c - tokens_to_burn msgs) st3) = Ok ((), st4)"
      "number = 0 \<and> st' = st4 \<and> res = Some (\<lparr>cp_subnet_id = sid, cp_block_height = nat (mx_epoch mx (executor st)),
         cp_block_hash = hash, cp_next_configuration_number = number, cp_msgs = msgs\<rparr>, []) \<or>
       number \<noteq> 0 \<and> (\<exists>c' nxt. ipc_power_table gw st4 = Ok ((c', nxt), st') \<and>
         res = Some (\<lparr>cp_subnet_id = sid, cp_block_height = nat (mx_epoch mx (executor st)), cp_block_hash = hash,
         cp_next_configuration_number = number, cp_msgs = msgs\<rparr>, power_diff curr nxt))"
proof -
  from assms obtain hash where hash: "block_hash st = Some hash" and pos: "0 \<le> mx_epoch mx (executor st)"
    unfolding maybe_create_checkpoint_def by (auto split: if_splits option.splits)
  from assms hash pos obtain due st1 where
    due: "should_create_checkpoint mx gw (nat (mx_epoch mx (executor st))) st = Ok (due, st1)"
    unfolding maybe_create_checkpoint_def by (auto simp: outcome_simps Let_def)
  show thesis
  proof (cases due)
    case None
    with assms hash pos due none show ?thesis by (simp add: maybe_create_checkpoint_def)
  next
    case (Some ms)
    obtain msgs sid where ms: "ms = (msgs, sid)" by (cases ms)
    from assms hash pos due Some ms show ?thesis
      unfolding maybe_create_checkpoint_def
      by (auto simp: outcome_simps Let_def split: if_splits intro: some [OF hash pos])
  qed
qed

lemma tokens_sum: "fold (\<lambda>m total. total + env_value m) msgs t = t + sum_list (map env_value msgs)"
  by (induction msgs arbitrary: t) simp_all

lemma tokens_to_mint_sum: "tokens_to_mint msgs = sum_list (map env_value msgs)"
  by (simp add: tokens_to_mint_def tokens_sum)

lemma tokens_to_burn_sum: "tokens_to_burn msgs = sum_list (map env_value msgs)"
  by (simp add: tokens_to_burn_def tokens_sum)

lemma atto_per_power_pos: "0 < atto_per_power scale"
  by (simp add: atto_per_power_def)

lemma div_ceil_bounds:
  assumes "0 < b"
  shows "(div_ceil a b - 1) * b < a" "a \<le> div_ceil a b * b"
proof -
  define q r where "q = (- a) div b" and "r = (- a) mod b"
  have "- a = q * b + r" by (simp add: q_def r_def)
  moreover have "0 \<le> r" "r < b" using assms by (simp_all add: r_def)
  ultimately show "(div_ceil a b - 1) * b < a" "a \<le> div_ceil a b * b"
    unfolding div_ceil_def q_def [symmetric] by (simp_all add: algebra_simps)
qed

lemma power_diff_keys: "distinct (map val_key (power_diff c n))"
proof -
  let ?c = "into_power_map c" and ?n = "into_power_map n"
  have keys: "map (val_key \<circ> snd) (filter P (into_power_map q)) = map fst (filter P (into_power_map q))"
    for P and q :: "'a Validator list"
    by (auto simp: into_power_map_in dest: into_power_map_key)
  have "map val_key (power_diff c n) =
      map (val_key \<circ> snd) (filter (\<lambda>e. hm_get ?n (fst e) = None) ?c) @
      map (val_key \<circ> snd) (filter (\<lambda>e. hm_get ?c (fst e) \<noteq> Some (snd e)) ?n)"
    by (simp add: power_diff_def Let_def split_def comp_def)
  also have "\<dots> = map fst (filter (\<lambda>e. hm_get ?n (fst e) = None) ?c) @
      map fst (filter (\<lambda>e. hm_get ?c (fst e) \<noteq> Some (snd e)) ?n)"
    unfolding keys ..
  finally have split: "map val_key (power_diff c n) =
      map fst (filter (\<lambda>e. hm_get ?n (fst e) = None) ?c) @
      map fst (filter (\<lambda>e. hm_get ?c (fst e) \<noteq> Some (snd e)) ?n)" .
  have "k \<notin> fst ` set (filter (\<lambda>e. hm_get ?n (fst e) = None) ?c)"
    if "k \<in> fst ` set (filter (\<lambda>e. hm_get ?c (fst e) \<noteq> Some (snd e)) ?n)" for k
  proof -
    from that obtain v where "(k, v) \<in> set ?n" by auto
    then have "hm_get ?n k = Some v" by (simp only: into_power_map_in)
    then show ?thesis by auto
  qed
  moreover have "distinct (map fst (filter P (into_power_map q)))" for P and q :: "'a Validator list"
    by (rule distinct_map_filter [OF into_power_map_wf])
  ultimately show ?thesis unfolding split by (auto simp only: distinct_append set_map disjoint_iff)
qed

text \<open>A gateway whose contract keeps no state, used to evaluate the model: a subnet of depth one with a
  batch of one message in every fifth block and a single validator.\<close>

definition sample_envelope :: "int \<Rightarrow> nat IpcEnvelope" where
  "sample_envelope v =
     \<lparr>env_kind = Transfer, env_to = \<lparr>subnet_id = \<lparr>root = 1, children = [5]\<rparr>, raw_address = 7\<rparr>, env_value = v,
      env_from = \<lparr>subnet_id = \<lparr>root = 1, children = []\<rparr>, raw_address = 8\<rparr>, env_message = [], env_nonce = 0\<rparr>"

definition sample_gateway :: "(nat, nat, accounts) gateway" where
  "sample_gateway =
     \<lparr>gw_network_name = (\<lambda>s. Ok (\<lparr>root = 1, children = [5]\<rparr>, s)),
      gw_bottom_up_check_period = (\<lambda>s. Ok (10, s)),
      gw_bottom_up_msg_batch = (\<lambda>h s. Ok (if h mod 5 = 0 then (h, [sample_envelope 30]) else (0, []), s)),
      gw_create_bottom_up_checkpoint = (\<lambda>cp r p s. Ok ((), s)),
      gw_get_incomplete_checkpoints = (\<lambda>s. Ok ([], s)),
      gw_apply_finality_changes = (\<lambda>s. Ok (2, s)),
      gw_get_current_membership = (\<lambda>s. Ok ((2, [([3], 4000000000000000)]), s)),
      gw_commit_parent_finality = (\<lambda>f s. Ok ((True, \<lparr>fin_height = fin_height f - 2, fin_block_hash = []\<rparr>), s)),
      gw_store_validator_changes = (\<lambda>cs s. Ok ((), s)),
      gw_apply_cross_messages = (\<lambda>ms s. Ok (\<lparr>far_apply_ret = \<lparr>exit_code = EXIT_OK, return_data = [], gas_used = 0,
          failure_info = None, event_emitters = []\<rparr>, far_from = 0, far_to = 64, far_method_num = 0,
          far_gas_limit = 0, far_emitters = []\<rparr>, s)),
      gw_get_latest_parent_finality = (\<lambda>s. Ok (\<lparr>fin_height = 0, fin_block_hash = []\<rparr>, s)),
      gw_get_checkpoint_signatories = (\<lambda>h s. Ok ([], s)),
      gw_try_finality = Ok, gw_try_change = Ok, gw_try_envelope = Ok,
      gw_parse_key = (\<lambda>m. Some (length m)), gw_eth_address = (\<lambda>k. [k]), gw_hashes = sample_hash_lib\<rparr>"

section \<open>Properties\<close>

text \<open>C33: the difference of two power tables is what turns one into the other, and no more. It names a
  key at most once, and exactly the keys whose power differs, with their next power or 0 for those that
  leave the table.\<close>

theorem power_diff_exact:
  "distinct (map val_key (power_diff c n)) \<and>
   map_of (map (\<lambda>v. (val_key v, val_power v)) (power_diff c n)) k =
     (if power_in n k = power_in c k then None
      else Some (case power_in n k of Some p \<Rightarrow> p | None \<Rightarrow> 0))"
  by (rule conjI [OF power_diff_keys power_diff_map])

text \<open>Collateral is converted to power by rounding up, so that only zero collateral has zero power,
  and clipping at the largest 64-bit number.\<close>

theorem into_power_bounds:
  assumes "0 \<le> atto"
  shows "\<exists>p. into_power atto scale = (Ok p :: ('e, nat) outcome) \<and> p < U64 \<and> (p = 0 \<longleftrightarrow> atto = 0) \<and>
     (int p - 1) * atto_per_power scale < atto \<and>
     (p < U64 - 1 \<longrightarrow> atto \<le> int p * atto_per_power scale)"
proof -
  let ?A = "atto_per_power scale" and ?q = "div_ceil atto (atto_per_power scale)"
  note b = div_ceil_bounds [OF atto_per_power_pos [of scale], of atto]
  have q0: "0 \<le> ?q"
  proof (rule ccontr)
    assume "\<not> 0 \<le> ?q"
    then have "?q * ?A < 0" using atto_per_power_pos [of scale] by (intro mult_neg_pos) simp_all
    with b(2) assms show False by linarith
  qed
  have "?q = 0 \<Longrightarrow> atto \<le> 0" using b(2) by simp
  moreover have "atto = 0 \<Longrightarrow> ?q = 0" by (simp add: div_ceil_def)
  ultimately have zero: "?q = 0 \<longleftrightarrow> atto = 0" using assms by linarith
  define p where "p = nat (min ?q (int U64 - 1))"
  have U: "0 < int U64 - 1" by (simp add: U64_def)
  have p: "int p = min ?q (int U64 - 1)" using q0 U by (simp add: p_def)
  have "into_power atto scale = (Ok p :: ('e, nat) outcome)" using q0 U by (simp add: into_power_def p_def Let_def)
  moreover have "p < U64" using p U by linarith
  moreover have "p = 0 \<longleftrightarrow> atto = 0" using p zero U by linarith
  moreover have "(int p - 1) * ?A < atto"
  proof -
    have "(int p - 1) * ?A \<le> (?q - 1) * ?A"
      using p atto_per_power_pos [of scale] by (intro mult_right_mono) linarith+
    with b(1) show ?thesis by linarith
  qed
  moreover have "atto \<le> int p * ?A" if "p < U64 - 1"
  proof -
    have "int p = ?q" using that p by linarith
    with b(2) show ?thesis by simp
  qed
  ultimately show ?thesis by (intro exI [of _ p] conjI impI)
qed

theorem into_power_bounds_witness:
  "\<exists>p. into_power 1500000000000000 3 = (Ok p :: (unit, nat) outcome) \<and> (int p - 1) * 1000000000000000 < 1500000000000000 \<and> p \<noteq> 0"
  using into_power_bounds [of 1500000000000000 3, where 'e = unit]
  by (auto simp: atto_per_power_def TOKEN_DECIMALS_def)

text \<open>C22: top-down value enters the subnet once. Before the cross messages are applied, the balance of the
  gateway and the circulating supply have both grown by the value the messages carry; no other actor
  has changed.\<close>

theorem topdown_mint:
  assumes "state_tree_ok mx" "mx_get_actor mx GATEWAY_ACTOR_ID (executor st) = Ok (Some g)"
  shows "\<exists>st1. execute_topdown_msgs mx gw msgs st = apply_cross_messages gw msgs st1 \<and>
     (\<exists>g1. mx_get_actor mx GATEWAY_ACTOR_ID (executor st1) = Ok (Some g1) \<and>
        act_balance g1 = act_balance g + sum_list (map env_value msgs)) \<and>
     circ_supply (params st1) = circ_supply (params st) + sum_list (map env_value msgs) \<and>
     (sum_list (map env_value msgs) \<noteq> 0 \<longrightarrow> params_dirty st1) \<and>
     (\<forall>j. j \<noteq> GATEWAY_ACTOR_ID \<longrightarrow> mx_get_actor mx j (executor st1) = mx_get_actor mx j (executor st))"
proof (cases "tokens_to_mint msgs = 0")
  case True
  then have "sum_list (map env_value msgs) = 0" by (simp add: tokens_to_mint_sum)
  then show ?thesis
    by (intro exI [of _ st]) (use True assms(2) in \<open>simp add: execute_topdown_msgs_def\<close>)
next
  case False
  let ?t = "tokens_to_mint msgs"
  let ?st1 = "update_circ_supply (\<lambda>c. c + ?t) (st\<lparr>executor := mx_set_actor mx GATEWAY_ACTOR_ID
     (g\<lparr>act_balance := act_balance g + ?t\<rparr>) (executor st)\<rparr>)"
  have "execute_topdown_msgs mx gw msgs st = apply_cross_messages gw msgs ?st1"
    using False assms
    by (simp add: execute_topdown_msgs_def mint_to_gateway_def with_context_def
        state_tree_okD(3) [OF assms(1,2)] Let_def)
  then show ?thesis
    by (intro exI [of _ ?st1])
      (simp add: update_circ_supply_def update_params_def state_tree_okD(1) [OF assms(1)] tokens_to_mint_sum)
qed

theorem topdown_mint_witness:
  "\<exists>st1. execute_topdown_msgs sample_machine sample_gateway [sample_envelope 30, sample_envelope 12] sample_state =
       apply_cross_messages sample_gateway [sample_envelope 30, sample_envelope 12] st1 \<and>
     circ_supply (params st1) = 1042"
proof -
  let ?g = "\<lparr>act_code = 1, act_state = [], act_sequence = 0, act_balance = 500, act_delegated = None\<rparr> :: nat ActorState"
  have "mx_get_actor sample_machine GATEWAY_ACTOR_ID (executor sample_state) = Ok (Some ?g)"
    by (simp add: GATEWAY_ACTOR_ID_def sample_exec_defs)
  from topdown_mint [OF sample_machine_ok this, of sample_gateway "[sample_envelope 30, sample_envelope 12]"]
  show ?thesis by (auto simp: sample_envelope_def sample_exec_defs)
qed

text \<open>C29: bottom-up value leaves the subnet once. A checkpoint is made for the height and hash of the
  block, in a subnet that has a parent, and lowers the circulating supply by the value its messages
  carry; power updates come only with a new configuration. Without a checkpoint the parameters are
  unchanged.\<close>

theorem checkpoint_burn:
  assumes "maybe_create_checkpoint mx gw st = Ok (res, st')"
  shows "case res of
       None \<Rightarrow> params st' = params st \<and> params_dirty st' = params_dirty st
     | Some (cp, updates) \<Rightarrow>
         int (cp_block_height cp) = mx_epoch mx (executor st) \<and>
         block_hash st = Some (cp_block_hash cp) \<and> children (cp_subnet_id cp) \<noteq> [] \<and>
         circ_supply (params st') = circ_supply (params st) - sum_list (map env_value (cp_msgs cp)) \<and>
         params_dirty st' \<and> (cp_next_configuration_number cp = 0 \<longrightarrow> updates = [])"
  using assms
proof (cases rule: maybe_create_checkpointE)
  case none
  with should_create_checkpoint_outside [OF none(1)] show ?thesis by (simp add: outside_def)
next
  case (some hash msgs sid st1 c curr st2 number st3 st4)
  have "outside st4 = outside (update_circ_supply (\<lambda>c. c - tokens_to_burn msgs) st3)"
    by (rule create_checkpoint_outside [OF some(6)])
  moreover have "outside st3 = outside st"
    using should_create_checkpoint_outside [OF some(3)] ipc_power_table_outside [OF some(4)]
      contract_call_outside [OF some(5)] by simp
  moreover have "outside st' = outside st4" using some(7) by (auto dest: ipc_power_table_outside)
  ultimately have "circ_supply (params st') = circ_supply (params st) - tokens_to_burn msgs" "params_dirty st'"
    by (simp_all add: outside_def update_circ_supply_def update_params_def)
  with some(1,2,7) should_create_checkpoint_outside [OF some(3)] show ?thesis
    by (auto simp: tokens_to_burn_sum)
qed

theorem checkpoint_burn_witness:
  "\<exists>cp ups st'. maybe_create_checkpoint sample_machine sample_gateway (with_block_hash [9] sample_state) =
     Ok (Some (cp, ups), st') \<and> circ_supply (params st') = 970 \<and> cp_block_height cp = 5"
proof -
  let ?st = "with_block_hash [9] sample_state"
  have "\<exists>cp ups st'. maybe_create_checkpoint sample_machine sample_gateway ?st = Ok (Some (cp, ups), st') \<and>
      cp_msgs cp = [sample_envelope 30]"
    by (simp add: maybe_create_checkpoint_def should_create_checkpoint_def gateway_enabled_def contract_call_def
        ipc_power_table_def current_power_table_def into_power_def create_bottom_up_checkpoint_def sample_root_step Let_def
        with_context_def with_block_hash_def update_circ_supply_def update_params_def GATEWAY_ACTOR_ID_def
        sample_gateway_def sample_exec_defs div_ceil_def atto_per_power_def TOKEN_DECIMALS_def U64_def)
  then obtain cp ups st' where r: "maybe_create_checkpoint sample_machine sample_gateway ?st = Ok (Some (cp, ups), st')"
    and ms: "cp_msgs cp = [sample_envelope 30]" by blast
  from checkpoint_burn [OF r] ms r show ?thesis
    by (auto simp: sample_envelope_def with_block_hash_def sample_exec_defs)
qed

end
