(* ===== verification/Signed_Messages.thy ===== *)
theory Signed_Messages
  imports Fvm_Interpreter
begin

text \<open>
  Signed messages (\<open>fendermint/vm/message/src/signed.rs\<close>) and the interpreter that checks signatures
  before it passes messages on (\<open>fendermint/vm/interpreter/src/signed.rs\<close>).

  Hashing, signing, key recovery and the Ethereum form of a transaction are the record \<open>crypto\<close>; keys
  are the type parameter \<open>'sk\<close>. What the theorems rely on is named in the predicates
  \<open>signing_ok\<close> (a signature is recovered and verified with the key that made it) and \<open>cid_ok\<close> (content
  identifiers have a fixed length and no collisions).
\<close>

section \<open>Signed messages\<close>

record 'a Object =
  obj_key :: "nat list"
  obj_value :: "nat list"
  obj_address :: 'a

datatype SignatureType = Secp256k1 | BLS

record Signature =
  sig_type :: SignatureType
  sig_bytes :: "nat list"

record 'a SignedMessage =
  sm_message :: "'a FvmMessage"
  sm_object :: "'a Object option"
  sm_signature :: Signature

datatype Signable =
    Ethereum "nat list" "nat list"
  | Regular "nat list"
  | RegularFromEth "nat list" "nat list"

datatype SignedMessageError = IpldErr string | InvalidSignatureErr string | EthereumErr string

text \<open>The payload of an address, as far as the sources tell it apart.\<close>

datatype Payload = PID nat | PSecp | PDelegated nat "nat list" | POther

record ('a, 'sk) crypto =
  cr_payload :: "'a \<Rightarrow> Payload"
  cr_eam_addr :: 'a
  cr_invoke_contract :: nat
  cr_cid :: "'a FvmMessage \<Rightarrow> (string, nat list) outcome"
  cr_object_cid :: "'a Object \<Rightarrow> (string, nat list) outcome"
  cr_to_eth_tx :: "'a FvmMessage \<Rightarrow> nat \<Rightarrow> (string, nat list) outcome"
  cr_sighash :: "nat list \<Rightarrow> nat list"
  cr_signed_tx_hash :: "nat list \<Rightarrow> nat list \<Rightarrow> nat list"
  cr_to_eth_signature :: "Signature \<Rightarrow> (string, nat list) outcome"
  cr_eth_recover :: "nat list \<Rightarrow> nat list \<Rightarrow> (string, nat list) outcome"
  cr_blake2b :: "nat list \<Rightarrow> nat list"
  cr_sign :: "'sk \<Rightarrow> nat list \<Rightarrow> nat list"
  cr_recover_eth_address :: "nat list \<Rightarrow> nat list \<Rightarrow> (string, nat list) outcome"
  cr_verify :: "Signature \<Rightarrow> nat list \<Rightarrow> 'a \<Rightarrow> (string, unit) outcome"

definition EAM_ACTOR_ID :: nat where
  "EAM_ACTOR_ID = 10"

definition CREATE_EXTERNAL :: nat where
  "CREATE_EXTERNAL = 4"

definition SECP_SIG_LEN :: nat where
  "SECP_SIG_LEN = 65"

primrec le_bytes :: "nat \<Rightarrow> nat \<Rightarrow> nat list" where
  "le_bytes 0 x = []"
| "le_bytes (Suc n) x = x mod 256 # le_bytes n (x div 256)"

definition chain_id_bytes :: "nat \<Rightarrow> nat list" where
  "chain_id_bytes c = rev (le_bytes 8 c)"

definition maybe_eth_address :: "('a, 'sk) crypto \<Rightarrow> 'a \<Rightarrow> nat list option" where
  "maybe_eth_address cr addr =
     (case cr_payload cr addr of
        PDelegated namespace sub \<Rightarrow>
          if namespace = EAM_ACTOR_ID \<and> length sub = 20 then Some sub else None
      | _ \<Rightarrow> None)"

text \<open>\<open>to_eth_address\<close> without masked addresses: \<open>Ok None\<close> is the address of the EAM, an empty
  recipient.\<close>

definition to_eth_address_no_masked :: "('a, 'sk) crypto \<Rightarrow> 'a \<Rightarrow> (string, nat list option) outcome" where
  "to_eth_address_no_masked cr addr =
     (case cr_payload cr addr of
        PDelegated namespace sub \<Rightarrow>
          if namespace = EAM_ACTOR_ID \<and> length sub = 20 then Ok (Some sub)
          else Err ''not an Ethereum address''
      | PID i \<Rightarrow> if i = EAM_ACTOR_ID then Ok None else Err ''not an Ethereum address''
      | _ \<Rightarrow> Err ''not an Ethereum address'')"

fun is_ok :: "('e, 'x) outcome \<Rightarrow> bool" where
  "is_ok (Ok _) = True"
| "is_ok _ = False"

definition is_eth_addr_compat_no_masked :: "('a, 'sk) crypto \<Rightarrow> 'a \<Rightarrow> bool" where
  "is_eth_addr_compat_no_masked cr addr = is_ok (to_eth_address_no_masked cr addr)"

definition is_eth_addr_deleg :: "('a, 'sk) crypto \<Rightarrow> 'a \<Rightarrow> bool" where
  "is_eth_addr_deleg cr addr = (maybe_eth_address cr addr \<noteq> None)"

text \<open>The bytes of a regular signature: the identifier of the message, the chain and the identifier of
  the object, if there is one.\<close>

definition regular_data ::
  "('a, 'sk) crypto \<Rightarrow> 'a FvmMessage \<Rightarrow> 'a Object option \<Rightarrow> nat \<Rightarrow> (SignedMessageError, nat list) outcome" where
  "regular_data cr m ob chain_id =
     obind (map_err IpldErr (cr_cid cr m)) (\<lambda>c.
     case ob of
       None \<Rightarrow> Ok (c @ chain_id_bytes chain_id)
     | Some b \<Rightarrow>
         obind (map_err IpldErr (cr_object_cid cr b)) (\<lambda>d. Ok (c @ chain_id_bytes chain_id @ d)))"

definition signable ::
  "('a, 'sk) crypto \<Rightarrow> 'a FvmMessage \<Rightarrow> 'a Object option \<Rightarrow> nat \<Rightarrow> (SignedMessageError, Signable) outcome" where
  "signable cr m ob chain_id =
     (case maybe_eth_address cr (msg_from m) of
        Some addr \<Rightarrow>
          if is_eth_addr_compat_no_masked cr (msg_to m)
          then obind (map_err EthereumErr (cr_to_eth_tx cr m chain_id)) (\<lambda>tx. Ok (Ethereum (cr_sighash cr tx) addr))
          else obind (regular_data cr m ob chain_id) (\<lambda>d. Ok (RegularFromEth d addr))
      | None \<Rightarrow> obind (regular_data cr m ob chain_id) (\<lambda>d. Ok (Regular d)))"

definition sign_secp256k1 :: "('a, 'sk) crypto \<Rightarrow> 'sk \<Rightarrow> nat list \<Rightarrow> Signature" where
  "sign_secp256k1 cr sk h = \<lparr>sig_type = Secp256k1, sig_bytes = cr_sign cr sk h\<rparr>"

definition sign_regular :: "('a, 'sk) crypto \<Rightarrow> 'sk \<Rightarrow> nat list \<Rightarrow> Signature" where
  "sign_regular cr sk d = sign_secp256k1 cr sk (cr_blake2b cr d)"

definition sign_eth :: "('a, 'sk) crypto \<Rightarrow> 'sk \<Rightarrow> nat list \<Rightarrow> Signature" where
  "sign_eth cr sk h = sign_secp256k1 cr sk h"

definition new_secp256k1 ::
  "('a, 'sk) crypto \<Rightarrow> 'a FvmMessage \<Rightarrow> 'a Object option \<Rightarrow> 'sk \<Rightarrow> nat \<Rightarrow>
     (SignedMessageError, 'a SignedMessage) outcome" where
  "new_secp256k1 cr m ob sk chain_id =
     obind (signable cr m ob chain_id) (\<lambda>s.
     Ok \<lparr>sm_message = m, sm_object = ob,
         sm_signature = (case s of
            Ethereum h _ \<Rightarrow> sign_eth cr sk h
          | Regular d \<Rightarrow> sign_regular cr sk d
          | RegularFromEth d _ \<Rightarrow> sign_regular cr sk d)\<rparr>)"

text \<open>The recovered key is only used as an Ethereum address.\<close>

definition recover_secp256k1 :: "('a, 'sk) crypto \<Rightarrow> Signature \<Rightarrow> nat list \<Rightarrow> (string, nat list) outcome" where
  "recover_secp256k1 cr sig d =
     (if length (sig_bytes sig) \<noteq> SECP_SIG_LEN then Err ''Invalid Secp256k1 signature length''
      else cr_recover_eth_address cr (cr_blake2b cr d) (sig_bytes sig))"

definition verify_eth_method :: "('a, 'sk) crypto \<Rightarrow> 'a FvmMessage \<Rightarrow> (SignedMessageError, unit) outcome" where
  "verify_eth_method cr m =
     (if msg_to m = cr_eam_addr cr
      then if msg_method_num m \<noteq> CREATE_EXTERNAL
           then Err (EthereumErr ''The EAM actor can only be called with CreateExternal'') else Ok ()
      else if msg_method_num m \<noteq> cr_invoke_contract cr
           then Err (EthereumErr ''An EVM actor can only be called with InvokeContract'') else Ok ())"

definition verify_signature ::
  "('a, 'sk) crypto \<Rightarrow> 'a FvmMessage \<Rightarrow> 'a Object option \<Rightarrow> Signature \<Rightarrow> nat \<Rightarrow>
     (SignedMessageError, unit) outcome" where
  "verify_signature cr m ob sig chain_id =
     obind (signable cr m ob chain_id) (\<lambda>s.
     case s of
       Ethereum h from \<Rightarrow>
         obind (map_err EthereumErr (cr_to_eth_signature cr sig)) (\<lambda>es.
         obind (map_err EthereumErr (cr_eth_recover cr es h)) (\<lambda>rec.
         if rec = from then verify_eth_method cr m
         else Err (InvalidSignatureErr ''the Ethereum delegated address did not match'')))
     | Regular d \<Rightarrow> map_err InvalidSignatureErr (cr_verify cr sig d (msg_from m))
     | RegularFromEth d from \<Rightarrow>
         obind (map_err InvalidSignatureErr (recover_secp256k1 cr sig d)) (\<lambda>rec.
         if rec = from then Ok ()
         else Err (InvalidSignatureErr ''the Ethereum delegated address did not match'')))"

definition signed_message_verify ::
  "('a, 'sk) crypto \<Rightarrow> 'a SignedMessage \<Rightarrow> nat \<Rightarrow> (SignedMessageError, unit) outcome" where
  "signed_message_verify cr sm chain_id =
     verify_signature cr (sm_message sm) (sm_object sm) (sm_signature sm) chain_id"

text \<open>The hash that Ethereum tools expect.\<close>

definition signed_domain_hash ::
  "('a, 'sk) crypto \<Rightarrow> 'a SignedMessage \<Rightarrow> nat \<Rightarrow> (SignedMessageError, nat list option) outcome" where
  "signed_domain_hash cr sm chain_id =
     (if is_eth_addr_deleg cr (msg_from (sm_message sm)) \<and>
         is_eth_addr_compat_no_masked cr (msg_to (sm_message sm))
      then obind (map_err EthereumErr (cr_to_eth_tx cr (sm_message sm) chain_id)) (\<lambda>tx.
           obind (map_err EthereumErr (cr_to_eth_signature cr (sm_signature sm))) (\<lambda>es.
           Ok (Some (cr_signed_tx_hash cr tx es))))
      else Ok None)"

section \<open>The signature interpreter\<close>

record 'a SyntheticMessage =
  syn_message :: "'a FvmMessage"
  syn_orig_cid :: "nat list"
  syn_signature :: Signature

datatype 'a VerifiableMessage =
    VSigned "'a SignedMessage"
  | VSynthetic "'a SyntheticMessage"
  | VNotVerify "'a FvmMessage"

definition synthetic_verify ::
  "('a, 'sk) crypto \<Rightarrow> 'a SyntheticMessage \<Rightarrow> nat \<Rightarrow> (SignedMessageError, unit) outcome" where
  "synthetic_verify cr m chain_id =
     map_err InvalidSignatureErr
       (cr_verify cr (syn_signature m) (syn_orig_cid m @ chain_id_bytes chain_id) (msg_from (syn_message m)))"

fun vm_verify ::
  "('a, 'sk) crypto \<Rightarrow> 'a VerifiableMessage \<Rightarrow> nat \<Rightarrow> (SignedMessageError, unit) outcome" where
  "vm_verify cr (VSigned m) chain_id = signed_message_verify cr m chain_id"
| "vm_verify cr (VSynthetic m) chain_id = synthetic_verify cr m chain_id"
| "vm_verify cr (VNotVerify m) chain_id = Ok ()"

fun vm_into_message :: "'a VerifiableMessage \<Rightarrow> 'a FvmMessage" where
  "vm_into_message (VSigned m) = sm_message m"
| "vm_into_message (VSynthetic m) = syn_message m"
| "vm_into_message (VNotVerify m) = m"

fun vm_domain_hash ::
  "('a, 'sk) crypto \<Rightarrow> 'a VerifiableMessage \<Rightarrow> nat \<Rightarrow> (SignedMessageError, nat list option) outcome" where
  "vm_domain_hash cr (VSigned m) chain_id = signed_domain_hash cr m chain_id"
| "vm_domain_hash cr (VSynthetic m) chain_id = Ok None"
| "vm_domain_hash cr (VNotVerify m) chain_id = Ok None"

record 'a SignedMessageApplyRet =
  sar_fvm :: "'a FvmApplyRet"
  sar_domain_hash :: "nat list option"

fun error_text :: "SignedMessageError \<Rightarrow> string" where
  "error_text (IpldErr e) = e"
| "error_text (InvalidSignatureErr e) = e"
| "error_text (EthereumErr e) = e"

text \<open>The inner interpreter is the argument \<open>inner\<close>. A message with an invalid signature is not an
  error of the interpreter: it is answered with \<open>Inl\<close> the reason, on the state it came with.\<close>

definition signed_deliver ::
  "('a, 'sk) crypto \<Rightarrow> ('st \<Rightarrow> nat) \<Rightarrow>
     ('st \<Rightarrow> 'a FvmMessage \<Rightarrow> (string, 'st \<times> 'a FvmApplyRet) outcome) \<Rightarrow> 'st \<Rightarrow> 'a VerifiableMessage \<Rightarrow>
     (string, 'st \<times> (string + 'a SignedMessageApplyRet)) outcome" where
  "signed_deliver cr chain_id_of inner st msg =
     (let chain_id = chain_id_of st in
      case vm_verify cr msg chain_id of
        Err (IpldErr e) \<Rightarrow> Err e
      | Err (EthereumErr e) \<Rightarrow> Ok (st, Inl e)
      | Err (InvalidSignatureErr e) \<Rightarrow> Ok (st, Inl e)
      | Ok _ \<Rightarrow>
          obind (with_context ''failed to compute domain hash''
            (map_err error_text (vm_domain_hash cr msg chain_id))) (\<lambda>h.
          obind (inner st (vm_into_message msg)) (\<lambda>(st, ret).
          Ok (st, Inr \<lparr>sar_fvm = ret, sar_domain_hash = h\<rparr>)))
      | Retry \<Rightarrow> Retry
      | Panic \<Rightarrow> Panic)"

text \<open>A message checked again after a block is not verified again.\<close>

definition signed_check ::
  "('a, 'sk) crypto \<Rightarrow> ('st \<Rightarrow> nat) \<Rightarrow>
     ('st \<Rightarrow> 'a FvmMessage \<Rightarrow> (string, 'st \<times> 'a FvmCheckRet) outcome) \<Rightarrow> 'st \<Rightarrow> 'a VerifiableMessage \<Rightarrow>
     bool \<Rightarrow> (string, 'st \<times> (string + 'a FvmCheckRet)) outcome" where
  "signed_check cr chain_id_of inner st msg is_recheck =
     (case (if is_recheck then Ok () else vm_verify cr msg (chain_id_of st)) of
        Err (IpldErr e) \<Rightarrow> Err e
      | Err (EthereumErr e) \<Rightarrow> Ok (st, Inl e)
      | Err (InvalidSignatureErr e) \<Rightarrow> Ok (st, Inl e)
      | Ok _ \<Rightarrow> obind (inner st (vm_into_message msg)) (\<lambda>(st, ret). Ok (st, Inr ret))
      | Retry \<Rightarrow> Retry
      | Panic \<Rightarrow> Panic)"

section \<open>What the cryptography promises\<close>

definition signing_ok :: "('a, 'sk) crypto \<Rightarrow> 'sk \<Rightarrow> nat list \<Rightarrow> bool" where
  "signing_ok cr sk eth =
     (\<forall>h. length (cr_sign cr sk h) = SECP_SIG_LEN \<and>
        cr_recover_eth_address cr h (cr_sign cr sk h) = Ok eth \<and>
        (\<exists>es. cr_to_eth_signature cr \<lparr>sig_type = Secp256k1, sig_bytes = cr_sign cr sk h\<rparr> = Ok es \<and>
           cr_eth_recover cr es h = Ok eth))"

definition key_address :: "('a, 'sk) crypto \<Rightarrow> 'sk \<Rightarrow> 'a \<Rightarrow> bool" where
  "key_address cr sk addr = (\<forall>d. cr_verify cr (sign_regular cr sk d) d addr = Ok ())"

definition cid_ok :: "('a, 'sk) crypto \<Rightarrow> bool" where
  "cid_ok cr =
     (\<exists>n. (\<forall>m c. cr_cid cr m = Ok c \<longrightarrow> length c = n) \<and> (\<forall>b c. cr_object_cid cr b = Ok c \<longrightarrow> c \<noteq> []) \<and>
        (\<forall>m m' c. cr_cid cr m = Ok c \<and> cr_cid cr m' = Ok c \<longrightarrow> m = m') \<and>
        (\<forall>b b' c. cr_object_cid cr b = Ok c \<and> cr_object_cid cr b' = Ok c \<longrightarrow> b = b'))"

section \<open>Lemmas\<close>

primrec le_value :: "nat list \<Rightarrow> nat" where
  "le_value [] = 0"
| "le_value (b # bs) = b + 256 * le_value bs"

lemma le_bytes_length [simp]: "length (le_bytes n x) = n"
  by (induction n arbitrary: x) simp_all

lemma le_value_bytes: "le_value (le_bytes n x) = x mod 256 ^ n"
  by (induction n arbitrary: x) (simp_all add: mod_mult2_eq)

lemma chain_id_bytes_length [simp]: "length (chain_id_bytes c) = 8"
  by (simp add: chain_id_bytes_def)

lemma chain_id_bytes_inj:
  assumes "chain_id_bytes c = chain_id_bytes c'" "c < U64" "c' < U64"
  shows "c = c'"
proof -
  have "le_value (le_bytes 8 c) = le_value (le_bytes 8 c')"
    using assms(1) by (simp add: chain_id_bytes_def)
  with assms(2,3) show ?thesis by (simp add: le_value_bytes U64_def)
qed

lemma regular_data_inj:
  assumes ok: "cid_ok cr" and small: "c < U64" "c' < U64"
    and d: "regular_data cr m ob c = Ok d" "regular_data cr m' ob' c' = Ok d"
  shows "m = m' \<and> ob = ob' \<and> c = c'"
proof -
  obtain n where n: "\<And>m c. cr_cid cr m = Ok c \<Longrightarrow> length c = n"
      "\<And>b c. cr_object_cid cr b = Ok c \<Longrightarrow> c \<noteq> []"
      "\<And>m m' c. cr_cid cr m = Ok c \<Longrightarrow> cr_cid cr m' = Ok c \<Longrightarrow> m = m'"
      "\<And>b b' c. cr_object_cid cr b = Ok c \<Longrightarrow> cr_object_cid cr b' = Ok c \<Longrightarrow> b = b'"
    using ok unfolding cid_ok_def by blast
  define tail where "tail x x' = (case x of None \<Rightarrow> x' = [] | Some b \<Rightarrow> cr_object_cid cr b = Ok x')" for x x'
  have split: "\<exists>p q. d = p @ chain_id_bytes k @ q \<and> cr_cid cr x = Ok p \<and> tail y q"
    if "regular_data cr x y k = Ok d" for x y k
  proof (cases y)
    case None
    with that obtain p where "cr_cid cr x = Ok p" "d = p @ chain_id_bytes k @ []"
      by (auto simp: regular_data_def outcome_simps)
    with None show ?thesis unfolding tail_def by fastforce
  next
    case (Some b)
    with that show ?thesis unfolding tail_def by (auto simp: regular_data_def outcome_simps)
  qed
  from split [OF d(1)] split [OF d(2)] obtain p q p' q' where
    pq: "d = p @ chain_id_bytes c @ q" "cr_cid cr m = Ok p" "tail ob q" and
    pq': "d = p' @ chain_id_bytes c' @ q'" "cr_cid cr m' = Ok p'" "tail ob' q'" by blast
  have "length p = length p'" using n(1) pq(2) pq'(2) by metis
  with pq(1) pq'(1) have eq: "p = p'" "chain_id_bytes c = chain_id_bytes c'" "q = q'" by simp_all
  have "ob = ob'" using pq(3) pq'(3) eq(3) n(2,4) by (auto simp: tail_def split: option.splits)
  then show ?thesis using eq n(3) pq(2) pq'(2) chain_id_bytes_inj small by blast
qed

section \<open>Properties\<close>


text \<open>A regular signature covers the whole transaction. If two messages put the same bytes up for
  signing, they are the same message with the same object on the same chain, so a signature cannot be
  moved to another chain or another object.\<close>

theorem regular_signature_binds:
  assumes "cid_ok cr" "c < U64" "c' < U64"
    and "signable cr m ob c = Ok s" "signable cr m' ob' c' = Ok s" "\<forall>h a. s \<noteq> Ethereum h a"
  shows "m = m' \<and> ob = ob' \<and> c = c'"
proof -
  from assms(4,6) obtain d where "regular_data cr m ob c = Ok d" "s = Regular d \<or> (\<exists>a. s = RegularFromEth d a)"
    by (auto simp: signable_def outcome_simps split: option.splits if_splits)
  moreover from assms(5,6) obtain d' where "regular_data cr m' ob' c' = Ok d'" "s = Regular d' \<or> (\<exists>a. s = RegularFromEth d' a)"
    by (auto simp: signable_def outcome_simps split: option.splits if_splits)
  ultimately show ?thesis using regular_data_inj [OF assms(1-3)] by auto
qed

text \<open>An Ethereum signature does not cover the object. A message that verifies on the Ethereum scheme
  still verifies after its object is replaced, added or removed.\<close>

theorem eth_signature_ignores_object:
  assumes "is_eth_addr_deleg cr (msg_from (sm_message sm))"
    and "is_eth_addr_compat_no_masked cr (msg_to (sm_message sm))"
  shows "signed_message_verify cr (sm\<lparr>sm_object := ob\<rparr>) chain_id = signed_message_verify cr sm chain_id"
  using assms
  by (auto simp: signed_message_verify_def verify_signature_def signable_def is_eth_addr_deleg_def)

text \<open>Cryptography for evaluation: a key is its own address, a signature is the key padded to length,
  and content identifiers list the fields they identify.\<close>

definition sample_crypto :: "(nat, nat) crypto" where
  "sample_crypto =
     \<lparr>cr_payload = (\<lambda>a. if a = 10 then PID 10 else if a < 100 then POther else PDelegated 10 (replicate 20 a)),
      cr_eam_addr = 10, cr_invoke_contract = 3,
      cr_cid = (\<lambda>m. if m = sample_msg 7 4 then Ok [0] else if m = sample_msg 7 5 then Ok [1] else Err ''unknown''),
      cr_object_cid = (\<lambda>b. if b = \<lparr>obj_key = [1], obj_value = [2], obj_address = 7\<rparr> then Ok [2] else Err ''unknown''),
      cr_to_eth_tx = (\<lambda>m c. Ok [msg_sequence m, c]), cr_sighash = (\<lambda>tx. tx), cr_signed_tx_hash = (\<lambda>tx s. tx @ s),
      cr_to_eth_signature = (\<lambda>s. Ok (sig_bytes s)), cr_eth_recover = (\<lambda>s h. Ok (replicate 20 (hd s))),
      cr_blake2b = (\<lambda>d. d), cr_sign = (\<lambda>sk h. replicate 65 sk),
      cr_recover_eth_address = (\<lambda>h s. Ok (replicate 20 (hd s))),
      cr_verify = (\<lambda>s d a. if hd (sig_bytes s) = a then Ok () else Err ''bad signature'')\<rparr>"


theorem regular_signature_binds_witness:
  "signable sample_crypto (sample_msg 7 4) None 1 \<noteq> signable sample_crypto (sample_msg 7 4) None 2"
proof
  assume eq: "signable sample_crypto (sample_msg 7 4) None 1 = signable sample_crypto (sample_msg 7 4) None 2"
  have "\<exists>n. \<forall>m c. cr_cid sample_crypto m = Ok c \<longrightarrow> length c = n"
    by (intro exI [of _ 1]) (auto simp: sample_crypto_def split: if_splits)
  then have ok: "cid_ok sample_crypto"
    unfolding cid_ok_def by (auto simp: sample_crypto_def split: if_splits)
  obtain d where d: "signable sample_crypto (sample_msg 7 4) None 1 = Ok (Regular d)"
    by (simp add: signable_def regular_data_def maybe_eth_address_def sample_crypto_def sample_msg_def)
  show False using regular_signature_binds [OF ok _ _ d d [unfolded eq]] by (simp add: U64_def)
qed

theorem eth_signature_ignores_object_witness:
  "signed_message_verify sample_crypto
     \<lparr>sm_message = (sample_msg 120 4)\<lparr>msg_to := 10, msg_method_num := 4\<rparr>,
      sm_object = Some \<lparr>obj_key = [6], obj_value = [6], obj_address = 6\<rparr>,
      sm_signature = \<lparr>sig_type = Secp256k1, sig_bytes = replicate 65 120\<rparr>\<rparr> 1 = Ok ()"
proof -
  let ?sm = "\<lparr>sm_message = (sample_msg 120 4)\<lparr>msg_to := 10, msg_method_num := 4\<rparr>, sm_object = None,
      sm_signature = \<lparr>sig_type = Secp256k1, sig_bytes = replicate 65 120\<rparr>\<rparr>"
  have "is_eth_addr_deleg sample_crypto (msg_from (sm_message ?sm))"
    "is_eth_addr_compat_no_masked sample_crypto (msg_to (sm_message ?sm))"
    by (simp_all add: is_eth_addr_deleg_def maybe_eth_address_def is_eth_addr_compat_no_masked_def
        to_eth_address_no_masked_def EAM_ACTOR_ID_def sample_crypto_def sample_msg_def)
  note e = eth_signature_ignores_object [OF this, of "Some \<lparr>obj_key = [6], obj_value = [6], obj_address = 6\<rparr>" 1]
  have "signed_message_verify sample_crypto ?sm 1 = Ok ()"
    by (simp add: signed_message_verify_def verify_signature_def signable_def maybe_eth_address_def
        is_eth_addr_compat_no_masked_def to_eth_address_no_masked_def EAM_ACTOR_ID_def verify_eth_method_def
        CREATE_EXTERNAL_def sample_crypto_def sample_msg_def)
  with e show ?thesis by simp
qed

end
