(* ===== verification/Chain_Interpreter.thy ===== *)
theory Chain_Interpreter
  imports Parent_Syncer Resolve_Pools Signed_Messages
begin

text \<open>
  The chain interpreter (\<open>fendermint/vm/interpreter/src/chain.rs\<close>), which connects consensus with the
  parent finality provider, the vote tally and the resolution pools, and the messages it handles
  (\<open>fendermint/vm/message/src/chain.rs\<close>, \<open>ipc.rs\<close>).

  The environment is shared with the background tasks, so \<open>prepare\<close> and \<open>process\<close> return it next to
  their outcome; \<open>deliver\<close> changes it only where it succeeds. The inner interpreter is an argument;
  the node composes the chain interpreter with \<open>signed_deliver\<close> and \<open>fvm_deliver\<close>. The queries to the
  parent are the arguments \<open>qv\<close> and \<open>qm\<close>.
\<close>

section \<open>Messages\<close>

record 'a MsgCheckpoint =
  mc_subnet_id :: "'a SubnetID"
  mc_height :: int
  mc_next_validator_set_id :: nat
  mc_bottom_up_messages :: "nat list"

record 'a CertifiedMessage =
  cert_message :: "'a MsgCheckpoint"
  cert_certificate :: "('a \<times> Signature) list"

record 'a RelayedMessage =
  rel_message :: "'a CertifiedMessage"
  rel_relayer :: 'a
  rel_sequence :: nat
  rel_gas_limit :: nat
  rel_gas_fee_cap :: int
  rel_gas_premium :: int

record 'a SignedRelayedMessage =
  srm_message :: "'a RelayedMessage"
  srm_signature :: Signature

record ParentFinality =
  pf_height :: int
  pf_block_hash :: "nat list"

datatype 'a IpcMessage =
    BottomUpResolve "'a SignedRelayedMessage"
  | BottomUpExec "'a CertifiedMessage"
  | TopDownExec ParentFinality
  | ObjectResolved "'a Object"

datatype 'a ChainMessage = CSigned "'a SignedMessage" | CIpc "'a IpcMessage"

text \<open>\<open>as ChainEpoch\<close> and \<open>as u64\<close>: two's complement casts between \<open>u64\<close> and \<open>i64\<close>.\<close>

definition as_epoch :: "nat \<Rightarrow> int" where
  "as_epoch h = (if h < 2 ^ 63 then int h else int h - 2 ^ 64)"

definition as_height :: "int \<Rightarrow> nat" where
  "as_height e = nat (e mod 2 ^ 64)"

definition finality_new :: "ParentFinality \<Rightarrow> IPCParentFinality" where
  "finality_new p = \<lparr>fin_height = as_height (pf_height p), fin_block_hash = pf_block_hash p\<rparr>"

section \<open>The environment\<close>

datatype 'a CheckpointPoolItem = CkptBottomUp "'a CertifiedMessage"

fun checkpoint_key :: "'a CheckpointPoolItem \<Rightarrow> 'a SubnetID \<times> nat list" where
  "checkpoint_key (CkptBottomUp cp) =
     (mc_subnet_id (cert_message cp), mc_bottom_up_messages (cert_message cp))"

record 'a ObjectPoolItem =
  opi_obj :: "'a Object"

definition object_key :: "'a ObjectPoolItem \<Rightarrow> nat list" where
  "object_key item = obj_value (opi_obj item)"

record ('a, 'k) ChainEnv =
  checkpoint_pool :: "('a SubnetID \<times> nat list, 'a CheckpointPoolItem) ResolvePool"
  parent_finality_provider :: "'a CachedFinalityProvider Toggle"
  parent_finality_votes :: "('k, BlockHash, nat list) VoteTally"
  object_pool :: "(nat list, 'a ObjectPoolItem) IpfsPool"

datatype 'a ChainMessageApplyRet =
    RetSigned "string + 'a SignedMessageApplyRet"
  | RetIpc "'a FvmApplyRet"

section \<open>Synthetic messages and object queries\<close>

text \<open>\<open>relayed_cid\<close> is the content identifier of a relayed message.\<close>

definition relayed_bottom_up_ckpt_to_fvm ::
  "('a, 's) machine \<Rightarrow> ('a RelayedMessage \<Rightarrow> (string, nat list) outcome) \<Rightarrow> 'a SignedRelayedMessage \<Rightarrow>
     (string, 'a SyntheticMessage) outcome" where
  "relayed_bottom_up_ckpt_to_fvm mx relayed_cid r =
     (let rm = srm_message r;
          m = \<lparr>msg_version = 0, msg_from = rel_relayer rm, msg_to = mx_gateway_addr mx,
               msg_sequence = rel_sequence rm, msg_value = 0,
               msg_method_num = mx_method_hash mx ''InvokeEVM'', msg_params = [],
               msg_gas_limit = rel_gas_limit rm, msg_gas_fee_cap = rel_gas_fee_cap rm,
               msg_gas_premium = rel_gas_premium rm\<rparr> in
      obind (with_context ''failed to create syntetic message'' (relayed_cid rm)) (\<lambda>c.
      Ok \<lparr>syn_message = m, syn_orig_cid = c, syn_signature = srm_signature r\<rparr>))"

text \<open>An object that is no longer in its store counts as finalized.\<close>

definition is_object_finalized ::
  "('a, 's) machine \<Rightarrow> 's FvmExecState \<Rightarrow> 'a ObjectPoolItem \<Rightarrow> (string, bool \<times> 's FvmExecState) outcome" where
  "is_object_finalized mx st item =
     obind (mx_encode_get mx (obj_key (opi_obj item))) (\<lambda>ps.
     let msg = system_msg mx (obj_address (opi_obj item)) 0 (mx_block_gas_limit mx)
                 (mx_method_hash mx ''GetObject'') ps in
     obind (execute_implicit mx msg st) (\<lambda>((ret, _), st).
     obind (mx_decode_object mx (return_data ret)) (\<lambda>ob.
     Ok (case ob of Some resolved \<Rightarrow> resolved | None \<Rightarrow> True, st))))"

definition begin_transaction :: "('a, 's) machine \<Rightarrow> 's FvmExecState \<Rightarrow> 's FvmExecState" where
  "begin_transaction mx st = st\<lparr>executor := mx_begin_transaction mx (executor st)\<rparr>"

definition revert_transaction ::
  "('a, 's) machine \<Rightarrow> 's FvmExecState \<Rightarrow> (string, 's FvmExecState) outcome" where
  "revert_transaction mx st =
     (case mx_end_transaction mx True (executor st) of
        Ok ex \<Rightarrow> Ok (st\<lparr>executor := ex\<rparr>)
      | _ \<Rightarrow> Panic)"

section \<open>Proposals\<close>

definition choose_finality ::
  "IPCParentFinality option \<Rightarrow> (nat \<times> BlockHash) option \<Rightarrow> IPCParentFinality option" where
  "choose_finality parent quorum =
     (case (parent, quorum) of
        (Some p, Some (h, hash)) \<Rightarrow>
          Some (if fin_height p \<le> h then p else \<lparr>fin_height = h, fin_block_hash = hash\<rparr>)
      | _ \<Rightarrow> None)"

fun prepare_objects ::
  "('a, 's) machine \<Rightarrow> ('a, 'k) ChainEnv \<Rightarrow> 's FvmExecState \<Rightarrow> 'a ObjectPoolItem list \<Rightarrow>
     ('a, 'k) ChainEnv \<times> (string, 'a ChainMessage list \<times> 's FvmExecState) outcome" where
  "prepare_objects mx env st [] = (env, Ok ([], st))"
| "prepare_objects mx env st (item # rest) =
     (case is_object_finalized mx st item of
        Ok (True, st) \<Rightarrow>
          prepare_objects mx
            (env\<lparr>object_pool := snd (ipfs_pool_remove object_key item (object_pool env))\<rparr>) st rest
      | Ok (False, st) \<Rightarrow>
          (case find_object_quorum (object_key item) (parent_finality_votes env) of
             (is_globally_resolved, tally) \<Rightarrow>
               case prepare_objects mx (env\<lparr>parent_finality_votes := tally\<rparr>) st rest of
                 (env, r) \<Rightarrow>
                   (env, omap (\<lambda>(obs, st).
                      (if is_globally_resolved then CIpc (ObjectResolved (opi_obj item)) # obs else obs, st)) r))
      | Err e \<Rightarrow> (env, Err e)
      | Retry \<Rightarrow> (env, Retry)
      | Panic \<Rightarrow> (env, Panic))"

definition checkpoint_txs :: "('a, 'k) ChainEnv \<Rightarrow> 'a ChainMessage list" where
  "checkpoint_txs env =
     map (\<lambda>item. case item of CkptBottomUp cp \<Rightarrow> CIpc (BottomUpExec cp))
       (pool_collect_resolved (checkpoint_pool env))"

definition finality_tx :: "IPCParentFinality option \<Rightarrow> 'a ChainMessage list" where
  "finality_tx f =
     (case f of
        Some f \<Rightarrow> [CIpc (TopDownExec \<lparr>pf_height = as_epoch (fin_height f), pf_block_hash = fin_block_hash f\<rparr>)]
      | None \<Rightarrow> [])"

text \<open>The state is a throw-away copy; the environment is the shared one.\<close>

definition chain_prepare ::
  "('a, 's) machine \<Rightarrow> ('a, 'k) ChainEnv \<Rightarrow> 's FvmExecState \<Rightarrow> 'a ChainMessage list \<Rightarrow>
     ('a, 'k) ChainEnv \<times> (string, 'a ChainMessage list) outcome" where
  "chain_prepare mx env st msgs =
     (let ckpts = checkpoint_txs env;
          env = env\<lparr>parent_finality_votes := pause_votes_until_find_quorum (parent_finality_votes env)\<rparr> in
      case toggle_next_proposal (parent_finality_provider env) of
        Ok parent \<Rightarrow>
          (case find_quorum (parent_finality_votes env) of
             (quorum, tally) \<Rightarrow>
               let env = env\<lparr>parent_finality_votes := tally\<rparr>;
                   msgs = msgs @ finality_tx (choose_finality parent quorum) @ ckpts;
                   resolved = ipfs_pool_collect_resolved (object_pool env) in
               if resolved = [] then (env, Ok msgs)
               else case prepare_objects mx env (begin_transaction mx st) resolved of
                 (env, r) \<Rightarrow>
                   (env, obind r (\<lambda>(obs, st). obind (revert_transaction mx st) (\<lambda>_. Ok (msgs @ obs)))))
      | Err e \<Rightarrow> (env, Err e)
      | Retry \<Rightarrow> (env, Retry)
      | Panic \<Rightarrow> (env, Panic))"

definition checkpoint_resolved :: "('a, 'k) ChainEnv \<Rightarrow> 'a CheckpointPoolItem \<Rightarrow> bool" where
  "checkpoint_resolved env item =
     (case pool_get_status checkpoint_key item (checkpoint_pool env) of
        None \<Rightarrow> False
      | Some r \<Rightarrow> is_resolved (store (checkpoint_pool env) ! r))"

definition object_resolved :: "('a, 'k) ChainEnv \<Rightarrow> 'a ObjectPoolItem \<Rightarrow> bool" where
  "object_resolved env item =
     (case ipfs_pool_get_status object_key item (object_pool env) of
        None \<Rightarrow> False
      | Some r \<Rightarrow> ipfs_resolved (ipfs_store (object_pool env) ! r))"

text \<open>One message of a proposal: whether to go on, the environment and the state.\<close>

fun process_msg ::
  "('a, 's) machine \<Rightarrow> ('a, 'k) ChainEnv \<Rightarrow> 's FvmExecState \<Rightarrow> 'a ChainMessage \<Rightarrow>
     ('a, 'k) ChainEnv \<times> (string, bool \<times> 's FvmExecState) outcome" where
  "process_msg mx env st (CIpc (BottomUpExec cp)) = (env, Ok (checkpoint_resolved env (CkptBottomUp cp), st))"
| "process_msg mx env st (CIpc (TopDownExec p)) =
     (env, omap (\<lambda>b. (b, st)) (toggle_check_proposal (parent_finality_provider env) (finality_new p)))"
| "process_msg mx env st (CIpc (ObjectResolved ob)) =
     (let item = \<lparr>opi_obj = ob\<rparr> in
      case is_object_finalized mx (begin_transaction mx st) item of
        Ok (True, st) \<Rightarrow> (env, Ok (False, st))
      | Ok (False, st) \<Rightarrow>
          (case revert_transaction mx st of
             Ok st \<Rightarrow>
               (case find_object_quorum (obj_value ob) (parent_finality_votes env) of
                  (is_globally_resolved, tally) \<Rightarrow>
                    let env = env\<lparr>parent_finality_votes := tally\<rparr> in
                    if \<not> is_globally_resolved then (env, Ok (False, st))
                    else if object_resolved env item
                    then (env\<lparr>object_pool := snd (ipfs_pool_remove object_key item (object_pool env))\<rparr>, Ok (True, st))
                    else (env, Ok (True, st)))
           | Err e \<Rightarrow> (env, Err e)
           | Retry \<Rightarrow> (env, Retry)
           | Panic \<Rightarrow> (env, Panic))
      | Err e \<Rightarrow> (env, Err e)
      | Retry \<Rightarrow> (env, Retry)
      | Panic \<Rightarrow> (env, Panic))"
| "process_msg mx env st _ = (env, Ok (True, st))"

fun chain_process ::
  "('a, 's) machine \<Rightarrow> ('a, 'k) ChainEnv \<Rightarrow> 's FvmExecState \<Rightarrow> 'a ChainMessage list \<Rightarrow>
     ('a, 'k) ChainEnv \<times> (string, bool) outcome" where
  "chain_process mx env st [] = (env, Ok True)"
| "chain_process mx env st (msg # msgs) =
     (case process_msg mx env st msg of
        (env, Ok (True, st)) \<Rightarrow> chain_process mx env st msgs
      | (env, Ok (False, st)) \<Rightarrow> (env, Ok False)
      | (env, Err e) \<Rightarrow> (env, Err e)
      | (env, Retry) \<Rightarrow> (env, Retry)
      | (env, Panic) \<Rightarrow> (env, Panic))"

section \<open>Execution\<close>

text \<open>A top-down finality: it is committed to the gateway, and everything the parent did from the
  previously committed height up to the height before the new one is executed; last, provider and
  tally move to the new finality in one transaction.\<close>

definition deliver_topdown ::
  "('a, 's) machine \<Rightarrow> ('a, 'k, 's) gateway \<Rightarrow>
     (BlockHeight \<Rightarrow> nat \<Rightarrow> (string, 'a StakingChangeRequest list) outcome) \<Rightarrow>
     (BlockHeight \<Rightarrow> nat \<Rightarrow> (string, 'a IpcEnvelope list) outcome) \<Rightarrow>
     ('a, 'v) ChainEnv \<Rightarrow> 's FvmExecState \<Rightarrow> ParentFinality \<Rightarrow>
     (string, (('a, 'v) ChainEnv \<times> 's FvmExecState) \<times> 'a ChainMessageApplyRet) outcome" where
  "deliver_topdown mx gw qv qm env st p =
     (if \<not> toggle_is_enabled (parent_finality_provider env)
      then Err ''cannot execute IPC top-down message: parent provider disabled''
      else let finality = finality_new p; provider = parent_finality_provider env in
      obind (with_context ''failed to commit finality'' (topdown_commit_finality gw finality provider st))
        (\<lambda>((prev_height, prev_finality), st).
      let execution_fr = prev_height; execution_to = sub_u64 (fin_height finality) 1 in
      obind (with_context ''failed to fetch validator changes''
        (toggle_validator_changes_from qv provider execution_fr execution_to)) (\<lambda>validator_changes.
      obind (with_context ''failed to store validator changes''
        (store_validator_changes gw validator_changes st)) (\<lambda>(_, st).
      obind (with_context ''failed to fetch top down messages''
        (toggle_top_down_msgs_from qm provider execution_fr execution_to)) (\<lambda>msgs.
      obind (with_context ''failed to execute top down messages''
        (execute_topdown_msgs mx gw msgs st)) (\<lambda>(ret, st).
      Ok ((env\<lparr>parent_finality_provider := toggle_set_new_finality finality prev_finality provider,
              parent_finality_votes :=
                set_finalized (fin_height finality) (fin_block_hash finality) (parent_finality_votes env)\<rparr>,
           st), RetIpc ret)))))))"

definition deliver_object_resolved ::
  "('a, 's) machine \<Rightarrow> 's FvmExecState \<Rightarrow> 'a Object \<Rightarrow>
     (string, 's FvmExecState \<times> 'a ChainMessageApplyRet) outcome" where
  "deliver_object_resolved mx st ob =
     (let method_num = mx_method_hash mx ''ResolveObject''; gas_limit = mx_block_gas_limit mx in
      obind (mx_encode_resolve mx (obj_key ob) (obj_value ob)) (\<lambda>ps.
      obind (execute_implicit mx (system_msg mx (obj_address ob) 0 gas_limit method_num ps) st)
        (\<lambda>((ret, emitters), st).
      Ok (st, RetIpc \<lparr>far_apply_ret = ret, far_from = mx_system_addr mx, far_to = obj_address ob,
                      far_method_num = method_num, far_gas_limit = gas_limit, far_emitters = emitters\<rparr>))))"

text \<open>What the handlers call: the machine, the gateway, the identifiers of relayed messages, the queries
  to the parent, and the inner interpreter.\<close>

record ('a, 'k, 's) chain_context =
  cx_machine :: "('a, 's) machine"
  cx_gateway :: "('a, 'k, 's) gateway"
  cx_relayed_cid :: "'a RelayedMessage \<Rightarrow> (string, nat list) outcome"
  cx_validator_changes :: "BlockHeight \<Rightarrow> nat \<Rightarrow> (string, 'a StakingChangeRequest list) outcome"
  cx_top_down_msgs :: "BlockHeight \<Rightarrow> nat \<Rightarrow> (string, 'a IpcEnvelope list) outcome"
  cx_inner_deliver :: "'s FvmExecState \<Rightarrow> 'a VerifiableMessage \<Rightarrow>
     (string, 's FvmExecState \<times> (string + 'a SignedMessageApplyRet)) outcome"

fun chain_deliver ::
  "('a, 'k, 's) chain_context \<Rightarrow> ('a, 'v) ChainEnv \<Rightarrow> 's FvmExecState \<Rightarrow> 'a ChainMessage \<Rightarrow>
     (string, (('a, 'v) ChainEnv \<times> 's FvmExecState) \<times> 'a ChainMessageApplyRet) outcome" where
  "chain_deliver cx env st (CSigned m) =
     obind (cx_inner_deliver cx st (VSigned m)) (\<lambda>(st, ret).
     let env = (case (ret, sm_object m) of
                  (Inr _, Some ob) \<Rightarrow>
                    env\<lparr>object_pool := snd (ipfs_pool_add object_key \<lparr>opi_obj = ob\<rparr> (object_pool env))\<rparr>
                | _ \<Rightarrow> env) in
     Ok ((env, st), RetSigned ret))"
| "chain_deliver cx env st (CIpc (BottomUpResolve r)) =
     obind (with_context ''failed to syntesize FVM message''
       (relayed_bottom_up_ckpt_to_fvm (cx_machine cx) (cx_relayed_cid cx) r)) (\<lambda>smsg.
     obind (with_context ''failed to deliver bottom up checkpoint''
       (cx_inner_deliver cx st (VSynthetic smsg))) (\<lambda>(st, ret).
     let success = (case ret of Inr a \<Rightarrow> is_success (far_apply_ret (sar_fvm a)) | Inl _ \<Rightarrow> False);
         env = (if success
                then env\<lparr>checkpoint_pool :=
                  snd (pool_add checkpoint_key (CkptBottomUp (rel_message (srm_message r))) False (checkpoint_pool env))\<rparr>
                else env) in
     Ok ((env, st), RetSigned ret)))"
| "chain_deliver cx env st (CIpc (BottomUpExec cp)) = Panic"
| "chain_deliver cx env st (CIpc (TopDownExec p)) =
     deliver_topdown (cx_machine cx) (cx_gateway cx) (cx_validator_changes cx) (cx_top_down_msgs cx) env st p"
| "chain_deliver cx env st (CIpc (ObjectResolved ob)) =
     obind (deliver_object_resolved (cx_machine cx) st ob) (\<lambda>(st, ret). Ok ((env, st), ret))"

definition chain_begin ::
  "('st \<Rightarrow> (string, 'st \<times> 'o) outcome) \<Rightarrow> ('a, 'v) ChainEnv \<Rightarrow> 'st \<Rightarrow>
     (string, (('a, 'v) ChainEnv \<times> 'st) \<times> 'o) outcome" where
  "chain_begin inner env st = obind (inner st) (\<lambda>(st, out). Ok ((env, st), out))"

text \<open>The inner interpreter returns the power updates of the block and further output.\<close>

definition chain_end ::
  "('st \<Rightarrow> (string, 'st \<times> 'k Validator list \<times> 'o) outcome) \<Rightarrow> ('a, 'k) ChainEnv \<Rightarrow> 'st \<Rightarrow>
     (string, (('a, 'k) ChainEnv \<times> 'st) \<times> 'k Validator list \<times> 'o) outcome" where
  "chain_end inner env st =
     obind (inner st) (\<lambda>(st, updates, out).
     let env = (if updates \<noteq> []
                then env\<lparr>parent_finality_votes :=
                  update_power_table (map (\<lambda>v. (val_key v, val_power v)) updates) (parent_finality_votes env)\<rparr>
                else env) in
     Ok ((env, st), updates, out))"

section \<open>Mempool\<close>

datatype IllegalMessage = IllegalMessage

fun chain_check ::
  "('a, 's) machine \<Rightarrow> ('a RelayedMessage \<Rightarrow> (string, nat list) outcome) \<Rightarrow>
     ('st \<Rightarrow> 'a VerifiableMessage \<Rightarrow> bool \<Rightarrow> (string, 'st \<times> (string + 'a FvmCheckRet)) outcome) \<Rightarrow>
     'st \<Rightarrow> 'a ChainMessage \<Rightarrow> bool \<Rightarrow>
     (string, 'st \<times> (IllegalMessage + (string + 'a FvmCheckRet))) outcome" where
  "chain_check mx relayed_cid inner st (CSigned m) is_recheck =
     obind (inner st (VSigned m) is_recheck) (\<lambda>(st, ret). Ok (st, Inr ret))"
| "chain_check mx relayed_cid inner st (CIpc (BottomUpResolve r)) is_recheck =
     obind (with_context ''failed to syntesize FVM message''
       (relayed_bottom_up_ckpt_to_fvm mx relayed_cid r)) (\<lambda>m.
     obind (with_context ''failed to check bottom up resolve'' (inner st (VSynthetic m) is_recheck)) (\<lambda>(st, ret).
     Ok (st, Inr ret)))"
| "chain_check mx relayed_cid inner st (CIpc (TopDownExec p)) is_recheck = Ok (st, Inl IllegalMessage)"
| "chain_check mx relayed_cid inner st (CIpc (BottomUpExec cp)) is_recheck = Ok (st, Inl IllegalMessage)"
| "chain_check mx relayed_cid inner st (CIpc (ObjectResolved ob)) is_recheck = Ok (st, Inl IllegalMessage)"

section \<open>The node\<close>

definition node_context ::
  "('a, 'sk) crypto \<Rightarrow> ('a, 's) machine \<Rightarrow> ('a, 'k, 's) gateway \<Rightarrow> ('a RelayedMessage \<Rightarrow> (string, nat list) outcome) \<Rightarrow>
     (BlockHeight \<Rightarrow> nat \<Rightarrow> (string, 'a StakingChangeRequest list) outcome) \<Rightarrow>
     (BlockHeight \<Rightarrow> nat \<Rightarrow> (string, 'a IpcEnvelope list) outcome) \<Rightarrow> ('a, 'k, 's) chain_context" where
  "node_context cr mx gw relayed_cid qv qm =
     \<lparr>cx_machine = mx, cx_gateway = gw, cx_relayed_cid = relayed_cid, cx_validator_changes = qv,
      cx_top_down_msgs = qm,
      cx_inner_deliver = signed_deliver cr (\<lambda>st. mx_chain_id mx (executor st)) (fvm_deliver mx)\<rparr>"

definition node_end ::
  "('a, 's) machine \<Rightarrow> ('a, 'k, 's) fvm_interpreter \<Rightarrow> ('a, 'k) ChainEnv \<Rightarrow> 's FvmExecState \<Rightarrow>
     (string, (('a, 'k) ChainEnv \<times> 's FvmExecState) \<times> 'k Validator list \<times> 'a BottomUpCheckpoint list) outcome" where
  "node_end mx fi = chain_end (fvm_end mx fi)"

section \<open>Invariants\<close>

text \<open>With a parent, the provider and the tally agree as the syncer keeps them; the checkpoint pool is
  well-formed.\<close>

definition env_syncer :: "('a, 'k) ChainEnv \<Rightarrow> ('a, 'k, nat list) LotusParentSyncer" where
  "env_syncer env = syncer_new (config_new 0 0 0 0) (parent_finality_provider env) (parent_finality_votes env)"

definition chain_env_wf :: "('a, 'k) ChainEnv \<Rightarrow> bool" where
  "chain_env_wf env =
     ((parent_finality_provider env = None \<or> syncer_wf (env_syncer env)) \<and>
      2 * total_weight (parent_finality_votes env) < U64 \<and>
      pool_wf checkpoint_key (checkpoint_pool env))"

text \<open>What proposals rely on of the machine: reading an object succeeds and changes nothing, and
  reverting a transaction restores the state.\<close>

definition queries_ok ::
  "('a, 's) machine \<Rightarrow> 's FvmExecState \<Rightarrow> ('a ObjectPoolItem \<Rightarrow> bool) \<Rightarrow> bool" where
  "queries_ok mx st fin =
     ((\<forall>item. is_object_finalized mx (begin_transaction mx st) item = Ok (fin item, begin_transaction mx st)) \<and>
      revert_transaction mx (begin_transaction mx st) = Ok st)"

text \<open>Which messages a proposal may contain: checkpoints that are resolved, finalities that pass the
  check of the provider, objects with a quorum that are not finalized yet, and everything users send.\<close>

fun acceptable :: "('a ObjectPoolItem \<Rightarrow> bool) \<Rightarrow> ('a, 'k) ChainEnv \<Rightarrow> 'a ChainMessage \<Rightarrow> bool" where
  "acceptable fin env (CIpc (BottomUpExec cp)) = checkpoint_resolved env (CkptBottomUp cp)"
| "acceptable fin env (CIpc (TopDownExec p)) =
     (toggle_check_proposal (parent_finality_provider env) (finality_new p) = (Ok True :: (string, bool) outcome))"
| "acceptable fin env (CIpc (ObjectResolved ob)) =
     (\<not> fin \<lparr>opi_obj = ob\<rparr> \<and> fst (find_object_quorum (obj_value ob) (parent_finality_votes env)))"
| "acceptable fin env _ = True"

fun user_message :: "'a ChainMessage \<Rightarrow> bool" where
  "user_message (CSigned m) = True"
| "user_message (CIpc (BottomUpResolve r)) = True"
| "user_message _ = False"

text \<open>The part of the environment that proposals do not change.\<close>

definition env_core where
  "env_core env = (checkpoint_pool env, parent_finality_provider env,
     parent_finality_votes env\<lparr>pause_votes := False, pause_object_votes := False\<rparr>)"

section \<open>Lemmas\<close>

lemma as_height_epoch: "h < U64 \<Longrightarrow> as_height (as_epoch h) = h"
  by (auto simp: as_height_def as_epoch_def U64_def nat_mod_as_int)

lemma find_object_quorum_flags:
  "fst (find_object_quorum ob (t\<lparr>pause_votes := a, pause_object_votes := b\<rparr>)) = fst (find_object_quorum ob t)"
  by (simp add: find_object_quorum_def quorum_threshold_def Let_def split: option.splits prod.splits)

lemma find_quorum_flags: "fst (find_quorum (t\<lparr>pause_votes := a\<rparr>)) = fst (find_quorum t)"
  by (simp add: find_quorum_def)

lemma env_coreD:
  assumes "env_core env' = env_core env"
  shows "checkpoint_pool env' = checkpoint_pool env"
    "parent_finality_provider env' = parent_finality_provider env"
    "fst (find_object_quorum ob (parent_finality_votes env')) = fst (find_object_quorum ob (parent_finality_votes env))"
proof -
  let ?n = "\<lambda>e. parent_finality_votes e\<lparr>pause_votes := False, pause_object_votes := False\<rparr>"
  have "fst (find_object_quorum ob (?n env')) = fst (find_object_quorum ob (?n env))"
    using assms by (simp add: env_core_def)
  then show "fst (find_object_quorum ob (parent_finality_votes env')) =
      fst (find_object_quorum ob (parent_finality_votes env))"
    by (simp only: find_object_quorum_flags)
qed (use assms in \<open>simp_all add: env_core_def\<close>)

lemma env_core_simps [simp]:
  "env_core (env\<lparr>object_pool := op\<rparr>) = env_core env"
  "env_core (env\<lparr>parent_finality_votes := snd (find_object_quorum ob (parent_finality_votes env))\<rparr>) = env_core env"
  by (simp_all add: env_core_def find_object_quorum_snd)

lemma acceptable_core:
  assumes "env_core env' = env_core env"
  shows "acceptable fin env' m = acceptable fin env m"
proof -
  have "checkpoint_resolved env' item = checkpoint_resolved env item" for item
    unfolding checkpoint_resolved_def env_coreD(1) [OF assms] ..
  then show ?thesis
    by (cases "(fin, env, m)" rule: acceptable.cases) (simp_all add: env_coreD [OF assms])
qed

lemma user_acceptable: "user_message m \<Longrightarrow> acceptable fin env m"
  by (cases m rule: user_message.cases) simp_all

lemma chain_env_toggle: "chain_env_wf env \<Longrightarrow> toggle_wf (parent_finality_provider env)"
  by (auto simp: chain_env_wf_def toggle_wf_def syncer_wf_def env_syncer_def syncer_new_def split: option.splits)

lemma process_msg_exact:
  assumes q: "queries_ok mx st fin" and wf: "toggle_wf (parent_finality_provider env)"
  shows "\<exists>env' st'. process_msg mx env st m = (env', Ok (acceptable fin env m, st')) \<and>
     (acceptable fin env m \<longrightarrow> st' = st) \<and> env_core env' = env_core env"
proof (cases "(fin, env, m)" rule: acceptable.cases)
  case (2 fin env p)
  then obtain b where "toggle_check_proposal (parent_finality_provider env) (finality_new p) =
      (Ok b :: (string, bool) outcome)"
    using tg.check_total wf by blast
  with 2 show ?thesis by simp
next
  case (3 fin env ob)
  then have "is_object_finalized mx (begin_transaction mx st) \<lparr>opi_obj = ob\<rparr> =
      Ok (fin \<lparr>opi_obj = ob\<rparr>, begin_transaction mx st)" "revert_transaction mx (begin_transaction mx st) = Ok st"
    using q by (simp_all add: queries_ok_def)
  note query = this
  obtain b t where bt: "find_object_quorum (obj_value ob) (parent_finality_votes env) = (b, t)" by force
  have core: "env_core (env\<lparr>parent_finality_votes := t\<rparr>) = env_core env"
    using env_core_simps(2) [where env = env and ob = "obj_value ob"] bt by simp
  then have core': "env_core (env\<lparr>parent_finality_votes := t, object_pool := op\<rparr>) = env_core env" for op
    by simp
  show ?thesis
    using 3 query bt core core'
    by (cases "fin \<lparr>opi_obj = ob\<rparr>"; cases b;
        cases "object_resolved (env\<lparr>parent_finality_votes := t\<rparr>) \<lparr>opi_obj = ob\<rparr>") (simp_all add: Let_def)
qed simp_all

lemma chain_process_exact:
  assumes q: "queries_ok mx st fin"
  shows "toggle_wf (parent_finality_provider env) \<Longrightarrow>
     \<exists>env'. chain_process mx env st ms = (env', Ok (\<forall>m \<in> set ms. acceptable fin env m)) \<and>
       env_core env' = env_core env"
proof (induction ms arbitrary: env)
  case (Cons m ms)
  obtain env1 st1 where 1: "process_msg mx env st m = (env1, Ok (acceptable fin env m, st1))"
    "acceptable fin env m \<longrightarrow> st1 = st" and core: "env_core env1 = env_core env"
    using process_msg_exact [OF q Cons.prems] by blast
  show ?case
  proof (cases "acceptable fin env m")
    case True
    have "toggle_wf (parent_finality_provider env1)" using Cons.prems env_coreD(2) [OF core] by simp
    from Cons.IH [OF this] True 1 core show ?thesis by (auto simp: acceptable_core [OF core])
  next
    case False
    with 1 core show ?thesis by auto
  qed
qed simp

lemma prepare_objects_acceptable:
  assumes q: "\<And>item. is_object_finalized mx st item = Ok (fin item, st)"
  shows "\<exists>env' obs. prepare_objects mx env st its = (env', Ok (obs, st)) \<and> env_core env' = env_core env \<and>
     (\<forall>m \<in> set obs. acceptable fin env m)"
proof (induction its arbitrary: env)
  case (Cons item its)
  show ?case
  proof (cases "fin item")
    case True
    let ?env = "env\<lparr>object_pool := snd (ipfs_pool_remove object_key item (object_pool env))\<rparr>"
    have core: "env_core ?env = env_core env" by simp
    from Cons.IH [of ?env] True q [of item] show ?thesis by (auto simp: acceptable_core [OF core])
  next
    case False
    obtain b t where bt: "find_object_quorum (object_key item) (parent_finality_votes env) = (b, t)" by force
    let ?env = "env\<lparr>parent_finality_votes := t\<rparr>"
    have core: "env_core ?env = env_core env"
      using env_core_simps(2) [where env = env and ob = "object_key item"] bt by simp
    obtain env' obs where IH: "prepare_objects mx ?env st its = (env', Ok (obs, st))" "env_core env' = env_core env"
      "\<forall>m \<in> set obs. acceptable fin env m"
      using Cons.IH [of ?env] by (auto simp: acceptable_core [OF core] core)
    moreover have "acceptable fin env (CIpc (ObjectResolved (opi_obj item)))" if b
    proof -
      have "\<not> fin \<lparr>opi_obj = opi_obj item\<rparr>" using False by (cases item) simp
      then show ?thesis using bt that by (simp add: object_key_def)
    qed
    ultimately show ?thesis using False q [of item] bt by simp
  qed
qed simp

lemma checkpoint_txs_acceptable:
  assumes "chain_env_wf env" "m \<in> set (checkpoint_txs env)"
  shows "acceptable fin env m"
proof -
  have wf: "pool_wf checkpoint_key (checkpoint_pool env)" using assms(1) by (simp add: chain_env_wf_def)
  obtain cp where cp: "CkptBottomUp cp \<in> set (pool_collect_resolved (checkpoint_pool env))"
    "m = CIpc (BottomUpExec cp)"
    using assms(2) by (auto simp: checkpoint_txs_def split: CheckpointPoolItem.splits)
  then show ?thesis
    using pool_collect_view [OF wf, of "CkptBottomUp cp"]
    by (auto simp: checkpoint_resolved_def pool_get_status_def pool_view_def)
qed

lemma chosen_finality_checked:
  assumes wf: "chain_env_wf env"
    and parent: "toggle_next_proposal (parent_finality_provider env) = (Ok parent :: (string, _) outcome)"
    and f: "choose_finality parent (fst (find_quorum (parent_finality_votes env))) = Some f"
  shows "toggle_check_proposal (parent_finality_provider env) f = (Ok True :: (string, _) outcome)"
proof -
  from f obtain p h v where p: "parent = Some p" "fst (find_quorum (parent_finality_votes env)) = Some (h, v)"
    "f = (if fin_height p \<le> h then p else \<lparr>fin_height = h, fin_block_hash = v\<rparr>)"
    by (auto simp: choose_finality_def split: option.splits)
  have "toggle_check_proposal (parent_finality_provider env) p = (Ok True :: (string, _) outcome)"
    by (rule tg.next_checked [OF chain_env_toggle [OF wf]]) (use parent p(1) in simp)
  moreover have "syncer_wf (env_syncer env)"
    using wf parent p(1) by (auto simp: chain_env_wf_def toggle_next_proposal_def perform_or_else_def)
  then have "toggle_check_proposal (parent_finality_provider env) \<lparr>fin_height = h, fin_block_hash = v\<rparr> =
      (Ok True :: (string, _) outcome)"
    using quorum_checked [of "env_syncer env" h v] wf p(2)
    by (simp add: env_syncer_def syncer_new_def chain_env_wf_def)
  ultimately show ?thesis using p(3) by simp
qed

lemma checked_height:
  assumes "toggle_wf t" "toggle_check_proposal t f = (Ok True :: (string, _) outcome)"
  shows "fin_height f < U64"
  using assms proposal_ok_height
  by (auto simp: toggle_defs fwn_check_proposal_conv split: option.splits)

lemma finality_tx_acceptable:
  assumes wf: "chain_env_wf env"
    and parent: "toggle_next_proposal (parent_finality_provider env) = (Ok parent :: (string, _) outcome)"
    and m: "m \<in> set (finality_tx (choose_finality parent (fst (find_quorum (parent_finality_votes env)))))"
  shows "acceptable fin env m"
proof -
  from m obtain f where f: "choose_finality parent (fst (find_quorum (parent_finality_votes env))) = Some f"
    "m = CIpc (TopDownExec \<lparr>pf_height = as_epoch (fin_height f), pf_block_hash = fin_block_hash f\<rparr>)"
    by (cases "choose_finality parent (fst (find_quorum (parent_finality_votes env)))")
      (auto simp: finality_tx_def)
  note ok = chosen_finality_checked [OF wf parent f(1)]
  have "finality_new \<lparr>pf_height = as_epoch (fin_height f), pf_block_hash = fin_block_hash f\<rparr> = f"
    using checked_height [OF chain_env_toggle [OF wf] ok] by (simp add: finality_new_def as_height_epoch)
  with ok f(2) show ?thesis by simp
qed

lemma chain_prepare_acceptable:
  assumes wf: "chain_env_wf env" and q: "queries_ok mx st fin"
  shows "\<exists>env' new. chain_prepare mx env st msgs = (env', Ok (msgs @ new)) \<and> env_core env' = env_core env \<and>
     (\<forall>m \<in> set new. acceptable fin env m) \<and> set (checkpoint_txs env) \<subseteq> set new"
proof -
  obtain parent where parent: "toggle_next_proposal (parent_finality_provider env) = (Ok parent :: (string, _) outcome)"
    using tg.next_total [OF chain_env_toggle [OF wf]] by blast
  let ?env = "env\<lparr>parent_finality_votes := parent_finality_votes env\<lparr>pause_votes := False\<rparr>\<rparr>"
  have votes: "find_quorum (parent_finality_votes env\<lparr>pause_votes := True\<rparr>) =
      (fst (find_quorum (parent_finality_votes env)), parent_finality_votes env\<lparr>pause_votes := False\<rparr>)"
    by (rule prod_eqI) (simp_all add: find_quorum_flags find_quorum_snd)
  define new where "new = finality_tx (choose_finality parent (fst (find_quorum (parent_finality_votes env)))) @
      checkpoint_txs env"
  have core: "env_core ?env = env_core env" by (simp add: env_core_def)
  have new: "\<forall>m \<in> set new. acceptable fin env m"
    using finality_tx_acceptable [OF wf parent] checkpoint_txs_acceptable [OF wf] by (auto simp: new_def)
  obtain env' obs where obs: "prepare_objects mx ?env (begin_transaction mx st)
      (ipfs_pool_collect_resolved (object_pool env)) = (env', Ok (obs, begin_transaction mx st))"
    "env_core env' = env_core env" "\<forall>m \<in> set obs. acceptable fin env m"
    using prepare_objects_acceptable [of mx "begin_transaction mx st" fin ?env
        "ipfs_pool_collect_resolved (object_pool env)"] q
    by (auto simp: queries_ok_def acceptable_core [OF core] core)
  have "chain_prepare mx env st msgs =
      (if ipfs_pool_collect_resolved (object_pool env) = [] then (?env, Ok (msgs @ new))
       else (env', Ok (msgs @ new @ obs)))"
    using parent votes obs(1) q
    by (simp add: chain_prepare_def pause_votes_until_find_quorum_def Let_def new_def queries_ok_def)
  moreover have "set (checkpoint_txs env) \<subseteq> set new" by (simp add: new_def)
  ultimately show ?thesis
    using core new obs(2,3) by (cases "ipfs_pool_collect_resolved (object_pool env) = []") auto
qed

section \<open>Lemmas on top-down execution\<close>

text \<open>What the gateway contract promises, observed through three functions of its state: the finality
  committed last, the cross messages applied and the validator changes stored so far. Converting to the
  contract's types loses nothing, and minting touches none of the three.\<close>

definition gateway_records ::
  "('a, 's) machine \<Rightarrow> ('a, 'k, 's) gateway \<Rightarrow> ('s \<Rightarrow> IPCParentFinality option) \<Rightarrow> ('s \<Rightarrow> 'a IpcEnvelope list) \<Rightarrow>
     ('s \<Rightarrow> 'a StakingChangeRequest list) \<Rightarrow> bool" where
  "gateway_records mx gw fin_of log changes =
     ((\<forall>f s b g s'. gw_commit_parent_finality gw f s = Ok ((b, g), s') \<longrightarrow>
         (case fin_of s of None \<Rightarrow> \<not> b | Some c \<Rightarrow> b \<and> g = c) \<and>
         fin_of s' = Some f \<and> log s' = log s \<and> changes s' = changes s) \<and>
      (\<forall>cs s s'. gw_store_validator_changes gw cs s = Ok ((), s') \<longrightarrow>
         fin_of s' = fin_of s \<and> log s' = log s \<and> changes s' = changes s @ cs) \<and>
      (\<forall>ms s r s'. gw_apply_cross_messages gw ms s = Ok (r, s') \<longrightarrow>
         fin_of s' = fin_of s \<and> log s' = log s @ ms \<and> changes s' = changes s) \<and>
      (\<forall>i f s s'. mx_mutate_actor mx i f s = Ok s' \<longrightarrow>
         fin_of s' = fin_of s \<and> log s' = log s \<and> changes s' = changes s) \<and>
      (\<forall>f g. gw_try_finality gw f = Ok g \<longrightarrow> g = f) \<and> (\<forall>m n. gw_try_envelope gw m = Ok n \<longrightarrow> n = m) \<and>
      (\<forall>c d. gw_try_change gw c = Ok d \<longrightarrow> d = c))"

text \<open>The parent as the provider sees it: whatever its cache holds and its client answers for a height are
  the messages and changes of that height.\<close>

definition provider_serves ::
  "(BlockHeight \<Rightarrow> nat \<Rightarrow> (string, 'a StakingChangeRequest list) outcome) \<Rightarrow>
     (BlockHeight \<Rightarrow> nat \<Rightarrow> (string, 'a IpcEnvelope list) outcome) \<Rightarrow>
     (BlockHeight \<Rightarrow> 'a StakingChangeRequest list) \<Rightarrow> (BlockHeight \<Rightarrow> 'a IpcEnvelope list) \<Rightarrow>
     'a CachedFinalityProvider \<Rightarrow> bool" where
  "provider_serves qv qm cs ms p =
     (provider_wf (cfp_inner p) \<and>
      (\<forall>h r. handle_null_round (retry_query (qv h) (exponential_retry_limit (cfp_config p)) 0) [] = Ok r \<longrightarrow> r = cs h) \<and>
      (\<forall>h r. handle_null_round (retry_query (qm h) (exponential_retry_limit (cfp_config p)) 0) [] = Ok r \<longrightarrow> r = ms h) \<and>
      (\<forall>h b. cache_map (cached_data (cfp_inner p)) h = Some b \<longrightarrow>
         (case b of None \<Rightarrow> [] | Some v \<Rightarrow> payload_validator_changes v) = cs h \<and>
         (case b of None \<Rightarrow> [] | Some v \<Rightarrow> payload_topdown_cross_msgs v) = ms h))"

lemma provider_serves_commit:
  assumes "provider_serves qv qm cs ms p" "fin_height f < U64"
  shows "provider_serves qv qm cs ms (cfp_set_new_finality f prev p)"
  using assms set_new_finality_keeps [of "cfp_inner p" f prev]
  by (auto simp: provider_serves_def cfp_set_new_finality_def split: if_splits)

lemma collect_heights_served:
  assumes "\<And>h r. get h = Ok r \<Longrightarrow> r = c h"
  shows "collect_heights get hs acc = Ok r \<Longrightarrow> r = acc @ concat (map c hs)"
proof (induction hs arbitrary: acc)
  case (Cons h hs)
  then obtain x where x: "get h = Ok x" "collect_heights get hs (acc @ x) = Ok r"
    by (auto simp: outcome_simps)
  show ?case using Cons.IH [OF x(2)] assms [OF x(1)] by simp
qed simp

lemma try_all_same: "(\<And>x y. f x = Ok y \<Longrightarrow> y = x) \<Longrightarrow> try_all f xs = Ok ys \<Longrightarrow> ys = xs"
  by (induction xs arbitrary: ys) (auto simp: outcome_simps)
lemma provider_serves_ranges:
  assumes p: "provider_serves qv qm cs ms p"
  shows "toggle_validator_changes_from qv (Some p) a b = Ok r \<Longrightarrow> r = concat (map cs [a..<Suc b])"
    and "toggle_top_down_msgs_from qm (Some p) a b = Ok r' \<Longrightarrow> r' = concat (map ms [a..<Suc b])"
proof -
  have wf: "provider_wf (cfp_inner p)" using p by (simp add: provider_serves_def)
  have v: "cfp_validator_changes qv p h = Ok x \<Longrightarrow> x = cs h" for h x
    using p by (cases "cache_map (cached_data (cfp_inner p)) h")
      (auto simp: cfp_validator_changes_def fwn_validator_changes_def handle_null_block_conv [OF wf] provider_serves_def)
  have m: "cfp_top_down_msgs qm p h = Ok x \<Longrightarrow> x = ms h" for h x
    using p by (cases "cache_map (cached_data (cfp_inner p)) h")
      (auto simp: cfp_top_down_msgs_def fwn_top_down_msgs_def handle_null_block_conv [OF wf] provider_serves_def)
  have "collect_heights (cfp_validator_changes qv p) hs [] = Ok r \<Longrightarrow> r = concat (map cs hs)" for hs r
    using collect_heights_served [of "cfp_validator_changes qv p" cs hs "[]" r] v by simp
  then show "toggle_validator_changes_from qv (Some p) a b = Ok r \<Longrightarrow> r = concat (map cs [a..<Suc b])"
    by (simp only: toggle_validator_changes_from_def cfp_validator_changes_from_def option.case)
  have "collect_heights (cfp_top_down_msgs qm p) hs [] = Ok r \<Longrightarrow> r = concat (map ms hs)" for hs r
    using collect_heights_served [of "cfp_top_down_msgs qm p" ms hs "[]" r] m by simp
  then show "toggle_top_down_msgs_from qm (Some p) a b = Ok r' \<Longrightarrow> r' = concat (map ms [a..<Suc b])"
    by (simp only: toggle_top_down_msgs_from_def cfp_top_down_msgs_from_def option.case)
qed

text \<open>One delivery: the window runs from the finality the gateway has (or the genesis epoch) up to the
  height before the new one.\<close>

definition window_start :: "('s \<Rightarrow> IPCParentFinality option) \<Rightarrow> 'a CachedFinalityProvider \<Rightarrow> 's FvmExecState \<Rightarrow> nat" where
  "window_start fin_of p st =
     (case fin_of (executor st) of Some c \<Rightarrow> fin_height c | None \<Rightarrow> fwn_genesis_epoch (cfp_inner p))"

lemma gateway_recordsD:
  assumes "gateway_records mx gw fin_of log changes"
  shows "gw_commit_parent_finality gw f s = Ok ((b, g), s') \<Longrightarrow>
      (case fin_of s of None \<Rightarrow> \<not> b | Some c \<Rightarrow> b \<and> g = c) \<and>
      fin_of s' = Some f \<and> log s' = log s \<and> changes s' = changes s"
    and "gw_store_validator_changes gw vc s = Ok ((), s') \<Longrightarrow>
      fin_of s' = fin_of s \<and> log s' = log s \<and> changes s' = changes s @ vc"
    and "gw_apply_cross_messages gw tm s = Ok (r, s') \<Longrightarrow>
      fin_of s' = fin_of s \<and> log s' = log s @ tm \<and> changes s' = changes s"
    and "mx_mutate_actor mx i h s = Ok s' \<Longrightarrow>
      fin_of s' = fin_of s \<and> log s' = log s \<and> changes s' = changes s"
    and "gw_try_finality gw f = Ok g \<Longrightarrow> g = f" and "gw_try_envelope gw m = Ok n \<Longrightarrow> n = m"
    and "gw_try_change gw c = Ok d \<Longrightarrow> d = c"
  using assms by (auto simp only: gateway_records_def)

lemma contract_call_Ok: "contract_call f st = Ok (x, st') \<Longrightarrow> f (executor st) = Ok (x, executor st')"
  by (auto simp: contract_call_def outcome_simps)

lemma commit_recorded:
  assumes gw: "gateway_records mx gw fin_of log changes"
    and c: "topdown_commit_finality gw f (Some p) st = Ok ((prev, pfin), st1)"
  shows "prev = window_start fin_of p st \<and> fin_of (executor st1) = Some f \<and>
     log (executor st1) = log (executor st) \<and> changes (executor st1) = changes (executor st)"
proof -
  from c obtain f' b g where f': "gw_try_finality gw f = Ok f'" and
    call: "contract_call (gw_commit_parent_finality gw f') st = Ok ((b, g), st1)" and
    res: "(prev, pfin) = (if b then (fin_height g, Some g) else (fwn_genesis_epoch (cfp_inner p), None))"
    by (auto simp: topdown_commit_finality_def commit_parent_finality_def toggle_genesis_epoch_def
        fwn_get_genesis_epoch_def outcome_simps split: if_splits)
  have "f' = f" by (rule gateway_recordsD(5) [OF gw f'])
  then have "gw_commit_parent_finality gw f (executor st) = Ok ((b, g), executor st1)"
    using contract_call_Ok [OF call] by simp
  from gateway_recordsD(1) [OF gw this] have
    "(case fin_of (executor st) of None \<Rightarrow> \<not> b | Some c \<Rightarrow> b \<and> g = c) \<and> fin_of (executor st1) = Some f \<and>
     log (executor st1) = log (executor st) \<and> changes (executor st1) = changes (executor st)" .
  with res show ?thesis by (cases "fin_of (executor st)") (simp_all add: window_start_def)
qed

lemma store_recorded:
  assumes gw: "gateway_records mx gw fin_of log changes"
    and c: "store_validator_changes gw vc st = Ok ((), st')"
  shows "fin_of (executor st') = fin_of (executor st) \<and> log (executor st') = log (executor st) \<and>
     changes (executor st') = changes (executor st) @ vc"
proof (cases "vc = []")
  case False
  with c obtain reqs where r: "try_all (gw_try_change gw) vc = Ok reqs"
    "contract_call (gw_store_validator_changes gw reqs) st = Ok ((), st')"
    by (auto simp: store_validator_changes_def outcome_simps)
  have "reqs = vc" by (rule try_all_same [OF gateway_recordsD(7) [OF gw] r(1)])
  with gateway_recordsD(2) [OF gw contract_call_Ok [OF r(2)]] show ?thesis by simp
qed (use c in \<open>simp add: store_validator_changes_def\<close>)

lemma execute_recorded:
  assumes gw: "gateway_records mx gw fin_of log changes"
    and c: "execute_topdown_msgs mx gw tm st = Ok (ret, st')"
  shows "fin_of (executor st') = fin_of (executor st) \<and> log (executor st') = log (executor st) @ tm \<and>
     changes (executor st') = changes (executor st)"
proof -
  from c obtain st1 where a: "apply_cross_messages gw tm st1 = Ok (ret, st')" and
    s1: "executor st1 = executor st \<or> (\<exists>f. mx_mutate_actor mx GATEWAY_ACTOR_ID f (executor st) = Ok (executor st1))"
  proof (cases "tokens_to_mint tm = 0")
    case True
    with c that [of st] show ?thesis by (simp add: execute_topdown_msgs_def)
  next
    case False
    with c obtain st0 where m: "mint_to_gateway mx (tokens_to_mint tm) st = Ok st0"
      and a: "apply_cross_messages gw tm (update_circ_supply (\<lambda>c. c + tokens_to_mint tm) st0) = Ok (ret, st')"
      by (auto simp: execute_topdown_msgs_def outcome_simps Let_def)
    from m have "\<exists>f. mx_mutate_actor mx GATEWAY_ACTOR_ID f (executor st) = Ok (executor st0)"
      by (auto simp: mint_to_gateway_def outcome_simps)
    then show ?thesis
      by (intro that [OF a]) (simp add: update_circ_supply_def update_params_def)
  qed
  have same: "fin_of (executor st1) = fin_of (executor st) \<and> log (executor st1) = log (executor st) \<and>
      changes (executor st1) = changes (executor st)"
    using s1 gateway_recordsD(4) [OF gw] by metis
  from a obtain ms where m: "try_all (gw_try_envelope gw) tm = Ok ms"
    "contract_call (gw_apply_cross_messages gw ms) st1 = Ok (ret, st')"
    by (auto simp: apply_cross_messages_def outcome_simps)
  have "ms = tm" by (rule try_all_same [OF gateway_recordsD(6) [OF gw] m(1)])
  with gateway_recordsD(3) [OF gw contract_call_Ok [OF m(2)]] same show ?thesis by simp
qed

lemma finality_new_less: "fin_height (finality_new pf) < U64"
  by (simp add: finality_new_def as_height_def U64_def nat_less_iff)

lemma deliver_topdown_step:
  assumes gw: "gateway_records mx gw fin_of log changes" and p: "parent_finality_provider env = Some p"
    and serves: "provider_serves qv qm cs ms p" and pos: "0 < fin_height (finality_new pf)"
    and d: "deliver_topdown mx gw qv qm env st pf = Ok ((env', st'), ret)"
  shows "fin_of (executor st') = Some (finality_new pf) \<and>
     log (executor st') = log (executor st) @ concat (map ms [window_start fin_of p st..<fin_height (finality_new pf)]) \<and>
     changes (executor st') =
       changes (executor st) @ concat (map cs [window_start fin_of p st..<fin_height (finality_new pf)]) \<and>
     (\<exists>p'. parent_finality_provider env' = Some p' \<and> provider_serves qv qm cs ms p' \<and>
        last_committed_finality (cfp_inner p') = Some (finality_new pf))"
proof -
  let ?f = "finality_new pf"
  let ?to = "sub_u64 (fin_height ?f) 1"
  from d p obtain prev pfin st1 vc st2 tm ret' where
    c: "topdown_commit_finality gw ?f (Some p) st = Ok ((prev, pfin), st1)" and
    vc: "toggle_validator_changes_from qv (Some p) prev ?to = Ok vc" and
    st2: "store_validator_changes gw vc st1 = Ok ((), st2)" and
    tm: "toggle_top_down_msgs_from qm (Some p) prev ?to = Ok tm" and
    ex: "execute_topdown_msgs mx gw tm st2 = Ok (ret', st')" and
    env': "parent_finality_provider env' = toggle_set_new_finality ?f pfin (Some p)"
    by (auto simp: deliver_topdown_def outcome_simps Let_def split: if_splits)
  have to: "Suc ?to = fin_height ?f" using pos by (simp add: u64_simps)
  note ranges = provider_serves_ranges [OF serves, of prev ?to, unfolded to]
  have "vc = concat (map cs [prev..<fin_height ?f])" "tm = concat (map ms [prev..<fin_height ?f])"
    using ranges(1) [OF vc] ranges(2) [OF tm] .
  moreover have "provider_serves qv qm cs ms (cfp_set_new_finality ?f pfin p)"
    by (rule provider_serves_commit [OF serves finality_new_less])
  ultimately show ?thesis
    using commit_recorded [OF gw c] store_recorded [OF gw st2] execute_recorded [OF gw ex] env'
    by (simp add: toggle_set_new_finality_def cfp_set_new_finality_def fwn_set_new_finality_def)
qed

text \<open>The messages of consecutive blocks, delivered one after the other.\<close>

fun deliver_all ::
  "('a, 'k, 's) chain_context \<Rightarrow> ('a, 'v) ChainEnv \<Rightarrow> 's FvmExecState \<Rightarrow> 'a ChainMessage list \<Rightarrow>
     (string, ('a, 'v) ChainEnv \<times> 's FvmExecState) outcome" where
  "deliver_all cx env st [] = Ok (env, st)"
| "deliver_all cx env st (m # ms) =
     obind (chain_deliver cx env st m) (\<lambda>((env, st), _). deliver_all cx env st ms)"

fun topdown_heights :: "'a ChainMessage list \<Rightarrow> nat list" where
  "topdown_heights [] = []"
| "topdown_heights (CIpc (TopDownExec p) # ms) = fin_height (finality_new p) # topdown_heights ms"
| "topdown_heights (_ # ms) = topdown_heights ms"

text \<open>Only finalities reach the privileged methods of the gateway.\<close>

definition others_keep ::
  "('a, 'k, 's) chain_context \<Rightarrow> ('s \<Rightarrow> IPCParentFinality option) \<Rightarrow> ('s \<Rightarrow> 'a IpcEnvelope list) \<Rightarrow>
     ('s \<Rightarrow> 'a StakingChangeRequest list) \<Rightarrow> bool" where
  "others_keep cx fin_of log changes =
     ((\<forall>st m st' r. cx_inner_deliver cx st m = Ok (st', r) \<longrightarrow>
         fin_of (executor st') = fin_of (executor st) \<and> log (executor st') = log (executor st) \<and>
         changes (executor st') = changes (executor st)) \<and>
      (\<forall>st ob st' r. deliver_object_resolved (cx_machine cx) st ob = Ok (st', r) \<longrightarrow>
         fin_of (executor st') = fin_of (executor st) \<and> log (executor st') = log (executor st) \<and>
         changes (executor st') = changes (executor st)))"

lemma other_deliver_keeps:
  assumes "others_keep cx fin_of log changes" "\<forall>p. m \<noteq> CIpc (TopDownExec p)"
    and "chain_deliver cx env st m = Ok ((env', st'), r)"
  shows "fin_of (executor st') = fin_of (executor st) \<and> log (executor st') = log (executor st) \<and>
     changes (executor st') = changes (executor st) \<and>
     parent_finality_provider env' = parent_finality_provider env"
proof -
  have inner: "cx_inner_deliver cx st x = Ok (st', y) \<Longrightarrow> fin_of (executor st') = fin_of (executor st) \<and>
      log (executor st') = log (executor st) \<and> changes (executor st') = changes (executor st)" for x y
    using assms(1) unfolding others_keep_def by blast
  have ob: "deliver_object_resolved (cx_machine cx) st x = Ok (st', y) \<Longrightarrow>
      fin_of (executor st') = fin_of (executor st) \<and>
      log (executor st') = log (executor st) \<and> changes (executor st') = changes (executor st)" for x y
    using assms(1) unfolding others_keep_def by blast
  have env: "parent_finality_provider env' = parent_finality_provider env"
  proof (cases "(cx, env, st, m)" rule: chain_deliver.cases)
    case (1 cx env st m)
    with assms(3) obtain ret :: "string + 'a SignedMessageApplyRet" where
      "env' = (case (ret, sm_object m) of (Inr _, Some ob) \<Rightarrow>
        env\<lparr>object_pool := snd (ipfs_pool_add object_key \<lparr>opi_obj = ob\<rparr> (object_pool env))\<rparr> | _ \<Rightarrow> env)"
      by (auto simp: outcome_simps Let_def)
    with 1 show ?thesis by (auto split: sum.splits option.splits)
  next
    case (2 cx env st r)
    with assms(3) show ?thesis by (auto simp: outcome_simps Let_def)
  qed (use assms in \<open>auto simp: outcome_simps\<close>)
  have "(\<exists>x y. cx_inner_deliver cx st x = Ok (st', y)) \<or> (\<exists>x y. deliver_object_resolved (cx_machine cx) st x = Ok (st', y))"
    using assms(2,3) by (cases "(cx, env, st, m)" rule: chain_deliver.cases)
      (auto simp: outcome_simps Let_def)
  with inner ob env show ?thesis by blast
qed

lemma topdown_heights_other: "\<forall>p. m \<noteq> CIpc (TopDownExec p) \<Longrightarrow> topdown_heights (m # ms) = topdown_heights ms"
  by (cases "m # ms" rule: topdown_heights.cases) auto

lemma deliver_all_windows:
  assumes gw: "gateway_records (cx_machine cx) (cx_gateway cx) fin_of log changes"
    and others: "others_keep cx fin_of log changes"
  shows "parent_finality_provider env = Some p \<Longrightarrow>
     provider_serves (cx_validator_changes cx) (cx_top_down_msgs cx) vs ts p \<Longrightarrow>
     sorted_wrt (<) (window_start fin_of p st # topdown_heights ms) \<Longrightarrow>
     deliver_all cx env st ms = Ok (env', st') \<Longrightarrow>
     (let w = [window_start fin_of p st..<last (window_start fin_of p st # topdown_heights ms)] in
      log (executor st') = log (executor st) @ concat (map ts w) \<and>
      changes (executor st') = changes (executor st) @ concat (map vs w))"
proof (induction ms arbitrary: env st p)
  case (Cons m ms)
  from Cons.prems(4) obtain env1 st1 r where d: "chain_deliver cx env st m = Ok ((env1, st1), r)"
    and rest: "deliver_all cx env1 st1 ms = Ok (env', st')"
    by (auto simp: outcome_simps)
  show ?case
  proof (cases "\<exists>pf. m = CIpc (TopDownExec pf)")
    case True
    then obtain pf where m: "m = CIpc (TopDownExec pf)" ..
    let ?h = "fin_height (finality_new pf)" and ?w = "window_start fin_of p st"
    have sorted: "?w < ?h" "sorted_wrt (<) (?h # topdown_heights ms)" using Cons.prems(3) m by auto
    obtain p1 where step: "fin_of (executor st1) = Some (finality_new pf)"
      "log (executor st1) = log (executor st) @ concat (map ts [?w..<?h])"
      "changes (executor st1) = changes (executor st) @ concat (map vs [?w..<?h])"
      and p1: "parent_finality_provider env1 = Some p1"
      "provider_serves (cx_validator_changes cx) (cx_top_down_msgs cx) vs ts p1"
      using deliver_topdown_step [OF gw Cons.prems(1,2), of pf st env1 st1 r] d m sorted(1) by auto
    have w1: "window_start fin_of p1 st1 = ?h" using step(1) by (simp add: window_start_def)
    have le: "?h \<le> last (?h # topdown_heights ms)"
      using sorted(2) by (cases "topdown_heights ms") (auto simp: less_imp_le)
    have s1: "sorted_wrt (<) (window_start fin_of p1 st1 # topdown_heights ms)" using sorted(2) w1 by simp
    note IH = Cons.IH [OF p1 s1 rest, unfolded w1 Let_def]
    have "[?w..<last (?h # topdown_heights ms)] = [?w..<?h] @ [?h..<last (?h # topdown_heights ms)]"
      using upt_add_eq_append [of ?w ?h "last (?h # topdown_heights ms) - ?h"] sorted(1) le by simp
    moreover have "last (?w # topdown_heights (m # ms)) = last (?h # topdown_heights ms)" by (simp add: m)
    ultimately show ?thesis
      unfolding Let_def using IH step(2,3) by (simp only: map_append concat_append append_assoc)
  next
    case False
    then have o: "\<forall>p. m \<noteq> CIpc (TopDownExec p)" by blast
    note keep = other_deliver_keeps [OF others o d]
    have "window_start fin_of p st1 = window_start fin_of p st" using keep by (simp add: window_start_def)
    then show ?thesis
      using Cons.IH [of env1 p st1] Cons.prems keep rest topdown_heights_other [OF o] by simp
  qed
qed simp

section \<open>Lemmas on power tables\<close>

text \<open>What the gateway contract promises about the membership, observed through the power table of its
  state: reading it gives that table, applying no changes (configuration 0) keeps it, and every other
  call of a block's end keeps it.\<close>

definition keeps :: "('s \<Rightarrow> 't) \<Rightarrow> ('s \<Rightarrow> (string, 'x \<times> 's) outcome) \<Rightarrow> bool" where
  "keeps table f = (\<forall>s x s'. f s = Ok (x, s') \<longrightarrow> table s' = table s)"

definition ledger_table :: "('a, 'k, 's) gateway \<Rightarrow> int \<Rightarrow> ('s \<Rightarrow> 'k Validator list) \<Rightarrow> bool" where
  "ledger_table gw scale table =
     ((\<forall>s n members s'. gw_get_current_membership gw s = Ok ((n, members), s') \<longrightarrow>
         table s' = table s \<and>
         membership_to_power_table (gw_parse_key gw) scale members = (Ok (table s) :: (string, _) outcome)) \<and>
      (\<forall>s n s'. gw_apply_finality_changes gw s = Ok (n, s') \<and> n = 0 \<longrightarrow> table s' = table s) \<and>
      keeps table (gw_network_name gw) \<and> keeps table (gw_bottom_up_check_period gw) \<and>
      (\<forall>h. keeps table (gw_bottom_up_msg_batch gw h)) \<and>
      (\<forall>cp r p. keeps table (gw_create_bottom_up_checkpoint gw cp r p)) \<and>
      keeps table (gw_get_incomplete_checkpoints gw) \<and>
      (\<forall>h. keeps table (gw_get_checkpoint_signatories gw h)))"

lemma keeps_call: "keeps table f \<Longrightarrow> contract_call f st = Ok (x, st') \<Longrightarrow> table (executor st') = table (executor st)"
  by (auto simp: keeps_def dest!: contract_call_Ok)

lemma ledger_tableD:
  assumes "ledger_table gw scale table"
  shows "keeps table (gw_network_name gw)" "keeps table (gw_bottom_up_check_period gw)"
    "keeps table (gw_bottom_up_msg_batch gw h)" "keeps table (gw_create_bottom_up_checkpoint gw cp r p)"
    "keeps table (gw_get_incomplete_checkpoints gw)" "keeps table (gw_get_checkpoint_signatories gw h)"
  using assms by (simp_all add: ledger_table_def)

lemmas ledger_keeps = ledger_tableD [THEN keeps_call]

lemma should_create_keeps_table:
  assumes "ledger_table gw scale table" "should_create_checkpoint mx gw h st = Ok (r, st')"
  shows "table (executor st') = table (executor st)"
  using assms(2) unfolding should_create_checkpoint_def
  by (auto simp: outcome_simps split: if_splits dest!: ledger_keeps [OF assms(1)])

lemma ipc_power_table_reads:
  assumes "ledger_table gw (power_scale (params st)) table" "ipc_power_table gw st = Ok ((c, pt), st')"
  shows "pt = table (executor st) \<and> table (executor st') = table (executor st)"
proof -
  from assms(2) obtain members st1 where
    call: "contract_call (gw_get_current_membership gw) st = Ok ((c, members), st1)" and
    pt: "membership_to_power_table (gw_parse_key gw) (power_scale (params st1)) members =
        (Ok pt :: (string, _) outcome)" and st': "st' = st1"
    by (auto simp: ipc_power_table_def current_power_table_def outcome_simps)
  have "power_scale (params st1) = power_scale (params st)"
    using contract_call_outside [OF call] by (simp add: outside_def)
  with pt st' contract_call_Ok [OF call] assms(1) show ?thesis
    unfolding ledger_table_def by (metis outcome.inject(1))
qed

lemma create_keeps_table:
  assumes "ledger_table gw scale table" "create_bottom_up_checkpoint gw cp pt st = Ok (x, st')"
  shows "table (executor st') = table (executor st)"
  using assms(2) unfolding create_bottom_up_checkpoint_def
  by (auto simp: outcome_simps dest!: ledger_keeps [OF assms(1)])

lemma collect_unsigned_keeps_table:
  assumes "ledger_table gw scale table"
  shows "collect_unsigned gw a cps st = Ok (r, st') \<Longrightarrow> table (executor st') = table (executor st)"
proof (induction cps arbitrary: st r)
  case (Cons cp cps)
  then obtain sg st1 r' where "contract_call (gw_get_checkpoint_signatories gw (cp_block_height cp)) st = Ok (sg, st1)"
    "collect_unsigned gw a cps st1 = Ok (r', st')"
    by (auto simp: outcome_simps)
  then show ?case using Cons.IH ledger_keeps(6) [OF assms] by metis
qed simp

lemma checkpoint_updates:
  assumes lt: "ledger_table gw (power_scale (params st)) table"
    and "maybe_create_checkpoint mx gw st = Ok (res, st')"
  shows "(case res of None \<Rightarrow> [] | Some (cp, us) \<Rightarrow> us) = [] \<and> table (executor st') = table (executor st) \<or>
     (case res of None \<Rightarrow> [] | Some (cp, us) \<Rightarrow> us) = power_diff (table (executor st)) (table (executor st'))"
  using assms(2)
proof (cases rule: maybe_create_checkpointE)
  case none
  then show ?thesis using should_create_keeps_table [OF lt none(1)] by simp
next
  case (some hash msgs sid st1 c curr st2 number st3 st4)
  have o: "outside st1 = outside st" "outside st2 = outside st" "outside st3 = outside st"
    using should_create_checkpoint_outside [OF some(3)] ipc_power_table_outside [OF some(4)]
      contract_call_outside [OF some(5)] by simp_all
  have o4: "power_scale (params st4) = power_scale (params st)"
    using create_checkpoint_outside [OF some(6)] o(3)
    by (simp add: outside_def update_circ_supply_def update_params_def)
  have t1: "table (executor st1) = table (executor st)" by (rule should_create_keeps_table [OF lt some(3)])
  have lt1: "ledger_table gw (power_scale (params st1)) table" using lt o(1) by (simp add: outside_def)
  have t2: "curr = table (executor st)" "table (executor st2) = table (executor st)"
    using ipc_power_table_reads [OF lt1 some(4)] t1 by simp_all
  have t4: "table (executor st4) = table (executor st3)"
    using create_keeps_table [OF lt some(6)] by (simp add: update_circ_supply_def update_params_def)
  from some(7) show ?thesis
  proof
    assume z: "number = 0 \<and> st' = st4 \<and> res = Some (\<lparr>cp_subnet_id = sid,
      cp_block_height = nat (mx_epoch mx (executor st)), cp_block_hash = hash,
      cp_next_configuration_number = number, cp_msgs = msgs\<rparr>, [])"
    then have "table (executor st3) = table (executor st2)"
      using lt contract_call_Ok [OF some(5)] unfolding ledger_table_def by blast
    with z t2(2) t4 show ?thesis by simp
  next
    assume "number \<noteq> 0 \<and> (\<exists>c' nxt. ipc_power_table gw st4 = Ok ((c', nxt), st') \<and> res = Some (\<lparr>cp_subnet_id = sid,
      cp_block_height = nat (mx_epoch mx (executor st)), cp_block_hash = hash,
      cp_next_configuration_number = number, cp_msgs = msgs\<rparr>, power_diff curr nxt))"
    then obtain c' nxt where n: "ipc_power_table gw st4 = Ok ((c', nxt), st')"
      "(case res of None \<Rightarrow> [] | Some (cp, us) \<Rightarrow> us) = power_diff curr nxt" by auto
    have "ledger_table gw (power_scale (params st4)) table" using lt o4 by simp
    from ipc_power_table_reads [OF this n(1)] n(2) t2(1) show ?thesis by simp
  qed
qed

lemma fvm_end_updates:
  assumes lt: "ledger_table (fi_gateway fi) (power_scale (params st)) table"
    and e: "fvm_end mx fi st = Ok (st', us, cps)"
  shows "us = [] \<and> table (executor st') = table (executor st) \<or>
     us = power_diff (table (executor st)) (table (executor st'))"
proof -
  from e obtain res st1 where m: "maybe_create_checkpoint mx (fi_gateway fi) st = Ok (res, st1)"
    by (auto simp: fvm_end_def outcome_simps)
  have "us = (case res of None \<Rightarrow> [] | Some (cp, us) \<Rightarrow> us) \<and> table (executor st') = table (executor st1)"
    using e m
    by (auto simp: fvm_end_def outcome_simps unsigned_checkpoints_def with_context_def
        split: option.splits if_splits dest!: ledger_keeps(5) [OF lt] collect_unsigned_keeps_table [OF lt])
  with checkpoint_updates [OF lt m] show ?thesis by simp
qed

text \<open>The power a table gives to a key, with 0 for keys that are not in it.\<close>

definition power_or_0 :: "'k Validator list \<Rightarrow> 'k \<Rightarrow> nat" where
  "power_or_0 pt k = (case power_in pt k of Some p \<Rightarrow> p | None \<Rightarrow> 0)"

lemma map_of_rev_distinct: "distinct (map fst xs) \<Longrightarrow> map_of (rev xs) = map_of xs"
  by (rule map_of_eqI) (auto simp: rev_map [symmetric] map_of_eq_Some_iff)

lemma update_by_diff:
  assumes "\<And>k. vpower t k = power_or_0 c k"
  shows "vpower (update_power_table (map (\<lambda>v. (val_key v, val_power v)) (power_diff c n)) t) k = power_or_0 n k"
proof -
  let ?us = "map (\<lambda>v. (val_key v, val_power v)) (power_diff c n)"
  have "vpower (update_power_table ?us t) k = (case map_of (rev ?us) k of Some w \<Rightarrow> w | None \<Rightarrow> vpower t k)"
    by (rule vpower_update)
  also have "map_of (rev ?us) = map_of ?us"
    by (rule map_of_rev_distinct) (use power_diff_keys [of c n] in \<open>simp add: comp_def\<close>)
  finally show ?thesis using assms [of k] by (simp add: power_diff_map power_or_0_def split: option.splits)
qed

section \<open>Properties\<close>

text \<open>An honest proposal is accepted. If the environment is consistent, preparing a proposal from
  messages of users succeeds, keeps the messages at the front, and a validator in the same
  environment votes for the result.\<close>

theorem proposal_accepted:
  assumes "chain_env_wf env" "queries_ok mx st fin" "\<forall>m \<in> set msgs. user_message m"
  shows "\<exists>env' new env''. chain_prepare mx env st msgs = (env', Ok (msgs @ new)) \<and>
     chain_process mx env' st (msgs @ new) = (env'', Ok True)"
proof -
  obtain env' new where new: "chain_prepare mx env st msgs = (env', Ok (msgs @ new))"
    "env_core env' = env_core env" "\<forall>m \<in> set new. acceptable fin env m"
    using chain_prepare_acceptable [OF assms(1,2)] by blast
  have "toggle_wf (parent_finality_provider env')"
    using chain_env_toggle [OF assms(1)] env_coreD(2) [OF new(2)] by simp
  then obtain env'' where p: "chain_process mx env' st (msgs @ new) =
      (env'', Ok (\<forall>m \<in> set (msgs @ new). acceptable fin env' m))"
    using chain_process_exact [OF assms(2)] by blast
  have "acceptable fin env' m" if "m \<in> set (msgs @ new)" for m
    using that assms(3) new(3) by (auto simp: acceptable_core [OF new(2)] intro: user_acceptable)
  with p new(1) show ?thesis by auto
qed


text \<open>C4: everything the parent sends down is executed exactly once and in order. Along any sequence of
  delivered messages whose finalities increase, the gateway has applied the cross messages, and stored
  the validator changes, of every parent height from the one it had committed (or the genesis epoch)
  up to, but not including, the last finality.\<close>

theorem topdown_exactly_once:
  assumes "gateway_records (cx_machine cx) (cx_gateway cx) fin_of log changes"
    and "others_keep cx fin_of log changes"
    and "parent_finality_provider env = Some p"
    and "provider_serves (cx_validator_changes cx) (cx_top_down_msgs cx) vs ts p"
    and "sorted_wrt (<) (window_start fin_of p st # topdown_heights ms)"
    and "deliver_all cx env st ms = Ok (env', st')"
  shows "let w = [window_start fin_of p st..<last (window_start fin_of p st # topdown_heights ms)] in
     log (executor st') = log (executor st) @ concat (map ts w) \<and>
     changes (executor st') = changes (executor st) @ concat (map vs w)"
  by (rule deliver_all_windows [OF assms])

text \<open>C26: the tally weighs votes by the power the ledger grants. If it does at the start of a block's end,
  it does afterwards, also when the block changes the validator set.\<close>

theorem end_power_sync:
  assumes "ledger_table (fi_gateway fi) (power_scale (params st)) table"
    and "\<forall>k. vpower (parent_finality_votes env) k = power_or_0 (table (executor st)) k"
    and "node_end mx fi env st = Ok ((env', st'), us, cps)"
  shows "vpower (parent_finality_votes env') k = power_or_0 (table (executor st')) k"
proof -
  from assms(3) have e: "fvm_end mx fi st = Ok (st', us, cps)" and
    env': "parent_finality_votes env' = (if us \<noteq> []
      then update_power_table (map (\<lambda>v. (val_key v, val_power v)) us) (parent_finality_votes env)
      else parent_finality_votes env)"
    by (auto simp: node_end_def chain_end_def outcome_simps Let_def)
  from fvm_end_updates [OF assms(1) e] show ?thesis
  proof
    assume "us = [] \<and> table (executor st') = table (executor st)"
    with env' assms(2) show ?thesis by simp
  next
    assume us: "us = power_diff (table (executor st)) (table (executor st'))"
    then have "parent_finality_votes env' =
        update_power_table (map (\<lambda>v. (val_key v, val_power v)) us) (parent_finality_votes env)"
      using env' by (simp add: update_power_table_def)
    with us update_by_diff [of "parent_finality_votes env" "table (executor st)"] assms(2) show ?thesis by simp
  qed
qed

text \<open>C39: a bottom-up checkpoint that has been resolved is proposed and voted for, but executing it
  panics: the handler is not implemented.\<close>

theorem resolved_checkpoint_panics:
  assumes "chain_env_wf env" "queries_ok mx st fin"
    and "CkptBottomUp cp \<in> set (pool_collect_resolved (checkpoint_pool env))"
  shows "\<exists>env' new env''. chain_prepare mx env st [] = (env', Ok new) \<and> CIpc (BottomUpExec cp) \<in> set new \<and>
     chain_process mx env' st [CIpc (BottomUpExec cp)] = (env'', Ok True) \<and>
     chain_deliver cx env'' st (CIpc (BottomUpExec cp)) = Panic"
proof -
  obtain env' new where new: "chain_prepare mx env st [] = (env', Ok ([] @ new))" "env_core env' = env_core env"
    "\<forall>m \<in> set new. acceptable fin env m" "set (checkpoint_txs env) \<subseteq> set new"
    using chain_prepare_acceptable [OF assms(1,2), of "[]"] by blast
  have "CIpc (BottomUpExec cp) \<in> set (checkpoint_txs env)"
    using assms(3) by (auto simp: checkpoint_txs_def image_iff intro!: bexI [of _ "CkptBottomUp cp"])
  with new(3,4) have m: "CIpc (BottomUpExec cp) \<in> set new" "acceptable fin env (CIpc (BottomUpExec cp))" by blast+
  from m(2) have "acceptable fin env' (CIpc (BottomUpExec cp))" using acceptable_core [OF new(2)] by blast
  then have "chain_process mx env' st [CIpc (BottomUpExec cp)] = (env', Ok True)" by simp
  with new(1) m(1) show ?thesis by auto
qed

section \<open>A sample environment\<close>

definition sample_checkpoint :: "nat CertifiedMessage" where
  "sample_checkpoint =
     \<lparr>cert_message = \<lparr>mc_subnet_id = \<lparr>root = 1, children = [5]\<rparr>, mc_height = 3, mc_next_validator_set_id = 0,
        mc_bottom_up_messages = [4]\<rparr>, cert_certificate = []\<rparr>"

definition sample_env :: "(nat, nat) ChainEnv" where
  "sample_env =
     \<lparr>checkpoint_pool = \<lparr>store = [\<lparr>is_resolved = True, use_own_subnet = False,
          status_items = [CkptBottomUp sample_checkpoint]\<rparr>],
        items = [(checkpoint_key (CkptBottomUp sample_checkpoint), 0)], queue = []\<rparr>,
      parent_finality_provider = Some \<lparr>cfp_inner = sample_provider, cfp_config = sample_config\<rparr>,
      parent_finality_votes = \<lparr>power_table = [(1, 10), (2, 10), (3, 10)],
        chain = [(100, Some [0]), (101, Some [1]), (102, None), (103, Some [3]), (104, Some [4]), (105, Some [5])],
        votes = [(103, [([3], [1, 2, 3])])], pause_votes = False, object_votes = [([2], [1, 2, 3])],
        pause_object_votes = False\<rparr>,
      object_pool = \<lparr>ipfs_store = [\<lparr>ipfs_resolved = True,
          ipfs_status_items = [\<lparr>opi_obj = \<lparr>obj_key = [1], obj_value = [2], obj_address = 7\<rparr>\<rparr>]\<rparr>],
        ipfs_items = [([2], 0)], ipfs_queue = []\<rparr>\<rparr>"

lemma sample_env_wf: "chain_env_wf sample_env"
proof -
  have "tally_wf (parent_finality_votes sample_env)"
    by (auto simp: sample_env_def tally_wf_def votes_wf_def)
  moreover have "map_of (chain (parent_finality_votes sample_env)) = view_at sample_provider"
    by (auto simp: sample_env_def sample_provider_def view_at_def fun_eq_iff)
  ultimately have "syncer_wf (env_syncer sample_env)"
    using sample_provider_wf
    by (simp add: syncer_wf_def env_syncer_def syncer_new_def sample_env_def sample_provider_def)
  moreover have "2 * total_weight (parent_finality_votes sample_env) < U64"
    by (simp add: total_weight_def sample_env_def U64_def)
  moreover have "pool_wf checkpoint_key (checkpoint_pool sample_env)"
    by (simp add: pool_wf_def sample_env_def)
  ultimately show ?thesis by (simp add: chain_env_wf_def)
qed

lemma sample_queries_ok: "queries_ok sample_machine sample_state (\<lambda>_. False)"
  by (simp add: queries_ok_def is_object_finalized_def begin_transaction_def revert_transaction_def
      execute_implicit_def execute_message_def emitter_delegated_addresses_def system_msg_def
      sample_exec_defs Let_def)

theorem proposal_accepted_witness:
  "\<exists>env' new env''. chain_prepare sample_machine sample_env sample_state [] = (env', Ok new) \<and>
     chain_process sample_machine env' sample_state new = (env'', Ok True)"
  using proposal_accepted [OF sample_env_wf sample_queries_ok, of "[]"] by simp


theorem resolved_checkpoint_panics_witness:
  "\<exists>env' new. chain_prepare sample_machine sample_env sample_state [] = (env', Ok new) \<and>
     CIpc (BottomUpExec sample_checkpoint) \<in> set new \<and>
     chain_deliver (node_context sample_crypto sample_machine sample_gateway (\<lambda>_. Ok []) (\<lambda>_ _. Ok []) (\<lambda>_ _. Ok []))
       env' sample_state (CIpc (BottomUpExec sample_checkpoint)) = Panic"
proof -
  have "CkptBottomUp sample_checkpoint \<in> set (pool_collect_resolved (checkpoint_pool sample_env))"
    by (simp add: pool_collect_resolved_def sample_env_def hs_insert_def)
  from resolved_checkpoint_panics [OF sample_env_wf sample_queries_ok this] show ?thesis by auto
qed

text \<open>A gateway that replaces its validator when changes are applied.\<close>

definition handover_gateway :: "(nat, nat, accounts) gateway" where
  "handover_gateway = sample_gateway
     \<lparr>gw_apply_finality_changes := (\<lambda>s. Ok (2, AList.update 65
        \<lparr>act_code = 1, act_state = [], act_sequence = 0, act_balance = 0, act_delegated = None\<rparr> s)),
      gw_get_current_membership := (\<lambda>s. Ok ((2,
        if hm_get s 65 = None then [([3], 4000000000000000)] else [([3, 3], 7000000000000000)]), s))\<rparr>"

definition handover_table :: "accounts \<Rightarrow> nat Validator list" where
  "handover_table s =
     (if hm_get s 65 = None then [\<lparr>val_key = 1, val_power = 4\<rparr>] else [\<lparr>val_key = 2, val_power = 7\<rparr>])"

definition sample_interpreter :: "(nat, nat, accounts) fvm_interpreter" where
  "sample_interpreter = \<lparr>fi_gateway = handover_gateway, fi_upgrades = [], fi_push_chain_meta = True,
     fi_exec_in_check = False, fi_validator = None, fi_syncing = False\<rparr>"

lemmas power_eval = into_power_def div_ceil_def atto_per_power_def TOKEN_DECIMALS_def U64_def Let_def

lemma handover_ledger_table: "ledger_table handover_gateway 3 handover_table"
  by (simp add: ledger_table_def keeps_def handover_gateway_def sample_gateway_def handover_table_def power_eval)

theorem end_power_sync_witness:
  "\<exists>env' st' us cps. node_end sample_machine sample_interpreter
       (sample_env\<lparr>parent_finality_votes := (parent_finality_votes sample_env)\<lparr>power_table := [(1, 4)]\<rparr>\<rparr>)
       (with_block_hash [9] sample_state) = Ok ((env', st'), us, cps) \<and>
     vpower (parent_finality_votes env') 2 = 7 \<and> vpower (parent_finality_votes env') 1 = 0"
proof -
  let ?env = "sample_env\<lparr>parent_finality_votes := (parent_finality_votes sample_env)\<lparr>power_table := [(1, 4)]\<rparr>\<rparr>"
  let ?st = "with_block_hash [9] sample_state"
  have "\<exists>env' st' us cps. node_end sample_machine sample_interpreter ?env ?st = Ok ((env', st'), us, cps) \<and>
      handover_table (executor st') = [\<lparr>val_key = 2, val_power = 7\<rparr>]"
    by (simp add: node_end_def chain_end_def fvm_end_def maybe_create_checkpoint_def should_create_checkpoint_def
        gateway_enabled_def contract_call_def ipc_power_table_def current_power_table_def
        create_bottom_up_checkpoint_def sample_root_step with_context_def with_block_hash_def update_circ_supply_def
        update_params_def GATEWAY_ACTOR_ID_def sample_interpreter_def handover_gateway_def sample_gateway_def
        sample_exec_defs handover_table_def power_eval)
  then obtain env' st' us cps where
    e: "node_end sample_machine sample_interpreter ?env ?st = Ok ((env', st'), us, cps)" and
    t: "handover_table (executor st') = [\<lparr>val_key = 2, val_power = 7\<rparr>]" by blast
  have lt: "ledger_table (fi_gateway sample_interpreter) (power_scale (params ?st)) handover_table"
    using handover_ledger_table by (simp add: sample_interpreter_def with_block_hash_def sample_exec_defs)
  have start: "\<forall>k. vpower (parent_finality_votes ?env) k = power_or_0 (handover_table (executor ?st)) k"
    by (simp add: vpower_def power_or_0_def power_in_def handover_table_def with_block_hash_def sample_exec_defs)
  from end_power_sync [OF lt start e, of 2] end_power_sync [OF lt start e, of 1] t e show ?thesis
    by (auto simp: power_or_0_def power_in_def)
qed

text \<open>A ledger that keeps only the records of the gateway, for a parent with one message at height 2.\<close>

type_synonym records = "IPCParentFinality option \<times> nat IpcEnvelope list \<times> nat StakingChangeRequest list"

definition records_machine :: "(nat, records) machine" where
  "records_machine =
     \<lparr>mx_check = (\<lambda>m. None), mx_raw_length = (\<lambda>m. Ok 0),
      mx_execute = (\<lambda>m k n s. Ok (\<lparr>exit_code = EXIT_OK, return_data = [], gas_used = 0,
         failure_info = None, event_emitters = []\<rparr>, s)),
      mx_lookup_id = (\<lambda>x s. Ok None), mx_get_actor = (\<lambda>i s. Ok None), mx_set_actor = (\<lambda>i a s. s),
      mx_mutate_actor = (\<lambda>i f s. Ok s), mx_begin_transaction = (\<lambda>s. s), mx_end_transaction = (\<lambda>r s. Ok s),
      mx_epoch = (\<lambda>s. 5), mx_chain_id = (\<lambda>s. 1), mx_is_placeholder = (\<lambda>c. False),
      mx_block_gas_limit = 10000000000, mx_method_hash = length,
      mx_encode_push_block = (\<lambda>e b. Ok b), mx_encode_get = Ok, mx_encode_resolve = (\<lambda>k v. Ok v),
      mx_decode_object = (\<lambda>d. Ok None), mx_system_addr = 0, mx_cron_addr = 3,
      mx_chainmetadata_addr = 48, mx_gateway_addr = 64\<rparr>"

definition records_gateway :: "(nat, nat, records) gateway" where
  "records_gateway =
     \<lparr>gw_network_name = (\<lambda>s. Retry), gw_bottom_up_check_period = (\<lambda>s. Retry),
      gw_bottom_up_msg_batch = (\<lambda>h s. Retry), gw_create_bottom_up_checkpoint = (\<lambda>cp r p s. Retry),
      gw_get_incomplete_checkpoints = (\<lambda>s. Retry), gw_apply_finality_changes = (\<lambda>s. Retry),
      gw_get_current_membership = (\<lambda>s. Retry),
      gw_commit_parent_finality = (\<lambda>f (c, l, v). Ok (case c of
          None \<Rightarrow> (False, \<lparr>fin_height = 0, fin_block_hash = []\<rparr>) | Some g \<Rightarrow> (True, g), Some f, l, v)),
      gw_store_validator_changes = (\<lambda>cs (c, l, v). Ok ((), c, l, v @ cs)),
      gw_apply_cross_messages = (\<lambda>ms (c, l, v). Ok (\<lparr>far_apply_ret = \<lparr>exit_code = EXIT_OK, return_data = [],
          gas_used = 0, failure_info = None, event_emitters = []\<rparr>, far_from = 0, far_to = 64, far_method_num = 0,
          far_gas_limit = 0, far_emitters = []\<rparr>, c, l @ ms, v)),
      gw_get_latest_parent_finality = (\<lambda>s. Retry), gw_get_checkpoint_signatories = (\<lambda>h s. Retry),
      gw_try_finality = Ok, gw_try_change = Ok, gw_try_envelope = Ok,
      gw_parse_key = (\<lambda>m. None), gw_eth_address = (\<lambda>k. [k]), gw_hashes = sample_hash_lib\<rparr>"

definition records_msgs :: "nat \<Rightarrow> nat IpcEnvelope list" where
  "records_msgs h = (if h = 2 then [sample_envelope 5] else [])"

definition records_context :: "(nat, nat, records) chain_context" where
  "records_context = node_context sample_crypto records_machine records_gateway (\<lambda>_. Ok [])
     (\<lambda>_ _. Ok []) (\<lambda>h _. Ok (records_msgs h))"

definition records_provider :: "nat CachedFinalityProvider" where
  "records_provider = cfp_new sample_config 1 None"

definition records_state :: "records FvmExecState" where
  "records_state = exec_state_new (None, [], []) sample_params"

lemma records_gateway_ok: "gateway_records records_machine records_gateway fst (fst \<circ> snd) (snd \<circ> snd)"
  by (auto simp: gateway_records_def records_machine_def records_gateway_def split: option.splits)

lemma records_execute:
  "execute_message records_machine m k st = Ok (r, st') \<Longrightarrow> executor st' = executor st"
  by (auto simp: execute_message_def records_machine_def outcome_simps Let_def)

lemma records_others_keep: "others_keep records_context fst (fst \<circ> snd) (snd \<circ> snd)"
proof -
  have "executor st' = executor st"
    if "cx_inner_deliver records_context st m = Ok (st', r)" for st m st' r
    using that records_execute
    by (auto simp: records_context_def node_context_def signed_deliver_def fvm_deliver_def execute_implicit_def
        execute_explicit_def outcome_simps Let_def split: outcome.splits SignedMessageError.splits if_splits)
  moreover have "executor st' = executor st"
    if "deliver_object_resolved (cx_machine records_context) st ob = Ok (st', r)" for st ob st' r
    using that records_execute
    by (auto simp: records_context_def node_context_def deliver_object_resolved_def execute_implicit_def
        outcome_simps Let_def)
  ultimately show ?thesis by (simp add: others_keep_def)
qed

lemma retry_query_const: "retry_query (\<lambda>_. Ok x) n i = Ok x"
  by (cases n) simp_all

lemma records_serves: "provider_serves (\<lambda>_ _. Ok []) (\<lambda>h _. Ok (records_msgs h)) (\<lambda>_. []) records_msgs records_provider"
proof -
  have "provider_wf (cfp_inner records_provider)"
    unfolding records_provider_def cfp_new_def by (simp add: provider_wf_new [OF refl])
  then show ?thesis
    by (simp add: provider_serves_def retry_query_const records_provider_def cfp_new_def fwn_new_def
        cache_sequential_def)
qed

lemma collect_heights_ok: "(\<And>h. g h = Ok (k h)) \<Longrightarrow> is_ok (collect_heights g hs v)"
  by (induction hs arbitrary: v) simp_all

lemma empty_cache_queries:
  assumes "sc_data (cached_data (cfp_inner p)) = []" and "\<And>h. qv h = (\<lambda>_. Ok (vs h))" and "\<And>h. qm h = (\<lambda>_. Ok (ts h))"
  shows "is_ok (toggle_validator_changes_from qv (Some p) a b)" "is_ok (toggle_top_down_msgs_from qm (Some p) a b)"
proof -
  show "is_ok (toggle_validator_changes_from qv (Some p) a b)"
    unfolding toggle_validator_changes_from_def cfp_validator_changes_from_def option.case
    by (rule collect_heights_ok [where k = vs]) (simp add: assms(1) assms(2,3) cfp_validator_changes_def fwn_validator_changes_def handle_null_block_def
        cache_get_value_def cache_within_bound_def cache_lower_bound_conv cache_upper_bound_conv retry_query_const)
  show "is_ok (toggle_top_down_msgs_from qm (Some p) a b)"
    unfolding toggle_top_down_msgs_from_def cfp_top_down_msgs_from_def option.case
    by (rule collect_heights_ok [where k = ts]) (simp add: assms(1) assms(2,3) cfp_top_down_msgs_def fwn_top_down_msgs_def handle_null_block_def
        cache_get_value_def cache_within_bound_def cache_lower_bound_conv cache_upper_bound_conv retry_query_const)
qed

lemma try_all_Ok [simp]: "try_all Ok xs = Ok xs"
  by (induction xs) simp_all

lemma records_topdown:
  assumes p: "parent_finality_provider env = Some p" and e: "sc_data (cached_data (cfp_inner p)) = []"
  shows "\<exists>env' st' ret p'. chain_deliver records_context env st (CIpc (TopDownExec f)) = Ok ((env', st'), ret) \<and>
    parent_finality_provider env' = Some p' \<and> sc_data (cached_data (cfp_inner p')) = []"
proof -
  obtain c l v where s: "executor st = (c, l, v)" by (cases "executor st")
  let ?a = "case c of Some g \<Rightarrow> fin_height g | None \<Rightarrow> fwn_genesis_epoch (cfp_inner p)"
  let ?b = "sub_u64 (fin_height (finality_new f)) 1"
  from empty_cache_queries [OF e, where vs = "\<lambda>_. []" and ts = records_msgs] obtain cs ms where
    q: "toggle_validator_changes_from (\<lambda>_ _. Ok []) (Some p) ?a ?b = Ok cs"
       "toggle_top_down_msgs_from (\<lambda>h _. Ok (records_msgs h)) (Some p) ?a ?b = Ok ms"
    by (metis is_ok.elims(2))
  show ?thesis
    using q by (cases c) (auto simp: records_context_def node_context_def deliver_topdown_def p s toggle_is_enabled_def
        topdown_commit_finality_def commit_parent_finality_def contract_call_def with_context_def
        toggle_genesis_epoch_def fwn_get_genesis_epoch_def store_validator_changes_def execute_topdown_msgs_def
        apply_cross_messages_def mint_to_gateway_def update_circ_supply_def update_params_def
        toggle_set_new_finality_def cfp_set_new_finality_def fwn_set_new_finality_def e
        records_machine_def records_gateway_def Let_def cache_remove_key_below_def)
qed

theorem topdown_exactly_once_witness:
  "\<exists>env' st'. deliver_all records_context (sample_env\<lparr>parent_finality_provider := Some records_provider\<rparr>)
       records_state [CIpc (TopDownExec \<lparr>pf_height = 3, pf_block_hash = [1]\<rparr>),
         CIpc (TopDownExec \<lparr>pf_height = 5, pf_block_hash = [2]\<rparr>)] = Ok (env', st') \<and>
     fst (snd (executor st')) = [sample_envelope 5]"
proof -
  let ?env = "sample_env\<lparr>parent_finality_provider := Some records_provider\<rparr>"
  let ?ms = "[CIpc (TopDownExec \<lparr>pf_height = 3, pf_block_hash = [1]\<rparr>),
         CIpc (TopDownExec \<lparr>pf_height = 5, pf_block_hash = [2]\<rparr>)]"
  have p: "parent_finality_provider ?env = Some records_provider" by simp
  have w: "window_start fst records_provider records_state = 1"
    by (simp add: window_start_def records_provider_def records_state_def cfp_new_def fwn_new_def
        exec_state_new_def)
  have "sc_data (cached_data (cfp_inner records_provider)) = ([] :: (nat \<times> nat ParentViewPayload option) list)"
    by (simp add: records_provider_def cfp_new_def fwn_new_def cache_sequential_def)
  from records_topdown [OF p this] obtain env1 st1 r1 p1 where
    1: "chain_deliver records_context ?env records_state (?ms ! 0) = Ok ((env1, st1), r1)"
       "parent_finality_provider env1 = Some p1" "sc_data (cached_data (cfp_inner p1)) = []"
    by (metis nth_Cons_0)
  from records_topdown [OF 1(2,3)] obtain env' st' r where
    "chain_deliver records_context env1 st1 (?ms ! 1) = Ok ((env', st'), r)"
    by (metis One_nat_def nth_Cons_0 nth_Cons_Suc)
  with 1 have d: "deliver_all records_context ?env records_state ?ms = Ok (env', st')" by simp
  have sorted: "sorted_wrt (<) (window_start fst records_provider records_state # topdown_heights ?ms)"
    by (simp add: w finality_new_def as_height_def U64_def)
  have gw: "gateway_records (cx_machine records_context) (cx_gateway records_context) fst (fst \<circ> snd) (snd \<circ> snd)"
    using records_gateway_ok by (simp add: records_context_def node_context_def)
  have serves: "provider_serves (cx_validator_changes records_context) (cx_top_down_msgs records_context)
      (\<lambda>_. []) records_msgs records_provider"
    using records_serves by (simp add: records_context_def node_context_def)
  have l: "last (1 # topdown_heights ?ms) = 5"
    by (simp add: finality_new_def as_height_def U64_def)
  have c: "concat (map records_msgs [1..<5]) = [sample_envelope 5]"
    by (simp add: records_msgs_def upt_rec)
  have n: "fst (snd (executor records_state)) = []"
    by (simp add: records_state_def exec_state_new_def)
  from topdown_exactly_once [OF gw records_others_keep p serves sorted d]
  have "fst (snd (executor st')) = [sample_envelope 5]"
    unfolding w Let_def comp_def l n c by simp
  with d show ?thesis by blast
qed

end
