(* ===== verification/Actor_Runtime.thy ===== *)
theory Actor_Runtime
  imports IPC_Prelude
begin

text \<open>
  What the actors under \<open>fendermint/actors\<close> share: the part of the actor runtime they call, the
  key-value structures (HAMT and AMT) they keep in the block store, and the machine interface of
  \<open>machine/src/lib.rs\<close> with its write access.

  The runtime, the block store and the HAMT and AMT libraries are not part of the repository: the
  runtime is the record \<open>runtime\<close>, a structure is the record \<open>kv_lib\<close> of its operations, and both are
  arguments of the actors. \<open>runtime_ok\<close> and \<open>kv_ok\<close> say what the theorems rely on. Identifiers of
  blocks have the type \<open>'c\<close>, handles of structures in memory the type \<open>'h\<close>, block stores the type \<open>'s\<close>.
  A handler takes the state of the actor and the store and returns them updated; an error leaves
  both as they were, which is how the runtime treats a failed call.
\<close>

section \<open>Errors\<close>

datatype ActorExit = USR_FORBIDDEN | USR_ILLEGAL_STATE | USR_UNHANDLED_MESSAGE | OtherExit nat

record ActorError =
  ae_exit :: ActorExit
  ae_msg :: string

definition forbidden :: "string \<Rightarrow> ActorError" where
  "forbidden m = \<lparr>ae_exit = USR_FORBIDDEN, ae_msg = m\<rparr>"

text \<open>\<open>downcast_default\<close> on an error that is not an actor error.\<close>

definition downcast_default :: "ActorExit \<Rightarrow> string \<Rightarrow> (string, 'x) outcome \<Rightarrow> (ActorError, 'x) outcome" where
  "downcast_default code msg = map_err (\<lambda>e. \<lparr>ae_exit = code, ae_msg = msg @ '': '' @ e\<rparr>)"

lemma downcast_default_Ok [simp]: "downcast_default code msg (Ok x) = Ok x"
  by (simp add: downcast_default_def)

lemma downcast_default_Ok_iff [outcome_simps]: "downcast_default code msg m = Ok x \<longleftrightarrow> m = Ok x"
  by (simp add: downcast_default_def map_err_Ok_iff)

section \<open>Runtime\<close>

record 'a runtime =
  rt_caller :: 'a
  rt_validate_caller_is :: "'a list \<Rightarrow> (ActorError, unit) outcome"
  rt_validate_caller_any :: "(ActorError, unit) outcome"
  rt_resolve_address :: "'a \<Rightarrow> nat option"
  rt_id_address :: "nat \<Rightarrow> 'a"
  rt_init_actor :: 'a
  rt_system_actor :: 'a
  rt_first_exported :: nat

text \<open>The runtime lets exactly the listed callers pass.\<close>

definition runtime_ok :: "'a runtime \<Rightarrow> bool" where
  "runtime_ok rt =
     ((\<forall>as. rt_caller rt \<in> set as \<longrightarrow> rt_validate_caller_is rt as = Ok ()) \<and>
      (\<forall>as. rt_caller rt \<notin> set as \<longrightarrow> (\<exists>m. rt_validate_caller_is rt as = Err (forbidden m))) \<and>
      rt_validate_caller_any rt = Ok ())"

lemma runtime_okD:
  assumes "runtime_ok rt"
  shows caller_passes: "rt_caller rt \<in> set as \<Longrightarrow> rt_validate_caller_is rt as = Ok ()"
    and caller_refused: "rt_caller rt \<notin> set as \<Longrightarrow> \<exists>m. rt_validate_caller_is rt as = Err (forbidden m)"
    and any_passes: "rt_validate_caller_any rt = Ok ()"
  using assms unfolding runtime_ok_def by blast+

section \<open>Structures in the block store\<close>

record ('c, 'k, 'v, 'h, 's) kv_lib =
  kv_new :: "'s \<Rightarrow> 'h"
  kv_load :: "'s \<Rightarrow> 'c \<Rightarrow> (string, 'h) outcome"
  kv_get :: "'s \<Rightarrow> 'h \<Rightarrow> 'k \<Rightarrow> (string, 'v option) outcome"
  kv_set :: "'s \<Rightarrow> 'h \<Rightarrow> 'k \<Rightarrow> 'v \<Rightarrow> (string, 'h) outcome"
  kv_set_if_absent :: "'s \<Rightarrow> 'h \<Rightarrow> 'k \<Rightarrow> 'v \<Rightarrow> (string, bool \<times> 'h) outcome"
  kv_contains :: "'s \<Rightarrow> 'h \<Rightarrow> 'k \<Rightarrow> (string, bool) outcome"
  kv_delete :: "'s \<Rightarrow> 'h \<Rightarrow> 'k \<Rightarrow> (string, 'v option \<times> 'h) outcome"
  kv_count :: "'h \<Rightarrow> nat"
  kv_iter :: "'s \<Rightarrow> 'h \<Rightarrow> (string, 'k \<times> 'v) outcome list"
  kv_flush :: "'h \<Rightarrow> 's \<Rightarrow> (string, ('c \<times> 'h) \<times> 's) outcome"

text \<open>The operations work on finite maps. \<open>rep s h m\<close>: the handle \<open>h\<close> over the store \<open>s\<close> has the contents
  \<open>m\<close>; \<open>holds s c m\<close>: the store has a structure with the contents \<open>m\<close> under the identifier \<open>c\<close>;
  \<open>grow s s'\<close>: blocks have been added to \<open>s\<close>, and none is lost. A key that is not \<open>key_ok\<close> is refused
  by \<open>kv_set\<close>.\<close>

definition kv_ok ::
  "('c, 'k, 'v, 'h, 's) kv_lib \<Rightarrow> ('s \<Rightarrow> 'h \<Rightarrow> ('k \<rightharpoonup> 'v) \<Rightarrow> bool) \<Rightarrow> ('s \<Rightarrow> 'c \<Rightarrow> ('k \<rightharpoonup> 'v) \<Rightarrow> bool) \<Rightarrow>
     ('s \<Rightarrow> 's \<Rightarrow> bool) \<Rightarrow> ('k \<Rightarrow> bool) \<Rightarrow> bool" where
  "kv_ok lib rep holds grow key_ok =
     ((\<forall>s. rep s (kv_new lib s) Map.empty) \<and>
      (\<forall>s c m. holds s c m \<longrightarrow> (\<exists>h. kv_load lib s c = Ok h \<and> rep s h m)) \<and>
      (\<forall>s h m. rep s h m \<longrightarrow>
         (\<forall>k. kv_get lib s h k = Ok (m k)) \<and>
         (\<forall>k v. key_ok k \<longrightarrow> (\<exists>h'. kv_set lib s h k v = Ok h' \<and> rep s h' (m(k \<mapsto> v)))) \<and>
         (\<forall>k v. \<not> key_ok k \<longrightarrow> (\<exists>e. kv_set lib s h k v = Err e)) \<and>
         (\<forall>k v. key_ok k \<longrightarrow> (\<exists>h'. kv_set_if_absent lib s h k v = Ok (m k = None, h') \<and>
            rep s h' (if m k = None then m(k \<mapsto> v) else m))) \<and>
         (\<forall>k. kv_contains lib s h k = Ok (m k \<noteq> None)) \<and>
         (\<forall>k. \<exists>h'. kv_delete lib s h k = Ok (m k, h') \<and> rep s h' (m(k := None))) \<and>
         finite (dom m) \<and> kv_count lib h = card (dom m) \<and>
         (\<exists>kvs. kv_iter lib s h = map Ok kvs \<and> distinct (map fst kvs) \<and> map_of kvs = m) \<and>
         (\<exists>c h' s'. kv_flush lib h s = Ok ((c, h'), s') \<and> holds s' c m \<and> rep s' h' m \<and> grow s s') \<and>
         (\<forall>s'. grow s s' \<longrightarrow> rep s' h m)) \<and>
      (\<forall>s s' c m. grow s s' \<and> holds s c m \<longrightarrow> holds s' c m))"

text \<open>An array keeps its entries in the order of the indices.\<close>

definition iter_ordered :: "('c, nat, 'v, 'h, 's) kv_lib \<Rightarrow> ('s \<Rightarrow> 'h \<Rightarrow> (nat \<rightharpoonup> 'v) \<Rightarrow> bool) \<Rightarrow> bool" where
  "iter_ordered lib rep =
     (\<forall>s h m kvs. rep s h m \<and> kv_iter lib s h = map Ok kvs \<longrightarrow> sorted (map fst kvs))"

lemma kv_okD:
  assumes "kv_ok lib rep holds grow key_ok"
  shows kv_new_rep: "rep s (kv_new lib s) Map.empty"
    and kv_load_rep: "holds s c m \<Longrightarrow> \<exists>h. kv_load lib s c = Ok h \<and> rep s h m"
    and kv_get_rep: "rep s h m \<Longrightarrow> kv_get lib s h k = Ok (m k)"
    and kv_set_rep: "rep s h m \<Longrightarrow> key_ok k \<Longrightarrow> \<exists>h'. kv_set lib s h k v = Ok h' \<and> rep s h' (m(k \<mapsto> v))"
    and kv_set_refused: "rep s h m \<Longrightarrow> \<not> key_ok k \<Longrightarrow> \<exists>e. kv_set lib s h k v = Err e"
    and kv_set_if_absent_rep: "rep s h m \<Longrightarrow> key_ok k \<Longrightarrow>
      \<exists>h'. kv_set_if_absent lib s h k v = Ok (m k = None, h') \<and> rep s h' (if m k = None then m(k \<mapsto> v) else m)"
    and kv_contains_rep: "rep s h m \<Longrightarrow> kv_contains lib s h k = Ok (m k \<noteq> None)"
    and kv_delete_rep: "rep s h m \<Longrightarrow> \<exists>h'. kv_delete lib s h k = Ok (m k, h') \<and> rep s h' (m(k := None))"
    and kv_finite_rep: "rep s h m \<Longrightarrow> finite (dom m)"
    and kv_count_rep: "rep s h m \<Longrightarrow> kv_count lib h = card (dom m)"
    and kv_iter_rep: "rep s h m \<Longrightarrow> \<exists>kvs. kv_iter lib s h = map Ok kvs \<and> distinct (map fst kvs) \<and> map_of kvs = m"
    and kv_flush_rep: "rep s h m \<Longrightarrow>
      \<exists>c h' s'. kv_flush lib h s = Ok ((c, h'), s') \<and> holds s' c m \<and> rep s' h' m \<and> grow s s'"
    and kv_grow_rep: "rep s h m \<Longrightarrow> grow s s' \<Longrightarrow> rep s' h m"
    and kv_grow_holds: "holds s c m \<Longrightarrow> grow s s' \<Longrightarrow> holds s' c m"
  using assms unfolding kv_ok_def by meson+

text \<open>A structure in memory: the identifier wraps the contents.\<close>

definition mem_kv_of ::
  "(('k \<times> 'v) list \<Rightarrow> 'c) \<Rightarrow> ('c \<Rightarrow> ('k \<times> 'v) list option) \<Rightarrow> ('k \<Rightarrow> bool) \<Rightarrow>
     ('c, 'k::linorder, 'v, ('k \<times> 'v) list, unit) kv_lib" where
  "mem_kv_of wrap content key_ok =
     \<lparr>kv_new = (\<lambda>_. []),
      kv_load = (\<lambda>_ c. case content c of Some h \<Rightarrow> if om_wf h then Ok h else Err ''malformed'' | None \<Rightarrow> Err ''missing''),
      kv_get = (\<lambda>_ h k. Ok (map_of h k)),
      kv_set = (\<lambda>_ h k v. if key_ok k then Ok (om_insert k v h) else Err ''out of range''),
      kv_set_if_absent = (\<lambda>_ h k v. Ok (map_of h k = None, if map_of h k = None then om_insert k v h else h)),
      kv_contains = (\<lambda>_ h k. Ok (map_of h k \<noteq> None)),
      kv_delete = (\<lambda>_ h k. Ok (map_of h k, filter (\<lambda>e. fst e \<noteq> k) h)),
      kv_count = length,
      kv_iter = (\<lambda>_ h. map Ok h),
      kv_flush = (\<lambda>h s. Ok ((wrap h, h), s))\<rparr>"

definition mem_kv :: "(('k \<times> 'v) list, 'k::linorder, 'v, ('k \<times> 'v) list, unit) kv_lib" where
  "mem_kv = mem_kv_of id Some (\<lambda>_. True)"

lemma map_of_filter_key: "map_of (filter (\<lambda>e. fst e \<noteq> k) h) = (map_of h)(k := None)"
  by (induction h) (auto simp: fun_eq_iff)

definition mem_rep :: "unit \<Rightarrow> ('k::linorder \<times> 'v) list \<Rightarrow> ('k \<rightharpoonup> 'v) \<Rightarrow> bool" where
  "mem_rep s h m = (om_wf h \<and> map_of h = m)"

lemma mem_kv_of_ok:
  assumes "\<And>h. content (wrap h) = Some h"
  shows "kv_ok (mem_kv_of wrap content key_ok) mem_rep (\<lambda>s c m. \<exists>h. content c = Some h \<and> mem_rep s h m)
     (\<lambda>_ _. True) key_ok"
  unfolding kv_ok_def mem_kv_of_def mem_rep_def
  by (simp add: assms om_wf_filter map_of_filter_key om_wf_distinct card_dom_map_of finite_dom_map_of
      ext [OF om_get_insert] fun_upd_def) (force intro: om_wf_distinct simp: map_of_eq_None_iff)

lemma mem_iter_ordered_of: "iter_ordered (mem_kv_of wrap content key_ok) mem_rep"
  by (auto simp: iter_ordered_def mem_kv_of_def mem_rep_def strict_sorted_iff inj_map_eq_map inj_def)

lemma mem_kv_ok: "kv_ok mem_kv mem_rep mem_rep (\<lambda>_ _. True) (\<lambda>_. True)"
  using mem_kv_of_ok [of Some id "\<lambda>_. True"] by (simp add: mem_kv_def)

section \<open>Machines\<close>

datatype WriteAccess = OnlyOwner | PublicAccess

definition write_access_from_str :: "string \<Rightarrow> (string, WriteAccess) outcome" where
  "write_access_from_str s =
     (if s = ''onlyowner'' then Ok OnlyOwner
      else if s = ''public'' then Ok PublicAccess
      else Err ''invalid write access'')"

fun write_access_to_str :: "WriteAccess \<Rightarrow> string" where
  "write_access_to_str OnlyOwner = ''onlyowner''"
| "write_access_to_str PublicAccess = ''public''"

lemma write_access_roundtrip: "write_access_from_str (write_access_to_str w) = Ok w"
  by (cases w) (simp_all add: write_access_from_str_def)

record 'a MachineParams =
  mp_creator :: 'a
  mp_write_access :: WriteAccess

definition ensure_write_allowed :: "'a runtime \<Rightarrow> 'a \<Rightarrow> WriteAccess \<Rightarrow> (ActorError, unit) outcome" where
  "ensure_write_allowed rt owner access =
     (case access of
        OnlyOwner \<Rightarrow>
          (case rt_resolve_address rt owner of
             Some owner_id \<Rightarrow> rt_validate_caller_is rt [rt_id_address rt owner_id]
           | None \<Rightarrow> Err (forbidden ''failed to resolve machine owner id''))
      | PublicAccess \<Rightarrow> rt_validate_caller_any rt)"

datatype MachineKind = ObjectStoreKind | AccumulatorKind

record 'a Metadata =
  md_kind :: MachineKind
  md_owner :: 'a

definition get_metadata :: "'a runtime \<Rightarrow> 'a \<Rightarrow> MachineKind \<Rightarrow> (ActorError, 'a Metadata) outcome" where
  "get_metadata rt owner kind =
     obind (rt_validate_caller_any rt) (\<lambda>_. Ok \<lparr>md_kind = kind, md_owner = owner\<rparr>)"

text \<open>Methods that no actor implements.\<close>

definition actor_fallback :: "'a runtime \<Rightarrow> nat \<Rightarrow> (ActorError, nat list option) outcome" where
  "actor_fallback rt method =
     obind (rt_validate_caller_any rt) (\<lambda>_.
     if rt_first_exported rt \<le> method then Ok None
     else Err \<lparr>ae_exit = USR_UNHANDLED_MESSAGE, ae_msg = ''invalid method''\<rparr>)"

text \<open>Who may write.\<close>

definition may_write :: "'a runtime \<Rightarrow> 'a \<Rightarrow> WriteAccess \<Rightarrow> bool" where
  "may_write rt owner access =
     (access = PublicAccess \<or> (\<exists>i. rt_resolve_address rt owner = Some i \<and> rt_caller rt = rt_id_address rt i))"

lemma ensure_write_allowed_iff:
  assumes "runtime_ok rt"
  shows "ensure_write_allowed rt owner access = Ok () \<longleftrightarrow> may_write rt owner access"
    and "\<not> may_write rt owner access \<Longrightarrow> \<exists>m. ensure_write_allowed rt owner access = Err (forbidden m)"
proof -
  note all = any_passes [OF assms] and is1 = caller_passes [OF assms] and is2 = caller_refused [OF assms]
  have none: "rt_resolve_address rt owner = None \<Longrightarrow> access = OnlyOwner \<Longrightarrow>
      ensure_write_allowed rt owner access = Err (forbidden ''failed to resolve machine owner id'')"
    by (simp add: ensure_write_allowed_def)
  show no: "\<exists>m. ensure_write_allowed rt owner access = Err (forbidden m)" if "\<not> may_write rt owner access"
  proof (cases "rt_resolve_address rt owner")
    case None
    with that none show ?thesis by (cases access) (auto simp: may_write_def)
  next
    case (Some i)
    with that is2 [of "[rt_id_address rt i]"] show ?thesis
      by (cases access) (auto simp: may_write_def ensure_write_allowed_def)
  qed
  have "ensure_write_allowed rt owner access = Ok ()" if "may_write rt owner access"
    using that all is1 by (cases access) (auto simp: may_write_def ensure_write_allowed_def)
  with no show "ensure_write_allowed rt owner access = Ok () \<longleftrightarrow> may_write rt owner access" by fastforce
qed

text \<open>A runtime in which every address is its own identifier.\<close>

definition sample_runtime :: "nat \<Rightarrow> nat runtime" where
  "sample_runtime c =
     \<lparr>rt_caller = c,
      rt_validate_caller_is = (\<lambda>as. if c \<in> set as then Ok () else Err (forbidden ''caller'')),
      rt_validate_caller_any = Ok (), rt_resolve_address = Some, rt_id_address = id,
      rt_init_actor = 1, rt_system_actor = 0, rt_first_exported = 2 ^ 24\<rparr>"

lemma sample_runtime_ok: "runtime_ok (sample_runtime c)"
  by (auto simp: runtime_ok_def sample_runtime_def)

end
