(* ===== verification/Object_Store.thy ===== *)
theory Object_Store
  imports Actor_Runtime "HOL-Library.Sublist" "HOL-Library.List_Lexorder"
begin

text \<open>
  The object store actor, \<open>fendermint/actors/objectstore/src/state.rs\<close> and \<open>actor.rs\<close>: objects under
  byte keys in a HAMT, with their content identifier and a flag that says whether the content has
  been resolved. Users add and delete objects as far as the write access of the machine allows, the
  system resolves them, and everybody may get and list them.

  Keys, identifiers of contents and strings are lists of bytes; \<open>utf8_valid\<close> and the slicing of
  strings follow Rust's standard library, including the panic on a slice that cuts a character.
\<close>

section \<open>Strings\<close>

definition utf8_cont :: "nat \<Rightarrow> bool" where
  "utf8_cont b = (128 \<le> b \<and> b < 192)"

text \<open>The bytes that may follow the first byte of a character of three or four bytes.\<close>

definition utf8_second :: "nat \<Rightarrow> nat \<Rightarrow> bool" where
  "utf8_second a b =
     (utf8_cont b \<and> (a = 224 \<longrightarrow> 160 \<le> b) \<and> (a = 237 \<longrightarrow> b < 160) \<and> (a = 240 \<longrightarrow> 144 \<le> b) \<and> (a = 244 \<longrightarrow> b < 144))"

fun utf8_valid :: "nat list \<Rightarrow> bool" where
  "utf8_valid [] = True"
| "utf8_valid [a] = (a < 128)"
| "utf8_valid [a, b] =
     (if a < 128 then utf8_valid [b] else 194 \<le> a \<and> a < 224 \<and> utf8_cont b)"
| "utf8_valid [a, b, c] =
     (if a < 128 then utf8_valid [b, c]
      else if a < 224 then 194 \<le> a \<and> utf8_cont b \<and> utf8_valid [c]
      else a < 240 \<and> utf8_second a b \<and> utf8_cont c)"
| "utf8_valid (a # b # c # d # r) =
     (if a < 128 then utf8_valid (b # c # d # r)
      else if a < 224 then 194 \<le> a \<and> utf8_cont b \<and> utf8_valid (c # d # r)
      else if a < 240 then utf8_second a b \<and> utf8_cont c \<and> utf8_valid (d # r)
      else a < 245 \<and> utf8_second a b \<and> utf8_cont c \<and> utf8_cont d \<and> utf8_valid r)"

definition from_utf8 :: "nat list \<Rightarrow> (string, nat list) outcome" where
  "from_utf8 bs = (if utf8_valid bs then Ok bs else Err ''invalid utf-8 sequence'')"

definition is_char_boundary :: "nat list \<Rightarrow> nat \<Rightarrow> bool" where
  "is_char_boundary k i = (i = 0 \<or> i = length k \<or> i < length k \<and> \<not> utf8_cont (k ! i))"

text \<open>\<open>s[i..]\<close> and \<open>s[..=i]\<close>.\<close>

definition str_from :: "nat \<Rightarrow> nat list \<Rightarrow> ('e, nat list) outcome" where
  "str_from i k = (if is_char_boundary k i then Ok (drop i k) else Panic)"

definition str_upto_incl :: "nat \<Rightarrow> nat list \<Rightarrow> ('e, nat list) outcome" where
  "str_upto_incl i k = (if is_char_boundary k (Suc i) then Ok (take (Suc i) k) else Panic)"

text \<open>\<open>str::find\<close>. Between valid strings a match of bytes is a match of characters.\<close>

fun str_find :: "nat list \<Rightarrow> nat list \<Rightarrow> nat option" where
  "str_find d [] = (if d = [] then Some 0 else None)"
| "str_find d (c # s) = (if prefix d (c # s) then Some 0 else map_option Suc (str_find d s))"

definition bset_insert :: "'x::linorder \<Rightarrow> 'x list \<Rightarrow> 'x list" where
  "bset_insert x xs = (if x \<in> set xs then xs else insort x xs)"

section \<open>State\<close>

record StoredObject =
  so_cid :: "nat list"
  so_size :: nat
  so_resolved :: bool
  so_metadata :: "(string, string) hmap"

record ObjectList =
  ol_objects :: "(nat list \<times> StoredObject) list"
  ol_common_prefixes :: "nat list list"

record ('a, 'c) ObjectStore =
  os_owner :: 'a
  os_write_access :: WriteAccess
  os_root :: 'c

definition MAX_LIST_LIMIT :: nat where
  "MAX_LIST_LIMIT = 10000"

definition os_new ::
  "('c, nat list, StoredObject, 'h, 's) kv_lib \<Rightarrow> 'a \<Rightarrow> WriteAccess \<Rightarrow> 's \<Rightarrow>
     (string, ('a, 'c) ObjectStore \<times> 's) outcome" where
  "os_new lib creator access s =
     obind (map_err (\<lambda>e. ''objectstore actor failed to create empty Hamt: '' @ e) (kv_flush lib (kv_new lib s) s))
       (\<lambda>((c, _), s). Ok (\<lparr>os_owner = creator, os_write_access = access, os_root = c\<rparr>, s))"

definition os_add ::
  "('c, nat list, StoredObject, 'h, 's) kv_lib \<Rightarrow> nat list \<Rightarrow> nat list \<Rightarrow> nat \<Rightarrow> (string, string) hmap \<Rightarrow> bool \<Rightarrow>
     ('a, 'c) ObjectStore \<Rightarrow> 's \<Rightarrow> (string, 'c \<times> ('a, 'c) ObjectStore \<times> 's) outcome" where
  "os_add lib key cid sz metadata overwrite st s =
     obind (kv_load lib s (os_root st)) (\<lambda>hamt.
     let object = \<lparr>so_cid = cid, so_size = sz, so_resolved = False, so_metadata = metadata\<rparr> in
     obind (if overwrite then kv_set lib s hamt key object
            else omap snd (kv_set_if_absent lib s hamt key object)) (\<lambda>hamt.
     obind (kv_flush lib hamt s) (\<lambda>((c, _), s).
     Ok (c, st\<lparr>os_root := c\<rparr>, s))))"

definition os_resolve ::
  "('c, nat list, StoredObject, 'h, 's) kv_lib \<Rightarrow> nat list \<Rightarrow> nat list \<Rightarrow> ('a, 'c) ObjectStore \<Rightarrow> 's \<Rightarrow>
     (string, ('a, 'c) ObjectStore \<times> 's) outcome" where
  "os_resolve lib key val st s =
     obind (kv_load lib s (os_root st)) (\<lambda>hamt.
     obind (kv_get lib s hamt key) (\<lambda>r.
     case r of
       Some object \<Rightarrow>
         if so_cid object = val then
           obind (kv_set lib s hamt key (object\<lparr>so_resolved := True\<rparr>)) (\<lambda>hamt.
           obind (kv_flush lib hamt s) (\<lambda>((c, _), s).
           Ok (st\<lparr>os_root := c\<rparr>, s)))
         else Ok (st, s)
     | None \<Rightarrow> Ok (st, s)))"

definition os_delete ::
  "('c, nat list, StoredObject, 'h, 's) kv_lib \<Rightarrow> nat list \<Rightarrow> ('a, 'c) ObjectStore \<Rightarrow> 's \<Rightarrow>
     (string, (StoredObject option \<times> 'c) \<times> ('a, 'c) ObjectStore \<times> 's) outcome" where
  "os_delete lib key st s =
     obind (kv_load lib s (os_root st)) (\<lambda>hamt.
     obind (kv_contains lib s hamt key) (\<lambda>present.
     if present then
       obind (kv_delete lib s hamt key) (\<lambda>(object, hamt).
       obind (kv_flush lib hamt s) (\<lambda>((c, _), s).
       Ok ((object, c), st\<lparr>os_root := c\<rparr>, s)))
     else Err ''key not found''))"

definition os_get ::
  "('c, nat list, StoredObject, 'h, 's) kv_lib \<Rightarrow> nat list \<Rightarrow> ('a, 'c) ObjectStore \<Rightarrow> 's \<Rightarrow>
     (string, StoredObject option) outcome" where
  "os_get lib key st s = obind (kv_load lib s (os_root st)) (\<lambda>hamt. kv_get lib s hamt key)"

text \<open>The part of a key up to and including the first byte of the delimiter, when the delimiter occurs
  behind the prefix.\<close>

definition common_prefix_of :: "nat list \<Rightarrow> nat list \<Rightarrow> nat list \<Rightarrow> (string, nat list option) outcome" where
  "common_prefix_of pre delimiter key =
     (if delimiter = [] then Ok None
      else obind (from_utf8 pre) (\<lambda>utf8_prefix.
      let prefix_length = length utf8_prefix in
      obind (from_utf8 key) (\<lambda>utf8_key.
      obind (from_utf8 delimiter) (\<lambda>utf8_delimiter.
      obind (str_from prefix_length utf8_key) (\<lambda>rest.
      case str_find utf8_delimiter rest of
        Some index \<Rightarrow> omap Some (str_upto_incl (index + prefix_length) utf8_key)
      | None \<Rightarrow> Ok None)))))"

fun list_loop ::
  "nat list \<Rightarrow> nat list \<Rightarrow> nat \<Rightarrow> nat \<Rightarrow> (string, nat list \<times> StoredObject) outcome list \<Rightarrow>
     (nat list \<times> StoredObject) list \<Rightarrow> nat list list \<Rightarrow> nat \<Rightarrow> (string, ObjectList) outcome" where
  "list_loop pre delimiter offset limit [] objects common_prefixes count =
     Ok \<lparr>ol_objects = objects, ol_common_prefixes = common_prefixes\<rparr>"
| "list_loop pre delimiter offset limit (pair # rest) objects common_prefixes count =
     obind pair (\<lambda>(key, v).
     if pre \<noteq> [] \<and> \<not> prefix pre key
     then list_loop pre delimiter offset limit rest objects common_prefixes count
     else obind (common_prefix_of pre delimiter key) (\<lambda>sub.
     case sub of
       Some p \<Rightarrow> list_loop pre delimiter offset limit rest objects (bset_insert p common_prefixes) count
     | None \<Rightarrow>
         if Suc count \<le> offset
         then list_loop pre delimiter offset limit rest objects common_prefixes (Suc count)
         else if 0 < limit \<and> limit \<le> length (objects @ [(key, v)])
         then Ok \<lparr>ol_objects = objects @ [(key, v)], ol_common_prefixes = common_prefixes\<rparr>
         else list_loop pre delimiter offset limit rest (objects @ [(key, v)]) common_prefixes (Suc count)))"

definition list_limit :: "nat \<Rightarrow> nat" where
  "list_limit limit = (if limit = 0 then MAX_LIST_LIMIT else min limit MAX_LIST_LIMIT)"

definition os_list ::
  "('c, nat list, StoredObject, 'h, 's) kv_lib \<Rightarrow> nat list \<Rightarrow> nat list \<Rightarrow> nat \<Rightarrow> nat \<Rightarrow>
     ('a, 'c) ObjectStore \<Rightarrow> 's \<Rightarrow> (string, ObjectList) outcome" where
  "os_list lib pre delimiter offset limit st s =
     obind (kv_load lib s (os_root st)) (\<lambda>hamt.
     list_loop pre delimiter offset (list_limit limit) (kv_iter lib s hamt) [] [] 0)"

section \<open>Methods\<close>

definition os_constructor ::
  "('c, nat list, StoredObject, 'h, 's) kv_lib \<Rightarrow> 'a runtime \<Rightarrow> 'a MachineParams \<Rightarrow> 's \<Rightarrow>
     (ActorError, ('a, 'c) ObjectStore \<times> 's) outcome" where
  "os_constructor lib rt ps s =
     obind (rt_validate_caller_is rt [rt_init_actor rt]) (\<lambda>_.
     downcast_default USR_ILLEGAL_STATE ''failed to construct empty store''
       (os_new lib (mp_creator ps) (mp_write_access ps) s))"

record AddParams =
  ap_key :: "nat list"
  ap_cid :: "nat list"
  ap_size :: nat
  ap_metadata :: "(string, string) hmap"
  ap_overwrite :: bool

definition add_object ::
  "('c, nat list, StoredObject, 'h, 's) kv_lib \<Rightarrow> 'a runtime \<Rightarrow> AddParams \<Rightarrow> ('a, 'c) ObjectStore \<Rightarrow> 's \<Rightarrow>
     (ActorError, 'c \<times> ('a, 'c) ObjectStore \<times> 's) outcome" where
  "add_object lib rt ps st s =
     obind (ensure_write_allowed rt (os_owner st) (os_write_access st)) (\<lambda>_.
     downcast_default USR_ILLEGAL_STATE ''failed to add object''
       (os_add lib (ap_key ps) (ap_cid ps) (ap_size ps) (ap_metadata ps) (ap_overwrite ps) st s))"

definition resolve_object ::
  "('c, nat list, StoredObject, 'h, 's) kv_lib \<Rightarrow> 'a runtime \<Rightarrow> nat list \<Rightarrow> nat list \<Rightarrow> ('a, 'c) ObjectStore \<Rightarrow> 's \<Rightarrow>
     (ActorError, ('a, 'c) ObjectStore \<times> 's) outcome" where
  "resolve_object lib rt key val st s =
     obind (rt_validate_caller_is rt [rt_system_actor rt]) (\<lambda>_.
     downcast_default USR_ILLEGAL_STATE ''failed to resolve object'' (os_resolve lib key val st s))"

definition delete_object ::
  "('c, nat list, StoredObject, 'h, 's) kv_lib \<Rightarrow> 'a runtime \<Rightarrow> nat list \<Rightarrow> ('a, 'c) ObjectStore \<Rightarrow> 's \<Rightarrow>
     (ActorError, 'c \<times> ('a, 'c) ObjectStore \<times> 's) outcome" where
  "delete_object lib rt key st s =
     obind (ensure_write_allowed rt (os_owner st) (os_write_access st)) (\<lambda>_.
     omap (\<lambda>((object, c), st, s). (c, st, s))
       (downcast_default USR_ILLEGAL_STATE ''failed to delete object'' (os_delete lib key st s)))"

definition get_object ::
  "('c, nat list, StoredObject, 'h, 's) kv_lib \<Rightarrow> 'a runtime \<Rightarrow> nat list \<Rightarrow> ('a, 'c) ObjectStore \<Rightarrow> 's \<Rightarrow>
     (ActorError, StoredObject option) outcome" where
  "get_object lib rt key st s =
     obind (rt_validate_caller_any rt) (\<lambda>_.
     downcast_default USR_ILLEGAL_STATE ''failed to get object'' (os_get lib key st s))"

record ListParams =
  lp_prefix :: "nat list"
  lp_delimiter :: "nat list"
  lp_offset :: nat
  lp_limit :: nat

definition list_objects ::
  "('c, nat list, StoredObject, 'h, 's) kv_lib \<Rightarrow> 'a runtime \<Rightarrow> ListParams \<Rightarrow> ('a, 'c) ObjectStore \<Rightarrow> 's \<Rightarrow>
     (ActorError, ObjectList) outcome" where
  "list_objects lib rt ps st s =
     obind (rt_validate_caller_any rt) (\<lambda>_.
     downcast_default USR_ILLEGAL_STATE ''failed to list objects''
       (os_list lib (lp_prefix ps) (lp_delimiter ps) (lp_offset ps) (lp_limit ps) st s))"

section \<open>Histories\<close>

datatype os_call =
    AddObject AddParams
  | ResolveObject "nat list" "nat list"
  | DeleteObject "nat list"

text \<open>The runtime commits the state of a call that succeeds and drops that of one that fails.\<close>

definition commit :: "(ActorError, 'x) outcome \<Rightarrow> 'x \<Rightarrow> 'x" where
  "commit r x = (case r of Ok y \<Rightarrow> y | _ \<Rightarrow> x)"

fun os_exec ::
  "('c, nat list, StoredObject, 'h, 's) kv_lib \<Rightarrow> 'a runtime \<times> os_call \<Rightarrow> ('a, 'c) ObjectStore \<times> 's \<Rightarrow>
     ('a, 'c) ObjectStore \<times> 's" where
  "os_exec lib (rt, AddObject ps) (st, s) = commit (omap snd (add_object lib rt ps st s)) (st, s)"
| "os_exec lib (rt, ResolveObject key val) (st, s) = commit (resolve_object lib rt key val st s) (st, s)"
| "os_exec lib (rt, DeleteObject key) (st, s) = commit (omap snd (delete_object lib rt key st s)) (st, s)"

section \<open>Specification\<close>

text \<open>What a call does to the objects, when the machine belongs to \<open>owner\<close>.\<close>

type_synonym objects = "nat list \<rightharpoonup> StoredObject"

definition new_object :: "AddParams \<Rightarrow> StoredObject" where
  "new_object ps = \<lparr>so_cid = ap_cid ps, so_size = ap_size ps, so_resolved = False, so_metadata = ap_metadata ps\<rparr>"

fun os_spec :: "'a \<Rightarrow> WriteAccess \<Rightarrow> 'a runtime \<times> os_call \<Rightarrow> objects \<Rightarrow> objects" where
  "os_spec owner access (rt, AddObject ps) m =
     (if may_write rt owner access \<and> (ap_overwrite ps \<or> m (ap_key ps) = None)
      then m(ap_key ps \<mapsto> new_object ps) else m)"
| "os_spec owner access (rt, ResolveObject key val) m =
     (case m key of
        Some ob \<Rightarrow>
          if rt_caller rt = rt_system_actor rt \<and> so_cid ob = val
          then m(key \<mapsto> ob\<lparr>so_resolved := True\<rparr>) else m
      | None \<Rightarrow> m)"
| "os_spec owner access (rt, DeleteObject key) m = (if may_write rt owner access then m(key := None) else m)"

abbreviation os_run where
  "os_run lib calls \<equiv> fold (os_exec lib) calls"

abbreviation os_spec_run where
  "os_spec_run owner access calls \<equiv> fold (os_spec owner access) calls"

section \<open>Operations on maps\<close>

lemma os_new_holds:
  assumes lib: "kv_ok lib rep holds grow key_ok"
  shows "\<exists>c s'. os_new lib owner access s = Ok (\<lparr>os_owner = owner, os_write_access = access, os_root = c\<rparr>, s') \<and>
     holds s' c Map.empty"
  using kv_flush_rep [OF lib kv_new_rep [OF lib], of s] by (auto simp: os_new_def)

lemma os_add_holds:
  assumes lib: "kv_ok lib rep holds grow (\<lambda>_. True)" and m: "holds s (os_root st) m"
  shows "\<exists>c s'. os_add lib (ap_key ps) (ap_cid ps) (ap_size ps) (ap_metadata ps) (ap_overwrite ps) st s =
       Ok (c, st\<lparr>os_root := c\<rparr>, s') \<and>
     holds s' c (if ap_overwrite ps \<or> m (ap_key ps) = None then m(ap_key ps \<mapsto> new_object ps) else m)"
proof -
  let ?ob = "new_object ps" and ?key = "ap_key ps" and ?overwrite = "ap_overwrite ps"
  let ?m = "if ?overwrite \<or> m ?key = None then m(?key \<mapsto> ?ob) else m"
  obtain h where h: "kv_load lib s (os_root st) = Ok h" "rep s h m" using kv_load_rep [OF lib, OF m] by blast
  obtain h' where h': "(if ?overwrite then kv_set lib s h ?key ?ob
      else omap snd (kv_set_if_absent lib s h ?key ?ob)) = Ok h'" "rep s h' ?m"
    using kv_set_rep [OF lib, OF h(2), of ?key ?ob] kv_set_if_absent_rep [OF lib, OF h(2), of ?key ?ob]
    by (cases ?overwrite) auto
  obtain c h'' s' where "kv_flush lib h' s = Ok ((c, h''), s')" "holds s' c ?m"
    using kv_flush_rep [OF lib, OF h'(2)] by (elim exE conjE) (rule that)
  with h(1) h'(1) show ?thesis by (auto simp: os_add_def new_object_def Let_def)
qed

lemma os_resolve_holds:
  assumes lib: "kv_ok lib rep holds grow (\<lambda>_. True)" and m: "holds s (os_root st) m"
  shows "\<exists>c s'. os_resolve lib key val st s = Ok (st\<lparr>os_root := c\<rparr>, s') \<and>
     holds s' c (case m key of
        Some ob \<Rightarrow> if so_cid ob = val then m(key \<mapsto> ob\<lparr>so_resolved := True\<rparr>) else m
      | None \<Rightarrow> m)"
proof -
  obtain h where h: "kv_load lib s (os_root st) = Ok h" "rep s h m" using kv_load_rep [OF lib, OF m] by blast
  note get = kv_get_rep [OF lib, OF h(2), of key]
  show ?thesis
  proof (cases "\<exists>ob. m key = Some ob \<and> so_cid ob = val")
    case True
    then obtain ob where ob: "m key = Some ob" "so_cid ob = val" by blast
    obtain h' where h': "kv_set lib s h key (ob\<lparr>so_resolved := True\<rparr>) = Ok h'"
        "rep s h' (m(key \<mapsto> ob\<lparr>so_resolved := True\<rparr>))"
      using kv_set_rep [OF lib, OF h(2)] by blast
    obtain c h'' s' where "kv_flush lib h' s = Ok ((c, h''), s')" "holds s' c (m(key \<mapsto> ob\<lparr>so_resolved := True\<rparr>))"
      using kv_flush_rep [OF lib, OF h'(2)] by (elim exE conjE) (rule that)
    with h(1) h'(1) ob get show ?thesis by (auto simp: os_resolve_def)
  next
    case False
    from False get h(1) have "os_resolve lib key val st s = Ok (st\<lparr>os_root := os_root st\<rparr>, s)"
      by (auto simp: os_resolve_def split: option.splits)
    with m False show ?thesis
      by (intro exI [of _ "os_root st"] exI [of _ s]) (auto split: option.splits)
  qed
qed

lemma os_delete_holds:
  assumes lib: "kv_ok lib rep holds grow (\<lambda>_. True)" and m: "holds s (os_root st) m"
  shows "if m key = None then os_delete lib key st s = Err ''key not found''
     else \<exists>c s'. os_delete lib key st s = Ok ((m key, c), st\<lparr>os_root := c\<rparr>, s') \<and> holds s' c (m(key := None))"
proof -
  obtain h where h: "kv_load lib s (os_root st) = Ok h" "rep s h m" using kv_load_rep [OF lib, OF m] by blast
  note present = kv_contains_rep [OF lib, OF h(2), of key]
  obtain h' where h': "kv_delete lib s h key = Ok (m key, h')" "rep s h' (m(key := None))"
    using kv_delete_rep [OF lib, OF h(2)] by blast
  obtain c h'' s' where "kv_flush lib h' s = Ok ((c, h''), s')" "holds s' c (m(key := None))"
    using kv_flush_rep [OF lib, OF h'(2)] by (elim exE conjE) (rule that)
  with h(1) h'(1) present show ?thesis by (auto simp: os_delete_def)
qed

lemma os_get_holds:
  assumes lib: "kv_ok lib rep holds grow key_ok" and m: "holds s (os_root st) m"
  shows "os_get lib key st s = Ok (m key)"
proof -
  obtain h where h: "kv_load lib s (os_root st) = Ok h" "rep s h m" using kv_load_rep [OF lib, OF m] by blast
  with kv_get_rep [OF lib, OF h(2)] show ?thesis by (simp add: os_get_def)
qed

section \<open>Refinement\<close>

lemma os_exec_refines:
  assumes lib: "kv_ok lib rep holds grow (\<lambda>_. True)" and rt: "runtime_ok (fst call)"
    and m: "holds s (os_root st) m" and e: "os_exec lib call (st, s) = (st', s')"
  shows "holds s' (os_root st') (os_spec (os_owner st) (os_write_access st) call m) \<and>
     os_owner st' = os_owner st \<and> os_write_access st' = os_write_access st"
proof -
  obtain rt op where call: "call = (rt, op)" by (cases call)
  with rt have rt: "runtime_ok rt" by simp
  note wr = ensure_write_allowed_iff [OF rt, of "os_owner st" "os_write_access st"]
  show ?thesis
  proof (cases op)
    case (AddObject ps)
    show ?thesis
    proof (cases "may_write rt (os_owner st) (os_write_access st)")
      case True
      obtain c s1 where
        "os_add lib (ap_key ps) (ap_cid ps) (ap_size ps) (ap_metadata ps) (ap_overwrite ps) st s = Ok (c, st\<lparr>os_root := c\<rparr>, s1)"
        "holds s1 c (if ap_overwrite ps \<or> m (ap_key ps) = None then m(ap_key ps \<mapsto> new_object ps) else m)"
        using os_add_holds [OF lib, OF m, of ps] by (elim exE conjE) (rule that)
      moreover from this(1) True wr(1) e have "st' = st\<lparr>os_root := c\<rparr>" "s' = s1"
        by (simp_all add: call AddObject add_object_def commit_def)
      ultimately show ?thesis using True by (simp add: call AddObject)
    next
      case False
      then show ?thesis using e wr m by (auto simp: call AddObject add_object_def commit_def)
    qed
  next
    case (ResolveObject key val)
    show ?thesis
    proof (cases "rt_caller rt = rt_system_actor rt")
      case True
      then have "rt_validate_caller_is rt [rt_system_actor rt] = Ok ()" using caller_passes [OF rt] by simp
      moreover obtain c s1 where
        r: "os_resolve lib key val st s = Ok (st\<lparr>os_root := c\<rparr>, s1)"
          "holds s1 c (case m key of
             Some ob \<Rightarrow> if so_cid ob = val then m(key \<mapsto> ob\<lparr>so_resolved := True\<rparr>) else m
           | None \<Rightarrow> m)"
        using os_resolve_holds [OF lib, OF m, of key val] by (elim exE conjE) (rule that)
      ultimately have "st' = st\<lparr>os_root := c\<rparr>" "s' = s1"
        using e by (simp_all add: call ResolveObject resolve_object_def commit_def)
      with r(2) True show ?thesis by (cases "m key") (simp_all add: call ResolveObject)
    next
      case False
      then obtain msg where "rt_validate_caller_is rt [rt_system_actor rt] = Err (forbidden msg)"
        using caller_refused [OF rt, of "[rt_system_actor rt]"] by auto
      then show ?thesis using e False m
        by (auto simp: call ResolveObject resolve_object_def commit_def split: option.splits)
    qed
  next
    case (DeleteObject key)
    show ?thesis
    proof (cases "may_write rt (os_owner st) (os_write_access st)")
      case True
      show ?thesis
      proof (cases "m key = None")
        case absent: True
        then have "st' = st" "s' = s"
          using e True wr(1) os_delete_holds [OF lib m, of key]
          by (simp_all add: call DeleteObject delete_object_def commit_def downcast_default_def)
        moreover from absent have "m(key := None) = m" by auto
        ultimately show ?thesis using m True by (simp add: call DeleteObject)
      next
        case False
        then obtain c s1 where
          d: "os_delete lib key st s = Ok ((m key, c), st\<lparr>os_root := c\<rparr>, s1)" "holds s1 c (m(key := None))"
          using os_delete_holds [OF lib m, of key] by auto
        then have "st' = st\<lparr>os_root := c\<rparr>" "s' = s1"
          using e True wr(1) by (simp_all add: call DeleteObject delete_object_def commit_def)
        with d(2) True show ?thesis by (simp add: call DeleteObject)
      qed
    next
      case False
      then show ?thesis using e wr m by (auto simp: call DeleteObject delete_object_def commit_def)
    qed
  qed
qed

lemma os_run_refines:
  assumes lib: "kv_ok lib rep holds grow (\<lambda>_. True)" and rt: "\<forall>call \<in> set calls. runtime_ok (fst call)"
    and m: "holds s (os_root st) m" and e: "os_run lib calls (st, s) = (st', s')"
  shows "holds s' (os_root st') (os_spec_run (os_owner st) (os_write_access st) calls m) \<and>
     os_owner st' = os_owner st \<and> os_write_access st' = os_write_access st"
  using rt m e
proof (induction calls arbitrary: st s m)
  case Nil
  then show ?case by simp
next
  case (Cons call calls)
  obtain st1 s1 where step: "os_exec lib call (st, s) = (st1, s1)" by fastforce
  from os_exec_refines [OF lib _ Cons.prems(2) step] Cons.prems(1)
  have m1: "holds s1 (os_root st1) (os_spec (os_owner st) (os_write_access st) call m)"
    and same: "os_owner st1 = os_owner st" "os_write_access st1 = os_write_access st" by auto
  have rt': "\<forall>call \<in> set calls. runtime_ok (fst call)" using Cons.prems(1) by simp
  have e': "os_run lib calls (st1, s1) = (st', s')" using Cons.prems(3) step by simp
  from Cons.IH [OF rt' m1 e'] same show ?case by simp
qed

section \<open>Resolved objects\<close>

lemma os_spec_other:
  assumes "os_spec owner access call m k = Some ob" "so_resolved ob"
  shows "m k = Some ob \<or>
     (\<exists>rt ob0. call = (rt, ResolveObject k (so_cid ob)) \<and> rt_caller rt = rt_system_actor rt \<and>
        m k = Some ob0 \<and> so_cid ob0 = so_cid ob)"
proof -
  obtain rt op where call: "call = (rt, op)" by (cases call)
  show ?thesis
  proof (cases op)
    case (AddObject ps)
    with assms show ?thesis by (auto simp: call new_object_def split: if_splits)
  next
    case (ResolveObject key val)
    with assms show ?thesis by (auto simp: call split: option.splits if_splits)
  next
    case (DeleteObject key)
    with assms show ?thesis by (auto simp: call split: if_splits)
  qed
qed

lemma spec_resolved:
  assumes "os_spec_run owner access calls Map.empty k = Some ob" "so_resolved ob"
  shows "\<exists>pre rt post ob0. calls = pre @ (rt, ResolveObject k (so_cid ob)) # post \<and>
     rt_caller rt = rt_system_actor rt \<and>
     os_spec_run owner access pre Map.empty k = Some ob0 \<and> so_cid ob0 = so_cid ob \<and>
     (\<forall>n \<le> length post.
        os_spec_run owner access (pre @ (rt, ResolveObject k (so_cid ob)) # take n post) Map.empty k = Some ob)"
  using assms(1)
proof (induction calls rule: rev_induct)
  case Nil
  then show ?case by simp
next
  case (snoc call calls)
  let ?run = "\<lambda>cs. os_spec_run owner access cs Map.empty"
  have last: "os_spec owner access call (?run calls) k = Some ob" using snoc.prems by simp
  from os_spec_other [OF last assms(2)] show ?case
  proof
    assume "?run calls k = Some ob"
    from snoc.IH [OF this] obtain pre rt post ob0 where
      ih: "calls = pre @ (rt, ResolveObject k (so_cid ob)) # post" "rt_caller rt = rt_system_actor rt"
        "?run pre k = Some ob0" "so_cid ob0 = so_cid ob"
        "\<forall>n \<le> length post. ?run (pre @ (rt, ResolveObject k (so_cid ob)) # take n post) k = Some ob"
      by blast
    have "?run (pre @ (rt, ResolveObject k (so_cid ob)) # take n (post @ [call])) k = Some ob"
      if "n \<le> length (post @ [call])" for n
    proof (cases "n \<le> length post")
      case True
      with ih(5) show ?thesis by simp
    next
      case False
      then have "take n (post @ [call]) = post @ [call]" using that by simp
      then show ?thesis using snoc.prems ih(1) by simp
    qed
    with ih(1-4) show ?thesis
      by (intro exI [of _ pre] exI [of _ rt] exI [of _ "post @ [call]"] exI [of _ ob0]) simp
  next
    assume "\<exists>rt ob0. call = (rt, ResolveObject k (so_cid ob)) \<and> rt_caller rt = rt_system_actor rt \<and>
        ?run calls k = Some ob0 \<and> so_cid ob0 = so_cid ob"
    then obtain rt ob0 where "call = (rt, ResolveObject k (so_cid ob))" "rt_caller rt = rt_system_actor rt"
        "?run calls k = Some ob0" "so_cid ob0 = so_cid ob" by blast
    then show ?thesis using snoc.prems
      by (intro exI [of _ calls] exI [of _ rt] exI [of _ "[]"] exI [of _ ob0]) simp
  qed
qed

section \<open>Listing\<close>

lemma utf8_one [simp]: "a < 128 \<Longrightarrow> utf8_valid (a # r) = utf8_valid r"
  by (cases r rule: utf8_valid.cases) auto

lemma utf8_two: "194 \<le> a \<Longrightarrow> a < 224 \<Longrightarrow> utf8_cont b \<Longrightarrow> utf8_valid (a # b # r) = utf8_valid r"
  by (cases r rule: utf8_valid.cases) auto

lemma utf8_three: "224 \<le> a \<Longrightarrow> a < 240 \<Longrightarrow> utf8_second a b \<Longrightarrow> utf8_cont c \<Longrightarrow>
    utf8_valid (a # b # c # r) = utf8_valid r"
  by (cases r rule: utf8_valid.cases) auto

lemma utf8_four: "240 \<le> a \<Longrightarrow> a < 245 \<Longrightarrow> utf8_second a b \<Longrightarrow> utf8_cont c \<Longrightarrow> utf8_cont d \<Longrightarrow>
    utf8_valid (a # b # c # d # r) = utf8_valid r"
  by simp

text \<open>The encoding of one character.\<close>

fun utf8_char :: "nat list \<Rightarrow> bool" where
  "utf8_char [a] = (a < 128)"
| "utf8_char [a, b] = (194 \<le> a \<and> a < 224 \<and> utf8_cont b)"
| "utf8_char [a, b, c] = (224 \<le> a \<and> a < 240 \<and> utf8_second a b \<and> utf8_cont c)"
| "utf8_char [a, b, c, d] = (240 \<le> a \<and> a < 245 \<and> utf8_second a b \<and> utf8_cont c \<and> utf8_cont d)"
| "utf8_char _ = False"

lemma utf8_char_append: "utf8_char c \<Longrightarrow> utf8_valid (c @ r) = utf8_valid r"
  by (cases c rule: utf8_char.cases) (simp_all add: utf8_two utf8_three utf8_four del: utf8_valid.simps)

lemma utf8_char_cont: "utf8_char c \<Longrightarrow> 0 < i \<Longrightarrow> i < length c \<Longrightarrow> utf8_cont (c ! i)"
  by (cases c rule: utf8_char.cases) (auto simp: utf8_second_def nth_Cons split: nat.splits)

lemma utf8_char_hd: "utf8_char c \<Longrightarrow> c \<noteq> [] \<and> \<not> utf8_cont (hd c)"
  by (cases c rule: utf8_char.cases) (auto simp: utf8_cont_def)

lemma utf8_validE:
  assumes "utf8_valid p" "p \<noteq> []"
  obtains c r where "p = c @ r" "utf8_char c" "utf8_valid r"
proof (cases p rule: utf8_valid.cases)
  case 1
  with assms(2) show ?thesis by simp
next
  case (2 a)
  with assms(1) that [of "[a]" "[]"] show ?thesis by simp
next
  case (3 a b)
  show ?thesis
  proof (cases "a < 128")
    case True
    with 3 assms(1) that [of "[a]" "[b]"] show ?thesis by simp
  next
    case False
    with 3 assms(1) that [of "[a, b]" "[]"] show ?thesis by simp
  qed
next
  case (4 a b c)
  consider "a < 128" | "\<not> a < 128" "a < 224" | "\<not> a < 224" by linarith
  then show ?thesis
  proof cases
    case 1
    with 4 assms(1) that [of "[a]" "[b, c]"] show ?thesis by simp
  next
    case 2
    with 4 assms(1) that [of "[a, b]" "[c]"] show ?thesis by simp
  next
    case 3
    with 4 assms(1) that [of "[a, b, c]" "[]"] show ?thesis by simp
  qed
next
  case (5 a b c d r)
  consider "a < 128" | "\<not> a < 128" "a < 224" | "\<not> a < 224" "a < 240" | "\<not> a < 240" by linarith
  then show ?thesis
  proof cases
    case 1
    with 5 assms(1) that [of "[a]" "b # c # d # r"] show ?thesis by simp
  next
    case 2
    with 5 assms(1) that [of "[a, b]" "c # d # r"] show ?thesis by simp
  next
    case 3
    with 5 assms(1) that [of "[a, b, c]" "d # r"] show ?thesis by simp
  next
    case 4
    with 5 assms(1) that [of "[a, b, c, d]" r] show ?thesis by simp
  qed
qed

lemma utf8_append: "utf8_valid p \<Longrightarrow> utf8_valid (p @ r) = utf8_valid r"
proof (induction "length p" arbitrary: p rule: less_induct)
  case less
  show ?case
  proof (cases "p = []")
    case False
    with less.prems obtain c q where q: "p = c @ q" "utf8_char c" "utf8_valid q" by (rule utf8_validE)
    then have "length q < length p" using utf8_char_hd by fastforce
    with less.hyps [of q] q show ?thesis by (simp add: utf8_char_append)
  qed simp
qed

lemma utf8_ascii_split: "utf8_valid (p @ d # r) \<Longrightarrow> d < 128 \<Longrightarrow> utf8_valid p"
proof (induction "length p" arbitrary: p rule: less_induct)
  case less
  show ?case
  proof (cases "p = []")
    case False
    obtain c q where q: "p @ d # r = c @ q" "utf8_char c" "utf8_valid q"
      using utf8_validE [OF less.prems(1)] by blast
    have len: "length c \<le> length p"
    proof (rule ccontr)
      assume "\<not> length c \<le> length p"
      then have "0 < length p" "length p < length c" using False by auto
      with utf8_char_cont [OF q(2)] have "utf8_cont (c ! length p)" by blast
      moreover have "c ! length p = d"
        using q(1) \<open>length p < length c\<close> by (metis nth_append nth_append_length)
      ultimately show False using less.prems(2) by (simp add: utf8_cont_def)
    qed
    then obtain p' where p': "p = c @ p'" using q(1) by (metis append_eq_append_conv_if append_take_drop_id)
    then have "length p' < length p" using utf8_char_hd [OF q(2)] by simp
    moreover have "utf8_valid (p' @ d # r)" using less.prems(1) p' q(2) by (simp add: utf8_char_append)
    ultimately have "utf8_valid p'" using less.hyps less.prems(2) by blast
    then show ?thesis using p' q(2) by (simp add: utf8_char_append)
  qed simp
qed

lemma utf8_head: "utf8_valid (b # r) \<Longrightarrow> \<not> utf8_cont b"
  by (erule utf8_validE) (auto dest: utf8_char_hd simp: Cons_eq_append_conv)

lemma utf8_boundary:
  assumes "utf8_valid p" "utf8_valid (p @ r)"
  shows "is_char_boundary (p @ r) (length p)"
  using assms utf8_append [OF assms(1), of r] by (cases r) (auto simp: is_char_boundary_def utf8_head)

lemma str_find_length: "str_find d s = Some i \<Longrightarrow> length (take i s) = i"
  by (induction d s arbitrary: i rule: str_find.induct) (auto split: if_splits)

lemma str_find_Some: "str_find d s = Some i \<Longrightarrow> \<exists>r. s = take i s @ d @ r"
proof (induction d s arbitrary: i rule: str_find.induct)
  case (1 d)
  then show ?case by (auto split: if_splits)
next
  case (2 d c s)
  show ?case
  proof (cases "prefix d (c # s)")
    case True
    with 2(2) show ?thesis by (auto simp: prefix_def)
  next
    case False
    with 2(2) obtain j where "str_find d s = Some j" "i = Suc j" by auto
    with 2(1) [OF False] show ?thesis by auto
  qed
qed

text \<open>The folder in which a key lies, seen from a prefix.\<close>

definition folder_of :: "nat list \<Rightarrow> nat list \<Rightarrow> nat list \<Rightarrow> nat list option" where
  "folder_of pre delimiter key =
     (if delimiter = [] then None
      else map_option (\<lambda>i. take (Suc (i + length pre)) key) (str_find delimiter (drop (length pre) key)))"

lemma common_prefix_exact:
  assumes "delimiter = [] \<or> (\<exists>d < 128. delimiter = [d]) \<and> utf8_valid pre \<and> utf8_valid key" "prefix pre key"
  shows "common_prefix_of pre delimiter key = Ok (folder_of pre delimiter key)"
proof (cases "delimiter = []")
  case True
  then show ?thesis by (simp add: common_prefix_of_def folder_of_def)
next
  case False
  with assms(1) obtain d where d: "d < 128" "delimiter = [d]" and valid: "utf8_valid pre" "utf8_valid key" by blast
  from assms(2) obtain r where key: "key = pre @ r" by (auto simp: prefix_def)
  from utf8_boundary [OF valid(1)] valid(2) key have str: "str_from (length pre) key = (Ok r :: (string, _) outcome)"
    by (simp add: str_from_def)
  show ?thesis
  proof (cases "str_find [d] r")
    case None
    with d valid str key show ?thesis by (simp add: common_prefix_of_def folder_of_def from_utf8_def Let_def)
  next
    case (Some i)
    then obtain q where r: "r = take i r @ [d] @ q" using str_find_Some by blast
    then have len: "length (take i r) = i" by (metis Some str_find_length)
    have "utf8_valid ((pre @ take i r) @ d # q)" using valid(2) key r by (metis append.assoc append_Cons append_Nil)
    then have "utf8_valid (pre @ take i r)" using d(1) by (rule utf8_ascii_split)
    then have "utf8_valid ((pre @ take i r) @ [d])" using d(1) utf8_append [of "pre @ take i r" "[d]"] by simp
    moreover have all: "key = ((pre @ take i r) @ [d]) @ q" using key r by simp
    ultimately have "is_char_boundary key (length ((pre @ take i r) @ [d]))"
      using valid(2) utf8_boundary by metis
    then have "str_upto_incl (i + length pre) key = (Ok (take (Suc (i + length pre)) key) :: (string, _) outcome)"
      using len by (simp add: str_upto_incl_def add.commute)
    with Some d valid str key show ?thesis by (simp add: common_prefix_of_def folder_of_def from_utf8_def Let_def)
  qed
qed

definition direct :: "nat list \<Rightarrow> nat list \<Rightarrow> (nat list \<times> StoredObject) list \<Rightarrow> (nat list \<times> StoredObject) list" where
  "direct pre delimiter kvs = filter (\<lambda>(k, _). prefix pre k \<and> folder_of pre delimiter k = None) kvs"

definition folders :: "nat list \<Rightarrow> nat list \<Rightarrow> (nat list \<times> StoredObject) list \<Rightarrow> nat list set" where
  "folders pre delimiter kvs = {f. \<exists>(k, v) \<in> set kvs. prefix pre k \<and> folder_of pre delimiter k = Some f}"

lemma bset_insert_set [simp]: "set (bset_insert x xs) = insert x (set xs)"
  by (auto simp: bset_insert_def set_insort_key)

lemma bset_insert_sorted: "sorted xs \<and> distinct xs \<Longrightarrow> sorted (bset_insert x xs) \<and> distinct (bset_insert x xs)"
  by (auto simp: bset_insert_def sorted_insort distinct_insort)

lemma list_loop_exact:
  assumes ok: "\<forall>(k, v) \<in> set kvs. prefix pre k \<longrightarrow>
      common_prefix_of pre delimiter k = Ok (folder_of pre delimiter k)"
    and lim: "length objs < limit" and sd: "sorted cps \<and> distinct cps"
  shows "\<exists>cps'. list_loop pre delimiter offset limit (map Ok kvs) objs cps count =
       Ok \<lparr>ol_objects = objs @ take (limit - length objs) (drop (offset - count) (direct pre delimiter kvs)),
           ol_common_prefixes = cps'\<rparr> \<and>
     sorted cps' \<and> distinct cps' \<and> set cps' \<subseteq> set cps \<union> folders pre delimiter kvs \<and>
     (length (drop (offset - count) (direct pre delimiter kvs)) < limit - length objs \<longrightarrow>
        set cps' = set cps \<union> folders pre delimiter kvs)"
  using ok lim sd
proof (induction kvs arbitrary: objs cps count)
  case Nil
  then show ?case by (simp add: direct_def folders_def)
next
  case (Cons e kvs)
  obtain k v where e: "e = (k, v)" by (cases e)
  have ok': "\<forall>(k, v) \<in> set kvs. prefix pre k \<longrightarrow>
      common_prefix_of pre delimiter k = Ok (folder_of pre delimiter k)" using Cons.prems(1) by simp
  have fold: "folders pre delimiter ((k, v) # kvs) =
      (if prefix pre k then set_option (folder_of pre delimiter k) else {}) \<union> folders pre delimiter kvs"
    by (auto simp: folders_def)
  show ?case
  proof (cases "prefix pre k")
    case False
    then have "list_loop pre delimiter offset limit (map Ok (e # kvs)) objs cps count =
        list_loop pre delimiter offset limit (map Ok kvs) objs cps count" by (auto simp: e)
    moreover have "direct pre delimiter (e # kvs) = direct pre delimiter kvs" using False by (simp add: direct_def e)
    ultimately show ?thesis using Cons.IH [OF ok' Cons.prems(2,3), of count] False fold by (simp add: e)
  next
    case True
    with Cons.prems(1) have cp: "common_prefix_of pre delimiter k = Ok (folder_of pre delimiter k)" by (simp add: e)
    show ?thesis
    proof (cases "folder_of pre delimiter k")
      case (Some f)
      then have "list_loop pre delimiter offset limit (map Ok (e # kvs)) objs cps count =
          list_loop pre delimiter offset limit (map Ok kvs) objs (bset_insert f cps) count"
        using True cp by (auto simp: e)
      moreover have "direct pre delimiter (e # kvs) = direct pre delimiter kvs" using Some by (simp add: direct_def e)
      ultimately show ?thesis
        using Cons.IH [OF ok' Cons.prems(2) bset_insert_sorted [OF Cons.prems(3)], of f count] True Some fold
        by (auto simp: e)
    next
      case None
      then have d: "direct pre delimiter (e # kvs) = (k, v) # direct pre delimiter kvs" 
        using True by (simp add: direct_def e)
      have fe: "folders pre delimiter (e # kvs) = folders pre delimiter kvs" using fold None by (simp add: e)
      show ?thesis
      proof (cases "Suc count \<le> offset")
        case True': True
        then have "list_loop pre delimiter offset limit (map Ok (e # kvs)) objs cps count =
            list_loop pre delimiter offset limit (map Ok kvs) objs cps (Suc count)"
          using True cp None by (auto simp: e)
        moreover have "drop (offset - count) (direct pre delimiter (e # kvs)) =
            drop (offset - Suc count) (direct pre delimiter kvs)"
          using True' d by (simp add: drop_Cons' )
        ultimately show ?thesis using Cons.IH [OF ok' Cons.prems(2,3), of "Suc count"] fe by simp
      next
        case False
        then have z: "offset - count = 0" "offset - Suc count = 0" by auto
        show ?thesis
        proof (cases "limit \<le> Suc (length objs)")
          case True'': True
          then have "list_loop pre delimiter offset limit (map Ok (e # kvs)) objs cps count =
              Ok \<lparr>ol_objects = objs @ [(k, v)], ol_common_prefixes = cps\<rparr>"
            using True cp None False Cons.prems(2) by (auto simp: e)
          moreover have "limit - length objs = 1" using True'' Cons.prems(2) by simp
          ultimately show ?thesis using d z Cons.prems(3) by auto
        next
          case False'': False
          then have loop: "list_loop pre delimiter offset limit (map Ok (e # kvs)) objs cps count =
              list_loop pre delimiter offset limit (map Ok kvs) (objs @ [(k, v)]) cps (Suc count)"
            using True cp None False by (auto simp: e)
          have lim: "length (objs @ [(k, v)]) < limit" using False'' by simp
          have "limit - length objs = Suc (limit - length (objs @ [(k, v)]))" using False'' by simp
          then have "take (limit - length objs) (direct pre delimiter (e # kvs)) =
              (k, v) # take (limit - length (objs @ [(k, v)])) (direct pre delimiter kvs)" using d by simp
          moreover have "length (direct pre delimiter kvs) < limit - length (objs @ [(k, v)])"
            if "length (direct pre delimiter (e # kvs)) < limit - length objs" using that d by simp
          ultimately show ?thesis
            using Cons.IH [OF ok' lim Cons.prems(3), of "Suc count"] unfolding loop z fe drop_0
            by (simp del: list_loop.simps) blast
        qed
      qed
    qed
  qed
qed

lemma listed_exact:
  assumes lib: "kv_ok lib rep holds grow key_ok" and m: "holds s (os_root st) m"
    and delim: "lp_delimiter ps = [] \<or> (\<exists>d < 128. lp_delimiter ps = [d]) \<and> utf8_valid (lp_prefix ps) \<and>
      (\<forall>k \<in> dom m. utf8_valid k)"
  shows "\<exists>kvs cps. distinct (map fst kvs) \<and> map_of kvs = m \<and>
     os_list lib (lp_prefix ps) (lp_delimiter ps) (lp_offset ps) (lp_limit ps) st s =
       Ok \<lparr>ol_objects = take (list_limit (lp_limit ps)) (drop (lp_offset ps) (direct (lp_prefix ps) (lp_delimiter ps) kvs)),
           ol_common_prefixes = cps\<rparr> \<and>
     sorted cps \<and> distinct cps \<and> set cps \<subseteq> folders (lp_prefix ps) (lp_delimiter ps) kvs \<and>
     (length (drop (lp_offset ps) (direct (lp_prefix ps) (lp_delimiter ps) kvs)) < list_limit (lp_limit ps) \<longrightarrow>
        set cps = folders (lp_prefix ps) (lp_delimiter ps) kvs)"
proof -
  let ?pre = "lp_prefix ps" and ?d = "lp_delimiter ps"
  obtain h where h: "kv_load lib s (os_root st) = Ok h" "rep s h m" using kv_load_rep [OF lib, OF m] by blast
  obtain kvs where kvs: "kv_iter lib s h = map Ok kvs" "distinct (map fst kvs)" "map_of kvs = m"
    using kv_iter_rep [OF lib, OF h(2)] by blast
  have "\<forall>(k, v) \<in> set kvs. k \<in> dom m" using kvs(3) by (auto simp: weak_map_of_SomeI)
  then have ok: "\<forall>(k, v) \<in> set kvs. prefix ?pre k \<longrightarrow> common_prefix_of ?pre ?d k = Ok (folder_of ?pre ?d k)"
    using delim common_prefix_exact by blast
  have lim: "length [] < list_limit (lp_limit ps)" by (simp add: list_limit_def MAX_LIST_LIMIT_def)
  have "os_list lib ?pre ?d (lp_offset ps) (lp_limit ps) st s =
      list_loop ?pre ?d (lp_offset ps) (list_limit (lp_limit ps)) (map Ok kvs) [] [] 0"
    using h(1) kvs(1) by (simp add: os_list_def)
  with list_loop_exact [OF ok lim, of "[]" "lp_offset ps" 0] kvs(2,3) show ?thesis
    by (simp del: list_loop.simps) metis
qed

lemma common_prefix_cuts:
  assumes "utf8_valid pre" "utf8_valid key" "utf8_valid (a # b # d)" "128 \<le> a" "prefix pre key"
    and "folder_of pre (a # b # d) key \<noteq> None"
  shows "common_prefix_of pre (a # b # d) key = Panic"
proof -
  obtain c r where "a # b # d = c @ r" "utf8_char c" using utf8_validE [OF assms(3)] by blast
  then have "utf8_cont b" using assms(4) by (cases c rule: utf8_char.cases) (auto simp: utf8_second_def)
  from assms(5) obtain r where key: "key = pre @ r" by (auto simp: prefix_def)
  from utf8_boundary [OF assms(1)] assms(2) key have str: "str_from (length pre) key = (Ok r :: (string, _) outcome)"
    by (simp add: str_from_def)
  from assms(6) key obtain i where i: "str_find (a # b # d) r = Some i" by (auto simp: folder_of_def)
  then obtain q where q: "r = take i r @ (a # b # d) @ q" using str_find_Some by blast
  have len: "length (take i r) = i" by (rule str_find_length [OF i])
  have "key = (pre @ take i r) @ a # b # d @ q" using key q by simp
  then have "key ! Suc (i + length pre) = b" "Suc (i + length pre) < length key"
    using len nth_append_length [of "(pre @ take i r) @ [a]" b "d @ q"] by (simp_all add: add.commute)
  then have "str_upto_incl (i + length pre) key = (Panic :: (string, _) outcome)"
    using \<open>utf8_cont b\<close> by (simp add: str_upto_incl_def is_char_boundary_def)
  with i str assms(1-3) show ?thesis
    by (simp add: common_prefix_of_def from_utf8_def Let_def del: utf8_valid.simps)
qed

section \<open>Properties\<close>

definition objects_seen ::
  "('c, nat list, StoredObject, 'h, 's) kv_lib \<Rightarrow> 'a runtime \<Rightarrow> nat list \<Rightarrow> ('a, 'c) ObjectStore \<times> 's \<Rightarrow>
     (ActorError, StoredObject option) outcome" where
  "objects_seen lib rt k = (\<lambda>(st, s). get_object lib rt k st s)"

lemma constructed_objects_seen:
  assumes lib: "kv_ok lib rep holds grow (\<lambda>_. True)" and rts: "\<forall>call \<in> set calls. runtime_ok (fst call)"
    and rt: "runtime_ok rt" and new: "os_constructor lib rt0 ps s0 = Ok (st, s)"
  shows "objects_seen lib rt k (os_run lib calls (st, s)) =
     Ok (os_spec_run (mp_creator ps) (mp_write_access ps) calls Map.empty k)"
proof -
  obtain c s1 where "os_new lib (mp_creator ps) (mp_write_access ps) s0 =
      Ok (\<lparr>os_owner = mp_creator ps, os_write_access = mp_write_access ps, os_root = c\<rparr>, s1)" "holds s1 c Map.empty"
    using os_new_holds [OF lib, of "mp_creator ps" "mp_write_access ps" s0] by blast
  with new have m: "holds s (os_root st) Map.empty" and st: "os_owner st = mp_creator ps" "os_write_access st = mp_write_access ps"
    by (auto simp: os_constructor_def outcome_simps)
  obtain st' s' where e: "os_run lib calls (st, s) = (st', s')" by fastforce
  with os_run_refines [OF lib rts, OF m e] st
  have "holds s' (os_root st') (os_spec_run (mp_creator ps) (mp_write_access ps) calls Map.empty)" by simp
  from os_get_holds [OF lib, OF this] show ?thesis
    by (simp add: objects_seen_def e get_object_def any_passes [OF rt])
qed

text \<open>C13: the object store is a map from keys to objects. Whatever calls are made by whomever, the objects
  that can be read afterwards are those of the specification, in which writers that the access of the
  machine excludes change nothing.\<close>

theorem object_store_refines:
  assumes "kv_ok lib rep holds grow (\<lambda>_. True)" "\<forall>call \<in> set calls. runtime_ok (fst call)"
    and "runtime_ok rt" "os_constructor lib rt0 ps s0 = Ok (st, s)"
  shows "objects_seen lib rt k (os_run lib calls (st, s)) =
     Ok (os_spec_run (mp_creator ps) (mp_write_access ps) calls Map.empty k)"
  by (rule constructed_objects_seen [OF assms])

text \<open>C34: an object counts as resolved only if the system resolved its very content. A call of the system
  named the key and the content identifier while the key held that content, and the object has not
  changed since.\<close>

theorem resolved_by_system:
  assumes lib: "kv_ok lib rep holds grow (\<lambda>_. True)" and rts: "\<forall>call \<in> set calls. runtime_ok (fst call)"
    and rt: "runtime_ok rt" and new: "os_constructor lib rt0 ps s0 = Ok (st, s)"
    and seen: "objects_seen lib rt k (os_run lib calls (st, s)) = Ok (Some ob)" "so_resolved ob"
  shows "\<exists>pre r post ob0. calls = pre @ (r, ResolveObject k (so_cid ob)) # post \<and>
     rt_caller r = rt_system_actor r \<and>
     objects_seen lib rt k (os_run lib pre (st, s)) = Ok (Some ob0) \<and> so_cid ob0 = so_cid ob \<and>
     (\<forall>n \<le> length post. objects_seen lib rt k
        (os_run lib (pre @ (r, ResolveObject k (so_cid ob)) # take n post) (st, s)) = Ok (Some ob))"
proof -
  let ?spec = "\<lambda>cs. os_spec_run (mp_creator ps) (mp_write_access ps) cs Map.empty"
  have "?spec calls k = Some ob" using seen(1) constructed_objects_seen [OF lib rts rt new] by simp
  from spec_resolved [OF this seen(2)] obtain pre r post ob0 where
    sp: "calls = pre @ (r, ResolveObject k (so_cid ob)) # post" "rt_caller r = rt_system_actor r"
      "?spec pre k = Some ob0" "so_cid ob0 = so_cid ob"
      "\<forall>n \<le> length post. ?spec (pre @ (r, ResolveObject k (so_cid ob)) # take n post) k = Some ob"
    by blast
  have run: "objects_seen lib rt k (os_run lib cs (st, s)) = Ok (?spec cs k)" if "set cs \<subseteq> set calls" for cs
    using that rts by (intro constructed_objects_seen [OF lib _ rt new]) auto
  have "objects_seen lib rt k (os_run lib (pre @ (r, ResolveObject k (so_cid ob)) # take n post) (st, s)) = Ok (Some ob)"
    if "n \<le> length post" for n
    using run [of "pre @ (r, ResolveObject k (so_cid ob)) # take n post"] sp(1,5) that
    by (auto dest: in_set_takeD)
  moreover have "objects_seen lib rt k (os_run lib pre (st, s)) = Ok (Some ob0)"
    using run [of pre] sp(1,3) by auto
  ultimately show ?thesis using sp(1,2,4) by blast
qed


text \<open>A delimiter that begins with a character outside ASCII brings the listing down. The common prefix
  is cut one byte behind the start of the delimiter, inside the character.\<close>

theorem listing_delimiter_panics:
  assumes lib: "kv_ok lib rep holds grow key_ok" and m: "holds s (os_root st) m" "m \<noteq> Map.empty" and rt: "runtime_ok rt"
    and d: "lp_delimiter ps = a # b # d" "128 \<le> a" "utf8_valid (lp_delimiter ps)" "utf8_valid (lp_prefix ps)"
    and keys: "\<forall>k \<in> dom m. utf8_valid k \<and> prefix (lp_prefix ps) k \<and> folder_of (lp_prefix ps) (lp_delimiter ps) k \<noteq> None"
  shows "list_objects lib rt ps st s = Panic"
proof -
  obtain h where h: "kv_load lib s (os_root st) = Ok h" "rep s h m" using kv_load_rep [OF lib, OF m(1)] by blast
  obtain kvs where kvs: "kv_iter lib s h = map Ok kvs" "map_of kvs = m"
    using kv_iter_rep [OF lib, OF h(2)] by blast
  with m(2) obtain k v rest where k: "kvs = (k, v) # rest" by (cases kvs) auto
  then have "k \<in> dom m" using kvs(2) by auto
  with keys d have "common_prefix_of (lp_prefix ps) (lp_delimiter ps) k = Panic" "prefix (lp_prefix ps) k"
    using common_prefix_cuts [of "lp_prefix ps" k a b d] by auto
  then have "list_loop (lp_prefix ps) (lp_delimiter ps) (lp_offset ps) (list_limit (lp_limit ps)) (map Ok kvs) [] [] 0 = Panic"
    by (simp add: k)
  then show ?thesis
    using h(1) kvs(1) any_passes [OF rt] by (simp add: list_objects_def os_list_def downcast_default_def)
qed

section \<open>Examples\<close>

definition sample_add :: "nat list \<Rightarrow> AddParams" where
  "sample_add k = \<lparr>ap_key = k, ap_cid = [7], ap_size = 1, ap_metadata = [], ap_overwrite = False\<rparr>"

definition sample_calls :: "(nat runtime \<times> os_call) list" where
  "sample_calls = [(sample_runtime 5, AddObject (sample_add [97])), (sample_runtime 6, DeleteObject [97]),
     (sample_runtime 0, ResolveObject [97] [7])]"

definition sample_machine_params :: "nat MachineParams" where
  "sample_machine_params = \<lparr>mp_creator = 5, mp_write_access = OnlyOwner\<rparr>"

definition sample_store :: "(nat list \<times> StoredObject) list \<Rightarrow> (nat, (nat list \<times> StoredObject) list) ObjectStore" where
  "sample_store r = \<lparr>os_owner = 5, os_write_access = OnlyOwner, os_root = r\<rparr>"

lemma sample_store_new: "os_constructor mem_kv (sample_runtime 1) sample_machine_params () = Ok (sample_store [], ())"
  by (simp add: os_constructor_def os_new_def mem_kv_def mem_kv_of_def sample_runtime_def sample_machine_params_def sample_store_def)

lemma sample_calls_ok: "\<forall>call \<in> set sample_calls. runtime_ok (fst call)"
  by (simp add: sample_calls_def sample_runtime_ok)

lemma sample_spec_run:
  "os_spec_run 5 OnlyOwner sample_calls Map.empty [97] = Some ((new_object (sample_add [97]))\<lparr>so_resolved := True\<rparr>)"
  by (simp add: sample_calls_def may_write_def sample_runtime_def sample_add_def new_object_def)

theorem object_store_refines_witness:
  "objects_seen mem_kv (sample_runtime 9) [97] (os_run mem_kv sample_calls (sample_store [], ())) =
     Ok (Some ((new_object (sample_add [97]))\<lparr>so_resolved := True\<rparr>))"
  using object_store_refines [OF mem_kv_ok sample_calls_ok sample_runtime_ok [of 9] sample_store_new, of "[97]"]
    sample_spec_run by (simp add: sample_machine_params_def)

theorem resolved_by_system_witness:
  "\<exists>pre r post. sample_calls = pre @ (r, ResolveObject [97] [7]) # post \<and> rt_caller r = rt_system_actor r"
proof -
  let ?ob = "(new_object (sample_add [97]))\<lparr>so_resolved := True\<rparr>"
  have "objects_seen mem_kv (sample_runtime 9) [97] (os_run mem_kv sample_calls (sample_store [], ())) = Ok (Some ?ob)"
    using constructed_objects_seen [OF mem_kv_ok sample_calls_ok sample_runtime_ok [of 9] sample_store_new, of "[97]"]
      sample_spec_run by (simp add: sample_machine_params_def)
  from resolved_by_system [OF mem_kv_ok sample_calls_ok sample_runtime_ok sample_store_new this]
  show ?thesis by (auto simp: new_object_def sample_add_def)
qed

definition sample_objects :: "(nat list \<times> StoredObject) list" where
  "sample_objects = [([97, 47, 98], new_object (sample_add [])), ([99], new_object (sample_add []))]"


theorem listing_delimiter_panics_witness:
  "list_objects mem_kv (sample_runtime 9) \<lparr>lp_prefix = [], lp_delimiter = [195, 169], lp_offset = 0, lp_limit = 0\<rparr>
     (sample_store [([97, 195, 169, 98], new_object (sample_add []))]) () = Panic"
proof (rule listing_delimiter_panics [OF mem_kv_ok _ _ sample_runtime_ok, of _ "_ :: (nat, _) ObjectStore", where a = 195 and b = 169 and d = "[]"
      and m = "map_of [([97, 195, 169, 98], new_object (sample_add []))]"])
qed (auto simp: mem_rep_def sample_store_def folder_of_def utf8_cont_def split: if_splits)

end
