(* ===== verification/Bytes_Interpreter.thy ===== *)
theory Bytes_Interpreter
  imports Chain_Interpreter Object_Store
begin

text \<open>
  The interpreter of raw transactions (\<open>fendermint/vm/interpreter/src/bytes.rs\<close>), which decodes what
  consensus hands over and calls the chain interpreter.

  IPLD and JSON decoding is third-party code and comes in as the record \<open>codec\<close>. The inner interpreter is
  an argument; the proposal handlers return the shared environment next to their outcome.
\<close>

section \<open>Model\<close>

datatype ProposalPrepareMode = PassThrough | AppendOnly | PrependOnly

record BytesMessageInterpreter =
  prepare_mode :: ProposalPrepareMode
  reject_malformed_proposal :: bool
  max_msgs :: nat

definition bytes_interpreter_new :: "ProposalPrepareMode \<Rightarrow> bool \<Rightarrow> nat \<Rightarrow> BytesMessageInterpreter" where
  "bytes_interpreter_new mode reject n =
     \<lparr>prepare_mode = mode, reject_malformed_proposal = reject, max_msgs = n\<rparr>"

text \<open>Decoding of transactions, of identifiers and queries, and of the genesis file; encoding of the
  messages that the chain interpreter adds.\<close>

record ('m, 'q, 'g) codec =
  cd_decode :: "nat list \<Rightarrow> string + 'm"
  cd_encode :: "'m \<Rightarrow> (string, nat list) outcome"
  cd_decode_cid :: "nat list \<Rightarrow> string + 'q"
  cd_decode_query :: "nat list \<Rightarrow> string + 'q"
  cd_genesis_json :: "nat list \<Rightarrow> (string, 'g) outcome"
  cd_genesis_cbor :: "nat list \<Rightarrow> (string, 'g) outcome"

text \<open>The messages that decode, in order.\<close>

fun decodable :: "('m, 'q, 'g) codec \<Rightarrow> nat list list \<Rightarrow> 'm list" where
  "decodable cd [] = []"
| "decodable cd (msg # msgs) =
     (case cd_decode cd msg of Inl e \<Rightarrow> decodable cd msgs | Inr m \<Rightarrow> m # decodable cd msgs)"

definition bytes_prepare ::
  "('m, 'q, 'g) codec \<Rightarrow> BytesMessageInterpreter \<Rightarrow> ('m list \<Rightarrow> 'env \<times> (string, 'm list) outcome) \<Rightarrow>
     nat list list \<Rightarrow> 'env \<times> (string, nat list list) outcome" where
  "bytes_prepare cd bi inner msgs =
     (let chain_msgs = (case prepare_mode bi of PassThrough \<Rightarrow> decodable cd msgs | _ \<Rightarrow> []) in
      case inner chain_msgs of
        (env, r) \<Rightarrow>
          (env,
           obind r (\<lambda>chain_msgs.
           obind (try_all (\<lambda>m. with_context ''failed to encode ChainMessage as IPLD'' (cd_encode cd m)) chain_msgs)
             (\<lambda>chain_msgs.
           let all_msgs = (case prepare_mode bi of
                             PassThrough \<Rightarrow> chain_msgs
                           | AppendOnly \<Rightarrow> msgs @ chain_msgs
                           | PrependOnly \<Rightarrow> chain_msgs @ msgs) in
           Ok (if length all_msgs > max_msgs bi then take (max_msgs bi) all_msgs else all_msgs)))))"

text \<open>The messages of a proposal; \<open>None\<close> rejects it as malformed.\<close>

fun parse_proposal :: "('m, 'q, 'g) codec \<Rightarrow> bool \<Rightarrow> nat list list \<Rightarrow> 'm list option" where
  "parse_proposal cd reject [] = Some []"
| "parse_proposal cd reject (msg # msgs) =
     (case cd_decode cd msg of
        Inl e \<Rightarrow> if reject then None else parse_proposal cd reject msgs
      | Inr m \<Rightarrow> map_option ((#) m) (parse_proposal cd reject msgs))"

definition bytes_process ::
  "('m, 'q, 'g) codec \<Rightarrow> BytesMessageInterpreter \<Rightarrow> ('env \<Rightarrow> 'm list \<Rightarrow> 'env \<times> (string, bool) outcome) \<Rightarrow>
     'env \<Rightarrow> nat list list \<Rightarrow> 'env \<times> (string, bool) outcome" where
  "bytes_process cd bi inner env msgs =
     (if length msgs > max_msgs bi then (env, Ok False)
      else case parse_proposal cd (reject_malformed_proposal bi) msgs of
             None \<Rightarrow> (env, Ok False)
           | Some chain_msgs \<Rightarrow> inner env chain_msgs)"

definition bytes_deliver ::
  "('m, 'q, 'g) codec \<Rightarrow> ('st \<Rightarrow> 'm \<Rightarrow> (string, 'st \<times> 'r) outcome) \<Rightarrow> 'st \<Rightarrow> nat list \<Rightarrow>
     (string, 'st \<times> (string + 'r)) outcome" where
  "bytes_deliver cd inner st msg =
     (case cd_decode cd msg of
        Inl e \<Rightarrow> Ok (st, Inl e)
      | Inr m \<Rightarrow> obind (inner st m) (\<lambda>(st, ret). Ok (st, Inr ret)))"

definition bytes_check ::
  "('m, 'q, 'g) codec \<Rightarrow> ('st \<Rightarrow> 'm \<Rightarrow> bool \<Rightarrow> (string, 'st \<times> 'r) outcome) \<Rightarrow> 'st \<Rightarrow> nat list \<Rightarrow> bool \<Rightarrow>
     (string, 'st \<times> (string + 'r)) outcome" where
  "bytes_check cd inner st msg is_recheck =
     (case cd_decode cd msg of
        Inl e \<Rightarrow> Ok (st, Inl e)
      | Inr m \<Rightarrow> obind (inner st m is_recheck) (\<lambda>(st, ret). Ok (st, Inr ret)))"

text \<open>\<open>cd_decode_cid\<close> yields the query for the identifier it decodes. A query returns its state next to the
  outcome, and \<open>None\<close> if it never ends.\<close>

definition bytes_query ::
  "('m, 'q, 'g) codec \<Rightarrow> ('q \<Rightarrow> 'st \<Rightarrow> ('st \<times> (string, 'r) outcome) option) \<Rightarrow> string \<Rightarrow> nat list \<Rightarrow> 'st \<Rightarrow>
     ('st \<times> (string, string + 'r) outcome) option" where
  "bytes_query cd inner path bz st =
     (case (if path = ''/store'' then cd_decode_cid cd bz else cd_decode_query cd bz) of
        Inl e \<Rightarrow> Some (st, Ok (Inl e))
      | Inr qry \<Rightarrow> map_option (map_prod id (omap Inr)) (inner qry st))"

definition try_parse_genesis_json :: "('m, 'q, 'g) codec \<Rightarrow> nat list \<Rightarrow> (string, 'g) outcome" where
  "try_parse_genesis_json cd bs = obind (from_utf8 bs) (cd_genesis_json cd)"

definition parse_genesis :: "('m, 'q, 'g) codec \<Rightarrow> nat list \<Rightarrow> (string, 'g) outcome" where
  "parse_genesis cd bs =
     (case try_parse_genesis_json cd bs of
        Err e1 \<Rightarrow> map_err (\<lambda>e2. ''failed to deserialize genesis as JSON or CBOR: '' @ e1 @ ''; '' @ e2)
                    (cd_genesis_cbor cd bs)
      | r \<Rightarrow> r)"

definition bytes_init ::
  "('m, 'q, 'g) codec \<Rightarrow> ('st \<Rightarrow> 'g \<Rightarrow> (string, 'st \<times> 'o) outcome) \<Rightarrow> 'st \<Rightarrow> nat list \<Rightarrow>
     (string, 'st \<times> 'o) outcome" where
  "bytes_init cd inner st genesis = obind (parse_genesis cd genesis) (inner st)"

section \<open>The interpreter of the node\<close>

definition node_bytes_interpreter :: "nat \<Rightarrow> BytesMessageInterpreter" where
  "node_bytes_interpreter block_max_msgs = bytes_interpreter_new PrependOnly False block_max_msgs"

definition node_prepare ::
  "('a ChainMessage, 'q, 'g) codec \<Rightarrow> nat \<Rightarrow> ('a, 's) machine \<Rightarrow> ('a, 'k) ChainEnv \<Rightarrow> 's FvmExecState \<Rightarrow>
     nat list list \<Rightarrow> ('a, 'k) ChainEnv \<times> (string, nat list list) outcome" where
  "node_prepare cd n mx env st = bytes_prepare cd (node_bytes_interpreter n) (chain_prepare mx env st)"

definition node_process ::
  "('a ChainMessage, 'q, 'g) codec \<Rightarrow> nat \<Rightarrow> ('a, 's) machine \<Rightarrow> ('a, 'k) ChainEnv \<Rightarrow> 's FvmExecState \<Rightarrow>
     nat list list \<Rightarrow> ('a, 'k) ChainEnv \<times> (string, bool) outcome" where
  "node_process cd n mx env st = bytes_process cd (node_bytes_interpreter n) (\<lambda>env. chain_process mx env st) env"

definition node_deliver ::
  "('a ChainMessage, 'q, 'g) codec \<Rightarrow> ('a, 'k, 's) chain_context \<Rightarrow> ('a, 'v) ChainEnv \<times> 's FvmExecState \<Rightarrow>
     nat list \<Rightarrow>
     (string, (('a, 'v) ChainEnv \<times> 's FvmExecState) \<times> (string + 'a ChainMessageApplyRet)) outcome" where
  "node_deliver cd cx = bytes_deliver cd (\<lambda>(env, st). chain_deliver cx env st)"

section \<open>Lemmas\<close>

text \<open>What the encoding promises: messages encode, and decode to themselves.\<close>

definition codec_ok :: "('m, 'q, 'g) codec \<Rightarrow> 'm set \<Rightarrow> bool" where
  "codec_ok cd ms = (\<forall>m \<in> ms. \<exists>bs. cd_encode cd m = Ok bs \<and> cd_decode cd bs = Inr m)"

lemma parse_lenient: "parse_proposal cd False msgs = Some (decodable cd msgs)"
  by (induction msgs) (simp_all split: sum.splits)

lemma parse_strict:
  "parse_proposal cd True msgs =
     (if \<forall>m \<in> set msgs. \<not> isl (cd_decode cd m) then Some (decodable cd msgs) else None)"
  by (induction msgs) (auto split: sum.splits)

lemma decodable_append [simp]: "decodable cd (xs @ ys) = decodable cd xs @ decodable cd ys"
  by (induction xs) (simp_all split: sum.splits)

lemma decodable_take: "set (decodable cd (take n xs)) \<subseteq> set (decodable cd xs)"
proof -
  have "decodable cd xs = decodable cd (take n xs) @ decodable cd (drop n xs)"
    by (simp flip: decodable_append)
  then show ?thesis by auto
qed

lemma encode_all:
  "codec_ok cd (set ms) \<Longrightarrow>
     \<exists>bs. try_all (\<lambda>m. with_context c (cd_encode cd m)) ms = Ok bs \<and> decodable cd bs = ms"
proof (induction ms)
  case (Cons m ms)
  then obtain bs where bs: "try_all (\<lambda>m. with_context c (cd_encode cd m)) ms = Ok bs" "decodable cd bs = ms"
    by (auto simp: codec_ok_def)
  obtain b where b: "cd_encode cd m = Ok b" "cd_decode cd b = Inr m" using Cons.prems by (auto simp: codec_ok_def)
  then have "try_all (\<lambda>m. with_context c (cd_encode cd m)) (m # ms) = Ok (b # bs)"
    using bs(1) by (simp add: with_context_def)
  moreover have "decodable cd (b # bs) = m # ms" using b(2) bs(2) by simp
  ultimately show ?case by blast
qed simp

lemma node_process_exact:
  assumes "queries_ok mx st fin" "toggle_wf (parent_finality_provider env)"
  shows "\<exists>env'. node_process cd n mx env st msgs =
      (env', Ok (length msgs \<le> n \<and> (\<forall>m \<in> set (decodable cd msgs). acceptable fin env m))) \<and>
     env_core env' = env_core env"
proof (cases "length msgs \<le> n")
  case True
  then show ?thesis
    using chain_process_exact [OF assms, of "decodable cd msgs"]
    by (simp add: node_process_def bytes_process_def node_bytes_interpreter_def bytes_interpreter_new_def
        parse_lenient)
qed (simp add: node_process_def bytes_process_def node_bytes_interpreter_def bytes_interpreter_new_def)

lemma node_prepare_spec:
  assumes wf: "chain_env_wf env" and q: "queries_ok mx st fin"
    and new: "chain_prepare mx env st [] = (env', Ok new)" and cd: "codec_ok cd (set new)"
  shows "\<exists>bs. node_prepare cd n mx env st msgs = (env', Ok (take n (bs @ msgs))) \<and> decodable cd bs = new \<and>
     env_core env' = env_core env \<and> (\<forall>m \<in> set new. acceptable fin env m)"
proof -
  have p: "chain_prepare mx env st [] = (env', Ok new)" "env_core env' = env_core env"
    "\<forall>m \<in> set new. acceptable fin env m"
    using chain_prepare_acceptable [OF wf q, of "[]"] new by auto
  obtain bs where bs: "try_all (\<lambda>m. with_context ''failed to encode ChainMessage as IPLD'' (cd_encode cd m)) new = Ok bs"
    "decodable cd bs = new"
    using encode_all [OF cd] by blast
  have "node_prepare cd n mx env st msgs = (env', Ok (take n (bs @ msgs)))"
    using p(1) bs(1)
    by (simp add: node_prepare_def bytes_prepare_def node_bytes_interpreter_def bytes_interpreter_new_def Let_def)
  with p bs(2) show ?thesis by blast
qed

end
