(* ===== verification/Fvm_Query.thy ===== *)
theory Fvm_Query
  imports Chain_Interpreter
begin

text \<open>
  Queries on the state of the chain (\<open>fendermint/vm/interpreter/src/fvm/query.rs\<close> and
  \<open>fvm/state/query.rs\<close>), with the estimation of gas.

  The handlers return the query state next to their outcome, because the check state it refers to is
  shared with the mempool and outlives a query that fails. The block store, the decoding of its
  contents and the construction of an executor are the record \<open>query_context\<close>.
\<close>

section \<open>Parameters of the state\<close>

record FvmStateParams =
  sp_state_root :: "nat list"
  sp_timestamp :: nat
  sp_network_version :: nat
  sp_base_fee :: int
  sp_circ_supply :: int
  sp_chain_id :: nat
  sp_power_scale :: int
  sp_app_version :: nat

text \<open>\<open>FvmExecState::new\<close>, where \<open>new_executor\<close> builds the engine, the machine and its executor.\<close>

definition exec_state_at ::
  "(int \<Rightarrow> FvmStateParams \<Rightarrow> (string, 's) outcome) \<Rightarrow> int \<Rightarrow> FvmStateParams \<Rightarrow>
     (string, 's FvmExecState) outcome" where
  "exec_state_at new_executor block_height ps =
     obind (new_executor block_height ps) (\<lambda>ex.
     Ok (exec_state_new ex
       \<lparr>app_version = sp_app_version ps, base_fee = sp_base_fee ps, circ_supply = sp_circ_supply ps,
        power_scale = sp_power_scale ps\<rparr>))"

section \<open>Floating point\<close>

text \<open>Gas is multiplied with a rate in double precision. A rate is a pair of a mantissa and a number of
  fractional bits; \<open>round53\<close> rounds an exact product to 53 bits, to nearest and ties to even.\<close>

type_synonym f64 = "nat \<times> nat"

fun bitlen :: "nat \<Rightarrow> nat" where
  "bitlen n = (if n = 0 then 0 else Suc (bitlen (n div 2)))"

declare bitlen.simps [simp del]

definition round53 :: "nat \<Rightarrow> nat" where
  "round53 n =
     (let d = bitlen n - 53; q = n div 2 ^ d; r = n mod 2 ^ d in
      (if 2 * r > 2 ^ d \<or> (2 * r = 2 ^ d \<and> 0 < d \<and> odd q) then q + 1 else q) * 2 ^ d)"

definition f64_scale :: "nat \<Rightarrow> f64 \<Rightarrow> nat" where
  "f64_scale x rate = min (U64 - 1) (round53 (round53 x * fst rate) div 2 ^ snd rate)"

section \<open>The query state\<close>

record 's FvmQueryState =
  qs_block_height :: int
  qs_state_params :: FvmStateParams
  qs_exec_state :: "'s FvmExecState option"
  qs_check_state :: "'s FvmExecState option"
  qs_pending :: bool

record ('a, 's) query_context =
  qx_machine :: "('a, 's) machine"
  qx_new_executor :: "int \<Rightarrow> FvmStateParams \<Rightarrow> (string, 's) outcome"
  qx_has :: "nat list \<Rightarrow> (string, bool) outcome"
  qx_get :: "nat list \<Rightarrow> (string, nat list option) outcome"
  qx_system_eth_addr :: 'a
  qx_decode_system :: "nat list \<Rightarrow> (string, nat list) outcome"
  qx_decode_manifest :: "nat list \<Rightarrow> (string, (string \<times> nat list) list) outcome"

definition query_state_new ::
  "('a, 's) query_context \<Rightarrow> int \<Rightarrow> FvmStateParams \<Rightarrow> 's FvmExecState option \<Rightarrow> bool \<Rightarrow>
     (string, 's FvmQueryState) outcome" where
  "query_state_new qx block_height ps check_state pending =
     obind (with_context ''failed to load state-root'' (qx_has qx (sp_state_root ps))) (\<lambda>has.
     if \<not> has then Err ''blockstore doesn't have the state-root''
     else Ok \<lparr>qs_block_height = block_height, qs_state_params = ps, qs_exec_state = None,
              qs_check_state = check_state, qs_pending = pending\<rparr>)"

text \<open>What a step does to the state it runs on: an execution that fails leaves it as it was.\<close>

definition run_on :: "('st \<Rightarrow> (string, 't \<times> 'st) outcome) \<Rightarrow> 'st \<Rightarrow> 'st \<times> (string, 't) outcome" where
  "run_on f st =
     (case f st of
        Ok (x, st') \<Rightarrow> (st', Ok x)
      | Err e \<Rightarrow> (st, Err e)
      | Retry \<Rightarrow> (st, Retry)
      | Panic \<Rightarrow> (st, Panic))"

definition with_revert ::
  "('a, 's) machine \<Rightarrow> ('s FvmExecState \<Rightarrow> 's FvmExecState \<times> (string, 't) outcome) \<Rightarrow> 's FvmExecState \<Rightarrow>
     's FvmExecState \<times> (string, 't) outcome" where
  "with_revert mx f st =
     (case f (begin_transaction mx st) of
        (st', r) \<Rightarrow>
          (case revert_transaction mx st' of
             Ok st'' \<Rightarrow> (st'', r)
           | _ \<Rightarrow> (st', Panic)))"

definition with_exec_state ::
  "('a, 's) query_context \<Rightarrow> ('s FvmExecState \<Rightarrow> 's FvmExecState \<times> (string, 't) outcome) \<Rightarrow>
     's FvmQueryState \<Rightarrow> 's FvmQueryState \<times> (string, 't) outcome" where
  "with_exec_state qx f qs =
     (case (if qs_pending qs then qs_check_state qs else None) of
        Some ex \<Rightarrow>
          (case with_revert (qx_machine qx) f ex of (ex, r) \<Rightarrow> (qs\<lparr>qs_check_state := Some ex\<rparr>, r))
      | None \<Rightarrow>
          (case qs_exec_state qs of
             Some ex \<Rightarrow>
               (case with_revert (qx_machine qx) f ex of (ex, r) \<Rightarrow> (qs\<lparr>qs_exec_state := Some ex\<rparr>, r))
           | None \<Rightarrow>
               (case with_context ''error creating execution state''
                       (exec_state_at (qx_new_executor qx) (qs_block_height qs) (qs_state_params qs)) of
                  Ok ex \<Rightarrow>
                    (case with_revert (qx_machine qx) f ex of (ex, r) \<Rightarrow> (qs\<lparr>qs_exec_state := Some ex\<rparr>, r))
                | Err e \<Rightarrow> (qs, Err e)
                | Retry \<Rightarrow> (qs, Retry)
                | Panic \<Rightarrow> (qs, Panic))))"

definition get_actor_state ::
  "('a, 's) machine \<Rightarrow> 'a \<Rightarrow> 's FvmExecState \<Rightarrow> (string, (nat \<times> 'a ActorState) option) outcome" where
  "get_actor_state mx addr st =
     obind (mx_lookup_id mx addr (executor st)) (\<lambda>i.
     case i of
       Some i \<Rightarrow> obind (mx_get_actor mx i (executor st)) (\<lambda>a. Ok (map_option (\<lambda>a. (i, a)) a))
     | None \<Rightarrow> Ok None)"

definition query_actor_state ::
  "('a, 's) query_context \<Rightarrow> 'a \<Rightarrow> 's FvmQueryState \<Rightarrow>
     's FvmQueryState \<times> (string, (nat \<times> 'a ActorState) option) outcome" where
  "query_actor_state qx addr =
     with_exec_state qx (\<lambda>st. (st, get_actor_state (qx_machine qx) addr st))"

definition is_system_addr :: "('a, 's) query_context \<Rightarrow> 'a \<Rightarrow> bool" where
  "is_system_addr qx addr = (addr = mx_system_addr (qx_machine qx) \<or> addr = qx_system_eth_addr qx)"

text \<open>A sequence number of zero stands for the one in the state, a gas limit of zero for the limit of a
  block.\<close>

definition call_message ::
  "('a, 's) query_context \<Rightarrow> 'a FvmMessage \<Rightarrow> 's FvmExecState \<Rightarrow>
     (string, (ApplyRet \<times> (nat, 'a) hmap) \<times> 's FvmExecState) outcome" where
  "call_message qx msg st =
     (let mx = qx_machine qx in
      obind (if msg_sequence msg = 0
             then obind (get_actor_state mx (msg_from msg) st) (\<lambda>a.
                  Ok (case a of Some (_, a) \<Rightarrow> msg\<lparr>msg_sequence := act_sequence a\<rparr> | None \<Rightarrow> msg))
             else Ok msg) (\<lambda>msg.
      let msg = (if msg_gas_limit msg = 0 then msg\<lparr>msg_gas_limit := mx_block_gas_limit mx\<rparr> else msg) in
      if is_system_addr qx (msg_from msg) then execute_implicit mx msg st else execute_explicit mx msg st))"

definition query_call ::
  "('a, 's) query_context \<Rightarrow> 'a FvmMessage \<Rightarrow> 's FvmQueryState \<Rightarrow>
     's FvmQueryState \<times> (string, ApplyRet \<times> (nat, 'a) hmap) outcome" where
  "query_call qx msg = with_exec_state qx (run_on (call_message qx msg))"

text \<open>\<open>get_cbor\<close>: read from the store, and decode what is there.\<close>

definition get_cbor ::
  "('a, 's) query_context \<Rightarrow> (nat list \<Rightarrow> (string, 'x) outcome) \<Rightarrow> nat list \<Rightarrow> (string, 'x option) outcome" where
  "get_cbor qx decode cid =
     obind (qx_get qx cid) (\<lambda>bs. case bs of None \<Rightarrow> Ok None | Some bs \<Rightarrow> omap Some (decode bs))"

definition ok_or :: "string \<Rightarrow> 'x option \<Rightarrow> (string, 'x) outcome" where
  "ok_or e x = (case x of Some x \<Rightarrow> Ok x | None \<Rightarrow> Err e)"

definition query_builtin_actors ::
  "('a, 's) query_context \<Rightarrow> 's FvmQueryState \<Rightarrow>
     's FvmQueryState \<times> (string, (string \<times> nat list) list) outcome" where
  "query_builtin_actors qx qs =
     (case query_actor_state qx (mx_system_addr (qx_machine qx)) qs of
        (qs, r) \<Rightarrow>
          (qs,
           obind r (\<lambda>a.
           obind (ok_or ''no system actor'' a) (\<lambda>(_, sys_state).
           obind (with_context ''failed to get system state'' (get_cbor qx (qx_decode_system qx) (act_state sys_state)))
             (\<lambda>state.
           obind (ok_or ''system actor state not found'' state) (\<lambda>builtin_actors.
           obind (with_context ''failed to get builtin actors manifest''
             (get_cbor qx (qx_decode_manifest qx) builtin_actors)) (\<lambda>ret.
           ok_or ''builtin actors manifest not found'' ret)))))))"

section \<open>The query interpreter\<close>

datatype 'a FvmQuery =
    QIpld "nat list"
  | QActorState 'a
  | QCall "'a FvmMessage"
  | QEstimateGas "'a FvmMessage"
  | QStateParams
  | QBuiltinActors

record GasEstimate =
  ge_exit_code :: ExitCode
  ge_info :: string
  ge_return_data :: "nat list"
  ge_gas_limit :: nat

record StateParams =
  qp_base_fee :: int
  qp_circ_supply :: int
  qp_chain_id :: nat
  qp_network_version :: nat

datatype 'a FvmQueryRet =
    RIpld "nat list option"
  | RActorState "(nat \<times> 'a ActorState) option"
  | RCall "'a FvmApplyRet"
  | REstimateGas GasEstimate
  | RStateParams StateParams
  | RBuiltinActors "(string \<times> nat list) list"

definition nano :: int where
  "nano = 10 ^ 9"

definition estimate_of :: "ApplyRet \<Rightarrow> nat \<Rightarrow> GasEstimate" where
  "estimate_of ret limit =
     \<lparr>ge_exit_code = exit_code ret, ge_info = (case failure_info ret of Some i \<Rightarrow> i | None \<Rightarrow> ''''),
      ge_return_data = return_data ret, ge_gas_limit = limit\<rparr>"

text \<open>The message with the limit and the prices to search from, or the estimate of a message that fails
  with all the gas of a block.\<close>

definition estimate_gassed_msg ::
  "('a, 's) query_context \<Rightarrow> f64 \<Rightarrow> 'a FvmMessage \<Rightarrow> 's FvmQueryState \<Rightarrow>
     's FvmQueryState \<times> (string, 'a FvmMessage \<times> GasEstimate option) outcome" where
  "estimate_gassed_msg qx rate msg qs =
     (let gas_premium = msg_gas_premium msg; gas_fee_cap = msg_gas_fee_cap msg;
          msg = msg\<lparr>msg_gas_limit := mx_block_gas_limit (qx_machine qx), msg_gas_premium := 0, msg_gas_fee_cap := 0\<rparr> in
      case query_call qx msg qs of
        (qs, r) \<Rightarrow>
          (qs,
           obind r (\<lambda>(ret, _).
           if \<not> is_success ret then Ok (msg, Some (estimate_of ret 0))
           else let premium = (if gas_premium = 0 then nano else gas_premium) in
                Ok (msg\<lparr>msg_gas_limit := f64_scale (gas_used ret) rate, msg_gas_premium := premium,
                       msg_gas_fee_cap := (if gas_fee_cap = 0 then premium else gas_fee_cap)\<rparr>, None))))"

definition estimation_call_with_limit ::
  "('a, 's) query_context \<Rightarrow> 'a FvmMessage \<Rightarrow> nat \<Rightarrow> 's FvmQueryState \<Rightarrow>
     's FvmQueryState \<times> (string, GasEstimate option) outcome" where
  "estimation_call_with_limit qx msg limit qs =
     (case query_call qx (msg\<lparr>msg_gas_limit := limit, msg_sequence := 0\<rparr>) qs of
        (qs, r) \<Rightarrow>
          (qs,
           obind r (\<lambda>(ret, _).
           let est = estimate_of ret (gas_used ret) in
           if ge_exit_code est = EXIT_OK \<or> ge_exit_code est \<noteq> SYS_OUT_OF_GAS then Ok (Some est) else Ok None)))"

definition exhausted_estimate :: "nat \<Rightarrow> GasEstimate" where
  "exhausted_estimate limit =
     \<lparr>ge_exit_code = EXIT_OK, ge_info = '''', ge_return_data = [], ge_gas_limit = limit\<rparr>"

text \<open>The loop of \<open>gas_search\<close>; \<open>None\<close> if it does not end.\<close>

partial_function (option) gas_search ::
  "('a, 's) query_context \<Rightarrow> f64 \<Rightarrow> 'a FvmMessage \<Rightarrow> nat \<Rightarrow> 's FvmQueryState \<Rightarrow>
     ('s FvmQueryState \<times> (string, GasEstimate) outcome) option" where
  "gas_search qx step msg curr_limit qs =
     (case estimation_call_with_limit qx msg curr_limit qs of
        (qs, r) \<Rightarrow>
          (case r of
             Ok (Some est) \<Rightarrow> Some (qs, Ok est)
           | Ok None \<Rightarrow>
               (let curr_limit = f64_scale curr_limit step in
                if curr_limit > mx_block_gas_limit (qx_machine qx)
                then Some (qs, Ok (exhausted_estimate (mx_block_gas_limit (qx_machine qx))))
                else gas_search qx step msg curr_limit qs)
           | Err e \<Rightarrow> Some (qs, Err e)
           | Retry \<Rightarrow> Some (qs, Retry)
           | Panic \<Rightarrow> Some (qs, Panic)))"

record gas_settings =
  gas_overestimation_rate :: f64
  gas_search_step :: f64

definition query_estimate_gas ::
  "('a, 's) query_context \<Rightarrow> gas_settings \<Rightarrow> 'a FvmMessage \<Rightarrow> 's FvmQueryState \<Rightarrow>
     ('s FvmQueryState \<times> (string, 'a FvmQueryRet) outcome) option" where
  "query_estimate_gas qx gs msg qs =
     (case estimate_gassed_msg qx (gas_overestimation_rate gs) msg qs of
        (qs, Ok (msg, Some est)) \<Rightarrow> Some (qs, Ok (REstimateGas est))
      | (qs, Ok (msg, None)) \<Rightarrow>
          (case gas_search qx (gas_search_step gs) msg (msg_gas_limit msg) qs of
             None \<Rightarrow> None
           | Some (qs, r) \<Rightarrow>
               Some (qs, omap (\<lambda>est. REstimateGas
                 (est\<lparr>ge_gas_limit := f64_scale (ge_gas_limit est) (gas_overestimation_rate gs)\<rparr>)) r))
      | (qs, Err e) \<Rightarrow> Some (qs, Err e)
      | (qs, Retry) \<Rightarrow> Some (qs, Retry)
      | (qs, Panic) \<Rightarrow> Some (qs, Panic))"

fun fvm_query ::
  "('a, 's) query_context \<Rightarrow> gas_settings \<Rightarrow> 'a FvmQuery \<Rightarrow> 's FvmQueryState \<Rightarrow>
     ('s FvmQueryState \<times> (string, 'a FvmQueryRet) outcome) option" where
  "fvm_query qx gs (QIpld cid) qs = Some (qs, omap RIpld (qx_get qx cid))"
| "fvm_query qx gs (QActorState addr) qs =
     Some (map_prod id (omap RActorState) (query_actor_state qx addr qs))"
| "fvm_query qx gs (QCall msg) qs =
     Some (map_prod id (omap (\<lambda>(ret, emitters). RCall
       \<lparr>far_apply_ret = ret, far_from = msg_from msg, far_to = msg_to msg, far_method_num = msg_method_num msg,
        far_gas_limit = msg_gas_limit msg, far_emitters = emitters\<rparr>)) (query_call qx msg qs))"
| "fvm_query qx gs (QEstimateGas msg) qs = query_estimate_gas qx gs msg qs"
| "fvm_query qx gs QStateParams qs =
     (let ps = qs_state_params qs in
      Some (qs, Ok (RStateParams \<lparr>qp_base_fee = sp_base_fee ps, qp_circ_supply = sp_circ_supply ps,
        qp_chain_id = sp_chain_id ps, qp_network_version = sp_network_version ps\<rparr>)))"
| "fvm_query qx gs QBuiltinActors qs = Some (map_prod id (omap RBuiltinActors) (query_builtin_actors qx qs))"

section \<open>Lemmas\<close>

text \<open>What queries rely on of the machine: reverting a transaction restores the state from before it,
  whether or not a message was executed in between.\<close>

definition reverts :: "('a, 's) machine \<Rightarrow> bool" where
  "reverts mx =
     ((\<forall>s. mx_end_transaction mx True (mx_begin_transaction mx s) = Ok s) \<and>
      (\<forall>msg kind n s ret s'. mx_execute mx msg kind n (mx_begin_transaction mx s) = Ok (ret, s') \<longrightarrow>
         mx_end_transaction mx True s' = Ok s))"

text \<open>The state a query runs on.\<close>

definition query_base :: "('a, 's) query_context \<Rightarrow> 's FvmQueryState \<Rightarrow> (string, 's FvmExecState) outcome" where
  "query_base qx qs =
     (case (if qs_pending qs then qs_check_state qs else None) of
        Some ex \<Rightarrow> Ok ex
      | None \<Rightarrow>
          (case qs_exec_state qs of
             Some ex \<Rightarrow> Ok ex
           | None \<Rightarrow> with_context ''error creating execution state''
                (exec_state_at (qx_new_executor qx) (qs_block_height qs) (qs_state_params qs))))"

text \<open>Two query states that answer every query alike, and share the state of the mempool.\<close>

definition query_same :: "('a, 's) query_context \<Rightarrow> 's FvmQueryState \<Rightarrow> 's FvmQueryState \<Rightarrow> bool" where
  "query_same qx qs qs' =
     (query_base qx qs' = query_base qx qs \<and> qs_check_state qs' = qs_check_state qs \<and>
      qs_state_params qs' = qs_state_params qs \<and> qs_block_height qs' = qs_block_height qs \<and>
      qs_pending qs' = qs_pending qs)"

lemma query_same_refl [simp]: "query_same qx qs qs"
  by (simp add: query_same_def)

lemma query_same_trans: "query_same qx a b \<Longrightarrow> query_same qx b c \<Longrightarrow> query_same qx a c"
  by (simp add: query_same_def)

lemma query_same_base: "query_same qx qs qs' \<Longrightarrow> query_base qx qs' = query_base qx qs"
  by (simp add: query_same_def)

lemma with_revert_restores:
  assumes "\<And>st' r. f (begin_transaction mx st) = (st', r) \<Longrightarrow> revert_transaction mx st' = Ok st"
  shows "with_revert mx f st = (st, snd (f (begin_transaction mx st)))"
  using assms by (cases "f (begin_transaction mx st)") (simp add: with_revert_def)

lemma with_exec_state_spec:
  assumes f: "\<And>st st' r. f (begin_transaction (qx_machine qx) st) = (st', r) \<Longrightarrow>
      revert_transaction (qx_machine qx) st' = Ok st"
  shows "\<exists>qs'. with_exec_state qx f qs =
      (qs', obind (query_base qx qs) (\<lambda>st. snd (f (begin_transaction (qx_machine qx) st)))) \<and> query_same qx qs qs'"
proof -
  have w: "with_revert (qx_machine qx) f st = (st, snd (f (begin_transaction (qx_machine qx) st)))" for st
    by (rule with_revert_restores) (rule f)
  show ?thesis
  proof (cases "if qs_pending qs then qs_check_state qs else None")
    case (Some ex)
    then show ?thesis by (auto simp: with_exec_state_def w query_base_def query_same_def split: if_splits)
  next
    case None
    note pending = this
    show ?thesis
    proof (cases "qs_exec_state qs")
      case None
      define r where "r = with_context ''error creating execution state''
        (exec_state_at (qx_new_executor qx) (qs_block_height qs) (qs_state_params qs))"
      have "query_base qx qs = r" using None pending by (simp add: query_base_def r_def)
      moreover have "query_same qx qs (qs\<lparr>qs_exec_state := Some ex\<rparr>)" if "r = Ok ex" for ex
        using pending None that
        by (simp add: query_same_def query_base_def flip: r_def) (cases "qs_pending qs"; simp)
      ultimately show ?thesis
        using pending None by (cases r) (auto simp: with_exec_state_def w simp flip: r_def)
    next
      case (Some ex)
      then show ?thesis using pending by (auto simp: with_exec_state_def w query_base_def query_same_def)
    qed
  qed
qed

lemma revert_begin: "reverts mx \<Longrightarrow> revert_transaction mx (begin_transaction mx st) = Ok st"
  by (simp add: reverts_def revert_transaction_def begin_transaction_def)

lemma execute_message_reverts:
  assumes "reverts mx" "execute_message mx msg kind (begin_transaction mx st) = Ok (x, st')"
  shows "revert_transaction mx st' = Ok st"
proof (cases "mx_check mx msg")
  case None
  then obtain n ret ex where ex: "mx_execute mx msg kind n (mx_begin_transaction mx (executor st)) = Ok (ret, ex)"
    "st' = begin_transaction mx st\<lparr>executor := ex\<rparr>"
    using assms(2) by (auto simp: execute_message_def begin_transaction_def Let_def outcome_simps split: prod.splits)
  then have "mx_end_transaction mx True ex = Ok (executor st)" using assms(1) by (auto simp: reverts_def)
  then show ?thesis by (simp add: revert_transaction_def ex(2) begin_transaction_def)
next
  case (Some e)
  then show ?thesis using assms by (auto simp: execute_message_def revert_begin)
qed

lemma call_message_reverts:
  assumes "reverts (qx_machine qx)" "call_message qx msg (begin_transaction (qx_machine qx) st) = Ok (x, st')"
  shows "revert_transaction (qx_machine qx) st' = Ok st"
  using assms(2)
  by (auto simp: call_message_def Let_def outcome_simps execute_implicit_def execute_explicit_def
      dest: execute_message_reverts [OF assms(1)] split: if_splits option.splits)

text \<open>The reply to a message, on its own.\<close>

definition call_reply ::
  "('a, 's) query_context \<Rightarrow> 'a FvmMessage \<Rightarrow> 's FvmQueryState \<Rightarrow>
     (string, ApplyRet \<times> (nat, 'a) hmap) outcome" where
  "call_reply qx msg qs =
     obind (query_base qx qs) (\<lambda>st. omap fst (call_message qx msg (begin_transaction (qx_machine qx) st)))"

lemma snd_run_on: "snd (run_on f st) = omap fst (f st)"
  by (simp add: run_on_def split: outcome.splits prod.splits)

lemma query_call_spec:
  assumes "reverts (qx_machine qx)"
  shows "\<exists>qs'. query_call qx msg qs = (qs', call_reply qx msg qs) \<and> query_same qx qs qs'"
proof -
  have "revert_transaction (qx_machine qx) st' = Ok st"
    if "run_on (call_message qx msg) (begin_transaction (qx_machine qx) st) = (st', r)" for st st' r
    using that revert_begin [OF assms] call_message_reverts [OF assms]
    by (auto simp: run_on_def split: outcome.splits prod.splits)
  then show ?thesis
    using with_exec_state_spec [of "run_on (call_message qx msg)" qx qs]
    by (simp add: query_call_def call_reply_def snd_run_on)
qed

lemma call_reply_same: "query_same qx qs qs' \<Longrightarrow> call_reply qx msg qs' = call_reply qx msg qs"
  by (simp add: call_reply_def query_same_def)

lemma query_actor_state_spec:
  assumes "reverts (qx_machine qx)"
  shows "\<exists>qs'. query_actor_state qx addr qs =
      (qs', obind (query_base qx qs) (\<lambda>st. get_actor_state (qx_machine qx) addr (begin_transaction (qx_machine qx) st))) \<and>
     query_same qx qs qs'"
  using with_exec_state_spec [of "\<lambda>st. (st, get_actor_state (qx_machine qx) addr st)" qx qs] revert_begin [OF assms]
  by (simp add: query_actor_state_def)

subsection \<open>Rounding\<close>

lemma bitlen_pow: "n < 2 ^ bitlen n"
proof (induction n rule: bitlen.induct)
  case (1 n)
  show ?case
  proof (cases "n = 0")
    case False
    with 1 have "n div 2 < 2 ^ bitlen (n div 2)" by simp
    then show ?thesis using False by (simp add: bitlen.simps [of n])
  qed simp
qed

lemma pow_bitlen: "0 < n \<Longrightarrow> 2 ^ (bitlen n - 1) \<le> n"
proof (induction n rule: bitlen.induct)
  case (1 n)
  show ?case
  proof (cases "n div 2 = 0")
    case True
    with 1 show ?thesis by (simp add: bitlen.simps [of n] bitlen.simps [of 0])
  next
    case False
    then have b: "bitlen n = Suc (bitlen (n div 2))" "bitlen (n div 2) = Suc (bitlen (n div 2 div 2))"
      by (simp_all add: bitlen.simps [of n] bitlen.simps [of "n div 2"])
    have "2 ^ (bitlen (n div 2) - 1) \<le> n div 2" using 1 False by simp
    then have "2 * 2 ^ (bitlen (n div 2) - 1) \<le> n" by linarith
    then show ?thesis using b by simp
  qed
qed

lemma bitlen_le: "n < 2 ^ k \<Longrightarrow> bitlen n \<le> k"
proof (rule ccontr)
  assume n: "n < 2 ^ k" and b: "\<not> bitlen n \<le> k"
  from b have "0 < n" by (cases n) (simp_all add: bitlen.simps [of 0])
  from b have "(2 :: nat) ^ k \<le> 2 ^ (bitlen n - 1)" by (intro power_increasing) auto
  also have "\<dots> \<le> n" by (rule pow_bitlen [OF \<open>0 < n\<close>])
  finally show False using n by simp
qed

lemma round53_exact: "n < 2 ^ 53 \<Longrightarrow> round53 n = n"
  using bitlen_le [of n 53] by (simp add: round53_def)

lemma round53_lower: "(2 ^ 52 - 1) * n \<le> 2 ^ 52 * round53 n"
proof (cases "n < 2 ^ 53")
  case False
  define d where "d = bitlen n - 53"
  have "0 < n" using False by (cases n) auto
  have "53 < bitlen n"
  proof (rule ccontr)
    assume "\<not> 53 < bitlen n"
    then have "(2 :: nat) ^ bitlen n \<le> 2 ^ 53" by (intro power_increasing) auto
    with bitlen_pow [of n] False show False by simp
  qed
  then have "bitlen n - 1 = 52 + d" by (simp add: d_def)
  then have "(2 :: nat) ^ (bitlen n - 1) = 2 ^ 52 * 2 ^ d" by (simp add: power_add)
  then have small: "2 ^ 52 * 2 ^ d \<le> n" using pow_bitlen [OF \<open>0 < n\<close>] by simp
  have "n = n div 2 ^ d * 2 ^ d + n mod 2 ^ d" "n mod 2 ^ d < 2 ^ d"
    by (simp_all only: div_mult_mod_eq mod_less_divisor zero_less_power zero_less_numeral)
  then have "n \<le> n div 2 ^ d * 2 ^ d + 2 ^ d" by linarith
  moreover have "n div 2 ^ d * 2 ^ d \<le> round53 n" by (auto simp: round53_def Let_def d_def)
  ultimately have "2 ^ 52 * n \<le> 2 ^ 52 * round53 n + 2 ^ 52 * 2 ^ d"
    by (metis add_mult_distrib2 add_le_mono1 le_trans mult_le_mono2)
  with small show ?thesis by (simp add: algebra_simps)
qed (simp add: round53_exact)

lemma f64_scale_grows:
  assumes step: "5 * 2 ^ snd step \<le> 4 * fst step" and x: "5 \<le> x" "x < 2 ^ 53"
  shows "x < f64_scale x step"
proof -
  let ?k = "2 ^ snd step :: nat"
  have "5 * ?k * x \<le> 4 * (x * fst step)" using mult_le_mono1 [OF step, of x] by (simp add: mult_ac)
  then have "(2 ^ 52 - 1) * (5 * ?k * x) \<le> (2 ^ 52 - 1) * (4 * (x * fst step))" by (rule mult_le_mono2)
  also have "\<dots> \<le> 4 * (2 ^ 52 * round53 (x * fst step))"
    using mult_le_mono2 [OF round53_lower [of "x * fst step"], of 4] by (simp add: mult_ac)
  finally have p: "(2 ^ 52 - 1) * (5 * ?k * x) \<le> 4 * (2 ^ 52 * round53 (x * fst step))" .
  have "4 * 2 ^ 52 * (x + 1) \<le> (2 ^ 52 - 1) * 5 * x" using x by simp
  from mult_le_mono1 [OF this, of ?k]
  have "4 * 2 ^ 52 * ((x + 1) * ?k) \<le> (2 ^ 52 - 1) * (5 * ?k * x)" by (simp only: mult_ac)
  with p have "4 * 2 ^ 52 * ((x + 1) * ?k) \<le> 4 * 2 ^ 52 * round53 (x * fst step)"
    by (simp only: mult.assoc)
  then have "(x + 1) * ?k \<le> round53 (x * fst step)" by (simp only: mult_le_cancel1) simp
  then have "x + 1 \<le> round53 (x * fst step) div ?k" by (simp add: less_eq_div_iff_mult_less_eq)
  moreover have "x + 1 \<le> U64 - 1" using x by (simp add: U64_def)
  ultimately show ?thesis using x by (simp add: f64_scale_def round53_exact)
qed

subsection \<open>The search for a gas limit\<close>

fun limit_at :: "f64 \<Rightarrow> nat \<Rightarrow> nat \<Rightarrow> nat" where
  "limit_at step l 0 = l"
| "limit_at step l (Suc i) = limit_at step (f64_scale l step) i"

definition search_msg :: "'a FvmMessage \<Rightarrow> nat \<Rightarrow> 'a FvmMessage" where
  "search_msg msg limit = msg\<lparr>msg_gas_limit := limit, msg_sequence := 0\<rparr>"

lemma estimation_call_spec:
  assumes "reverts (qx_machine qx)" "call_reply qx (search_msg msg limit) qs = Ok (ret, em)"
  shows "\<exists>qs'. estimation_call_with_limit qx msg limit qs =
      (qs', Ok (if exit_code ret = SYS_OUT_OF_GAS then None else Some (estimate_of ret (gas_used ret)))) \<and>
     query_same qx qs qs'"
  using query_call_spec [OF assms(1), of "search_msg msg limit" qs] assms(2)
  by (auto simp: estimation_call_with_limit_def search_msg_def estimate_of_def Let_def)

text \<open>The outcome of a search: the limits before the \<open>i\<close>-th are too low, and the \<open>i\<close>-th is enough or the last.\<close>

definition search_result ::
  "f64 \<Rightarrow> nat \<Rightarrow> (nat \<Rightarrow> ApplyRet) \<Rightarrow> nat \<Rightarrow> nat \<Rightarrow> GasEstimate \<Rightarrow> bool" where
  "search_result step B reply l i est =
     ((\<forall>j < i. exit_code (reply (limit_at step l j)) = SYS_OUT_OF_GAS \<and> limit_at step l (Suc j) \<le> B) \<and>
      (if exit_code (reply (limit_at step l i)) = SYS_OUT_OF_GAS
       then B < limit_at step l (Suc i) \<and> est = exhausted_estimate B
       else est = estimate_of (reply (limit_at step l i)) (gas_used (reply (limit_at step l i)))))"

lemma search_result_0:
  "exit_code (reply l) \<noteq> SYS_OUT_OF_GAS \<Longrightarrow> search_result step B reply l 0 (estimate_of (reply l) (gas_used (reply l)))"
  "exit_code (reply l) = SYS_OUT_OF_GAS \<Longrightarrow> B < f64_scale l step \<Longrightarrow>
     search_result step B reply l 0 (exhausted_estimate B)"
  by (simp_all add: search_result_def)

lemma search_result_Suc:
  "exit_code (reply l) = SYS_OUT_OF_GAS \<Longrightarrow> f64_scale l step \<le> B \<Longrightarrow>
   search_result step B reply (f64_scale l step) i est \<Longrightarrow> search_result step B reply l (Suc i) est"
  by (simp add: search_result_def All_less_Suc2 split: if_splits)

lemma gas_search_spec:
  fixes reply :: "nat \<Rightarrow> ApplyRet"
  assumes rev: "reverts (qx_machine qx)" and step: "5 * 2 ^ snd step \<le> 4 * fst step"
    and B: "mx_block_gas_limit (qx_machine qx) < 2 ^ 53"
  shows "5 \<le> l \<Longrightarrow> l < 2 ^ 53 \<Longrightarrow> (\<And>n. \<exists>em. call_reply qx (search_msg msg n) qs = Ok (reply n, em)) \<Longrightarrow>
     \<exists>i qs' est. gas_search qx step msg l qs = Some (qs', Ok est) \<and> query_same qx qs qs' \<and>
       search_result step (mx_block_gas_limit (qx_machine qx)) reply l i est"
proof (induction "2 ^ 53 - l" arbitrary: l qs rule: less_induct)
  case less
  let ?B = "mx_block_gas_limit (qx_machine qx)" and ?l = "f64_scale l step"
  obtain em where "call_reply qx (search_msg msg l) qs = Ok (reply l, em)" using less.prems(3) by blast
  from estimation_call_spec [OF rev this]
  obtain qs1 where call: "estimation_call_with_limit qx msg l qs =
      (qs1, Ok (if exit_code (reply l) = SYS_OUT_OF_GAS then None else Some (estimate_of (reply l) (gas_used (reply l)))))"
    and same: "query_same qx qs qs1" by blast
  have grows: "l < ?l" by (rule f64_scale_grows [OF step less.prems(1,2)])
  consider (found) "exit_code (reply l) \<noteq> SYS_OUT_OF_GAS" | (stop) "exit_code (reply l) = SYS_OUT_OF_GAS" "?B < ?l"
    | (again) "exit_code (reply l) = SYS_OUT_OF_GAS" "?l \<le> ?B" by fastforce
  then show ?case
  proof cases
    case found
    then have "gas_search qx step msg l qs = Some (qs1, Ok (estimate_of (reply l) (gas_used (reply l))))"
      using call by (simp add: gas_search.simps [of qx step msg l qs])
    with same search_result_0(1) [where reply = reply and l = l, OF found] show ?thesis by blast
  next
    case stop
    then have "gas_search qx step msg l qs = Some (qs1, Ok (exhausted_estimate ?B))"
      using call by (simp add: gas_search.simps [of qx step msg l qs] Let_def)
    with same search_result_0(2) [where reply = reply and l = l, OF stop] show ?thesis by blast
  next
    case again
    have replies: "\<exists>em. call_reply qx (search_msg msg n) qs1 = Ok (reply n, em)" for n
      using less.prems(3) by (simp add: call_reply_same [OF same])
    have l: "5 \<le> ?l" "?l < 2 ^ 53" "2 ^ 53 - ?l < 2 ^ 53 - l" using grows less.prems(1,2) again(2) B by auto
    from less.hyps [OF l(3,1,2) replies] obtain i qs' est where
      IH: "gas_search qx step msg ?l qs1 = Some (qs', Ok est)" "query_same qx qs1 qs'"
        "search_result step ?B reply ?l i est" by blast
    have "gas_search qx step msg l qs = Some (qs', Ok est)"
      using call again IH(1) by (simp add: gas_search.simps [of qx step msg l qs] Let_def)
    with query_same_trans [OF same IH(2)] search_result_Suc [where reply = reply and l = l, OF again IH(3)] show ?thesis by blast
  qed
qed

lemma estimate_gassed_spec:
  assumes rev: "reverts (qx_machine qx)"
    and reply: "call_reply qx (msg\<lparr>msg_gas_limit := mx_block_gas_limit (qx_machine qx), msg_gas_premium := 0,
       msg_gas_fee_cap := 0\<rparr>) qs = Ok (ret, em)"
  shows "\<exists>qs' msg'. query_same qx qs qs' \<and> estimate_gassed_msg qx rate msg qs =
      (qs', Ok (msg', if is_success ret then None else Some (estimate_of ret 0))) \<and>
     (is_success ret \<longrightarrow> msg_gas_limit msg' = f64_scale (gas_used ret) rate)"
  using query_call_spec [OF rev, of "msg\<lparr>msg_gas_limit := mx_block_gas_limit (qx_machine qx), msg_gas_premium := 0,
       msg_gas_fee_cap := 0\<rparr>" qs] reply
  by (auto simp: estimate_gassed_msg_def Let_def)

lemmas gas_search_induct = gas_search.raw_induct [rotated, consumes 1, case_names step]

text \<open>A limit that the step does not raise is tried forever.\<close>

lemma gas_search_stuck:
  assumes rev: "reverts (qx_machine qx)" and stuck: "f64_scale l step = l" "l \<le> mx_block_gas_limit (qx_machine qx)"
    and reply: "call_reply qx (search_msg msg l) qs0 = Ok (ret, em)" "exit_code ret = SYS_OUT_OF_GAS"
  shows "gas_search qx step msg l qs0 = None"
proof -
  have "\<not> query_same qx0 qs0 qs" if "gas_search qx0 step0 msg0 l0 qs = Some y"
    "qx0 = qx" "step0 = step" "msg0 = msg" "l0 = l" for qx0 step0 msg0 l0 qs y
    using that
  proof (induction rule: gas_search_induct)
    case (step search qx0 step0 msg0 l0 qs y)
    show ?case
    proof
      assume same: "query_same qx0 qs0 qs"
      have r: "call_reply qx (search_msg msg l) qs = Ok (ret, em)"
        using reply(1) call_reply_same [OF same] step(3) by simp
      obtain qs1 where "estimation_call_with_limit qx msg l qs = (qs1, Ok None)" "query_same qx qs qs1"
        using estimation_call_spec [OF rev r] reply(2) by auto
      note call = this
      have "search qx0 step0 msg0 l0 qs1 = Some y"
        using step(2-6) stuck call(1) by (simp add: Let_def)
      from step(1) [OF this step(3-6)] same call(2) step(3) show False
        by (simp add: query_same_trans)
    qed
  qed
  note never = this
  show ?thesis
  proof (cases "gas_search qx step msg l qs0")
    case (Some y)
    from never [OF this refl refl refl refl] show ?thesis by simp
  qed simp
qed

lemma gas_search_same:
  assumes "gas_search qx step msg l qs = Some y" "reverts (qx_machine qx)"
  shows "query_same qx qs (fst y)"
  using assms
proof (induction rule: gas_search_induct)
  case (step search qx step msg l qs y)
  obtain qs1 r where call: "estimation_call_with_limit qx msg l qs = (qs1, r)" "query_same qx qs qs1"
    using query_call_spec [OF step(3), of "search_msg msg l" qs]
    by (auto simp: estimation_call_with_limit_def search_msg_def)
  show ?case
  proof (cases "\<exists>est. y = (qs1, est)")
    case False
    then have "search qx step msg (f64_scale l step) qs1 = Some y"
      using step(2) call(1) by (auto simp: Let_def split: outcome.splits option.splits if_splits)
    from step(1) [OF this step(3)] call(2) show ?thesis by (rule query_same_trans [rotated])
  qed (use call in auto)
qed

lemma estimate_gas_same:
  assumes "query_estimate_gas qx gs msg qs = Some (qs', r)" "reverts (qx_machine qx)"
  shows "query_same qx qs qs'"
proof -
  obtain qs1 x where gassed: "estimate_gassed_msg qx (gas_overestimation_rate gs) msg qs = (qs1, x)"
    "query_same qx qs qs1"
    using query_call_spec [OF assms(2), of "msg\<lparr>msg_gas_limit := mx_block_gas_limit (qx_machine qx),
        msg_gas_premium := 0, msg_gas_fee_cap := 0\<rparr>" qs]
    by (auto simp: estimate_gassed_msg_def Let_def)
  show ?thesis
  proof (cases "qs' = qs1")
    case False
    then obtain msg' y where "gas_search qx (gas_search_step gs) msg' (msg_gas_limit msg') qs1 = Some (qs', y)"
      using assms(1) gassed(1)
      by (auto simp: query_estimate_gas_def split: outcome.splits option.splits prod.splits)
    from query_same_trans [OF gassed(2)] gas_search_same [OF this assms(2)] show ?thesis by simp
  qed (use gassed(2) in simp)
qed

section \<open>Properties\<close>

text \<open>Queries are read-only. Whatever a query does, and even if it fails half-way, the state of the
  mempool is the same afterwards, and the query state answers the next query as it would have answered
  it before.\<close>

theorem queries_read_only:
  assumes "reverts (qx_machine qx)" "fvm_query qx gs q qs = Some (qs', r)"
  shows "qs_check_state qs' = qs_check_state qs \<and> query_base qx qs' = query_base qx qs \<and>
     qs_state_params qs' = qs_state_params qs"
proof -
  have "query_same qx qs qs'"
  proof (cases q)
    case (QEstimateGas msg)
    then show ?thesis using estimate_gas_same assms by fastforce
  next
    case (QActorState addr)
    then show ?thesis using query_actor_state_spec [OF assms(1), of addr qs] assms(2) by auto
  next
    case (QCall msg)
    then show ?thesis using query_call_spec [OF assms(1), of msg qs] assms(2) by auto
  next
    case QBuiltinActors
    then show ?thesis
      using query_actor_state_spec [OF assms(1), of "mx_system_addr (qx_machine qx)" qs] assms(2)
      by (auto simp: query_builtin_actors_def)
  qed (use assms(2) in \<open>auto simp: Let_def\<close>)
  then show ?thesis by (simp add: query_same_def)
qed

text \<open>The estimation of gas ends with the first limit that is enough. If the message succeeds with all
  the gas of a block, the step is at least 5/4 and the initial limit is at least 5 (the gas of every
  message on chain is far above), the search tries the limits one after the other, and returns what the
  message used at the first limit at which it does not run out of gas, scaled by the rate; if there is none
  below the limit of a block, it returns that limit, scaled by the rate.\<close>

theorem estimate_gas_first:
  assumes "reverts (qx_machine qx)" "\<forall>m. is_ok (call_reply qx m qs)"
    and "5 * 2 ^ snd (gas_search_step gs) \<le> 4 * fst (gas_search_step gs)"
    and "mx_block_gas_limit (qx_machine qx) < 2 ^ 53"
    and "call_reply qx (msg\<lparr>msg_gas_limit := mx_block_gas_limit (qx_machine qx), msg_gas_premium := 0,
       msg_gas_fee_cap := 0\<rparr>) qs = Ok (ret, em)" "is_success ret"
    and "5 \<le> f64_scale (gas_used ret) (gas_overestimation_rate gs)"
       "f64_scale (gas_used ret) (gas_overestimation_rate gs) < 2 ^ 53"
  shows "\<exists>qs' msg' reply i est. query_estimate_gas qx gs msg qs =
      Some (qs', Ok (REstimateGas (est\<lparr>ge_gas_limit := f64_scale (ge_gas_limit est) (gas_overestimation_rate gs)\<rparr>))) \<and>
     (\<forall>n. \<exists>em. call_reply qx (search_msg msg' n) qs = Ok (reply n, em)) \<and>
     search_result (gas_search_step gs) (mx_block_gas_limit (qx_machine qx)) reply
       (f64_scale (gas_used ret) (gas_overestimation_rate gs)) i est"
proof -
  obtain qs1 msg' where gassed: "query_same qx qs qs1"
    "estimate_gassed_msg qx (gas_overestimation_rate gs) msg qs = (qs1, Ok (msg', None))"
    "msg_gas_limit msg' = f64_scale (gas_used ret) (gas_overestimation_rate gs)"
    using estimate_gassed_spec [OF assms(1,5), of "gas_overestimation_rate gs"] assms(6) by auto
  define reply where "reply n = (case call_reply qx (search_msg msg' n) qs of Ok (ret, em) \<Rightarrow> ret)" for n
  have replies: "\<exists>em. call_reply qx (search_msg msg' n) qs = Ok (reply n, em)" for n
    using assms(2) [rule_format, of "search_msg msg' n"]
    by (cases "call_reply qx (search_msg msg' n) qs") (auto simp: reply_def)
  then have "\<exists>em. call_reply qx (search_msg msg' n) qs1 = Ok (reply n, em)" for n
    by (simp add: call_reply_same [OF gassed(1)])
  from gas_search_spec [OF assms(1,3,4,7,8) this] obtain i qs2 est where
    "gas_search qx (gas_search_step gs) msg' (f64_scale (gas_used ret) (gas_overestimation_rate gs)) qs1 = Some (qs2, Ok est)"
    "search_result (gas_search_step gs) (mx_block_gas_limit (qx_machine qx)) reply
       (f64_scale (gas_used ret) (gas_overestimation_rate gs)) i est" by blast
  with gassed replies show ?thesis by (fastforce simp: query_estimate_gas_def)
qed

section \<open>Witnesses\<close>

text \<open>A machine on which every message uses 20 units of gas, and runs out of gas with a limit below 30.\<close>

definition metered_machine :: "(nat, accounts) machine" where
  "metered_machine = sample_machine\<lparr>mx_execute := (\<lambda>m k n s.
     Ok (if msg_gas_limit m < 30
         then \<lparr>exit_code = SYS_OUT_OF_GAS, return_data = [], gas_used = msg_gas_limit m, failure_info = Some ''out of gas'',
               event_emitters = []\<rparr>
         else \<lparr>exit_code = EXIT_OK, return_data = [1], gas_used = 20, failure_info = None, event_emitters = []\<rparr>, s))\<rparr>"

definition sample_state_params :: FvmStateParams where
  "sample_state_params = \<lparr>sp_state_root = [7], sp_timestamp = 100, sp_network_version = 21, sp_base_fee = 0,
     sp_circ_supply = 1000, sp_chain_id = 1, sp_power_scale = 3, sp_app_version = 0\<rparr>"

definition sample_query_context :: "(nat, accounts) query_context" where
  "sample_query_context =
     \<lparr>qx_machine = metered_machine, qx_new_executor = (\<lambda>h ps. Ok sample_accounts), qx_has = (\<lambda>c. Ok True),
      qx_get = (\<lambda>c. Ok (Some c)), qx_system_eth_addr = 1, qx_decode_system = Ok,
      qx_decode_manifest = (\<lambda>bs. Ok [(''account'', bs)])\<rparr>"

definition sample_query_state :: "accounts FvmQueryState" where
  "sample_query_state =
     \<lparr>qs_block_height = 5, qs_state_params = sample_state_params, qs_exec_state = None,
      qs_check_state = Some sample_state, qs_pending = True\<rparr>"

lemma sample_scale: "f64_scale 20 (5, 2) = 25" "f64_scale 25 (5, 2) = 31"
  by (simp_all add: f64_scale_def round53_exact U64_def)

definition sample_gas_settings :: gas_settings where
  "sample_gas_settings = \<lparr>gas_overestimation_rate = (5, 2), gas_search_step = (5, 2)\<rparr>"

lemmas sample_query_defs = sample_query_context_def sample_query_state_def sample_gas_settings_def
  metered_machine_def sample_state_params_def sample_exec_defs

lemma metered_reverts: "reverts (qx_machine sample_query_context)"
  by (auto simp: reverts_def sample_query_context_def metered_machine_def sample_machine_def)

lemma metered_limit [simp]: "mx_block_gas_limit (qx_machine sample_query_context) = 10000000000"
  by (simp add: sample_query_context_def metered_machine_def sample_machine_def)

lemma metered_reply:
  "call_reply sample_query_context msg sample_query_state =
     Ok (if 0 < msg_gas_limit msg \<and> msg_gas_limit msg < 30
         then \<lparr>exit_code = SYS_OUT_OF_GAS, return_data = [], gas_used = msg_gas_limit msg,
               failure_info = Some ''out of gas'', event_emitters = []\<rparr>
         else \<lparr>exit_code = EXIT_OK, return_data = [1], gas_used = 20, failure_info = None, event_emitters = []\<rparr>, [])"
  by (auto simp: call_reply_def query_base_def sample_query_defs call_message_def get_actor_state_def Let_def
      execute_implicit_def execute_explicit_def execute_message_def begin_transaction_def
      emitter_delegated_addresses_def split: option.splits)

theorem queries_read_only_witness:
  "\<exists>qs' r. fvm_query sample_query_context sample_gas_settings (QCall (sample_msg 7 0)) sample_query_state = Some (qs', r) \<and>
     qs_check_state qs' = Some sample_state"
proof -
  obtain qs' r where q: "fvm_query sample_query_context sample_gas_settings (QCall (sample_msg 7 0)) sample_query_state =
      Some (qs', r)"
    by (cases "map_prod id (omap (\<lambda>(ret, emitters). RCall
       \<lparr>far_apply_ret = ret, far_from = 7, far_to = 7, far_method_num = 2, far_gas_limit = 10, far_emitters = emitters\<rparr>))
         (query_call sample_query_context (sample_msg 7 0) sample_query_state)") (simp add: sample_msg_def)
  have "qs_check_state qs' = Some sample_state"
    using queries_read_only [OF metered_reverts q] by (simp add: sample_query_state_def)
  with q show ?thesis by blast
qed

lemma sample_settings [simp]:
  "gas_overestimation_rate sample_gas_settings = (5, 2)" "gas_search_step sample_gas_settings = (5, 2)"
  by (simp_all add: sample_gas_settings_def)

theorem estimate_gas_first_witness:
  "\<exists>qs' est. query_estimate_gas sample_query_context sample_gas_settings (sample_msg 7 0) sample_query_state =
     Some (qs', Ok (REstimateGas est)) \<and> ge_gas_limit est = 25 \<and> ge_exit_code est = EXIT_OK"
proof -
  let ?msg = "sample_msg 7 0\<lparr>msg_gas_limit := mx_block_gas_limit (qx_machine sample_query_context),
      msg_gas_premium := 0, msg_gas_fee_cap := 0\<rparr>"
  obtain ret where r: "call_reply sample_query_context ?msg sample_query_state = Ok (ret, [])" "is_success ret"
    "gas_used ret = 20"
    by (simp add: metered_reply is_success_def)
  have "\<exists>qs' msg' reply i est. query_estimate_gas sample_query_context sample_gas_settings (sample_msg 7 0) sample_query_state =
      Some (qs', Ok (REstimateGas (est\<lparr>ge_gas_limit := f64_scale (ge_gas_limit est) (gas_overestimation_rate sample_gas_settings)\<rparr>))) \<and>
     (\<forall>n. \<exists>em. call_reply sample_query_context (search_msg msg' n) sample_query_state = Ok (reply n, em)) \<and>
     search_result (gas_search_step sample_gas_settings) (mx_block_gas_limit (qx_machine sample_query_context)) reply
       (f64_scale (gas_used ret) (gas_overestimation_rate sample_gas_settings)) i est"
    by (rule estimate_gas_first [OF metered_reverts])
      (use r in \<open>simp_all add: metered_reply sample_scale\<close>)
  then obtain qs' msg' reply i est where q:
    "query_estimate_gas sample_query_context sample_gas_settings (sample_msg 7 0) sample_query_state =
       Some (qs', Ok (REstimateGas (est\<lparr>ge_gas_limit := f64_scale (ge_gas_limit est) (5, 2)\<rparr>)))"
    "\<And>n. \<exists>em. call_reply sample_query_context (search_msg msg' n) sample_query_state = Ok (reply n, em)"
    "search_result (5, 2) (mx_block_gas_limit (qx_machine sample_query_context)) reply 25 i est"
    by (simp only: r(3) sample_settings sample_scale) (elim exE conjE, rule that, assumption, auto)
  have reply: "exit_code (reply n) = (if 0 < n \<and> n < 30 then SYS_OUT_OF_GAS else EXIT_OK)"
    "30 \<le> n \<Longrightarrow> gas_used (reply n) = 20" for n
    using q(2) [of n] by (auto simp: metered_reply search_msg_def split: if_splits dest!: sym [where t = "reply _"])
  have "i = 1"
  proof (cases i rule: nat.exhaust)
    case zero
    then show ?thesis using q(3)
      by (simp add: search_result_def reply sample_scale)
  next
    case (Suc j)
    then show ?thesis using q(3) by (cases j) (auto simp: search_result_def reply All_less_Suc2 sample_scale)
  qed
  then have "est = estimate_of (reply 31) 20"
    using q(3) by (simp add: search_result_def reply sample_scale)
  then have "ge_gas_limit (est\<lparr>ge_gas_limit := f64_scale (ge_gas_limit est) (5, 2)\<rparr>) = 25"
    "ge_exit_code (est\<lparr>ge_gas_limit := f64_scale (ge_gas_limit est) (5, 2)\<rparr>) = EXIT_OK"
    by (simp_all add: estimate_of_def reply sample_scale)
  with q(1) show ?thesis by blast
qed

end
