(* ===== verification/State_Snapshot.thy ===== *)
theory State_Snapshot
  imports Fvm_Query "HOL-Library.Multiset"
begin

text \<open>
  The contents of a snapshot (\<open>fendermint/vm/interpreter/src/fvm/state/snapshot.rs\<close>): the blocks of the
  state tree, the parameters of the state and the metadata, streamed into a CAR file and loaded from it.

  The block store, the CAR format, IPLD decoding and the merging of streams are third-party code; they
  come in as the record \<open>snapshot_lib\<close>. Streaming the state tree ends with \<open>None\<close> only if it never ends.
\<close>

section \<open>Links\<close>

type_synonym cid = "nat list"

datatype Ipld = IList "Ipld list" | IMap "(nat list \<times> Ipld) list" | ILink cid | IScalar

fun walk_ipld_cids :: "Ipld \<Rightarrow> cid list" where
  "walk_ipld_cids (IList v) = concat (map walk_ipld_cids v)"
| "walk_ipld_cids (IMap m) = concat (map (\<lambda>kv. walk_ipld_cids (snd kv)) m)"
| "walk_ipld_cids (ILink c) = [c]"
| "walk_ipld_cids IScalar = []"

section \<open>Libraries\<close>

text \<open>The block store \<open>'b\<close>; the codec of an identifier and the identifier of contents; whether there is a
  state tree at a root; the CAR format, as the header and one frame for each block, its reader, which
  yields the blocks or errors one after the other, and its loader, which checks the identifiers if told so; the IPLD encoding of the two records a snapshot adds.\<close>

record 'b snapshot_lib =
  sl_get :: "'b \<Rightarrow> cid \<Rightarrow> (string, nat list option) outcome"
  sl_is_cbor :: "cid \<Rightarrow> bool"
  sl_ipld :: "nat list \<Rightarrow> Ipld option"
  sl_cid :: "nat list \<Rightarrow> cid"
  sl_state_tree :: "'b \<Rightarrow> cid \<Rightarrow> (string, unit) outcome"
  sl_header :: "cid list \<Rightarrow> nat list"
  sl_frame :: "cid \<times> nat list \<Rightarrow> nat list"
  sl_parse_car :: "nat list \<Rightarrow> (string, cid list \<times> (string + cid \<times> nat list) list) outcome"
  sl_load_car :: "bool \<Rightarrow> 'b \<Rightarrow> nat list \<Rightarrow> 'b \<times> (string, cid list) outcome"
  sl_merge :: "(cid \<times> nat list) list \<Rightarrow> (cid \<times> nat list) list \<Rightarrow> (cid \<times> nat list) list"
  sl_encode_params :: "FvmStateParams \<times> nat \<Rightarrow> (string, nat list) outcome"
  sl_decode_params :: "nat list \<Rightarrow> (string, FvmStateParams \<times> nat) outcome"
  sl_encode_meta :: "nat \<times> cid \<Rightarrow> (string, nat list) outcome"
  sl_decode_meta :: "nat list \<Rightarrow> (string, nat \<times> cid) outcome"

section \<open>The state tree as a stream\<close>

text \<open>One poll of \<open>StateTreeStreamer\<close>: missing blocks are skipped, and an error of the store ends the
  stream.\<close>

fun stream_next ::
  "'b snapshot_lib \<Rightarrow> 'b \<Rightarrow> cid list \<Rightarrow> (string, (cid \<times> nat list) option \<times> cid list) outcome" where
  "stream_next sl bs [] = Ok (None, [])"
| "stream_next sl bs (c # dfs) =
     (case sl_get sl bs c of
        Ok (Some bytes) \<Rightarrow>
          (if sl_is_cbor sl c
           then case sl_ipld sl bytes of
                  Some ipld \<Rightarrow> Ok (Some (c, bytes), dfs @ walk_ipld_cids ipld)
                | None \<Rightarrow> Panic
           else Ok (Some (c, bytes), dfs))
      | Ok None \<Rightarrow> stream_next sl bs dfs
      | Err e \<Rightarrow> Ok (None, dfs)
      | Retry \<Rightarrow> Retry
      | Panic \<Rightarrow> Panic)"

partial_function (option) stream_blocks ::
  "'b snapshot_lib \<Rightarrow> 'b \<Rightarrow> cid list \<Rightarrow> (string, (cid \<times> nat list) list) outcome option" where
  "stream_blocks sl bs dfs =
     (case stream_next sl bs dfs of
        Ok (next, dfs) \<Rightarrow>
          (case next of
             None \<Rightarrow> Some (Ok [])
           | Some block \<Rightarrow> Option.bind (stream_blocks sl bs dfs) (\<lambda>r. Some (omap ((#) block) r)))
      | Err e \<Rightarrow> Some (Err e)
      | Retry \<Rightarrow> Some Retry
      | Panic \<Rightarrow> Some Panic)"

section \<open>Snapshots\<close>

record Snapshot =
  sn_state_params :: FvmStateParams
  sn_block_height :: nat

definition SNAPSHOT_VERSION :: nat where
  "SNAPSHOT_VERSION = 1"

definition snapshot_new :: "'b snapshot_lib \<Rightarrow> 'b \<Rightarrow> FvmStateParams \<Rightarrow> nat \<Rightarrow> (string, Snapshot) outcome" where
  "snapshot_new sl bs ps h =
     obind (sl_state_tree sl bs (sp_state_root ps)) (\<lambda>_. Ok \<lparr>sn_state_params = ps, sn_block_height = h\<rparr>)"

definition v1_from_root :: "'b snapshot_lib \<Rightarrow> 'b \<Rightarrow> cid \<Rightarrow> (string, Snapshot) outcome" where
  "v1_from_root sl bs root_cid =
     obind (sl_get sl bs root_cid) (\<lambda>b.
     case b of
       Some b \<Rightarrow> obind (sl_decode_params sl b) (\<lambda>(ps, h). snapshot_new sl bs ps h)
     | None \<Rightarrow> Err ''invalid v1 snapshot, root cid not found'')"

text \<open>The root of the data, and all blocks with it.\<close>

definition v1_into_streamer ::
  "'b snapshot_lib \<Rightarrow> 'b \<Rightarrow> Snapshot \<Rightarrow> (string, cid \<times> (cid \<times> nat list) list) outcome option" where
  "v1_into_streamer sl bs sn =
     Option.bind (stream_blocks sl bs [sp_state_root (sn_state_params sn)]) (\<lambda>blocks.
     Some (obind (sl_encode_params sl (sn_state_params sn, sn_block_height sn)) (\<lambda>bytes.
           obind blocks (\<lambda>blocks.
           let root_cid = sl_cid sl bytes in
           Ok (root_cid, sl_merge sl blocks [(root_cid, bytes)])))))"

definition derive_cid :: "'b snapshot_lib \<Rightarrow> (string, nat list) outcome \<Rightarrow> (string, cid \<times> nat list) outcome" where
  "derive_cid sl bytes = obind bytes (\<lambda>bytes. Ok (sl_cid sl bytes, bytes))"

text \<open>The header and the frames, in the order they are written.\<close>

definition write_car ::
  "'b snapshot_lib \<Rightarrow> 'b \<Rightarrow> Snapshot \<Rightarrow> (string, cid list \<times> (cid \<times> nat list) list) outcome option" where
  "write_car sl bs sn =
     Option.bind (v1_into_streamer sl bs sn) (\<lambda>r.
     Some (obind r (\<lambda>(data_root_cid, blocks).
           obind (derive_cid sl (sl_encode_meta sl (SNAPSHOT_VERSION, data_root_cid))) (\<lambda>(metadata_cid, metadata_bytes).
           Ok ([metadata_cid], sl_merge sl [(metadata_cid, metadata_bytes)] blocks)))))"

definition car_file :: "'b snapshot_lib \<Rightarrow> cid list \<times> (cid \<times> nat list) list \<Rightarrow> nat list" where
  "car_file sl car = sl_header sl (fst car) @ concat (map (sl_frame sl) (snd car))"

definition read_car ::
  "'b snapshot_lib \<Rightarrow> nat list \<Rightarrow> 'b \<Rightarrow> bool \<Rightarrow> 'b \<times> (string, Snapshot) outcome" where
  "read_car sl file bs validate =
     (case sl_load_car sl validate bs file of
        (bs, r) \<Rightarrow>
          (bs,
           obind r (\<lambda>roots.
           if length roots \<noteq> 1 then Err ''invalid snapshot, should have 1 root cid''
           else obind (sl_get sl bs (roots ! 0)) (\<lambda>b.
                case b of
                  None \<Rightarrow> Err ''invalid snapshot, metadata not found''
                | Some b \<Rightarrow>
                    obind (sl_decode_meta sl b) (\<lambda>(version, data_root_cid).
                    if version = 1 then v1_from_root sl bs data_root_cid
                    else Err ''unknown snapshot version'')))))"

section \<open>Lemmas\<close>

text \<open>A store that answers, and whose blocks can be decoded; \<open>links\<close> of a block.\<close>

definition links :: "'b snapshot_lib \<Rightarrow> 'b \<Rightarrow> cid \<Rightarrow> cid list" where
  "links sl bs c =
     (case sl_get sl bs c of
        Ok (Some bytes) \<Rightarrow>
          (if sl_is_cbor sl c then case sl_ipld sl bytes of Some i \<Rightarrow> walk_ipld_cids i | None \<Rightarrow> [] else [])
      | _ \<Rightarrow> [])"

text \<open>Links never lead back, because an identifier is a hash of the block.\<close>

definition store_ok :: "'b snapshot_lib \<Rightarrow> 'b \<Rightarrow> (cid \<Rightarrow> nat) \<Rightarrow> bool" where
  "store_ok sl bs rank =
     ((\<forall>c. \<exists>b. sl_get sl bs c = Ok b) \<and>
      (\<forall>c bytes. sl_get sl bs c = Ok (Some bytes) \<longrightarrow> sl_is_cbor sl c \<longrightarrow> sl_ipld sl bytes \<noteq> None) \<and>
      (\<forall>c d. d \<in> set (links sl bs c) \<longrightarrow> rank d < rank c))"

inductive reach :: "'b snapshot_lib \<Rightarrow> 'b \<Rightarrow> cid \<Rightarrow> cid \<Rightarrow> bool" for sl bs r where
  reach_root: "reach sl bs r r"
| reach_link: "reach sl bs r c \<Longrightarrow> d \<in> set (links sl bs c) \<Longrightarrow> reach sl bs r d"

lemma reach_step: "d \<in> set (links sl bs c) \<Longrightarrow> reach sl bs d e \<Longrightarrow> reach sl bs c e"
  by (rotate_tac, induction rule: reach.induct) (auto intro: reach.intros)

lemma reach_cases: "reach sl bs c e \<longleftrightarrow> e = c \<or> (\<exists>d \<in> set (links sl bs c). reach sl bs d e)"
proof
  show "reach sl bs c e \<Longrightarrow> e = c \<or> (\<exists>d \<in> set (links sl bs c). reach sl bs d e)"
    by (induction rule: reach.induct) (auto intro: reach.intros)
qed (auto intro: reach.intros reach_step)

text \<open>The blocks that can be reached from the roots.\<close>

definition reach_blocks :: "'b snapshot_lib \<Rightarrow> 'b \<Rightarrow> cid list \<Rightarrow> (cid \<times> nat list) set" where
  "reach_blocks sl bs roots =
     {(c, bytes). (\<exists>r \<in> set roots. reach sl bs r c) \<and> sl_get sl bs c = Ok (Some bytes)}"

lemma reach_blocks_missing:
  assumes "sl_get sl bs c = Ok None"
  shows "reach_blocks sl bs (c # dfs) = reach_blocks sl bs dfs"
proof -
  have "links sl bs c = []" using assms by (simp add: links_def)
  then have "reach sl bs c e \<longleftrightarrow> e = c" for e by (subst reach_cases) simp
  then show ?thesis using assms by (auto simp: reach_blocks_def)
qed

lemma reach_blocks_found:
  assumes "sl_get sl bs c = Ok (Some bytes)"
  shows "reach_blocks sl bs (c # dfs) = insert (c, bytes) (reach_blocks sl bs (dfs @ links sl bs c))"
  using assms reach_cases [of sl bs c] by (auto simp: reach_blocks_def)

lemma stream_next_cases:
  assumes ok: "store_ok sl bs rank"
  shows "stream_next sl bs dfs = Ok (None, []) \<and> reach_blocks sl bs dfs = {} \<or>
     (\<exists>c bytes dfs1 dfs2. dfs = dfs1 @ c # dfs2 \<and>
        stream_next sl bs dfs = Ok (Some (c, bytes), dfs2 @ links sl bs c) \<and>
        reach_blocks sl bs dfs = insert (c, bytes) (reach_blocks sl bs (dfs2 @ links sl bs c)))"
proof (induction dfs)
  case (Cons c dfs)
  obtain b where b: "sl_get sl bs c = Ok b" using ok by (auto simp: store_ok_def) blast
  show ?case
  proof (cases b)
    case None
    with b Cons.IH show ?thesis
      by (simp add: reach_blocks_missing) (metis append_Cons)
  next
    case (Some bytes)
    then have "sl_is_cbor sl c \<longrightarrow> sl_ipld sl bytes \<noteq> None" using ok b by (auto simp: store_ok_def)
    then have "stream_next sl bs (c # dfs) = Ok (Some (c, bytes), dfs @ links sl bs c)"
      using b Some by (auto simp: links_def)
    moreover have "c # dfs = [] @ c # dfs" by simp
    ultimately show ?thesis using reach_blocks_found [of sl bs c bytes dfs] b Some by blast
  qed
qed (simp add: reach_blocks_def)

text \<open>Every step replaces an identifier in the queue by identifiers of lower rank, so the queue gets
  smaller in the multiset order.\<close>

lemma stream_blocks_spec:
  assumes ok: "store_ok sl bs rank"
  shows "\<exists>blocks. stream_blocks sl bs dfs = Some (Ok blocks) \<and> set blocks = reach_blocks sl bs dfs"
proof (induction "image_mset rank (mset dfs)" arbitrary: dfs rule: wf_induct_rule [OF wf_mult [OF wf_less_than]])
  case less: 1
  from stream_next_cases [OF ok, of dfs] show ?case
  proof (elim disjE conjE exE)
    assume "stream_next sl bs dfs = Ok (None, [])" "reach_blocks sl bs dfs = {}"
    then show ?thesis by (simp add: stream_blocks.simps [of sl bs dfs])
  next
    fix c bytes dfs1 dfs2
    assume dfs: "dfs = dfs1 @ c # dfs2" and nxt: "stream_next sl bs dfs = Ok (Some (c, bytes), dfs2 @ links sl bs c)"
      and blocks: "reach_blocks sl bs dfs = insert (c, bytes) (reach_blocks sl bs (dfs2 @ links sl bs c))"
    have "(image_mset rank (mset dfs2) + image_mset rank (mset (links sl bs c)),
        image_mset rank (mset dfs2) + (image_mset rank (mset dfs1) + {#rank c#})) \<in> mult less_than"
      by (rule one_step_implies_mult) (use ok in \<open>auto simp: store_ok_def\<close>)
    then have "(image_mset rank (mset (dfs2 @ links sl bs c)), image_mset rank (mset dfs)) \<in> mult less_than"
      by (simp add: dfs ac_simps)
    from less.hyps [OF this] obtain rest where
      "stream_blocks sl bs (dfs2 @ links sl bs c) = Some (Ok rest)" "set rest = reach_blocks sl bs (dfs2 @ links sl bs c)"
      by blast
    then show ?thesis using nxt blocks by (simp add: stream_blocks.simps [of sl bs dfs])
  qed
qed

text \<open>What the libraries promise. \<open>valid\<close> tells whether a block has the contents its identifier stands for.\<close>

definition car_reader_ok :: "'b snapshot_lib \<Rightarrow> bool" where
  "car_reader_ok sl =
     (\<forall>roots blocks. sl_parse_car sl (car_file sl (roots, blocks)) = Ok (roots, map Inr blocks))"

definition snapshot_lib_ok :: "'b snapshot_lib \<Rightarrow> (cid \<Rightarrow> nat list \<Rightarrow> bool) \<Rightarrow> bool" where
  "snapshot_lib_ok sl valid =
     ((\<forall>b. valid (sl_cid sl b) b) \<and> (\<forall>c b b'. valid c b \<longrightarrow> valid c b' \<longrightarrow> b = b') \<and>
      (\<forall>xs ys. set (sl_merge sl xs ys) = set xs \<union> set ys) \<and>
      (\<forall>p. \<exists>b. sl_encode_params sl p = Ok b \<and> sl_decode_params sl b = Ok p) \<and>
      (\<forall>m. \<exists>b. sl_encode_meta sl m = Ok b \<and> sl_decode_meta sl b = Ok m) \<and>
      car_reader_ok sl \<and>
      (\<forall>validate bs roots blocks. (\<forall>(c, b) \<in> set blocks. valid c b) \<longrightarrow>
         (\<exists>bs'. sl_load_car sl validate bs (car_file sl (roots, blocks)) = (bs', Ok roots) \<and>
           (\<forall>c. sl_get sl bs' c = (case map_of blocks c of Some b \<Rightarrow> Ok (Some b) | None \<Rightarrow> sl_get sl bs c)))) \<and>
      (\<forall>bs bs' r. (\<forall>(c, b) \<in> reach_blocks sl bs [r]. sl_get sl bs' c = Ok (Some b)) \<longrightarrow>
         sl_state_tree sl bs r = Ok () \<longrightarrow> sl_state_tree sl bs' r = Ok ()))"

lemma snapshot_lib_okD:
  assumes "snapshot_lib_ok sl valid"
  shows "valid (sl_cid sl b) b" "valid c b \<Longrightarrow> valid c b' \<Longrightarrow> b = b'"
    "set (sl_merge sl xs ys) = set xs \<union> set ys"
    "\<exists>b. sl_encode_params sl p = Ok b \<and> sl_decode_params sl b = Ok p"
    "\<exists>b. sl_encode_meta sl m = Ok b \<and> sl_decode_meta sl b = Ok m"
    "(\<And>c b. (c, b) \<in> set blocks \<Longrightarrow> valid c b) \<Longrightarrow>
       \<exists>bs'. sl_load_car sl validate bs (car_file sl (roots, blocks)) = (bs', Ok roots) \<and>
         (\<forall>c. sl_get sl bs' c = (case map_of blocks c of Some b \<Rightarrow> Ok (Some b) | None \<Rightarrow> sl_get sl bs c))"
    "(\<And>c b. (c, b) \<in> reach_blocks sl bs [r] \<Longrightarrow> sl_get sl bs' c = Ok (Some b)) \<Longrightarrow>
       sl_state_tree sl bs r = Ok () \<Longrightarrow> sl_state_tree sl bs' r = Ok ()"
    "car_reader_ok sl"
  using assms unfolding snapshot_lib_ok_def by blast+

text \<open>A file with the contents of a snapshot.\<close>

definition car_of ::
  "'b snapshot_lib \<Rightarrow> (cid \<Rightarrow> nat list \<Rightarrow> bool) \<Rightarrow> 'b \<Rightarrow> Snapshot \<Rightarrow> cid list \<times> (cid \<times> nat list) list \<Rightarrow> bool" where
  "car_of sl valid bs sn car =
     (\<exists>pb mb. sl_decode_params sl pb = Ok (sn_state_params sn, sn_block_height sn) \<and>
        sl_decode_meta sl mb = Ok (1, sl_cid sl pb) \<and> fst car = [sl_cid sl mb] \<and>
        set (snd car) = insert (sl_cid sl mb, mb) (insert (sl_cid sl pb, pb)
          (reach_blocks sl bs [sp_state_root (sn_state_params sn)])) \<and>
        (\<forall>(c, b) \<in> set (snd car). valid c b))"

lemma write_car_spec:
  assumes lib: "snapshot_lib_ok sl valid" and ok: "store_ok sl bs rank"
    and cons: "\<And>c b. sl_get sl bs c = Ok (Some b) \<Longrightarrow> valid c b"
  shows "\<exists>car. write_car sl bs sn = Some (Ok car) \<and> car_of sl valid bs sn car"
proof -
  let ?root = "sp_state_root (sn_state_params sn)"
  obtain blocks where blocks: "stream_blocks sl bs [?root] = Some (Ok blocks)" "set blocks = reach_blocks sl bs [?root]"
    using stream_blocks_spec [OF ok] by blast
  obtain pb where pb: "sl_encode_params sl (sn_state_params sn, sn_block_height sn) = Ok pb"
    "sl_decode_params sl pb = Ok (sn_state_params sn, sn_block_height sn)"
    using snapshot_lib_okD(4) [OF lib] by blast
  obtain mb where mb: "sl_encode_meta sl (1, sl_cid sl pb) = Ok mb" "sl_decode_meta sl mb = Ok (1, sl_cid sl pb)"
    using snapshot_lib_okD(5) [OF lib] by blast
  let ?car = "([sl_cid sl mb], sl_merge sl [(sl_cid sl mb, mb)] (sl_merge sl blocks [(sl_cid sl pb, pb)]))"
  have w: "write_car sl bs sn = Some (Ok ?car)"
    using blocks(1) pb(1) mb(1)
    by (simp add: write_car_def v1_into_streamer_def derive_cid_def SNAPSHOT_VERSION_def Let_def)
  have "set (snd ?car) = insert (sl_cid sl mb, mb) (insert (sl_cid sl pb, pb) (reach_blocks sl bs [?root]))"
    by (auto simp: snapshot_lib_okD(3) [OF lib] blocks(2))
  moreover from this have "\<forall>(c, b) \<in> set (snd ?car). valid c b"
    using cons snapshot_lib_okD(1) [OF lib] by (auto simp: reach_blocks_def)
  ultimately have "car_of sl valid bs sn ?car"
    unfolding car_of_def using pb(2) mb(2) by (intro exI [of _ pb] exI [of _ mb]) simp
  with w show ?thesis by blast
qed

lemma read_car_spec:
  assumes lib: "snapshot_lib_ok sl valid" and car: "car_of sl valid bs sn car"
    and tree: "sl_state_tree sl bs (sp_state_root (sn_state_params sn)) = Ok ()"
  shows "\<exists>bs'. read_car sl (car_file sl car) bs0 validate = (bs', Ok sn) \<and>
     (\<forall>(c, b) \<in> reach_blocks sl bs [sp_state_root (sn_state_params sn)]. sl_get sl bs' c = Ok (Some b))"
proof -
  let ?root = "sp_state_root (sn_state_params sn)"
  from car obtain pb mb where m: "sl_decode_params sl pb = Ok (sn_state_params sn, sn_block_height sn)"
    "sl_decode_meta sl mb = Ok (1, sl_cid sl pb)" "fst car = [sl_cid sl mb]"
    "set (snd car) = insert (sl_cid sl mb, mb) (insert (sl_cid sl pb, pb) (reach_blocks sl bs [?root]))"
    "\<forall>(c, b) \<in> set (snd car). valid c b"
    unfolding car_of_def by (elim exE conjE) (rule that)
  from m(5) have valid: "valid c b" if "(c, b) \<in> set (snd car)" for c b using that by fast
  obtain bs' where load: "sl_load_car sl validate bs0 (car_file sl car) = (bs', Ok (fst car))"
    and get: "\<And>c. sl_get sl bs' c = (case map_of (snd car) c of Some b \<Rightarrow> Ok (Some b) | None \<Rightarrow> sl_get sl bs0 c)"
    using snapshot_lib_okD(6) [OF lib, of "snd car" validate bs0 "fst car"] valid by auto
  have in_car: "sl_get sl bs' c = Ok (Some b)" if "(c, b) \<in> set (snd car)" for c b
  proof -
    from weak_map_of_SomeI [OF that] obtain b' where b': "map_of (snd car) c = Some b'" by blast
    then have "b' = b" using valid [OF map_of_SomeD [OF b']] valid [OF that] snapshot_lib_okD(2) [OF lib] by blast
    with b' get show ?thesis by simp
  qed
  have blocks: "sl_get sl bs' c = Ok (Some b)" if "(c, b) \<in> reach_blocks sl bs [?root]" for c b
    using that by (intro in_car) (simp add: m(4))
  have "sl_state_tree sl bs' ?root = Ok ()"
    using snapshot_lib_okD(7) [OF lib blocks tree] by blast
  then have "read_car sl (car_file sl car) bs0 validate = (bs', Ok sn)"
    using load in_car [of "sl_cid sl mb" mb] in_car [of "sl_cid sl pb" pb] m
    by (simp add: read_car_def v1_from_root_def snapshot_new_def)
  with blocks show ?thesis by blast
qed

section \<open>Properties\<close>

text \<open>A snapshot restores the state. From a store without errors, writing the CAR file of a snapshot ends;
  loading the file into any other store, with or without validation, yields the same parameters and height,
  and every block that can be reached from the state root.\<close>

theorem snapshot_restores_state:
  assumes "snapshot_lib_ok sl valid" "store_ok sl bs rank" "\<forall>c b. sl_get sl bs c = Ok (Some b) \<longrightarrow> valid c b"
    and "snapshot_new sl bs ps h = Ok sn"
  shows "\<exists>car bs'. write_car sl bs sn = Some (Ok car) \<and> read_car sl (car_file sl car) bs0 validate = (bs', Ok sn) \<and>
     sn = \<lparr>sn_state_params = ps, sn_block_height = h\<rparr> \<and>
     (\<forall>c b. reach sl bs (sp_state_root ps) c \<and> sl_get sl bs c = Ok (Some b) \<longrightarrow> sl_get sl bs' c = Ok (Some b))"
proof -
  have sn: "sn = \<lparr>sn_state_params = ps, sn_block_height = h\<rparr>" "sl_state_tree sl bs (sp_state_root ps) = Ok ()"
    using assms(4) by (auto simp: snapshot_new_def outcome_simps)
  obtain car where car: "write_car sl bs sn = Some (Ok car)" "car_of sl valid bs sn car"
    using write_car_spec [OF assms(1,2)] assms(3) by blast
  obtain bs' where "read_car sl (car_file sl car) bs0 validate = (bs', Ok sn)"
    "\<forall>(c, b) \<in> reach_blocks sl bs [sp_state_root ps]. sl_get sl bs' c = Ok (Some b)"
    using read_car_spec [OF assms(1) car(2), of bs0 validate] sn by auto
  with car(1) sn(1) show ?thesis by (auto simp: reach_blocks_def)
qed

section \<open>Witnesses\<close>

text \<open>A library over an association list: the identifier of a block is the block with 9 in front, a block
  that starts with 5 is a link to the identifier that follows.\<close>

definition put_str :: "nat list \<Rightarrow> nat list" where
  "put_str s = length s # s"

fun take_str :: "nat list \<Rightarrow> (nat list \<times> nat list) option" where
  "take_str [] = None"
| "take_str (n # r) = (if n \<le> length r then Some (take n r, drop n r) else None)"

fun take_strs :: "nat \<Rightarrow> nat list \<Rightarrow> (nat list list \<times> nat list) option" where
  "take_strs 0 r = Some ([], r)"
| "take_strs (Suc n) r =
     (case take_str r of
        None \<Rightarrow> None
      | Some (s, r) \<Rightarrow> map_option (map_prod ((#) s) id) (take_strs n r))"

fun take_blocks :: "nat \<Rightarrow> nat list \<Rightarrow> (cid \<times> nat list) list option" where
  "take_blocks n [] = Some []"
| "take_blocks 0 r = None"
| "take_blocks (Suc n) r =
     (case take_str r of
        None \<Rightarrow> None
      | Some (c, r) \<Rightarrow>
          (case take_str r of
             None \<Rightarrow> None
           | Some (b, r) \<Rightarrow> map_option ((#) (c, b)) (take_blocks n r)))"

definition mem_frame :: "cid \<times> nat list \<Rightarrow> nat list" where
  "mem_frame cb = put_str (fst cb) @ put_str (snd cb)"

definition mem_header :: "cid list \<Rightarrow> nat list" where
  "mem_header roots = length roots # concat (map put_str roots)"

definition mem_parse :: "nat list \<Rightarrow> (cid list \<times> (cid \<times> nat list) list) option" where
  "mem_parse file =
     (case file of
        [] \<Rightarrow> None
      | n # r \<Rightarrow>
          (case take_strs n r of
             None \<Rightarrow> None
           | Some (roots, r) \<Rightarrow> map_option (Pair roots) (take_blocks (length r) r)))"

definition mem_valid :: "cid \<Rightarrow> nat list \<Rightarrow> bool" where
  "mem_valid c b = (c = 9 # b)"

definition mem_load ::
  "bool \<Rightarrow> (cid, nat list) hmap \<Rightarrow> nat list \<Rightarrow> (cid, nat list) hmap \<times> (string, cid list) outcome" where
  "mem_load validate bs file =
     (case mem_parse file of
        None \<Rightarrow> (bs, Err ''bad file'')
      | Some (roots, blocks) \<Rightarrow>
          if validate \<and> (\<exists>(c, b) \<in> set blocks. \<not> mem_valid c b) then (bs, Err ''bad block'')
          else (blocks @ bs, Ok roots))"

definition put_int :: "int \<Rightarrow> nat list" where
  "put_int i = [if i < 0 then 1 else 0, nat \<bar>i\<bar>]"

definition get_int :: "nat \<Rightarrow> nat \<Rightarrow> int" where
  "get_int s n = (if s = 1 then - int n else int n)"

lemma get_int [simp]: "get_int (if i < 0 then 1 else 0) (nat \<bar>i\<bar>) = i"
  by (simp add: get_int_def)

definition mem_encode_params :: "FvmStateParams \<times> nat \<Rightarrow> (string, nat list) outcome" where
  "mem_encode_params p =
     (case p of (ps, h) \<Rightarrow>
        Ok ([h, sp_timestamp ps, sp_network_version ps] @ put_int (sp_base_fee ps) @ put_int (sp_circ_supply ps) @
            [sp_chain_id ps] @ put_int (sp_power_scale ps) @ [sp_app_version ps] @ sp_state_root ps))"

fun mem_decode_params :: "nat list \<Rightarrow> (string, FvmStateParams \<times> nat) outcome" where
  "mem_decode_params (h # t # v # s1 # b # s2 # c # i # s3 # p # a # root_cid) =
     Ok (\<lparr>sp_state_root = root_cid, sp_timestamp = t, sp_network_version = v, sp_base_fee = get_int s1 b,
          sp_circ_supply = get_int s2 c, sp_chain_id = i, sp_power_scale = get_int s3 p, sp_app_version = a\<rparr>, h)"
| "mem_decode_params _ = Err ''bad params''"

fun mem_ipld :: "nat list \<Rightarrow> Ipld option" where
  "mem_ipld (x # d) = Some (if x = 5 then IList [ILink d] else IScalar)"
| "mem_ipld [] = Some IScalar"

fun mem_decode_meta :: "nat list \<Rightarrow> (string, nat \<times> cid) outcome" where
  "mem_decode_meta (v # c) = Ok (v, c)"
| "mem_decode_meta [] = Err ''bad metadata''"

definition mem_snapshot_lib :: "(cid, nat list) hmap snapshot_lib" where
  "mem_snapshot_lib =
     \<lparr>sl_get = (\<lambda>bs c. Ok (hm_get bs c)), sl_is_cbor = (\<lambda>c. True), sl_ipld = mem_ipld, sl_cid = (#) 9,
      sl_state_tree = (\<lambda>bs c. if hm_get bs c = None then Err ''no root'' else Ok ()),
      sl_header = mem_header, sl_frame = mem_frame,
      sl_parse_car = (\<lambda>f. case mem_parse f of Some (roots, blocks) \<Rightarrow> Ok (roots, map Inr blocks) | None \<Rightarrow> Err ''bad file''),
      sl_load_car = mem_load, sl_merge = (@),
      sl_encode_params = mem_encode_params, sl_decode_params = mem_decode_params,
      sl_encode_meta = (\<lambda>(v, c). Ok (v # c)), sl_decode_meta = mem_decode_meta\<rparr>"

lemma mem_lib_simps [simp]:
  "sl_get mem_snapshot_lib bs c = Ok (hm_get bs c)" "sl_is_cbor mem_snapshot_lib c" "sl_ipld mem_snapshot_lib b = mem_ipld b"
  "sl_cid mem_snapshot_lib b = 9 # b" "sl_load_car mem_snapshot_lib = mem_load" "sl_merge mem_snapshot_lib xs ys = xs @ ys"
  "sl_state_tree mem_snapshot_lib bs c = (if hm_get bs c = None then Err ''no root'' else Ok ())"
  "sl_encode_params mem_snapshot_lib = mem_encode_params" "sl_decode_params mem_snapshot_lib = mem_decode_params"
  "sl_encode_meta mem_snapshot_lib m = Ok (fst m # snd m)" "sl_decode_meta mem_snapshot_lib = mem_decode_meta"
  "sl_parse_car mem_snapshot_lib f =
     (case mem_parse f of Some (roots, blocks) \<Rightarrow> Ok (roots, map Inr blocks) | None \<Rightarrow> Err ''bad file'')"
  "sl_header mem_snapshot_lib = mem_header" "sl_frame mem_snapshot_lib = mem_frame"
  by (simp_all add: mem_snapshot_lib_def split: prod.splits)

lemma take_put_str [simp]: "take_str (put_str s @ r) = Some (s, r)"
  by (simp add: put_str_def)

lemma take_strs_put [simp]: "take_strs (length ss) (concat (map put_str ss) @ r) = Some (ss, r)"
  by (induction ss) simp_all

lemma take_blocks_put: "length blocks \<le> n \<Longrightarrow> take_blocks n (concat (map mem_frame blocks)) = Some blocks"
proof (induction blocks arbitrary: n)
  case Nil
  then show ?case by (cases n) simp_all
next
  case (Cons cb blocks)
  obtain x r where f: "mem_frame cb @ concat (map mem_frame blocks) = x # r" by (simp add: mem_frame_def put_str_def)
  obtain k where k: "n = Suc k" "length blocks \<le> k" using Cons.prems by (cases n) auto
  have "take_str (mem_frame cb @ concat (map mem_frame blocks)) =
      Some (fst cb, put_str (snd cb) @ concat (map mem_frame blocks))" by (simp add: mem_frame_def)
  then show ?case using f k Cons.IH [OF k(2)] by simp
qed

lemma frames_length: "length blocks \<le> length (concat (map mem_frame blocks))"
  by (induction blocks) (simp_all add: mem_frame_def put_str_def)

lemma mem_parse_file: "mem_parse (car_file mem_snapshot_lib (roots, blocks)) = Some (roots, blocks)"
  by (simp add: mem_parse_def car_file_def mem_header_def take_blocks_put frames_length)

lemma mem_params_roundtrip: "\<exists>b. mem_encode_params p = Ok b \<and> mem_decode_params b = Ok p"
  by (cases p) (simp add: mem_encode_params_def put_int_def del: One_nat_def)

lemma mem_load_file:
  assumes "\<forall>(c, b) \<in> set blocks. mem_valid c b"
  shows "mem_load validate bs (car_file mem_snapshot_lib (roots, blocks)) = (blocks @ bs, Ok roots)"
proof -
  have "\<not> (\<exists>(c, b) \<in> set blocks. \<not> mem_valid c b)" using assms by fast
  then show ?thesis by (simp add: mem_load_def mem_parse_file)
qed

lemma mem_lib_ok: "snapshot_lib_ok mem_snapshot_lib mem_valid"
proof -
  have load: "\<exists>bs'. sl_load_car mem_snapshot_lib validate bs (car_file mem_snapshot_lib (roots, blocks)) = (bs', Ok roots) \<and>
      (\<forall>c. sl_get mem_snapshot_lib bs' c =
        (case map_of blocks c of Some b \<Rightarrow> Ok (Some b) | None \<Rightarrow> sl_get mem_snapshot_lib bs c))"
    if "\<forall>(c, b) \<in> set blocks. mem_valid c b" for validate bs roots blocks
    using mem_load_file [OF that] by (auto simp: map_add_def split: option.splits)
  have tree: "sl_state_tree mem_snapshot_lib bs' r = Ok ()"
    if "\<forall>(c, b) \<in> reach_blocks mem_snapshot_lib bs [r]. sl_get mem_snapshot_lib bs' c = Ok (Some b)"
      "sl_state_tree mem_snapshot_lib bs r = Ok ()" for bs bs' r
  proof -
    from that(2) obtain b where "hm_get bs r = Some b" by (auto split: if_splits)
    then have "(r, b) \<in> reach_blocks mem_snapshot_lib bs [r]" by (simp add: reach_blocks_def reach_root)
    with that(1) show ?thesis by fastforce
  qed
  have meta: "\<exists>b. sl_encode_meta mem_snapshot_lib m = Ok b \<and> sl_decode_meta mem_snapshot_lib b = Ok m" for m
    by simp
  show ?thesis
    unfolding snapshot_lib_ok_def
  proof (intro conjI allI)
    show "\<exists>b. sl_encode_params mem_snapshot_lib p = Ok b \<and> sl_decode_params mem_snapshot_lib b = Ok p" for p
      using mem_params_roundtrip by simp
  qed (use load tree meta in \<open>blast | simp add: mem_valid_def car_reader_ok_def mem_parse_file\<close>)+
qed

definition mem_store :: "(cid, nat list) hmap" where
  "mem_store = [([9, 1, 2], [1, 2]), ([9, 5, 9, 1, 2], [5, 9, 1, 2]), ([9, 7], [7])]"

lemma mem_store_valid: "hm_get mem_store c = Some b \<Longrightarrow> mem_valid c b"
  by (auto simp: mem_store_def mem_valid_def split: if_splits)

lemma mem_store_ok: "store_ok mem_snapshot_lib mem_store length"
proof -
  have "length d < length c" if d: "d \<in> set (links mem_snapshot_lib mem_store c)" for c d
  proof -
    obtain b where b: "hm_get mem_store c = Some b"
      using d by (cases "hm_get mem_store c") (simp_all add: links_def)
    have c: "c = 9 # b" using mem_store_valid [OF b] by (simp add: mem_valid_def)
    have "links mem_snapshot_lib mem_store c = (if b \<noteq> [] \<and> hd b = 5 then [tl b] else [])"
      using b by (cases b) (simp_all add: links_def)
    with d c show ?thesis by (cases b) (simp_all split: if_splits)
  qed
  moreover have "mem_ipld b \<noteq> None" for b by (cases b) simp_all
  ultimately show ?thesis by (auto simp: store_ok_def)
qed

definition mem_params :: FvmStateParams where
  "mem_params = sample_state_params\<lparr>sp_state_root := [9, 5, 9, 1, 2]\<rparr>"

lemma mem_snapshot_new:
  "snapshot_new mem_snapshot_lib mem_store mem_params 40 = Ok \<lparr>sn_state_params = mem_params, sn_block_height = 40\<rparr>"
  by (simp add: snapshot_new_def mem_params_def mem_store_def)

theorem snapshot_restores_state_witness:
  "\<exists>car bs'. write_car mem_snapshot_lib mem_store \<lparr>sn_state_params = mem_params, sn_block_height = 40\<rparr> = Some (Ok car) \<and>
     read_car mem_snapshot_lib (car_file mem_snapshot_lib car) [] True =
       (bs', Ok \<lparr>sn_state_params = mem_params, sn_block_height = 40\<rparr>) \<and>
     hm_get bs' [9, 1, 2] = Some [1, 2]"
proof -
  have valid: "\<forall>c b. sl_get mem_snapshot_lib mem_store c = Ok (Some b) \<longrightarrow> mem_valid c b"
    using mem_store_valid by simp
  from snapshot_restores_state [OF mem_lib_ok mem_store_ok valid mem_snapshot_new, of "[]" True]
  obtain car bs' where c: "write_car mem_snapshot_lib mem_store \<lparr>sn_state_params = mem_params, sn_block_height = 40\<rparr> = Some (Ok car)"
    "read_car mem_snapshot_lib (car_file mem_snapshot_lib car) [] True =
       (bs', Ok \<lparr>sn_state_params = mem_params, sn_block_height = 40\<rparr>)"
    "\<forall>c b. reach mem_snapshot_lib mem_store (sp_state_root mem_params) c \<and> sl_get mem_snapshot_lib mem_store c = Ok (Some b) \<longrightarrow>
       sl_get mem_snapshot_lib bs' c = Ok (Some b)"
    by (elim exE conjE) (rule that)
  have "reach mem_snapshot_lib mem_store (sp_state_root mem_params) [9, 1, 2]"
    by (rule reach_link [OF reach_root]) (simp add: links_def mem_params_def mem_store_def)
  with c(3) have "hm_get bs' [9, 1, 2] = Some [1, 2]" by (simp add: mem_store_def)
  with c(1,2) show ?thesis by blast
qed

end
