(* ===== verification/Snapshots.thy ===== *)
theory Snapshots
  imports State_Snapshot
begin

text \<open>
  The snapshot manager and its client (\<open>fendermint/vm/snapshot/src\<close>): splitting a CAR file into chunks,
  manifests and checksums, the list of snapshots and its pruning, and the download of a snapshot from
  peers.

  The directory of a snapshot is the ordered map from the index to the contents of its \<open>{index}.part\<close>
  files. Where the code looks at the outcome of an operation of the file system, that outcome is an
  argument. Transactions of the STM are single steps; files that an aborted transaction has written
  stay. Polls of files are taken to be ready at once.
\<close>

section \<open>Chunks\<close>

datatype ChunkWriterState = Idle | Open nat

record ChunkWriter =
  cw_max_size :: nat
  cw_next_idx :: nat
  cw_state :: ChunkWriterState
  cw_files :: "nat list list"

definition chunk_writer_new :: "nat \<Rightarrow> ChunkWriter" where
  "chunk_writer_new max_size = \<lparr>cw_max_size = max_size, cw_next_idx = 0, cw_state = Idle, cw_files = []\<rparr>"

definition next_file :: "ChunkWriter \<Rightarrow> ChunkWriter" where
  "next_file cw = cw\<lparr>cw_files := cw_files cw @ [[]], cw_next_idx := cw_next_idx cw + 1\<rparr>"

definition state_poll_write :: "nat list \<Rightarrow> nat \<Rightarrow> ChunkWriter \<Rightarrow> ChunkWriter" where
  "state_poll_write buf sofar cw =
     cw\<lparr>cw_files := butlast (cw_files cw) @ [last (cw_files cw) @ buf], cw_state := Open (sofar + length buf)\<rparr>"

definition chunk_poll_write :: "nat list \<Rightarrow> ChunkWriter \<Rightarrow> ChunkWriter" where
  "chunk_poll_write buf cw =
     (case cw_state cw of
        Idle \<Rightarrow> state_poll_write buf 0 (next_file cw)
      | Open written \<Rightarrow> state_poll_write buf written cw)"

definition chunk_poll_flush :: "ChunkWriter \<Rightarrow> ChunkWriter" where
  "chunk_poll_flush cw =
     (case cw_state cw of
        Idle \<Rightarrow> cw
      | Open written \<Rightarrow>
          if cw_next_idx cw = 1 \<or> written \<ge> cw_max_size cw \<and> cw_max_size cw > 0
          then cw\<lparr>cw_state := Idle\<rparr> else cw)"

text \<open>A CAR file is written frame by frame, the header being the first; each frame is followed by a flush.
  \<open>write_all\<close> does nothing on an empty buffer.\<close>

definition write_frame :: "nat list \<Rightarrow> ChunkWriter \<Rightarrow> ChunkWriter" where
  "write_frame buf cw = chunk_poll_flush (if buf = [] then cw else chunk_poll_write buf cw)"

definition write_frames :: "nat list list \<Rightarrow> ChunkWriter \<Rightarrow> ChunkWriter" where
  "write_frames = fold write_frame"

text \<open>Errors while reading the blocks of the input are logged and skipped.\<close>

definition car_split :: "'b snapshot_lib \<Rightarrow> nat list \<Rightarrow> nat \<Rightarrow> (string, nat list list \<times> nat) outcome" where
  "car_split sl file max_size =
     obind (with_context ''failed to open CAR reader'' (sl_parse_car sl file)) (\<lambda>(roots, results).
     let blocks = [b. Inr b \<leftarrow> results];
         cw = write_frames (sl_header sl roots # map (sl_frame sl) blocks) (chunk_writer_new max_size) in
     Ok (cw_files cw, cw_next_idx cw))"

section \<open>Manifests\<close>

record SnapshotManifest =
  sm_block_height :: nat
  sm_size :: nat
  sm_chunks :: nat
  sm_checksum :: "nat list"
  sm_state_params :: FvmStateParams
  sm_version :: nat

type_synonym parts = "(nat, nat list) btree_map"

record SnapshotItem =
  si_parts :: parts
  si_manifest :: SnapshotManifest
  si_last_access :: nat

text \<open>\<open>SystemTime::UNIX_EPOCH\<close> is time 0.\<close>

definition snapshot_item_new :: "parts \<Rightarrow> SnapshotManifest \<Rightarrow> SnapshotItem" where
  "snapshot_item_new ps manifest = \<lparr>si_parts = ps, si_manifest = manifest, si_last_access = 0\<rparr>"

definition list_parts :: "parts \<Rightarrow> nat list list" where
  "list_parts ps = map snd ps"

definition parts_checksum :: "(nat list \<Rightarrow> nat list) \<Rightarrow> parts \<Rightarrow> nat list" where
  "parts_checksum sha256 ps = sha256 (concat (list_parts ps))"

text \<open>Of the entries of a directory, those whose manifest can be parsed are kept, ordered by height.\<close>

definition list_manifests :: "(parts \<times> SnapshotManifest option) list \<Rightarrow> SnapshotItem list" where
  "list_manifests entries =
     sort_key (\<lambda>i. sm_block_height (si_manifest i)) [snapshot_item_new ps m. (ps, Some m) \<leftarrow> entries]"

definition load_chunk :: "nat \<Rightarrow> SnapshotItem \<Rightarrow> (string, nat list) outcome" where
  "load_chunk chunk item =
     (if chunk \<ge> sm_chunks (si_manifest item) then Err ''cannot load chunk''
      else case map_of (si_parts item) chunk of Some content \<Rightarrow> Ok content | None \<Rightarrow> Err ''failed to read chunk'')"

definition snapshot_import ::
  "'b snapshot_lib \<Rightarrow> SnapshotItem \<Rightarrow> 'b \<Rightarrow> bool \<Rightarrow> 'b \<times> (string, Snapshot) outcome" where
  "snapshot_import sl item bs validate =
     (case read_car sl (concat (list_parts (si_parts item))) bs validate of
        (bs, r) \<Rightarrow>
          (bs,
           obind (with_context ''failed to import the snapshot into the blockstore'' r) (\<lambda>sn.
           if validate \<and> sn_block_height sn \<noteq> sm_block_height (si_manifest item)
           then Err ''invalid snapshot block height''
           else if validate \<and> sn_state_params sn \<noteq> sm_state_params (si_manifest item)
           then Err ''invalid state params''
           else Ok sn)))"

section \<open>The client\<close>

datatype SnapshotError =
    IncompatibleVersion nat
  | IoError string
  | NoDownload
  | UnexpectedChunk nat nat
  | WrongChecksum "nat list" "nat list"

record SnapshotDownload =
  sd_manifest :: SnapshotManifest
  sd_parts :: parts
  sd_next_index :: nat

record SnapshotState =
  ss_snapshots :: "SnapshotItem list"
  ss_latest_params :: "(FvmStateParams \<times> nat) option"
  ss_current_download :: "SnapshotDownload option"

record SnapshotClient =
  sc_interval :: nat
  sc_state :: SnapshotState

definition snapshot_state_new :: "SnapshotItem list \<Rightarrow> SnapshotState" where
  "snapshot_state_new xs = \<lparr>ss_snapshots = xs, ss_latest_params = None, ss_current_download = None\<rparr>"

definition client_notify :: "nat \<Rightarrow> FvmStateParams \<Rightarrow> SnapshotClient \<Rightarrow> ('e, SnapshotClient) outcome" where
  "client_notify block_height ps c =
     (if sc_interval c = 0 then Panic
      else Ok (if block_height mod sc_interval c = 0
               then c\<lparr>sc_state := sc_state c\<lparr>ss_latest_params := Some (ps, block_height)\<rparr>\<rparr> else c))"

definition client_list_snapshots :: "SnapshotClient \<Rightarrow> SnapshotItem list" where
  "client_list_snapshots c = ss_snapshots (sc_state c)"

fun access_first :: "nat \<Rightarrow> nat \<Rightarrow> nat \<Rightarrow> SnapshotItem list \<Rightarrow> SnapshotItem option \<times> SnapshotItem list" where
  "access_first now h v [] = (None, [])"
| "access_first now h v (s # ss) =
     (if sm_block_height (si_manifest s) = h \<and> sm_version (si_manifest s) = v
      then let s = s\<lparr>si_last_access := now\<rparr> in (Some s, s # ss)
      else map_prod id ((#) s) (access_first now h v ss))"

definition client_access_snapshot ::
  "nat \<Rightarrow> nat \<Rightarrow> nat \<Rightarrow> SnapshotClient \<Rightarrow> SnapshotClient \<times> SnapshotItem option" where
  "client_access_snapshot now h v c =
     (case access_first now h v (ss_snapshots (sc_state c)) of
        (s, ss) \<Rightarrow>
          (if s = None then c else c\<lparr>sc_state := sc_state c\<lparr>ss_snapshots := ss\<rparr>\<rparr>, s))"

definition client_offer_snapshot ::
  "(string, unit) outcome \<Rightarrow> SnapshotManifest \<Rightarrow> SnapshotClient \<Rightarrow> SnapshotClient \<times> (SnapshotError, unit) outcome" where
  "client_offer_snapshot io manifest c =
     (if sm_version manifest \<noteq> 1 then (c, Err (IncompatibleVersion (sm_version manifest)))
      else case map_err IoError io of
             Ok _ \<Rightarrow>
               (c\<lparr>sc_state := sc_state c\<lparr>ss_current_download :=
                    Some \<lparr>sd_manifest = manifest, sd_parts = [], sd_next_index = 0\<rparr>\<rparr>\<rparr>, Ok ())
           | r \<Rightarrow> (c, r))"

definition U32 :: nat where
  "U32 = 2 ^ 32"

definition client_save_chunk ::
  "(nat list \<Rightarrow> nat list) \<Rightarrow> (string, unit) outcome \<Rightarrow> nat \<Rightarrow> nat list \<Rightarrow> SnapshotClient \<Rightarrow>
     SnapshotClient \<times> (SnapshotError, SnapshotItem option) outcome" where
  "client_save_chunk sha256 io index contents c =
     (case ss_current_download (sc_state c) of
        None \<Rightarrow> (c, Err NoDownload)
      | Some cd \<Rightarrow>
          if index \<noteq> sd_next_index cd then (c, Err (UnexpectedChunk (sd_next_index cd) index))
          else case io of
            Ok _ \<Rightarrow>
              let ps = om_insert index contents (sd_parts cd);
                  next_index = (index + 1) mod U32;
                  saved = (\<lambda>i. c\<lparr>sc_state := sc_state c\<lparr>ss_current_download :=
                             Some (cd\<lparr>sd_parts := ps, sd_next_index := i\<rparr>)\<rparr>\<rparr>) in
              if next_index = sm_chunks (sd_manifest cd)
              then let checksum = parts_checksum sha256 ps in
                   if checksum = sm_checksum (sd_manifest cd)
                   then (saved next_index, Ok (Some (snapshot_item_new ps (sd_manifest cd))))
                   else (saved index, Err (WrongChecksum (sm_checksum (sd_manifest cd)) checksum))
              else (saved next_index, Ok None)
          | Err e \<Rightarrow> (c, Err (IoError e))
          | Retry \<Rightarrow> (c, Retry)
          | Panic \<Rightarrow> (c, Panic))"

section \<open>The manager\<close>

record SnapshotManager =
  mg_chunk_size :: nat
  mg_hist_size :: nat
  mg_last_access_hold :: nat
  mg_is_syncing :: bool
  mg_last_params :: "(FvmStateParams \<times> nat) option"

definition manager_new :: "nat \<Rightarrow> nat \<Rightarrow> nat \<Rightarrow> SnapshotManager" where
  "manager_new chunk_size hist_size hold =
     \<lparr>mg_chunk_size = chunk_size, mg_hist_size = hist_size, mg_last_access_hold = hold, mg_is_syncing = True,
      mg_last_params = None\<rparr>"

definition poll_sync_status :: "(string, bool) outcome \<Rightarrow> SnapshotManager \<Rightarrow> SnapshotManager" where
  "poll_sync_status status mg =
     (case status of Ok catching_up \<Rightarrow> mg\<lparr>mg_is_syncing := catching_up\<rparr> | _ \<Rightarrow> mg)"

definition create_snapshot ::
  "'b snapshot_lib \<Rightarrow> (nat list \<Rightarrow> nat list) \<Rightarrow> nat \<Rightarrow> 'b \<Rightarrow> nat \<Rightarrow> FvmStateParams \<Rightarrow>
     (string, SnapshotItem) outcome option" where
  "create_snapshot sl sha256 chunk_size bs block_height ps =
     (case with_context ''failed to create snapshot'' (snapshot_new sl bs ps block_height) of
        Ok sn \<Rightarrow>
          Option.bind (write_car sl bs sn) (\<lambda>r.
          Some (obind (with_context ''failed to write CAR file'' r) (\<lambda>car.
                let file = car_file sl car in
                obind (with_context ''failed to split CAR into chunks'' (car_split sl file chunk_size)) (\<lambda>(files, chunks).
                let manifest = \<lparr>sm_block_height = block_height, sm_size = length file, sm_chunks = chunks mod U32,
                                sm_checksum = sha256 file, sm_state_params = ps, sm_version = SNAPSHOT_VERSION\<rparr> in
                Ok (snapshot_item_new (zip [0..<length files] files) manifest)))))
      | Err e \<Rightarrow> Some (Err e)
      | Retry \<Rightarrow> Some Retry
      | Panic \<Rightarrow> Some Panic)"

text \<open>A snapshot accessed in the future of \<open>now\<close> has no elapsed time.\<close>

definition elapsed :: "nat \<Rightarrow> nat \<Rightarrow> nat option" where
  "elapsed now t = (if t \<le> now then Some (now - t) else None)"

fun prune_items :: "nat \<Rightarrow> nat \<Rightarrow> nat \<Rightarrow> SnapshotItem list \<Rightarrow> SnapshotItem list" where
  "prune_items now hist_size hold [] = []"
| "prune_items now hist_size hold (s # ss) =
     (if length (s # ss) > hist_size
      then case elapsed now (si_last_access s) of
             Some t \<Rightarrow> if t \<le> hold then s # ss else prune_items now hist_size hold ss
           | None \<Rightarrow> prune_items now hist_size hold ss
      else s # ss)"

definition prune_history :: "nat \<Rightarrow> SnapshotManager \<Rightarrow> SnapshotState \<Rightarrow> SnapshotState" where
  "prune_history now mg ss =
     (if mg_hist_size mg = 0 then ss
      else ss\<lparr>ss_snapshots := prune_items now (mg_hist_size mg) (mg_last_access_hold mg) (ss_snapshots ss)\<rparr>)"

text \<open>One round of the loop; \<open>Retry\<close> while there is nothing new to take a snapshot of, \<open>None\<close> if it never ends.\<close>

definition manager_step ::
  "'b snapshot_lib \<Rightarrow> (nat list \<Rightarrow> nat list) \<Rightarrow> nat \<Rightarrow> 'b \<Rightarrow> SnapshotManager \<times> SnapshotState \<Rightarrow>
     (string, SnapshotManager \<times> SnapshotState) outcome option" where
  "manager_step sl sha256 now bs m =
     (case m of (mg, ss) \<Rightarrow>
        if mg_is_syncing mg then Some Retry
        else case ss_latest_params ss of
          None \<Rightarrow> Some Retry
        | Some (ps, h) \<Rightarrow>
            if Some (ps, h) = mg_last_params mg then Some Retry
            else Option.bind (create_snapshot sl sha256 (mg_chunk_size mg) bs h ps) (\<lambda>r.
              let ss = (case r of Ok item \<Rightarrow> ss\<lparr>ss_snapshots := ss_snapshots ss @ [item]\<rparr> | _ \<Rightarrow> ss) in
              Some (if r = Panic then Panic
                    else Ok (mg\<lparr>mg_last_params := Some (ps, h)\<rparr>, prune_history now mg ss))))"

section \<open>Lemmas\<close>

definition cw_wf :: "ChunkWriter \<Rightarrow> bool" where
  "cw_wf cw =
     (cw_next_idx cw = length (cw_files cw) \<and>
      (case cw_state cw of
         Idle \<Rightarrow> True
       | Open w \<Rightarrow> cw_files cw \<noteq> [] \<and> w = length (last (cw_files cw)) \<and>
           1 < length (cw_files cw) \<and> (w < cw_max_size cw \<or> cw_max_size cw = 0)))"

lemma cw_wf_new [simp]: "cw_wf (chunk_writer_new n)"
  by (simp add: cw_wf_def chunk_writer_new_def)

lemma cw_wf_idx: "cw_wf cw \<Longrightarrow> cw_next_idx cw = length (cw_files cw)"
  by (simp add: cw_wf_def)

text \<open>A frame goes to the last file, if it is open, or to a new one.\<close>

lemma write_frame_cases:
  assumes "cw_wf cw" "buf \<noteq> []"
  shows "cw_wf (write_frame buf cw) \<and> cw_max_size (write_frame buf cw) = cw_max_size cw \<and>
     (cw_state cw = Idle \<and> cw_files (write_frame buf cw) = cw_files cw @ [buf] \<or>
      (\<exists>fs f. cw_state cw = Open (length f) \<and> fs \<noteq> [] \<and> cw_files cw = fs @ [f] \<and>
         (length f < cw_max_size cw \<or> cw_max_size cw = 0) \<and> cw_files (write_frame buf cw) = fs @ [f @ buf]))"
proof (cases "cw_state cw")
  case Idle
  then show ?thesis
    using assms by (auto simp: write_frame_def chunk_poll_write_def state_poll_write_def next_file_def
        chunk_poll_flush_def cw_wf_def)
next
  case (Open w)
  then obtain fs f where f: "cw_files cw = fs @ [f]" "w = length f" "fs \<noteq> []" "w < cw_max_size cw \<or> cw_max_size cw = 0"
    using assms(1) by (cases "cw_files cw" rule: rev_cases) (auto simp: cw_wf_def)
  then show ?thesis
    using assms Open by (auto simp: write_frame_def chunk_poll_write_def state_poll_write_def
        chunk_poll_flush_def cw_wf_def)
qed

lemma write_frames_wf: "cw_wf cw \<Longrightarrow> [] \<notin> set fs \<Longrightarrow> cw_wf (write_frames fs cw)"
  by (induction fs arbitrary: cw) (auto simp: write_frames_def write_frame_cases)

lemma write_frame_concat:
  "cw_wf cw \<Longrightarrow> buf \<noteq> [] \<Longrightarrow> concat (cw_files (write_frame buf cw)) = concat (cw_files cw) @ buf"
  using write_frame_cases [of cw buf] by auto

lemma write_frames_concat:
  "cw_wf cw \<Longrightarrow> [] \<notin> set fs \<Longrightarrow> concat (cw_files (write_frames fs cw)) = concat (cw_files cw) @ concat fs"
  by (induction fs arbitrary: cw) (auto simp: write_frames_def write_frame_cases write_frame_concat)

text \<open>All files but the first are below the limit without their last frame.\<close>

definition chunks_bounded :: "nat \<Rightarrow> nat list list \<Rightarrow> nat list list \<Rightarrow> bool" where
  "chunks_bounded max_size frames fs =
     (\<forall>f \<in> set (tl fs). \<exists>pre frame. f = pre @ frame \<and> frame \<in> set frames \<and> (pre = [] \<or> length pre < max_size))"

lemma write_frames_bounded:
  assumes "0 < cw_max_size cw"
  shows "cw_wf cw \<Longrightarrow> [] \<notin> set fs \<Longrightarrow> set fs \<subseteq> set frames \<Longrightarrow> cw_files cw \<noteq> [] \<Longrightarrow>
     chunks_bounded (cw_max_size cw) frames (cw_files cw) \<Longrightarrow>
     chunks_bounded (cw_max_size cw) frames (cw_files (write_frames fs cw)) \<and>
     cw_files (write_frames fs cw) \<noteq> [] \<and> hd (cw_files (write_frames fs cw)) = hd (cw_files cw)"
  using assms
proof (induction fs arbitrary: cw)
  case (Cons buf fs)
  let ?cw = "write_frame buf cw"
  have buf: "buf \<noteq> []" "buf \<in> set frames" "[] \<notin> set fs" "set fs \<subseteq> set frames" using Cons.prems(2,3) by auto
  note step = write_frame_cases [OF Cons.prems(1) buf(1)]
  consider (new) "cw_files ?cw = cw_files cw @ [buf]" | (old) pre f where "pre \<noteq> []" "cw_files cw = pre @ [f]"
      "cw_files ?cw = pre @ [f @ buf]" "length f < cw_max_size cw \<or> cw_max_size cw = 0"
    using step by blast
  then have "chunks_bounded (cw_max_size cw) frames (cw_files ?cw) \<and> cw_files ?cw \<noteq> [] \<and>
      hd (cw_files ?cw) = hd (cw_files cw)"
  proof cases
    case new
    then show ?thesis
      using Cons.prems(4,5) buf(2) by (fastforce simp: chunks_bounded_def)
  next
    case f: (old pre f)
    have "chunks_bounded (cw_max_size cw) frames (pre @ [f @ buf])"
      unfolding chunks_bounded_def
    proof
      fix g assume "g \<in> set (tl (pre @ [f @ buf]))"
      then have "g \<in> set (tl (cw_files cw)) \<or> g = f @ buf" using f by auto
      then show "\<exists>pre frame. g = pre @ frame \<and> frame \<in> set frames \<and> (pre = [] \<or> length pre < cw_max_size cw)"
        using Cons.prems(5,6) buf(2) f(4) by (auto simp: chunks_bounded_def)
    qed
    with f show ?thesis by simp
  qed
  then show ?case using Cons.IH [of ?cw] step buf(3,4) Cons.prems(6) by (simp add: write_frames_def)
qed (simp add: write_frames_def)

text \<open>The first file holds the header alone.\<close>

lemma write_header:
  assumes "header \<noteq> []"
  shows "write_frame header (chunk_writer_new n) =
     \<lparr>cw_max_size = n, cw_next_idx = 1, cw_state = Idle, cw_files = [header]\<rparr>"
  using assms by (simp add: write_frame_def chunk_poll_write_def state_poll_write_def next_file_def
      chunk_poll_flush_def chunk_writer_new_def)

lemma concat_Inr: "[b. Inr b \<leftarrow> map Inr bs] = bs"
  by (induction bs) simp_all

lemma car_split_spec:
  assumes "car_reader_ok sl" and ne: "\<And>roots. sl_header sl roots \<noteq> []" "\<And>b. sl_frame sl b \<noteq> []"
  shows "\<exists>fs. car_split sl (car_file sl (roots, blocks)) max_size = Ok (sl_header sl roots # fs, Suc (length fs)) \<and>
     concat (sl_header sl roots # fs) = car_file sl (roots, blocks) \<and>
     (0 < max_size \<longrightarrow> chunks_bounded max_size (map (sl_frame sl) blocks) (sl_header sl roots # fs))"
proof -
  let ?frames = "map (sl_frame sl) blocks" and ?h = "sl_header sl roots"
  define cw0 where "cw0 = write_frame ?h (chunk_writer_new max_size)"
  let ?cw = "write_frames ?frames cw0"
  have cw0: "cw_max_size cw0 = max_size" "cw_files cw0 = [?h]" "cw_state cw0 = Idle"
    by (simp_all add: cw0_def write_header [OF ne(1)])
  have wf: "cw_wf cw0" using write_frame_cases [OF cw_wf_new ne(1)] by (simp add: cw0_def)
  have frames: "[] \<notin> set ?frames" using ne(2) by (metis (no_types, lifting) imageE list.set_map)
  have split: "car_split sl (car_file sl (roots, blocks)) max_size = Ok (cw_files ?cw, cw_next_idx ?cw)"
    using assms(1)
    by (simp add: car_split_def car_reader_ok_def with_context_def write_frames_def concat_Inr cw0_def Let_def del: map_map)
  have concat: "concat (cw_files ?cw) = car_file sl (roots, blocks)"
    using write_frames_concat [OF wf frames] by (simp add: car_file_def cw0)
  have idx: "cw_next_idx ?cw = length (cw_files ?cw)" by (rule cw_wf_idx [OF write_frames_wf [OF wf frames]])
  have mono: "cw_files cw \<noteq> [] \<Longrightarrow> cw_wf cw \<Longrightarrow> [] \<notin> set fs \<Longrightarrow>
      cw_files (write_frames fs cw) \<noteq> [] \<and> (1 < length (cw_files cw) \<or> cw_state cw = Idle \<longrightarrow>
      hd (cw_files (write_frames fs cw)) = hd (cw_files cw))" for fs cw
  proof (induction fs arbitrary: cw)
    case (Cons buf fs)
    have "buf \<noteq> []" using Cons.prems(3) by auto
    note step = write_frame_cases [OF Cons.prems(2) this]
    have "cw_files (write_frame buf cw) \<noteq> [] \<and> hd (cw_files (write_frame buf cw)) = hd (cw_files cw) \<and>
        1 < length (cw_files (write_frame buf cw))"
      using step Cons.prems(1) by (auto simp: hd_append Suc_lessI)
    with Cons.IH [of "write_frame buf cw"] step Cons.prems(3) show ?case by (simp add: write_frames_def)
  qed (simp add: write_frames_def)
  have "cw_files ?cw \<noteq> []" "hd (cw_files ?cw) = ?h" using mono [OF _ wf frames] by (simp_all add: cw0)
  then obtain fs where fs: "cw_files ?cw = ?h # fs" by (cases "cw_files ?cw") simp_all
  have "0 < max_size \<longrightarrow> chunks_bounded max_size ?frames (cw_files ?cw)"
    using write_frames_bounded [OF _ wf frames, of ?frames] by (simp add: chunks_bounded_def cw0)
  with split concat idx fs show ?thesis by auto
qed

subsection \<open>Transfer\<close>

text \<open>A peer saves the chunks in order, as they come in, until it has the last.\<close>

definition downloading :: "SnapshotClient \<Rightarrow> SnapshotManifest \<Rightarrow> nat list list \<Rightarrow> bool" where
  "downloading c m xs =
     (ss_current_download (sc_state c) =
        Some \<lparr>sd_manifest = m, sd_parts = zip [0..<length xs] xs, sd_next_index = length xs\<rparr>)"

lemma parts_snoc: "om_insert (length xs) x (zip [0..<length xs] xs) = zip [0..<Suc (length xs)] (xs @ [x])"
  by (subst om_insert_snoc) (auto dest: set_zip_leftD)

lemma save_chunk_step:
  assumes d: "downloading c m xs" and n: "Suc (length xs) < U32"
  shows "Suc (length xs) \<noteq> sm_chunks m \<Longrightarrow>
      \<exists>c'. client_save_chunk sha256 (Ok ()) (length xs) x c = (c', Ok None) \<and> downloading c' m (xs @ [x])"
    and "Suc (length xs) = sm_chunks m \<Longrightarrow> sha256 (concat (xs @ [x])) = sm_checksum m \<Longrightarrow>
      \<exists>c'. client_save_chunk sha256 (Ok ()) (length xs) x c =
        (c', Ok (Some (snapshot_item_new (zip [0..<Suc (length xs)] (xs @ [x])) m))) \<and> downloading c' m (xs @ [x])"
    and "Suc (length xs) = sm_chunks m \<Longrightarrow> sha256 (concat (xs @ [x])) \<noteq> sm_checksum m \<Longrightarrow>
      \<exists>c'. client_save_chunk sha256 (Ok ()) (length xs) x c =
        (c', Err (WrongChecksum (sm_checksum m) (sha256 (concat (xs @ [x])))))"
  using d n
  by (simp_all add: client_save_chunk_def downloading_def parts_snoc parts_checksum_def list_parts_def Let_def)

lemma offer_accepted:
  assumes "sm_version m = 1"
  shows "\<exists>c'. client_offer_snapshot (Ok ()) m c = (c', Ok ()) \<and> downloading c' m []"
  using assms by (simp add: client_offer_snapshot_def downloading_def)

lemma load_chunk_zip:
  assumes "i < length xs" "sm_chunks m = length xs"
  shows "load_chunk i (snapshot_item_new (zip [0..<length xs] xs) m) = Ok (xs ! i)"
proof -
  have "map_of (zip [0..<length xs] xs) i = Some (xs ! i)"
    using assms(1) by (subst map_of_eq_Some_iff) (auto simp: set_zip map_fst_zip intro!: exI [of _ i])
  then show ?thesis using assms by (simp add: load_chunk_def snapshot_item_new_def)
qed

lemma create_snapshot_spec:
  assumes lib: "snapshot_lib_ok sl valid" and ok: "store_ok sl bs rank"
    and valid: "\<And>c b. sl_get sl bs c = Ok (Some b) \<Longrightarrow> valid c b"
    and sn: "snapshot_new sl bs ps h = Ok sn"
    and ne: "\<And>roots. sl_header sl roots \<noteq> []" "\<And>b. sl_frame sl b \<noteq> []"
  shows "\<exists>car xs. car_of sl valid bs sn car \<and> xs \<noteq> [] \<and> concat xs = car_file sl car \<and>
     create_snapshot sl sha256 chunk bs h ps =
       Some (Ok (snapshot_item_new (zip [0..<length xs] xs)
         \<lparr>sm_block_height = h, sm_size = length (car_file sl car), sm_chunks = length xs mod U32,
          sm_checksum = sha256 (car_file sl car), sm_state_params = ps, sm_version = 1\<rparr>))"
proof -
  obtain car where car: "write_car sl bs sn = Some (Ok car)" "car_of sl valid bs sn car"
    using write_car_spec [OF lib ok valid] by blast
  obtain fs where fs: "car_split sl (car_file sl car) chunk = Ok (sl_header sl (fst car) # fs, Suc (length fs))"
    "concat (sl_header sl (fst car) # fs) = car_file sl car"
    using car_split_spec [OF snapshot_lib_okD(8) [OF lib] ne, of "fst car" "snd car" chunk] by auto
  let ?xs = "sl_header sl (fst car) # fs"
  have "create_snapshot sl sha256 chunk bs h ps =
       Some (Ok (snapshot_item_new (zip [0..<length ?xs] ?xs)
         \<lparr>sm_block_height = h, sm_size = length (car_file sl car), sm_chunks = length ?xs mod U32,
          sm_checksum = sha256 (car_file sl car), sm_state_params = ps, sm_version = 1\<rparr>))"
    using sn car(1) fs(1)
    by (simp add: create_snapshot_def with_context_def SNAPSHOT_VERSION_def Let_def del: upt_Suc zip_Cons_Cons)
  with car(2) fs(2) show ?thesis by blast
qed

subsection \<open>Pruning\<close>

lemma prune_items_suffix: "\<exists>pre. xs = pre @ prune_items now n hold xs"
proof (induction xs)
  case (Cons s ss)
  then obtain pre where "ss = pre @ prune_items now n hold ss" by blast
  then have "s # ss = (s # pre) @ prune_items now n hold ss" by simp
  then have "\<exists>pre. s # ss = pre @ prune_items now n hold ss" by blast
  moreover have "prune_items now n hold (s # ss) = s # ss \<or> prune_items now n hold (s # ss) = prune_items now n hold ss"
    by (simp split: option.splits)
  ultimately show ?case by (metis append_Nil)
qed simp

text \<open>The oldest snapshot that is kept is needed, or was accessed recently; those before it were not.\<close>

lemma prune_items_length:
  "length (prune_items now n hold xs) \<le> n \<or>
   (\<exists>s t. prune_items now n hold xs = s # t \<and> si_last_access s \<le> now \<and> now - si_last_access s \<le> hold)"
  by (induction xs) (auto simp: elapsed_def)

lemma prune_items_keeps: "min n (length xs) \<le> length (prune_items now n hold xs)"
  by (induction xs) (auto split: option.splits)

text \<open>A snapshot that was taken: its chunks are those of a CAR file, which imports to the same parameters, height and
  blocks.\<close>

lemma created_item:
  assumes lib: "snapshot_lib_ok sl valid" and st: "store_ok sl bs rank"
    and v: "\<And>c b. sl_get sl bs c = Ok (Some b) \<Longrightarrow> valid c b"
    and ne: "\<And>roots. sl_header sl roots \<noteq> []" "\<And>b. sl_frame sl b \<noteq> []"
    and new: "snapshot_new sl bs ps h = Ok sn" and create: "create_snapshot sl sha256 chunk bs h ps = Some (Ok item)"
  shows "\<exists>xs m. xs \<noteq> [] \<and> item = snapshot_item_new (zip [0..<length xs] xs) m \<and> sm_block_height m = h \<and>
     sm_state_params m = ps \<and> sm_version m = 1 \<and> sm_chunks m = length xs mod U32 \<and> sm_checksum m = sha256 (concat xs) \<and>
     (\<exists>bs'. snapshot_import sl item bs0 True = (bs', Ok sn) \<and>
       (\<forall>k b. reach sl bs (sp_state_root ps) k \<and> sl_get sl bs k = Ok (Some b) \<longrightarrow> sl_get sl bs' k = Ok (Some b)))"
proof -
  have sn: "sn = \<lparr>sn_state_params = ps, sn_block_height = h\<rparr>" "sl_state_tree sl bs (sp_state_root ps) = Ok ()"
    using new by (auto simp: snapshot_new_def outcome_simps)
  obtain car xs where car: "car_of sl valid bs sn car" "xs \<noteq> []" "concat xs = car_file sl car"
    and c: "create_snapshot sl sha256 chunk bs h ps =
       Some (Ok (snapshot_item_new (zip [0..<length xs] xs)
         \<lparr>sm_block_height = h, sm_size = length (car_file sl car), sm_chunks = length xs mod U32,
          sm_checksum = sha256 (car_file sl car), sm_state_params = ps, sm_version = 1\<rparr>))"
    using create_snapshot_spec [OF lib st v new ne] by blast
  define m where "m = \<lparr>sm_block_height = h, sm_size = length (car_file sl car), sm_chunks = length xs mod U32,
          sm_checksum = sha256 (car_file sl car), sm_state_params = ps, sm_version = 1\<rparr>"
  have item: "item = snapshot_item_new (zip [0..<length xs] xs) m" using create c by (simp add: m_def)
  obtain bs' where import: "read_car sl (car_file sl car) bs0 True = (bs', Ok sn)"
    "\<forall>(k, b) \<in> reach_blocks sl bs [sp_state_root ps]. sl_get sl bs' k = Ok (Some b)"
    using read_car_spec [OF lib car(1), of bs0 True] sn by auto
  have "snapshot_import sl item bs0 True = (bs', Ok sn)"
    using import(1) sn(1) car(3)
    by (simp add: snapshot_import_def item snapshot_item_new_def m_def list_parts_def with_context_def)
  moreover have "\<forall>k b. reach sl bs (sp_state_root ps) k \<and> sl_get sl bs k = Ok (Some b) \<longrightarrow> sl_get sl bs' k = Ok (Some b)"
    using import(2) by (auto simp: reach_blocks_def)
  ultimately show ?thesis using item car(2,3) by (intro exI [of _ xs] exI [of _ m]) (simp add: m_def)
qed

section \<open>Properties\<close>

text \<open>Splitting a CAR file loses nothing. The chunks put together are the file, the first chunk is the
  header alone, and every other chunk is below the limit before its last frame, so that no frame is torn
  apart.\<close>

theorem car_split_chunks:
  assumes "car_reader_ok sl" "\<forall>roots. sl_header sl roots \<noteq> []" "\<forall>b. sl_frame sl b \<noteq> []" "0 < max_size"
  shows "\<exists>fs. car_split sl (car_file sl (roots, blocks)) max_size = Ok (sl_header sl roots # fs, Suc (length fs)) \<and>
     concat (sl_header sl roots # fs) = car_file sl (roots, blocks) \<and>
     (\<forall>f \<in> set fs. \<exists>pre b. b \<in> set blocks \<and> f = pre @ sl_frame sl b \<and> (pre = [] \<or> length pre < max_size))"
proof -
  obtain fs where fs: "car_split sl (car_file sl (roots, blocks)) max_size = Ok (sl_header sl roots # fs, Suc (length fs))"
    "concat (sl_header sl roots # fs) = car_file sl (roots, blocks)"
    "chunks_bounded max_size (map (sl_frame sl) blocks) (sl_header sl roots # fs)"
    using car_split_spec [OF assms(1), of roots blocks max_size] assms(2-4) by blast
  have "\<exists>pre b. b \<in> set blocks \<and> f = pre @ sl_frame sl b \<and> (pre = [] \<or> length pre < max_size)" if f: "f \<in> set fs" for f
  proof -
    obtain pre frame where "f = pre @ frame" "frame \<in> set (map (sl_frame sl) blocks)" "pre = [] \<or> length pre < max_size"
      using fs(3) f unfolding chunks_bounded_def list.sel by blast
    then show ?thesis by fastforce
  qed
  with fs(1,2) show ?thesis by blast
qed

text \<open>The history of snapshots. Pruning removes only the oldest snapshots and never goes below the size of
  the history; it keeps more only if the oldest one that is left was accessed within the hold time.\<close>

theorem prune_history_bounds:
  assumes "0 < mg_hist_size mg"
  shows "\<exists>old. ss_snapshots ss = old @ ss_snapshots (prune_history now mg ss) \<and>
     min (mg_hist_size mg) (length (ss_snapshots ss)) \<le> length (ss_snapshots (prune_history now mg ss)) \<and>
     (length (ss_snapshots (prune_history now mg ss)) \<le> mg_hist_size mg \<or>
      (\<exists>s t. ss_snapshots (prune_history now mg ss) = s # t \<and> now \<le> si_last_access s + mg_last_access_hold mg))"
proof -
  let ?p = "prune_items now (mg_hist_size mg) (mg_last_access_hold mg) (ss_snapshots ss)"
  have "ss_snapshots (prune_history now mg ss) = ?p" using assms by (simp add: prune_history_def)
  moreover obtain old where "ss_snapshots ss = old @ ?p" using prune_items_suffix by blast
  moreover have "length ?p \<le> mg_hist_size mg \<or>
      (\<exists>s t. ?p = s # t \<and> now \<le> si_last_access s + mg_last_access_hold mg)"
    using prune_items_length [of now "mg_hist_size mg" "mg_last_access_hold mg" "ss_snapshots ss"] by fastforce
  ultimately show ?thesis using prune_items_keeps by metis
qed

section \<open>Witnesses\<close>

definition sample_client :: SnapshotClient where
  "sample_client = \<lparr>sc_interval = 10, sc_state = snapshot_state_new []\<rparr>"

lemma mem_frames_nonempty: "mem_header roots \<noteq> []" "mem_frame b \<noteq> []"
  by (simp_all add: mem_header_def mem_frame_def put_str_def)

theorem car_split_chunks_witness:
  "\<exists>fs. car_split mem_snapshot_lib (car_file mem_snapshot_lib ([[9]], [([9, 1], [1]), ([9, 2], [2]), ([9, 3], [3])])) 6 =
     Ok (mem_header [[9]] # fs, Suc (length fs)) \<and>
     concat (mem_header [[9]] # fs) = car_file mem_snapshot_lib ([[9]], [([9, 1], [1]), ([9, 2], [2]), ([9, 3], [3])])"
proof -
  have "car_reader_ok mem_snapshot_lib" by (rule snapshot_lib_okD(8) [OF mem_lib_ok])
  moreover have "\<forall>roots. sl_header mem_snapshot_lib roots \<noteq> []" "\<forall>b. sl_frame mem_snapshot_lib b \<noteq> []"
    by (simp_all add: mem_frames_nonempty)
  ultimately show ?thesis
    using car_split_chunks [of mem_snapshot_lib 6 "[[9]]" "[([9, 1], [1]), ([9, 2], [2]), ([9, 3], [3])]"]
    by (auto simp del: concat.simps)
qed

definition sample_manifest :: "nat \<Rightarrow> SnapshotManifest" where
  "sample_manifest h = \<lparr>sm_block_height = h, sm_size = 5, sm_chunks = 2, sm_checksum = [h], sm_state_params = mem_params,
     sm_version = 1\<rparr>"

theorem prune_history_bounds_witness:
  "\<exists>old. map (\<lambda>h. snapshot_item_new [] (sample_manifest h)) [10, 20, 30] =
     old @ ss_snapshots (prune_history 500 (manager_new 4 2 60)
       (snapshot_state_new (map (\<lambda>h. snapshot_item_new [] (sample_manifest h)) [10, 20, 30]))) \<and>
     2 \<le> length (ss_snapshots (prune_history 500 (manager_new 4 2 60)
       (snapshot_state_new (map (\<lambda>h. snapshot_item_new [] (sample_manifest h)) [10, 20, 30]))))"
proof -
  have "0 < mg_hist_size (manager_new 4 2 60)" by (simp add: manager_new_def)
  from prune_history_bounds [OF this, of "snapshot_state_new (map (\<lambda>h. snapshot_item_new [] (sample_manifest h)) [10, 20, 30])" 500]
  show ?thesis by (elim exE conjE) (intro exI conjI, simp add: snapshot_state_new_def, simp add: snapshot_state_new_def manager_new_def)
qed

subsection \<open>A snapshot in memory\<close>

declare stream_blocks.simps [code]

lemma mem_chunks:
  "case write_car mem_snapshot_lib mem_store \<lparr>sn_state_params = mem_params, sn_block_height = 40\<rparr> of
     Some (Ok car) \<Rightarrow>
       (case car_split mem_snapshot_lib (car_file mem_snapshot_lib car) 4 of
          Ok (files, n) \<Rightarrow> length files < 20
        | _ \<Rightarrow> False)
   | _ \<Rightarrow> False"
  by code_simp

lemma mem_created:
  "\<exists>item. create_snapshot mem_snapshot_lib id 4 mem_store 40 mem_params = Some (Ok item) \<and> length (si_parts item) < 20"
  using mem_chunks
  by (auto simp: create_snapshot_def mem_snapshot_new snapshot_item_new_def with_context_def Let_def
      split: option.splits outcome.splits prod.splits)

end
