(* ===== verification/System_Actors.thy ===== *)
theory System_Actors
  imports Actor_Runtime
begin

text \<open>
  Two actors that the system installs: \<open>fendermint/actors/chainmetadata\<close>, which remembers the hashes of the
  last blocks, and \<open>fendermint/actors/eam\<close>, which decides who may deploy contracts before it passes a
  call on to the address manager of the built-in actors. The latter is an argument.
\<close>

section \<open>Chain metadata\<close>

record 'c ChainMetadata =
  cm_blockhashes :: 'c
  cm_lookback_len :: nat

definition DEFAULT_LOOKBACK_LEN :: nat where
  "DEFAULT_LOOKBACK_LEN = 256"

text \<open>\<open>epoch as u64\<close>\<close>

definition as_u64 :: "int \<Rightarrow> nat" where
  "as_u64 e = nat (e mod 2 ^ 64)"

definition cm_new :: "('c, nat, 'v, 'h, 's) kv_lib \<Rightarrow> nat \<Rightarrow> 's \<Rightarrow> (string, 'c ChainMetadata \<times> 's) outcome" where
  "cm_new amt lookback_len s =
     obind (map_err (\<lambda>e. ''chainmetadata actor failed to create empty Amt: '' @ e) (kv_flush amt (kv_new amt s) s))
       (\<lambda>((c, _), s). Ok (\<lparr>cm_blockhashes = c, cm_lookback_len = lookback_len\<rparr>, s))"

definition cm_get_block_hash ::
  "('c, nat, 'v, 'h, 's) kv_lib \<Rightarrow> int \<Rightarrow> 'c ChainMetadata \<Rightarrow> 's \<Rightarrow> (string, 'v option) outcome" where
  "cm_get_block_hash amt epoch st s =
     obind (map_err (\<lambda>e. ''failed to load blockhashes from AMT cid, error: '' @ e) (kv_load amt s (cm_blockhashes st)))
       (\<lambda>blockhashes.
     map_err (\<lambda>e. ''failed to get blockhash at epoch, error: '' @ e) (kv_get amt s blockhashes (as_u64 epoch)))"

definition cm_constructor ::
  "('c, nat, 'v, 'h, 's) kv_lib \<Rightarrow> 'a runtime \<Rightarrow> nat \<Rightarrow> 's \<Rightarrow> (ActorError, 'c ChainMetadata \<times> 's) outcome" where
  "cm_constructor amt rt lookback_len s =
     obind (rt_validate_caller_is rt [rt_system_actor rt]) (\<lambda>_.
     downcast_default USR_ILLEGAL_STATE ''failed to create empty AMT'' (cm_new amt lookback_len s))"

text \<open>\<open>unwrap\<close> of a \<open>Result\<close>.\<close>

definition unwrap_res :: "('e, 'x) outcome \<Rightarrow> ('f, 'x) outcome" where
  "unwrap_res r = (case r of Ok x \<Rightarrow> Ok x | _ \<Rightarrow> Panic)"

text \<open>The first index of \<open>for_each_while\<close> with a callback that stops at once.\<close>

definition first_index :: "(string, nat \<times> 'v) outcome list \<Rightarrow> (string, nat) outcome" where
  "first_index rs = (case rs of [] \<Rightarrow> Ok 0 | r # _ \<Rightarrow> omap fst r)"

definition push_block_hash ::
  "('c, nat, 'v, 'h, 's) kv_lib \<Rightarrow> 'a runtime \<Rightarrow> int \<Rightarrow> 'v \<Rightarrow> 'c ChainMetadata \<Rightarrow> 's \<Rightarrow>
     (ActorError, 'c ChainMetadata \<times> 's) outcome" where
  "push_block_hash amt rt epoch blk st s =
     obind (rt_validate_caller_is rt [rt_system_actor rt]) (\<lambda>_.
     obind (downcast_default USR_ILLEGAL_STATE ''failed to load blockhashes states''
       (kv_load amt s (cm_blockhashes st))) (\<lambda>blockhashes.
     obind (unwrap_res (kv_set amt s blockhashes (as_u64 epoch) blk)) (\<lambda>blockhashes.
     obind (if cm_lookback_len st < kv_count amt blockhashes
            then obind (unwrap_res (first_index (kv_iter amt s blockhashes))) (\<lambda>first_idx.
                 omap snd (unwrap_res (kv_delete amt s blockhashes first_idx)))
            else Ok blockhashes) (\<lambda>blockhashes.
     obind (downcast_default USR_ILLEGAL_STATE ''failed to save blockhashes'' (kv_flush amt blockhashes s))
       (\<lambda>((c, _), s).
     Ok (st\<lparr>cm_blockhashes := c\<rparr>, s))))))"

definition get_block_hash_at ::
  "('c, nat, 'v, 'h, 's) kv_lib \<Rightarrow> int \<Rightarrow> 'c ChainMetadata \<Rightarrow> 's \<Rightarrow> (ActorError, 'v option) outcome" where
  "get_block_hash_at amt epoch st s =
     downcast_default USR_ILLEGAL_STATE ''failed to get blockhash'' (cm_get_block_hash amt epoch st s)"

definition lookback_len_of :: "'c ChainMetadata \<Rightarrow> (ActorError, nat) outcome" where
  "lookback_len_of st = Ok (cm_lookback_len st)"

fun push_blocks ::
  "('c, nat, 'v, 'h, 's) kv_lib \<Rightarrow> 'a runtime \<Rightarrow> (int \<times> 'v) list \<Rightarrow> 'c ChainMetadata \<Rightarrow> 's \<Rightarrow>
     (ActorError, 'c ChainMetadata \<times> 's) outcome" where
  "push_blocks amt rt [] st s = Ok (st, s)"
| "push_blocks amt rt ((e, b) # bs) st s =
     obind (push_block_hash amt rt e b st s) (\<lambda>(st, s). push_blocks amt rt bs st s)"

text \<open>The last \<open>n\<close> elements of a list.\<close>

definition lastn :: "nat \<Rightarrow> 'x list \<Rightarrow> 'x list" where
  "lastn n xs = drop (length xs - n) xs"

lemma lastn_snoc: "lastn n (xs @ [x]) = (if length (lastn n xs @ [x]) \<le> n then lastn n xs @ [x] else tl (lastn n xs @ [x]))"
proof (cases "length xs < n")
  case True
  then show ?thesis by (simp add: lastn_def)
next
  case False
  then have "length (xs @ [x]) - n = Suc (length xs - n)" by simp
  then have "lastn n (xs @ [x]) = tl (drop (length xs - n) (xs @ [x]))"
    unfolding lastn_def by (metis drop_Suc tl_drop)
  with False show ?thesis by (auto simp: lastn_def)
qed

lemma first_index_sorted:
  assumes kv: "kv_ok amt rep holds grow key_ok" and ord: "iter_ordered amt rep"
    and r: "rep s h (map_of (e # es))" and sorted: "sorted_wrt (<) (map fst (e # es))"
  shows "first_index (kv_iter amt s h) = Ok (fst e)"
proof -
  obtain kvs where kvs: "kv_iter amt s h = map Ok kvs" "distinct (map fst kvs)" "map_of kvs = map_of (e # es)"
    using kv_iter_rep [OF kv, OF r] by blast
  have srt: "sorted (map fst kvs)" using ord r kvs(1) unfolding iter_ordered_def by blast
  have keys: "fst ` set kvs = fst ` set (e # es)"
    using kvs(3) dom_map_of_conv_image_fst by metis
  then obtain k ks where k: "kvs = k # ks" by (cases kvs) auto
  have "fst k \<in> fst ` set (e # es)" "fst e \<in> fst ` set kvs" using keys k by auto
  moreover have "\<forall>j \<in> fst ` set kvs. fst k \<le> j" using srt k by auto
  moreover have "\<forall>j \<in> fst ` set (e # es). fst e \<le> j" using sorted by (auto simp: less_imp_le)
  ultimately have "fst k = fst e" by (meson order_antisym)
  then show ?thesis using kvs(1) k by (simp add: first_index_def)
qed

lemma push_block_window:
  assumes kv: "kv_ok amt rep holds grow (\<lambda>k. k < U64 - 1)" and ord: "iter_ordered amt rep"
    and rt: "runtime_ok rt" "rt_caller rt = rt_system_actor rt"
    and m: "holds s (cm_blockhashes st) (map_of kvs)"
    and sorted: "sorted_wrt (<) (map fst (kvs @ [(as_u64 e, b)]))" and key: "as_u64 e < U64 - 1"
    and len: "length kvs \<le> cm_lookback_len st"
  shows "\<exists>c s'. push_block_hash amt rt e b st s = Ok (st\<lparr>cm_blockhashes := c\<rparr>, s') \<and>
     holds s' c (map_of (if length (kvs @ [(as_u64 e, b)]) \<le> cm_lookback_len st then kvs @ [(as_u64 e, b)]
       else tl (kvs @ [(as_u64 e, b)])))"
proof -
  let ?new = "kvs @ [(as_u64 e, b)]"
  have pass: "rt_validate_caller_is rt [rt_system_actor rt] = Ok ()" using caller_passes [OF rt(1)] rt(2) by simp
  have dist: "distinct (map fst ?new)" using sorted by (simp only: strict_sorted_iff)
  obtain h where h: "kv_load amt s (cm_blockhashes st) = Ok h" "rep s h (map_of kvs)"
    using kv_load_rep [OF kv, OF m] by blast
  have upd: "(map_of kvs)(as_u64 e \<mapsto> b) = map_of ?new"
  proof -
    have "map_of kvs (as_u64 e) = None" using dist by (simp add: map_of_eq_None_iff)
    then show ?thesis by (intro ext) (simp add: map_add_def split: option.split)
  qed
  obtain h1 where h1: "kv_set amt s h (as_u64 e) b = Ok h1" "rep s h1 (map_of ?new)"
    using kv_set_rep [OF kv, OF h(2), OF key, of b] upd by auto
  have count: "kv_count amt h1 = length ?new"
    using kv_count_rep [OF kv, OF h1(2)] card_dom_map_of [OF dist] by simp
  show ?thesis
  proof (cases "length ?new \<le> cm_lookback_len st")
    case True
    obtain c h' s' where "kv_flush amt h1 s = Ok ((c, h'), s')" "holds s' c (map_of ?new)"
      using kv_flush_rep [OF kv, OF h1(2)] by (elim exE conjE) (rule that)
    with True pass h(1) h1(1) count show ?thesis by (auto simp: push_block_hash_def unwrap_res_def)
  next
    case False
    obtain x xs where x: "?new = x # xs" by (cases ?new) auto
    have first: "first_index (kv_iter amt s h1) = Ok (fst x)"
      using first_index_sorted [OF kv ord, of s h1 x xs] h1(2) sorted unfolding x by blast
    have rest: "(map_of ?new)(fst x := None) = map_of xs"
    proof -
      have "map_of xs (fst x) = None" using dist unfolding x by (simp add: map_of_eq_None_iff)
      then show ?thesis unfolding x by (cases x) auto
    qed
    obtain r h2 where h2: "kv_delete amt s h1 (fst x) = Ok (r, h2)" "rep s h2 (map_of xs)"
      using kv_delete_rep [OF kv, OF h1(2), of "fst x"] rest by auto
    obtain c h' s' where "kv_flush amt h2 s = Ok ((c, h'), s')" "holds s' c (map_of xs)"
      using kv_flush_rep [OF kv, OF h2(2)] by (elim exE conjE) (rule that)
    with False pass h(1) h1(1) count first h2(1) x show ?thesis by (auto simp: push_block_hash_def unwrap_res_def)
  qed
qed

lemma lastn_in: "x \<in> set (lastn n xs) \<Longrightarrow> x \<in> set xs"
  unfolding lastn_def by (rule in_set_dropD)

lemma push_blocks_window:
  assumes kv: "kv_ok amt rep holds grow (\<lambda>k. k < U64 - 1)" and ord: "iter_ordered amt rep"
    and rt: "runtime_ok rt" "rt_caller rt = rt_system_actor rt"
  shows "holds s (cm_blockhashes st) (map_of (lastn (cm_lookback_len st) kvs)) \<Longrightarrow>
     sorted_wrt (<) (map fst kvs @ map (\<lambda>a. as_u64 (fst a)) bs) \<Longrightarrow> \<forall>(e, b) \<in> set bs. as_u64 e < U64 - 1 \<Longrightarrow>
     \<exists>st' s'. push_blocks amt rt bs st s = Ok (st', s') \<and> cm_lookback_len st' = cm_lookback_len st \<and>
       holds s' (cm_blockhashes st') (map_of (lastn (cm_lookback_len st) (kvs @ map (\<lambda>(e, b). (as_u64 e, b)) bs)))"
proof (induction bs arbitrary: s st kvs)
  case Nil
  then show ?case by simp
next
  case (Cons x bs)
  obtain e b where x: "x = (e, b)" by (cases x)
  let ?w = "lastn (cm_lookback_len st) kvs" and ?kvs = "kvs @ [(as_u64 e, b)]"
  have srt: "sorted_wrt (<) (map fst ?kvs @ map (\<lambda>a. as_u64 (fst a)) bs)" using Cons.prems(2) x by (simp add: comp_def)
  have "sorted_wrt (<) (map fst (drop n kvs))" for n
    using Cons.prems(2) by (simp add: sorted_wrt_append drop_map [symmetric] sorted_wrt_drop)
  moreover have "\<forall>j \<in> fst ` set kvs. j < as_u64 e" using Cons.prems(2) x by (auto simp: sorted_wrt_append)
  ultimately have sw: "sorted_wrt (<) (map fst (?w @ [(as_u64 e, b)]))"
    by (auto simp: sorted_wrt_append lastn_def dest: in_set_dropD)
  have key: "as_u64 e < U64 - 1" using Cons.prems(3) x by simp
  have len: "length ?w \<le> cm_lookback_len st" by (simp add: lastn_def)
  from push_block_window [OF kv ord rt, OF Cons.prems(1) sw key len] obtain c s1 where
    p: "push_block_hash amt rt e b st s = Ok (st\<lparr>cm_blockhashes := c\<rparr>, s1)"
      "holds s1 c (map_of (lastn (cm_lookback_len st) ?kvs))"
    unfolding lastn_snoc by blast
  let ?st = "st\<lparr>cm_blockhashes := c\<rparr>"
  from Cons.IH [of s1 ?st ?kvs] p(2) srt Cons.prems(3) x obtain st' s' where
    "push_blocks amt rt bs ?st s1 = Ok (st', s')" "cm_lookback_len st' = cm_lookback_len st"
    "holds s' (cm_blockhashes st') (map_of (lastn (cm_lookback_len st) (?kvs @ map (\<lambda>(e, b). (as_u64 e, b)) bs)))"
    by auto
  with p(1) x show ?case by auto
qed

text \<open>The actor knows the hashes of exactly the last blocks. When the system pushes blocks of
  increasing epochs, every push succeeds, and afterwards the hash of an epoch can be read if and only
  if it is among the last \<open>lookback_len\<close> pushed.\<close>

theorem lookback_window:
  assumes kv: "kv_ok amt rep holds grow (\<lambda>k. k < U64 - 1)" and ord: "iter_ordered amt rep"
    and rt: "runtime_ok rt" "rt_caller rt = rt_system_actor rt"
    and new: "cm_constructor amt rt n s0 = Ok (st, s)"
    and bs: "sorted_wrt (<) (map fst bs)" "\<forall>(e, b) \<in> set bs. 0 \<le> e \<and> e < 2 ^ 64 - 1" and e: "0 \<le> e" "e < 2 ^ 64"
  shows "\<exists>st' s'. push_blocks amt rt bs st s = Ok (st', s') \<and>
     get_block_hash_at amt e st' s' = Ok (map_of (lastn n bs) e)"
proof -
  from kv_flush_rep [OF kv, OF kv_new_rep [OF kv], of s0] new caller_passes [OF rt(1), of "[rt_system_actor rt]"] rt(2)
  have st: "holds s (cm_blockhashes st) (map_of (lastn (cm_lookback_len st) []))" "cm_lookback_len st = n"
    by (auto simp: cm_constructor_def cm_new_def outcome_simps lastn_def)
  have nat: "as_u64 x = nat x" if "0 \<le> x" "x < 2 ^ 64" for x using that by (simp add: as_u64_def)
  have inj: "inj_on as_u64 {0..<2 ^ 64}" by (auto simp: inj_on_def nat)
  have range: "0 \<le> fst x \<and> fst x < 2 ^ 64 - 1" if "x \<in> set bs" for x using that bs(2) by (cases x) auto
  have lt: "as_u64 (fst x) < as_u64 (fst y)" if "fst x < fst y" "x \<in> set bs" "y \<in> set bs" for x y
    using that range [of x] range [of y] by (simp add: nat)
  have "sorted_wrt (\<lambda>x y. fst x < fst y) bs" using bs(1) by (simp add: sorted_wrt_map)
  then have "sorted_wrt (\<lambda>x y. as_u64 (fst x) < as_u64 (fst y)) bs"
    by (rule sorted_wrt_mono_rel [rotated]) (rule lt)
  then have srt: "sorted_wrt (<) (map (\<lambda>a. as_u64 (fst a)) bs)" by (simp add: sorted_wrt_map)
  have keys: "\<forall>(e, b) \<in> set bs. as_u64 e < U64 - 1"
  proof safe
    fix x b assume "(x, b) \<in> set bs"
    from range [OF this] show "as_u64 x < U64 - 1" by (simp add: nat U64_def nat_less_iff)
  qed
  from push_blocks_window [OF kv ord rt, OF st(1) _ keys] srt st(2) obtain st' s' where
    p: "push_blocks amt rt bs st s = Ok (st', s')"
      "holds s' (cm_blockhashes st') (map_of (lastn n (map (\<lambda>(e, b). (as_u64 e, b)) bs)))" by auto
  obtain h where h: "kv_load amt s' (cm_blockhashes st') = Ok h"
      "rep s' h (map_of (lastn n (map (\<lambda>(e, b). (as_u64 e, b)) bs)))"
    using kv_load_rep [OF kv, OF p(2)] by blast
  have "map_of (map (\<lambda>(e, b). (as_u64 e, b)) kvs) (as_u64 e) = map_of kvs e" if "set kvs \<subseteq> set bs" for kvs
    using that
  proof (induction kvs)
    case (Cons kv kvs)
    then have "fst kv \<in> {0..<2 ^ 64}" using bs(2) by fastforce
    with Cons e inj show ?case by (cases kv) (auto dest: inj_onD)
  qed simp
  moreover have "lastn n (map (\<lambda>(e, b). (as_u64 e, b)) bs) = map (\<lambda>(e, b). (as_u64 e, b)) (lastn n bs)"
    by (simp add: lastn_def drop_map)
  ultimately have "kv_get amt s' h (as_u64 e) = Ok (map_of (lastn n bs) e)"
    using kv_get_rep [OF kv, OF h(2)] lastn_in by (metis subsetI)
  with p(1) h(1) show ?thesis by (simp add: get_block_hash_at_def cm_get_block_hash_def)
qed

definition sample_amt :: "((nat \<times> string) list, nat, string, (nat \<times> string) list, unit) kv_lib" where
  "sample_amt = mem_kv_of id Some (\<lambda>k. k < U64 - 1)"

lemma sample_amt_ok: "kv_ok sample_amt mem_rep mem_rep (\<lambda>_ _. True) (\<lambda>k. k < U64 - 1)" "iter_ordered sample_amt mem_rep"
  using mem_kv_of_ok [of Some id "\<lambda>k. k < U64 - 1"] mem_iter_ordered_of
  by (simp_all add: sample_amt_def)

theorem lookback_window_witness:
  "\<exists>st st' s'. cm_constructor sample_amt (sample_runtime 0) 2 () = Ok (st, ()) \<and>
     push_blocks sample_amt (sample_runtime 0) [(3, ''a''), (4, ''b''), (7, ''c'')] st () = Ok (st', s') \<and>
     get_block_hash_at sample_amt 4 st' s' = Ok (Some ''b'')"
proof -
  let ?bs = "[(3, ''a''), (4, ''b''), (7, ''c'')] :: (int \<times> string) list"
  let ?st = "\<lparr>cm_blockhashes = [], cm_lookback_len = 2\<rparr>"
  have new: "cm_constructor sample_amt (sample_runtime 0) 2 () = Ok (?st, ())"
    by (simp add: cm_constructor_def cm_new_def sample_amt_def mem_kv_of_def sample_runtime_def)
  have "rt_caller (sample_runtime 0) = rt_system_actor (sample_runtime 0)" by (simp add: sample_runtime_def)
  moreover have "sorted_wrt (<) (map fst ?bs)" "\<forall>(e, b) \<in> set ?bs. 0 \<le> e \<and> e < 2 ^ 64 - 1" by simp_all
  ultimately obtain st' s' where "push_blocks sample_amt (sample_runtime 0) ?bs ?st () = Ok (st', s')"
      "get_block_hash_at sample_amt 4 st' s' = Ok (map_of (lastn 2 ?bs) 4)"
    using lookback_window [OF sample_amt_ok sample_runtime_ok _ new, of ?bs 4] by auto
  with new show ?thesis by (auto simp: lastn_def)
qed

section \<open>Address manager\<close>

datatype 'a PermissionModeParams = UnrestrictedParams | AllowListParams "'a list"

datatype 'c PermissionMode = Unrestricted | AllowList 'c

record 'c EamState =
  permission_mode :: "'c PermissionMode"

text \<open>What this actor uses of the runtime beyond the other actors: the identifier in an address, and
  whether the code of an actor is that of a contract, \<open>None\<close> if it has no code.\<close>

record 'a eam_runtime = "'a runtime" +
  rt_address_id :: "'a \<Rightarrow> nat option"
  rt_is_evm :: "nat \<Rightarrow> bool option"

fun set_deployers :: "('c, 'a, unit, 'h, 's) kv_lib \<Rightarrow> 's \<Rightarrow> 'a list \<Rightarrow> 'h \<Rightarrow> (string, 'h) outcome" where
  "set_deployers lib s [] deployers_map = Ok deployers_map"
| "set_deployers lib s (d # ds) deployers_map = obind (kv_set lib s deployers_map d ()) (set_deployers lib s ds)"

definition eam_new ::
  "('c, 'a, unit, 'h, 's) kv_lib \<Rightarrow> 'a PermissionModeParams \<Rightarrow> 's \<Rightarrow> (ActorError, 'c EamState \<times> 's) outcome" where
  "eam_new lib args s =
     (case args of
        UnrestrictedParams \<Rightarrow> Ok (\<lparr>permission_mode = Unrestricted\<rparr>, s)
      | AllowListParams deployers \<Rightarrow>
          downcast_default USR_ILLEGAL_STATE ''empty''
            (obind (set_deployers lib s deployers (kv_new lib s)) (\<lambda>deployers_map.
             obind (kv_flush lib deployers_map s) (\<lambda>((c, _), s).
             Ok (\<lparr>permission_mode = AllowList c\<rparr>, s)))))"

fun any_resolves :: "'a runtime \<Rightarrow> nat \<Rightarrow> (string, 'a \<times> unit) outcome list \<Rightarrow> bool \<Rightarrow> (string, bool) outcome" where
  "any_resolves rt deployer [] allowed = Ok allowed"
| "any_resolves rt deployer (r # rs) allowed =
     obind r (\<lambda>(k, _). any_resolves rt deployer rs (allowed \<or> rt_resolve_address rt k = Some deployer))"

definition can_deploy ::
  "('c, 'a, unit, 'h, 's) kv_lib \<Rightarrow> 'a runtime \<Rightarrow> nat \<Rightarrow> 'c EamState \<Rightarrow> 's \<Rightarrow> (ActorError, bool) outcome" where
  "can_deploy lib rt deployer st s =
     (case permission_mode st of
        Unrestricted \<Rightarrow> Ok True
      | AllowList c \<Rightarrow>
          downcast_default USR_ILLEGAL_STATE ''verifiers''
            (obind (kv_load lib s c) (\<lambda>deployers. any_resolves rt deployer (kv_iter lib s deployers) False)))"

definition eam_constructor ::
  "('c, 'a, unit, 'h, 's) kv_lib \<Rightarrow> (ActorError, unit) outcome \<Rightarrow> 'a PermissionModeParams \<Rightarrow> 's \<Rightarrow>
     (ActorError, 'c EamState \<times> 's) outcome" where
  "eam_constructor lib base args s = obind base (\<lambda>_. eam_new lib args s)"

definition ensure_deployer_allowed ::
  "('c, 'a, unit, 'h, 's) kv_lib \<Rightarrow> 'a eam_runtime \<Rightarrow> 'c EamState \<Rightarrow> 's \<Rightarrow> (ActorError, unit) outcome" where
  "ensure_deployer_allowed lib rt st s =
     obind (unwrap (rt_address_id rt (rt_caller rt))) (\<lambda>caller_id.
     obind (unwrap (rt_is_evm rt caller_id)) (\<lambda>evm.
     if evm then Ok ()
     else obind (can_deploy lib (runtime.truncate rt) caller_id st s) (\<lambda>ok.
     if ok then Ok () else Err (forbidden ''sender not allowed to deploy contracts''))))"

definition update_deployers ::
  "('c, 'a, unit, 'h, 's) kv_lib \<Rightarrow> 'a eam_runtime \<Rightarrow> 'a list \<Rightarrow> 'c EamState \<Rightarrow> 's \<Rightarrow>
     (ActorError, 'c EamState \<times> 's) outcome" where
  "update_deployers lib rt deployers st s =
     (case permission_mode st of
        Unrestricted \<Rightarrow> Err (forbidden ''deployers can only be updated in allowlist mode'')
      | AllowList _ \<Rightarrow>
          obind (unwrap (rt_address_id rt (rt_caller rt))) (\<lambda>caller_id.
          obind (can_deploy lib (runtime.truncate rt) caller_id st s) (\<lambda>ok.
          if \<not> ok then Err (forbidden ''sender not allowed to update deployers'')
          else obind (eam_new lib (AllowListParams deployers) s) (\<lambda>(new, s).
          Ok (st\<lparr>permission_mode := permission_mode new\<rparr>, s)))))"

datatype 'a eam_call = UpdateDeployers "'a list" | OtherMethod nat "nat list"

definition eam_invoke ::
  "('c, 'a, unit, 'h, 's) kv_lib \<Rightarrow> (nat \<Rightarrow> nat list \<Rightarrow> (ActorError, nat list option) outcome) \<Rightarrow>
     'a eam_runtime \<Rightarrow> 'a eam_call \<Rightarrow> 'c EamState \<Rightarrow> 's \<Rightarrow>
     (ActorError, nat list option \<times> 'c EamState \<times> 's) outcome" where
  "eam_invoke lib builtin rt call st s =
     (case call of
        UpdateDeployers ds \<Rightarrow> omap (\<lambda>r. (None, r)) (update_deployers lib rt ds st s)
      | OtherMethod meth ps \<Rightarrow>
          obind (ensure_deployer_allowed lib rt st s) (\<lambda>_. omap (\<lambda>r. (r, st, s)) (builtin meth ps)))"

definition eam_exec ::
  "('c, 'a, unit, 'h, 's) kv_lib \<Rightarrow> (nat \<Rightarrow> nat list \<Rightarrow> (ActorError, nat list option) outcome) \<Rightarrow>
     'a eam_runtime \<times> 'a eam_call \<Rightarrow> 'c EamState \<times> 's \<Rightarrow> 'c EamState \<times> 's" where
  "eam_exec lib builtin = (\<lambda>(rt, call) (st, s).
     case eam_invoke lib builtin rt call st s of Ok (_, r) \<Rightarrow> r | _ \<Rightarrow> (st, s))"

text \<open>Who may deploy, by the addresses on the list; \<open>None\<close> is everybody.\<close>

definition listed :: "'a set option \<Rightarrow> 'a eam_runtime \<Rightarrow> bool" where
  "listed l rt = (case l of None \<Rightarrow> True
     | Some ds \<Rightarrow> \<exists>d \<in> ds. rt_resolve_address rt d = rt_address_id rt (rt_caller rt))"

fun eam_spec :: "'a eam_runtime \<times> 'a eam_call \<Rightarrow> 'a set option \<Rightarrow> 'a set option" where
  "eam_spec (rt, UpdateDeployers ds) l = (if l \<noteq> None \<and> listed l rt then Some (set ds) else l)"
| "eam_spec (rt, OtherMethod meth ps) l = l"

fun params_list :: "'a PermissionModeParams \<Rightarrow> 'a set option" where
  "params_list UnrestrictedParams = None"
| "params_list (AllowListParams ds) = Some (set ds)"

definition eam_holds :: "('s \<Rightarrow> 'c \<Rightarrow> ('a \<rightharpoonup> unit) \<Rightarrow> bool) \<Rightarrow> 's \<Rightarrow> 'c EamState \<Rightarrow> 'a set option \<Rightarrow> bool" where
  "eam_holds holds s st l =
     (case permission_mode st of
        Unrestricted \<Rightarrow> l = None
      | AllowList c \<Rightarrow> \<exists>m. holds s c m \<and> l = Some (dom m))"

lemma set_deployers_rep:
  assumes kv: "kv_ok lib rep holds grow (\<lambda>_. True)"
  shows "rep s h m \<Longrightarrow> \<exists>h' m'. set_deployers lib s ds h = Ok h' \<and> rep s h' m' \<and> dom m' = dom m \<union> set ds"
proof (induction ds arbitrary: h m)
  case Nil
  then show ?case by auto
next
  case (Cons d ds)
  obtain h1 where h1: "kv_set lib s h d () = Ok h1" "rep s h1 (m(d \<mapsto> ()))"
    using kv_set_rep [OF kv, OF Cons.prems TrueI, of d "()"] by blast
  from Cons.IH [OF h1(2)] obtain h' m' where
    "set_deployers lib s ds h1 = Ok h'" "rep s h' m'" "dom m' = dom (m(d \<mapsto> ())) \<union> set ds" by blast
  then show ?case using h1(1) by (intro exI [of _ h'] exI [of _ m']) (auto simp del: fun_upd_apply)
qed

lemma eam_new_holds:
  assumes kv: "kv_ok lib rep holds grow (\<lambda>_. True)"
  shows "\<exists>st s'. eam_new lib args s = Ok (st, s') \<and> eam_holds holds s' st (params_list args)"
proof (cases args)
  case UnrestrictedParams
  then show ?thesis by (simp add: eam_new_def eam_holds_def)
next
  case (AllowListParams ds)
  obtain h m where h: "set_deployers lib s ds (kv_new lib s) = Ok h" "rep s h m" "dom m = set ds"
    using set_deployers_rep [OF kv, OF kv_new_rep [OF kv], of s ds] by auto
  obtain c h' s' where "kv_flush lib h s = Ok ((c, h'), s')" "holds s' c m"
    using kv_flush_rep [OF kv, OF h(2)] by (elim exE conjE) (rule that)
  with h AllowListParams show ?thesis by (auto simp: eam_new_def eam_holds_def)
qed

lemma any_resolves_iff:
  "any_resolves rt d (map Ok kvs) b = Ok (b \<or> (\<exists>k \<in> fst ` set kvs. rt_resolve_address rt k = Some d))"
  by (induction kvs arbitrary: b) auto

lemma can_deploy_iff:
  assumes kv: "kv_ok lib rep holds grow (\<lambda>_. True)" and m: "eam_holds holds s st l"
    and i: "rt_address_id rt (rt_caller rt) = Some i"
  shows "can_deploy lib (runtime.truncate rt) i st s = Ok (listed l rt)"
proof (cases "permission_mode st")
  case Unrestricted
  with m show ?thesis by (simp add: can_deploy_def eam_holds_def listed_def)
next
  case (AllowList c)
  with m obtain mp where mp: "holds s c mp" "l = Some (dom mp)" by (auto simp: eam_holds_def)
  obtain h where h: "kv_load lib s c = Ok h" "rep s h mp" using kv_load_rep [OF kv, OF mp(1)] by blast
  obtain kvs where kvs: "kv_iter lib s h = map Ok kvs" "map_of kvs = mp"
    using kv_iter_rep [OF kv, OF h(2)] by blast
  have "fst ` set kvs = dom mp" using kvs(2) dom_map_of_conv_image_fst by metis
  with AllowList h(1) kvs(1) mp(2) i show ?thesis
    by (simp add: can_deploy_def any_resolves_iff listed_def runtime.defs)
qed

lemma eam_exec_refines:
  assumes kv: "kv_ok lib rep holds grow (\<lambda>_. True)" and m: "eam_holds holds s st l"
    and i: "rt_address_id (fst call) (rt_caller (fst call)) \<noteq> None"
    and e: "eam_exec lib builtin call (st, s) = (st', s')"
  shows "eam_holds holds s' st' (eam_spec call l)"
proof -
  obtain rt c where call: "call = (rt, c)" by (cases call)
  with i obtain n where n: "rt_address_id rt (rt_caller rt) = Some n" by auto
  show ?thesis
  proof (cases c)
    case (OtherMethod meth ps)
    with e m show ?thesis
      by (auto simp: call eam_exec_def eam_invoke_def obind_Ok_iff omap_Ok_iff split: outcome.splits)
  next
    case (UpdateDeployers ds)
    note can = can_deploy_iff [OF kv, OF m n]
    show ?thesis
    proof (cases "l \<noteq> None \<and> listed l rt")
      case True
      then obtain c0 where "permission_mode st = AllowList c0" using m by (cases "permission_mode st") (auto simp: eam_holds_def)
      moreover obtain st1 s1 where "eam_new lib (AllowListParams ds) s = Ok (st1, s1)" "eam_holds holds s1 st1 (Some (set ds))"
        using eam_new_holds [OF kv, of "AllowListParams ds" s] by auto
      ultimately show ?thesis using True e n can
        by (auto simp: call UpdateDeployers eam_exec_def eam_invoke_def update_deployers_def eam_holds_def)
    next
      case False
      then have "eam_exec lib builtin call (st, s) = (st, s)"
        using m n can by (cases "permission_mode st")
          (auto simp: call UpdateDeployers eam_exec_def eam_invoke_def update_deployers_def eam_holds_def)
      with e m False show ?thesis by (auto simp: call UpdateDeployers)
    qed
  qed
qed

lemma eam_run_refines:
  assumes kv: "kv_ok lib rep holds grow (\<lambda>_. True)"
  shows "eam_holds holds s st l \<Longrightarrow> \<forall>c \<in> set calls. rt_address_id (fst c) (rt_caller (fst c)) \<noteq> None \<Longrightarrow>
     fold (eam_exec lib builtin) calls (st, s) = (st', s') \<Longrightarrow> eam_holds holds s' st' (fold eam_spec calls l)"
proof (induction calls arbitrary: st s l)
  case (Cons call calls)
  obtain st1 s1 where e: "eam_exec lib builtin call (st, s) = (st1, s1)" by fastforce
  from eam_exec_refines [OF kv, OF Cons.prems(1) _ e] Cons.prems(2)
  have "eam_holds holds s1 st1 (eam_spec call l)" by simp
  from Cons.IH [OF this] Cons.prems(2,3) e show ?case by simp
qed simp


definition eam_caller :: "nat \<Rightarrow> nat eam_runtime" where
  "eam_caller c = runtime.extend (sample_runtime c) (eam_runtime.fields Some (\<lambda>_. Some False))"


end
