(* ===== verification/Hardhat.thy ===== *)
theory Hardhat
  imports IPC_Prelude "HOL-Library.List_Lexorder" "HOL-Library.Product_Lexorder" "HOL-Library.Char_ord"
begin

text \<open>
  Linking of contracts from the artifacts of a Hardhat build (\<open>fendermint/eth/hardhat/src/lib.rs\<close>): the libraries a
  set of contracts depends on, in an order in which they can be deployed, and the bytecode of a contract with the
  addresses of its libraries filled in.

  A path is the list of its components, which is how paths are ordered. The directory of artifacts is an association
  list from the name of the source file and of the contract to the parsed artifact; an entry that cannot be parsed is
  an error. Hash maps are association lists, ordered maps are sorted ones, sets are lists.
\<close>

section \<open>Artifacts\<close>

type_synonym ContractSource = "string list"

type_synonym ContractName = string

record Position =
  pos_start :: nat
  pos_length :: nat

record Bytecode =
  bc_object :: string
  link_references :: "(ContractSource, (ContractName, Position list) hmap) hmap"

record Artifact =
  art_bytecode :: Bytecode

type_synonym contracts_dir = "(string \<times> ContractName, (string, Artifact) outcome) hmap"

definition libraries_needed :: "Artifact \<Rightarrow> (ContractSource \<times> ContractName) list" where
  "libraries_needed art =
     concat (map (\<lambda>(lib_src, links). map (\<lambda>(lib_name, ps). (lib_src, lib_name)) links) (link_references (art_bytecode art)))"

definition library_positions :: "Artifact \<Rightarrow> ContractSource \<Rightarrow> ContractName \<Rightarrow> Position list" where
  "library_positions art lib_src lib_name =
     (case Option.bind (hm_get (link_references (art_bytecode art)) lib_src) (\<lambda>links. hm_get links lib_name) of
        Some ps \<Rightarrow> ps
      | None \<Rightarrow> [])"

fun path_str :: "ContractSource \<Rightarrow> string" where
  "path_str [] = []"
| "path_str [c] = c"
| "path_str (c # cs) = c @ ''/'' @ path_str cs"

definition fqn :: "ContractSource \<Rightarrow> ContractName \<Rightarrow> string" where
  "fqn contract_source contract_name = path_str contract_source @ '':'' @ contract_name"

text \<open>The path of an artifact is made of the last component of the source and the name of the contract.\<close>

definition artifact :: "contracts_dir \<Rightarrow> ContractSource \<Rightarrow> ContractName \<Rightarrow> (string, Artifact) outcome" where
  "artifact dir contract_src contract_name =
     (if contract_src = [] \<or> last contract_src = ''..'' then Err ''failed to produce base name''
      else case hm_get dir (last contract_src, contract_name) of
             None \<Rightarrow> Err ''failed to read''
           | Some r \<Rightarrow> with_context ''failed to parse Hardhat artifact'' r)"

section \<open>Linking\<close>

text \<open>\<open>String::replace_range\<close>.\<close>

definition replace_range :: "nat \<Rightarrow> nat \<Rightarrow> string \<Rightarrow> string \<Rightarrow> ('e, string) outcome" where
  "replace_range start stop new s = (if start \<le> stop \<and> stop \<le> length s then Ok (take start s @ new @ drop stop s) else Panic)"

fun trim_0x :: "string \<Rightarrow> string" where
  "trim_0x (CHR ''0'' # CHR ''x'' # s) = trim_0x s"
| "trim_0x s = s"

fun fill_positions :: "string \<Rightarrow> Position list \<Rightarrow> string \<Rightarrow> ('e, string) outcome" where
  "fill_positions addr [] code = Ok code"
| "fill_positions addr (p # ps) code =
     (let start = 2 + pos_start p * 2 in
      obind (replace_range start (start + pos_length p * 2) addr code) (fill_positions addr ps))"

definition resolve_library :: "(string, 'addr) hmap \<Rightarrow> ContractSource \<Rightarrow> ContractName \<Rightarrow> (string, 'addr) outcome" where
  "resolve_library libraries lib_src lib_name =
     (let f = fqn lib_src lib_name in
      case (hm_get libraries f, hm_get libraries lib_name) of
        (None, None) \<Rightarrow> Err (''failed to resolve library: '' @ f)
      | (Some _, Some _) \<Rightarrow> Err (''ambiguous library: '' @ f)
      | (Some addr, None) \<Rightarrow> Ok addr
      | (None, Some addr) \<Rightarrow> Ok addr)"

fun link_libraries ::
  "('addr \<Rightarrow> string) \<Rightarrow> Artifact \<Rightarrow> (string, 'addr) hmap \<Rightarrow> (ContractSource \<times> ContractName) list \<Rightarrow> string \<Rightarrow> (string, string) outcome" where
  "link_libraries hex art libraries [] code = Ok code"
| "link_libraries hex art libraries ((lib_src, lib_name) # libs) code =
     obind (resolve_library libraries lib_src lib_name) (\<lambda>addr.
     obind (fill_positions (hex addr) (library_positions art lib_src lib_name) code) (\<lambda>code.
     link_libraries hex art libraries libs code))"

definition bytecode ::
  "('addr \<Rightarrow> string) \<Rightarrow> (string \<Rightarrow> (string, nat list) outcome) \<Rightarrow> contracts_dir \<Rightarrow> ContractSource \<Rightarrow> ContractName \<Rightarrow>
     (string, 'addr) hmap \<Rightarrow> (string, nat list) outcome" where
  "bytecode hex unhex dir contract_src contract_name libraries =
     obind (artifact dir contract_src contract_name) (\<lambda>art.
     obind (link_libraries hex art libraries (libraries_needed art) (bc_object (art_bytecode art))) (\<lambda>code.
     with_context ''failed to decode contract from hex'' (unhex (trim_0x code))))"

section \<open>Dependencies\<close>

type_synonym 'k DependencyTree = "('k, 'k list) btree_map"

function topo_sort :: "'k::linorder DependencyTree \<Rightarrow> (string, 'k list) outcome" where
  "topo_sort tree =
     (if tree = [] then Ok []
      else case find (\<lambda>(k, ds). ds = []) tree of
             Some (leaf, _) \<Rightarrow>
               obind (topo_sort (map (\<lambda>(k, ds). (k, removeAll leaf ds)) (filter (\<lambda>(k, ds). k \<noteq> leaf) tree))) (\<lambda>sorted.
               Ok (leaf # sorted))
           | None \<Rightarrow> Err ''circular reference in the dependencies'')"
  by pat_completeness auto

termination
proof (relation "measure length")
  fix tree :: "'k DependencyTree" and e leaf ds
  assume "find (\<lambda>(k, ds). ds = []) tree = Some e" "(leaf, ds) = e"
  then have "(leaf, ds) \<in> set tree" by (metis find_Some_iff nth_mem)
  then have "length (filter (\<lambda>(k, ds). k \<noteq> leaf) tree) < length tree" by (intro length_filter_less [of "(leaf, ds)"]) auto
  then show "(map (\<lambda>(k, ds). (k, removeAll leaf ds)) (filter (\<lambda>(k, ds). k \<noteq> leaf) tree), tree) \<in> measure length" by simp
qed simp

declare topo_sort.simps [simp del]

text \<open>The libraries that any of the artifacts needs: the traversal visits no others, besides the ones it starts with.\<close>

definition all_references :: "contracts_dir \<Rightarrow> (ContractSource \<times> ContractName) set" where
  "all_references dir = (\<Union>(k, r) \<in> set dir. case r of Ok art \<Rightarrow> set (libraries_needed art) | _ \<Rightarrow> {})"

lemma finite_all_references [simp]: "finite (all_references dir)"
  by (auto simp: all_references_def split: outcome.splits)

lemma artifact_Ok: "artifact dir s n = Ok art \<Longrightarrow> ((last s, n), Ok art) \<in> set dir"
  by (auto simp: artifact_def with_context_def outcome_simps split: if_splits option.splits dest: map_of_SomeD)

lemma artifact_references: "artifact dir s n = Ok art \<Longrightarrow> set (libraries_needed art) \<subseteq> all_references dir"
  by (drule artifact_Ok) (force simp: all_references_def)

function collect_deps ::
  "contracts_dir \<Rightarrow> (ContractSource \<times> ContractName) DependencyTree \<Rightarrow> (ContractSource \<times> ContractName) list \<Rightarrow>
     (string, (ContractSource \<times> ContractName) DependencyTree) outcome" where
  "collect_deps dir deps [] = Ok deps"
| "collect_deps dir deps (sc # queue) =
     (if sc \<in> fst ` set deps then collect_deps dir deps queue
      else obind (with_context (''failed to load dependency artifact: '' @ snd sc) (artifact dir (fst sc) (snd sc))) (\<lambda>art.
           collect_deps dir (om_insert sc (remdups (libraries_needed art)) deps) (queue @ libraries_needed art)))"
  by pat_completeness auto

termination
proof (relation "measures [\<lambda>(dir, deps, queue). card (set queue \<union> all_references dir - fst ` set deps), \<lambda>(dir, deps, queue). length queue]")
  fix dir deps sc queue
  assume "sc \<in> fst ` set (deps :: (ContractSource \<times> ContractName) DependencyTree)"
  then have "set (sc # queue) \<union> all_references dir - fst ` set deps = set queue \<union> all_references dir - fst ` set deps" by auto
  then show "((dir, deps, queue), dir, deps, sc # queue) \<in> measures [\<lambda>(dir, deps, queue). card (set queue \<union> all_references dir - fst ` set deps), \<lambda>(dir, deps, queue). length queue]"
    by simp
next
  fix dir deps sc queue art
  assume new: "sc \<notin> fst ` set (deps :: (ContractSource \<times> ContractName) DependencyTree)"
    and "with_context (''failed to load dependency artifact: '' @ snd sc) (artifact dir (fst sc) (snd sc)) = Ok art"
  then have refs: "set (libraries_needed art) \<subseteq> all_references dir"
    by (auto simp: with_context_def outcome_simps dest: artifact_references)
  let ?A = "set (queue @ libraries_needed art) \<union> all_references dir - fst ` set (om_insert sc (remdups (libraries_needed art)) deps)"
  let ?B = "set (sc # queue) \<union> all_references dir - fst ` set deps"
  have "?A \<subset> ?B" using refs new by (auto simp: fst_set_om_insert)
  then have "card ?A < card ?B" by (intro psubset_card_mono) auto
  then show "((dir, om_insert sc (remdups (libraries_needed art)) deps, queue @ libraries_needed art), dir, deps, sc # queue)
      \<in> measures [\<lambda>(dir, deps, queue). card (set queue \<union> all_references dir - fst ` set deps), \<lambda>(dir, deps, queue). length queue]"
    by simp
qed simp

definition dependencies ::
  "contracts_dir \<Rightarrow> (ContractSource \<times> ContractName) list \<Rightarrow> (string, (ContractSource \<times> ContractName) list) outcome" where
  "dependencies dir root_contracts = obind (collect_deps dir [] root_contracts) topo_sort"

section \<open>Lemmas\<close>

text \<open>An order of deployment: every key once, and behind all it depends on.\<close>

definition deploy_order :: "'k::linorder DependencyTree \<Rightarrow> 'k list \<Rightarrow> bool" where
  "deploy_order tree xs =
     (distinct xs \<and> set xs = fst ` set tree \<and>
      (\<forall>(k, ds) \<in> set tree. \<forall>ys zs. xs = ys @ k # zs \<longrightarrow> set ds \<subseteq> set ys))"

abbreviation without :: "'k \<Rightarrow> 'k::linorder DependencyTree \<Rightarrow> 'k DependencyTree" where
  "without leaf tree \<equiv> map (\<lambda>(k, ds). (k, removeAll leaf ds)) (filter (\<lambda>(k, ds). k \<noteq> leaf) tree)"

lemma without_keys: "fst ` set (without leaf tree) = fst ` set tree - {leaf}"
  by (force simp: image_iff)

lemma deploy_order_leaf:
  assumes "deploy_order (without leaf tree) xs" "(leaf, []) \<in> set tree" "distinct (map fst tree)"
  shows "deploy_order tree (leaf # xs)"
proof -
  have keys: "set xs = fst ` set tree - {leaf}" "distinct xs" using assms(1) unfolding deploy_order_def without_keys by simp_all
  have leaf: "leaf \<in> fst ` set tree" using assms(2) by force
  have "set ds \<subseteq> set ys" if kd: "(k, ds) \<in> set tree" and x: "leaf # xs = ys @ k # zs" for k ds ys zs
  proof (cases ys)
    case Nil
    then have "k = leaf" using x by simp
    then have "ds = []" using kd assms(2,3) by (metis eq_key_imp_eq_value)
    then show ?thesis by simp
  next
    case (Cons y ys')
    then have ys: "y = leaf" "xs = ys' @ k # zs" using x by simp_all
    then have "k \<noteq> leaf" using keys by auto
    then have "(k, removeAll leaf ds) \<in> set (without leaf tree)" using kd by force
    then have "set (removeAll leaf ds) \<subseteq> set ys'" using assms(1) ys(2) unfolding deploy_order_def by blast
    then show ?thesis using Cons ys(1) by auto
  qed
  then have "\<forall>(k, ds) \<in> set tree. \<forall>ys zs. leaf # xs = ys @ k # zs \<longrightarrow> set ds \<subseteq> set ys" by blast
  moreover have "distinct (leaf # xs)" "set (leaf # xs) = fst ` set tree" using keys leaf by auto
  ultimately show ?thesis unfolding deploy_order_def by simp
qed

lemma filter_split: "filter P xs = ys @ k # zs \<Longrightarrow> \<exists>us vs. xs = us @ k # vs \<and> ys = filter P us"
proof (induction xs arbitrary: ys)
  case (Cons x xs)
  show ?case
  proof (cases "P x \<and> ys = []")
    case True
    then have "x # xs = [] @ k # xs" "ys = filter P []" using Cons.prems by simp_all
    then show ?thesis by blast
  next
    case False
    then obtain ys' where ys: "filter P xs = ys' @ k # zs" "ys = (if P x then x # ys' else ys')"
      using Cons.prems by (cases ys) (auto split: if_splits)
    obtain us vs where "xs = us @ k # vs" "ys' = filter P us" using Cons.IH [OF ys(1)] by blast
    then have "x # xs = (x # us) @ k # vs" "ys = filter P (x # us)" using ys(2) by simp_all
    then show ?thesis by blast
  qed
qed simp

lemma deploy_order_removed:
  assumes "deploy_order tree xs" "leaf \<in> fst ` set tree"
  shows "deploy_order (without leaf tree) (filter (\<lambda>x. x \<noteq> leaf) xs)"
proof -
  have sub: "set (removeAll leaf ds) \<subseteq> set ys"
    if kd: "(k, ds) \<in> set tree" "k \<noteq> leaf" and x: "filter (\<lambda>x. x \<noteq> leaf) xs = ys @ k # zs" for k ds ys zs
  proof -
    obtain us vs where xs: "xs = us @ k # vs" "ys = filter (\<lambda>x. x \<noteq> leaf) us"
      using filter_split [OF x] by blast
    then have "set ds \<subseteq> set us" using assms(1) kd(1) unfolding deploy_order_def by blast
    then show ?thesis using xs(2) by auto
  qed
  have "set ds' \<subseteq> set ys" if kd: "(k, ds') \<in> set (without leaf tree)" and x: "filter (\<lambda>x. x \<noteq> leaf) xs = ys @ k # zs" for k ds' ys zs
  proof -
    obtain ds where "(k, ds) \<in> set tree" "k \<noteq> leaf" "ds' = removeAll leaf ds" using kd by auto
    then show ?thesis using sub x by blast
  qed
  then have "\<forall>(k, ds) \<in> set (without leaf tree). \<forall>ys zs. filter (\<lambda>x. x \<noteq> leaf) xs = ys @ k # zs \<longrightarrow> set ds \<subseteq> set ys" by blast
  moreover have "distinct (filter (\<lambda>x. x \<noteq> leaf) xs)" "set (filter (\<lambda>x. x \<noteq> leaf) xs) = fst ` set tree - {leaf}"
    using assms unfolding deploy_order_def by auto
  ultimately show ?thesis unfolding deploy_order_def without_keys by simp
qed

lemma deploy_order_first:
  assumes "deploy_order tree xs" "tree \<noteq> []"
  shows "\<exists>k. (k, []) \<in> set tree"
proof -
  obtain x ys where xs: "xs = x # ys" using assms unfolding deploy_order_def by (cases xs) auto
  then have "x \<in> fst ` set tree" using assms(1) unfolding deploy_order_def by auto
  then obtain ds where kd: "(x, ds) \<in> set tree" by auto
  have "xs = [] @ x # ys" using xs by simp
  then have "set ds \<subseteq> set []" using assms(1) kd unfolding deploy_order_def by blast
  then show ?thesis using kd by auto
qed

lemma topo_sort_spec:
  "distinct (map fst tree) \<Longrightarrow>
   case topo_sort tree of
     Ok xs \<Rightarrow> deploy_order tree xs
   | Err e \<Rightarrow> e = ''circular reference in the dependencies'' \<and> (\<nexists>xs. deploy_order tree xs)
   | _ \<Rightarrow> False"
proof (induction tree rule: topo_sort.induct)
  case (1 tree)
  show ?case
  proof (cases "tree = []")
    case True
    then show ?thesis by (simp add: topo_sort.simps [of "[]"] deploy_order_def)
  next
    case ne: False
    show ?thesis
    proof (cases "find (\<lambda>(k, ds). ds = []) tree")
      case None
      then have "(k, []) \<notin> set tree" for k by (auto simp: find_None_iff)
      then have "\<not> deploy_order tree xs" for xs using deploy_order_first ne by blast
      then show ?thesis using ne None by (simp add: topo_sort.simps [of tree])
    next
      case (Some e)
      obtain leaf ds where e: "e = (leaf, ds)" by (cases e)
      then have leaf: "(leaf, []) \<in> set tree" using Some by (auto simp: find_Some_iff in_set_conv_nth)
      have "distinct (map fst (without leaf tree))"
        using "1.prems" by (induction tree) (auto simp: image_iff)
      note IH = "1.IH" [OF ne Some e [symmetric] this]
      have sorted: "topo_sort tree = obind (topo_sort (without leaf tree)) (\<lambda>sorted. Ok (leaf # sorted))"
        using ne Some e by (simp add: topo_sort.simps [of tree])
      have "(\<exists>xs. deploy_order (without leaf tree) xs)" if "deploy_order tree xs" for xs
        using deploy_order_removed [OF that, of leaf] leaf by force
      then show ?thesis
        using IH deploy_order_leaf [OF _ leaf "1.prems"] unfolding sorted by (cases "topo_sort (without leaf tree)") auto
    qed
  qed
qed

text \<open>The tree that is collected records what each contract needs, and with a contract all that it needs.\<close>

definition deps_ok :: "contracts_dir \<Rightarrow> (ContractSource \<times> ContractName) DependencyTree \<Rightarrow> (ContractSource \<times> ContractName) set \<Rightarrow> bool" where
  "deps_ok dir deps seen =
     (om_wf deps \<and> fst ` set deps \<subseteq> seen \<and>
      (\<forall>(sc, ds) \<in> set deps. set ds \<subseteq> seen \<and> (\<exists>art. artifact dir (fst sc) (snd sc) = Ok art \<and> set ds = set (libraries_needed art))))"

lemma set_om_insert_new: "k \<notin> fst ` set m \<Longrightarrow> set (om_insert k v m) = insert (k, v) (set m)"
  by (induction k v m rule: om_insert.induct) auto

lemma collect_deps_spec:
  "collect_deps dir deps queue = Ok deps' \<Longrightarrow> deps_ok dir deps (fst ` set deps \<union> set queue) \<Longrightarrow>
   deps_ok dir deps' (fst ` set deps') \<and> fst ` set deps \<union> set queue \<subseteq> fst ` set deps'"
proof (induction dir deps queue rule: collect_deps.induct)
  case (2 dir deps sc queue)
  show ?case
  proof (cases "sc \<in> fst ` set deps")
    case True
    then have "fst ` set deps \<union> set (sc # queue) = fst ` set deps \<union> set queue" by auto
    then show ?thesis using "2.IH"(1) [OF True] "2.prems" True by simp
  next
    case False
    let ?with = "with_context (''failed to load dependency artifact: '' @ snd sc) (artifact dir (fst sc) (snd sc))"
    obtain art where art: "?with = Ok art" using "2.prems"(1) False by (auto simp: obind_Ok_iff)
    let ?deps = "om_insert sc (remdups (libraries_needed art)) deps" and ?queue = "queue @ libraries_needed art"
    have rec: "collect_deps dir ?deps ?queue = Ok deps'" using "2.prems"(1) False art by simp
    have lib: "artifact dir (fst sc) (snd sc) = Ok art" using art by (simp add: with_context_def outcome_simps)
    let ?seen = "fst ` set ?deps \<union> set ?queue"
    have keys: "fst ` set deps \<union> set (sc # queue) \<union> set (libraries_needed art) = ?seen"
      by (auto simp: fst_set_om_insert)
    have "deps_ok dir ?deps ?seen"
      using "2.prems"(2) lib keys unfolding deps_ok_def set_om_insert_new [OF False] by (auto simp del: set_append) (force+)
    from "2.IH"(2) [OF False art rec this] show ?thesis using keys by blast
  qed
qed auto

lemma dependencies_spec:
  assumes "dependencies dir roots = Ok xs"
  shows "distinct xs \<and> set roots \<subseteq> set xs"
    and "xs = ys @ (s, n) # zs \<Longrightarrow> \<exists>art. artifact dir s n = Ok art \<and> set (libraries_needed art) \<subseteq> set ys"
proof -
  obtain deps where deps: "collect_deps dir [] roots = Ok deps" "topo_sort deps = Ok xs"
    using assms by (auto simp: dependencies_def obind_Ok_iff)
  have ok: "deps_ok dir deps (fst ` set deps)" "set roots \<subseteq> fst ` set deps"
    using collect_deps_spec [OF deps(1)] by (auto simp: deps_ok_def)
  have "distinct (map fst deps)" using ok(1) unfolding deps_ok_def by (metis strict_sorted_iff)
  then have order: "deploy_order deps xs" using topo_sort_spec [of deps] deps(2) by simp
  then show "distinct xs \<and> set roots \<subseteq> set xs" using ok(2) unfolding deploy_order_def by simp
  assume xs: "xs = ys @ (s, n) # zs"
  then have "(s, n) \<in> fst ` set deps" using order unfolding deploy_order_def by auto
  then obtain ds where kd: "((s, n), ds) \<in> set deps" by force
  then have "set ds \<subseteq> set ys" using order xs unfolding deploy_order_def by blast
  moreover obtain art where "artifact dir s n = Ok art" "set ds = set (libraries_needed art)"
    using ok(1) kd unfolding deps_ok_def by force
  ultimately show "\<exists>art. artifact dir s n = Ok art \<and> set (libraries_needed art) \<subseteq> set ys" by auto
qed

text \<open>A name of a contract has no colon, and so is not a fully qualified name.\<close>

lemma resolve_library_Ok:
  assumes "fst ` set libraries \<subseteq> (\<lambda>(s, n). fqn s n) ` A" "fqn s n \<in> fst ` set libraries" "CHR '':'' \<notin> set n"
  shows "\<exists>addr. resolve_library libraries s n = Ok addr \<and> hm_get libraries (fqn s n) = Some addr"
proof -
  have "CHR '':'' \<in> set (fqn s n)" for s n by (simp add: fqn_def)
  then have "n \<notin> fst ` set libraries" using assms(1,3) by auto
  then have "hm_get libraries n = None" by (simp add: map_of_eq_None_iff)
  moreover obtain addr where "hm_get libraries (fqn s n) = Some addr" using assms(2) by (metis map_of_eq_None_iff option.exhaust)
  ultimately show ?thesis by (simp add: resolve_library_def Let_def)
qed

end
