(* ===== verification/Genesis.thy ===== *)
theory Genesis
  imports Fvm_Query System_Actors Hardhat
begin

text \<open>
  The genesis of a chain: the genesis document (\<open>fendermint/vm/genesis/src/lib.rs\<close>), the identifier of the chain
  (\<open>fendermint/vm/core/src/chainid.rs\<close>), the state of the init actor, which assigns identifiers to addresses
  (\<open>fendermint/vm/actor_interface/src/init.rs\<close>), the state under construction
  (\<open>fendermint/vm/interpreter/src/fvm/state/genesis.rs\<close>), and the initialization of actors, accounts and contracts
  (\<open>fvm/genesis.rs\<close>), which deploys what the contracts need in the order of \<open>Hardhat\<close>.

  The block store, the state tree before there is an executor, the bundles of actors, addresses, hashing and the ABI
  are the record \<open>genesis_lib\<close>, the machine is the record \<open>machine\<close> as elsewhere. A state that is put into the store
  is a value of \<open>actor_obj\<close>. Token amounts are integers; a validator of the document is a pair of a key and its
  collateral. Of the texts of errors the parts that are not printed values are kept.
\<close>

section \<open>The genesis document\<close>

datatype 'a GenesisPermissionMode = GenUnrestricted | GenAllowList "'a list"

record 'a Account =
  acct_owner :: 'a

record 'a Multisig =
  ms_signers :: "'a list"
  ms_threshold :: nat
  ms_vesting_duration :: nat
  ms_vesting_start :: nat

datatype 'a ActorMeta = MetaAccount "'a Account" | MetaMultisig "'a Multisig"

record 'a Actor =
  actor_meta :: "'a ActorMeta"
  actor_balance :: int

record 'a GatewayParams =
  gp_subnet_id :: "'a SubnetID"
  gp_bottom_up_check_period :: nat
  gp_majority_percentage :: nat
  gp_active_validators_limit :: nat

record ('a, 'k) Genesis =
  gen_chain_name :: string
  gen_timestamp :: nat
  gen_network_version :: nat
  gen_base_fee :: int
  gen_power_scale :: int
  gen_validators :: "('k \<times> int) list"
  gen_accounts :: "'a Actor list"
  gen_eam_permission_mode :: "'a GenesisPermissionMode"
  gen_ipc :: "'a GatewayParams option"

fun permission_mode_params :: "'a GenesisPermissionMode \<Rightarrow> 'a PermissionModeParams" where
  "permission_mode_params GenUnrestricted = UnrestrictedParams"
| "permission_mode_params (GenAllowList addresses) = AllowListParams addresses"

record 'k FvmGenesisOutput =
  go_chain_id :: nat
  go_timestamp :: nat
  go_network_version :: nat
  go_base_fee :: int
  go_power_scale :: int
  go_circ_supply :: int
  go_validators :: "'k Validator list"

section \<open>Identifiers of chains\<close>

definition KNOWN_CHAIN_IDS :: "(nat \<times> string) list" where
  "KNOWN_CHAIN_IDS =
     [(0, ''''), (314, ''filecoin''), (3141, ''hyperspace''), (31415, ''wallaby''), (3141592, ''butterflynet''),
      (314159, ''calibnet''), (31415926, ''devnet'')]"

definition CORE_MAX_CHAIN_ID :: nat where
  "CORE_MAX_CHAIN_ID = 4503599627370476"

definition just_root_id :: "string \<Rightarrow> nat option" where
  "just_root_id name =
     (case name of
        CHR ''/'' # CHR ''r'' # ds \<Rightarrow>
          if ds = ''0'' \<or> (ds \<noteq> [] \<and> hd ds \<noteq> CHR ''0'' \<and> list_all (\<lambda>c. digit_val c \<noteq> None) ds) then parse_u64 ds else None
      | _ \<Rightarrow> None)"

text \<open>The FNV hash of a name is a parameter.\<close>

definition from_str_hashed :: "(string \<Rightarrow> nat) \<Rightarrow> string \<Rightarrow> (string, nat) outcome" where
  "from_str_hashed fnv name =
     (case map_of (map (\<lambda>(i, n). (n, i)) KNOWN_CHAIN_IDS) name of
        Some chain_id \<Rightarrow> Ok chain_id
      | None \<Rightarrow>
          case just_root_id name of
            Some chain_id \<Rightarrow> Ok chain_id
          | None \<Rightarrow>
              let chain_id = fnv name mod CORE_MAX_CHAIN_ID in
              if chain_id \<in> fst ` set KNOWN_CHAIN_IDS then Err (''illegal name: '' @ name) else Ok chain_id)"

section \<open>What the genesis relies on\<close>

record InitState =
  is_address_map :: "nat list"
  is_next_id :: nat
  is_network_name :: string

record 'a MultisigState =
  mss_signers :: "'a list"
  mss_num_approvals_threshold :: nat
  mss_next_tx_id :: int
  mss_initial_balance :: int
  mss_start_epoch :: int
  mss_unlock_duration :: int
  mss_pending_txs :: "nat list"

datatype 'a actor_obj =
    SystemObj "nat list"
  | InitObj InitState
  | CronObj
  | EmptyArrObj
  | AccountObj 'a
  | AdmObj "nat list"
  | ChainMetadataObj "nat list ChainMetadata"
  | EamObj "nat list EamState"
  | MultisigObj "'a MultisigState"
  | ManifestObj "(string \<times> nat) list"
  | BundleObj nat "nat list"

record FacetCut =
  fc_facet_address :: "nat list"
  fc_action :: nat
  fc_function_selectors :: "nat list list"

record GatewayConstructor =
  gc_bottom_up_check_period :: nat
  gc_active_validators_limit :: nat
  gc_majority_percentage :: nat
  gc_network_name :: "nat \<times> nat list list"
  gc_validators :: "(nat list \<times> nat \<times> nat list) list"

record RegistryConstructor =
  rc_gateway :: "nat list"
  rc_getter_facet :: "nat list"
  rc_manager_facet :: "nat list"
  rc_rewarder_facet :: "nat list"
  rc_pauser_facet :: "nat list"
  rc_checkpointer_facet :: "nat list"
  rc_diamond_cut_facet :: "nat list"
  rc_diamond_loupe_facet :: "nat list"
  rc_ownership_facet :: "nat list"
  rc_subnet_getter_selectors :: "nat list list"
  rc_subnet_manager_selectors :: "nat list list"
  rc_subnet_rewarder_selectors :: "nat list list"
  rc_subnet_checkpointer_selectors :: "nat list list"
  rc_subnet_pauser_selectors :: "nat list list"
  rc_subnet_actor_diamond_cut_selectors :: "nat list list"
  rc_subnet_actor_diamond_loupe_selectors :: "nat list list"
  rc_subnet_actor_ownership_selectors :: "nat list list"
  rc_creation_privileges :: nat

datatype constructor_params =
    GatewayParameters "FacetCut list" GatewayConstructor
  | RegistryParameters "FacetCut list" RegistryConstructor

text \<open>The block store \<open>'b\<close> with the structures in it; the state of the machine manager, a built-in actor, and the
  manifest of the built-in actors; the state tree \<open>'t\<close>; the executor with its state tree; addresses and keys; and the
  encodings. The ABI of a contract is its constructor, if it has one, and the signatures and selectors of its functions.\<close>

record ('a, 'k, 'h, 'b, 't, 's) genesis_lib =
  gl_address_map :: "(nat list, 'a, nat, 'h, 'b) kv_lib"
  gl_blockhashes :: "(nat list, nat, nat list, 'h, 'b) kv_lib"
  gl_deployers :: "(nat list, 'a, unit, 'h, 'b) kv_lib"
  gl_pending_txs :: "(nat list, nat, unit, 'h, 'b) kv_lib"
  gl_adm_new :: "(string \<times> nat) list \<Rightarrow> 'b \<Rightarrow> (string, nat list \<times> 'b) outcome"
  gl_put :: "'a actor_obj \<Rightarrow> 'b \<Rightarrow> (string, nat list \<times> 'b) outcome"
  gl_get :: "nat list \<Rightarrow> 'b \<Rightarrow> (string, 'a actor_obj option) outcome"
  gl_load_car :: "nat list \<Rightarrow> 'b \<Rightarrow> (string, nat list list \<times> 'b) outcome"
  gl_load_manifest :: "nat list \<Rightarrow> nat \<Rightarrow> 'b \<Rightarrow> (string, (nat, nat) hmap) outcome"
  gl_tree_new :: "'b \<Rightarrow> (string, 't) outcome"
  gl_tree_get :: "nat \<Rightarrow> 't \<Rightarrow> (string, 'a ActorState option) outcome"
  gl_tree_set :: "nat \<Rightarrow> 'a ActorState \<Rightarrow> 't \<Rightarrow> 't"
  gl_tree_mutate :: "nat \<Rightarrow> ('a ActorState \<Rightarrow> 'a ActorState) \<Rightarrow> 't \<Rightarrow> (string, 't) outcome"
  gl_tree_flush :: "'t \<Rightarrow> 'b \<Rightarrow> (string, (nat list \<times> 't) \<times> 'b) outcome"
  gl_exec_tree_flush :: "'s \<Rightarrow> 'b \<Rightarrow> (string, (nat list \<times> 's) \<times> 'b) outcome"
  gl_exec_flush :: "'s \<Rightarrow> 'b \<Rightarrow> (string, nat list \<times> 'b) outcome"
  gl_new_executor :: "'b \<Rightarrow> int \<Rightarrow> FvmStateParams \<Rightarrow> (string, 's) outcome"
  gl_payload :: "'a \<Rightarrow> Payload"
  gl_id_addr :: "nat \<Rightarrow> 'a"
  gl_delegated :: "nat \<Rightarrow> nat list \<Rightarrow> 'a"
  gl_public_key :: "'k \<Rightarrow> nat list"
  gl_keccak :: "nat list \<Rightarrow> nat list"
  gl_fnv :: "string \<Rightarrow> nat"
  gl_hex :: "nat list \<Rightarrow> string"
  gl_unhex :: "string \<Rightarrow> (string, nat list) outcome"
  gl_evm_params :: "nat list \<Rightarrow> nat list \<Rightarrow> (string, nat list) outcome"
  gl_decode_bytes :: "nat list \<Rightarrow> (string, nat list) outcome"
  gl_constructor :: "string \<Rightarrow> (nat list \<Rightarrow> constructor_params \<Rightarrow> (string, nat list) outcome) option"
  gl_functions :: "string \<Rightarrow> (string \<times> nat list) list"

section \<open>Addresses\<close>

definition to_be_bytes :: "nat \<Rightarrow> nat list" where
  "to_be_bytes n = map (\<lambda>i. n div 256 ^ i mod 256) (rev [0..<8])"

definition eth_from_id :: "nat \<Rightarrow> nat list" where
  "eth_from_id i = 255 # replicate 11 0 @ to_be_bytes i"

definition is_masked_id :: "nat list \<Rightarrow> bool" where
  "is_masked_id e = (hd e = 255 \<and> take 11 (drop 1 e) = replicate 11 0)"

definition address_of_eth :: "('a, 'k, 'h, 'b, 't, 's) genesis_lib \<Rightarrow> nat list \<Rightarrow> 'a" where
  "address_of_eth gl e =
     (if is_masked_id e then gl_id_addr gl (foldl (\<lambda>n b. n * 256 + b) 0 (drop 12 e)) else gl_delegated gl EAM_ACTOR_ID e)"

definition eth_new_secp256k1 :: "('a, 'k, 'h, 'b, 't, 's) genesis_lib \<Rightarrow> nat list \<Rightarrow> (string, nat list) outcome" where
  "eth_new_secp256k1 gl pubkey =
     (if length pubkey \<noteq> 65 then Err ''invalid secp length'' else Ok (drop 12 (gl_keccak gl (drop 1 pubkey))))"

definition builtin_actor_eth_addr :: "('a, 'k, 'h, 'b, 't, 's) genesis_lib \<Rightarrow> nat \<Rightarrow> nat list" where
  "builtin_actor_eth_addr gl i = take 20 (drop 12 (gl_keccak gl (eth_from_id i)))"

fun subnet_route :: "('a \<Rightarrow> Payload) \<Rightarrow> 'a list \<Rightarrow> (string, nat list list) outcome" where
  "subnet_route payload [] = Ok []"
| "subnet_route payload (addr # addrs) =
     (case payload addr of
        PID i \<Rightarrow> omap ((#) (eth_from_id i)) (subnet_route payload addrs)
      | PDelegated namespace sub \<Rightarrow>
          if namespace = EAM_ACTOR_ID \<and> length sub = 20 then omap ((#) sub) (subnet_route payload addrs)
          else Err ''invalid payload''
      | _ \<Rightarrow> Err ''invalid payload'')"

definition subnet_id_to_eth :: "('a \<Rightarrow> Payload) \<Rightarrow> 'a SubnetID \<Rightarrow> (string, nat \<times> nat list list) outcome" where
  "subnet_id_to_eth payload sid = omap (Pair (root sid)) (subnet_route payload (children sid))"

section \<open>The init actor\<close>

definition FIRST_NON_SINGLETON_ADDR :: nat where
  "FIRST_NON_SINGLETON_ADDR = 100"

fun meta_addresses :: "'a ActorMeta \<Rightarrow> 'a list" where
  "meta_addresses (MetaAccount acc) = [acct_owner acc]"
| "meta_addresses (MetaMultisig ms) = ms_signers ms"

fun is_multisig :: "'a ActorMeta \<Rightarrow> bool" where
  "is_multisig (MetaMultisig _) = True"
| "is_multisig (MetaAccount _) = False"

fun set_addresses :: "('c, 'a, nat, 'h, 'b) kv_lib \<Rightarrow> string \<Rightarrow> 'b \<Rightarrow> ('a \<times> nat) list \<Rightarrow> 'h \<Rightarrow> (string, 'h) outcome" where
  "set_addresses kv ctx bs [] h = Ok h"
| "set_addresses kv ctx bs ((addr, i) # rest) h = obind (with_context ctx (kv_set kv bs h addr i)) (set_addresses kv ctx bs rest)"

text \<open>The identifiers of the addresses of accounts and signers, in the order of their first appearance.\<close>

fun allocate_ids :: "'a list \<Rightarrow> ('a \<times> nat) list \<Rightarrow> nat \<Rightarrow> ('a \<times> nat) list \<times> nat" where
  "allocate_ids [] allocated next_id = (allocated, next_id)"
| "allocate_ids (addr # addrs) allocated next_id =
     (if addr \<in> fst ` set allocated then allocate_ids addrs allocated next_id
      else allocate_ids addrs (allocated @ [(addr, next_id)]) (next_id + 1))"

definition init_state_new ::
  "('a, 'k, 'h, 'b, 't, 's) genesis_lib \<Rightarrow> string \<Rightarrow> 'a Actor list \<Rightarrow> nat list \<Rightarrow> nat \<Rightarrow> 'b \<Rightarrow>
     (string, (InitState \<times> ('a \<times> nat) list) \<times> 'b) outcome" where
  "init_state_new gl network_name accounts eth_builtin_ids eth_library_count bs =
     (let kv = gl_address_map gl;
          (allocated, next_id) =
            allocate_ids (concat (map (\<lambda>a. meta_addresses (actor_meta a)) accounts)) [] FIRST_NON_SINGLETON_ADDR;
          lib_id = next_id + length (filter (\<lambda>a. is_multisig (actor_meta a)) accounts);
          eth_entry = (\<lambda>i. (address_of_eth gl (builtin_actor_eth_addr gl i), i)) in
      obind (set_addresses kv ''cannot set ID of account address'' bs allocated (kv_new kv bs)) (\<lambda>h.
      obind (set_addresses kv ''cannot set ID of eth contract address'' bs (map eth_entry eth_builtin_ids) h) (\<lambda>h.
      obind (set_addresses kv ''cannot set ID of eth library address'' bs
               (map eth_entry [lib_id..<lib_id + eth_library_count]) h) (\<lambda>h.
      obind (set_addresses kv ''cannot set ID of system eth address'' bs
               [(address_of_eth gl (replicate 20 0), 0)] h) (\<lambda>h.
      obind (kv_flush kv h bs) (\<lambda>((c, _), bs).
      Ok ((\<lparr>is_address_map = c, is_next_id = lib_id + eth_library_count, is_network_name = network_name\<rparr>, allocated), bs)))))))"

section \<open>The state under construction\<close>

datatype ('t, 's) Stage = TreeStage 't | ExecStage "'s FvmExecState"

record ('b, 't, 's) FvmGenesisState =
  manifest_data_cid :: "nat list"
  gs_manifest :: "(nat, nat) hmap"
  custom_actor_manifest :: "(string, nat) hmap"
  gs_store :: 'b
  gs_stage :: "('t, 's) Stage"

definition parse_bundle ::
  "('a, 'k, 'h, 'b, 't, 's) genesis_lib \<Rightarrow> nat list \<Rightarrow> 'b \<Rightarrow> (string, (nat \<times> nat list) \<times> 'b) outcome" where
  "parse_bundle gl bundle_car bs =
     obind (gl_load_car gl bundle_car bs) (\<lambda>(bundle_roots, bs).
     case bundle_roots of
       [bundle_root] \<Rightarrow>
         obind (gl_get gl bundle_root bs) (\<lambda>obj.
         case obj of
           Some (BundleObj version cid) \<Rightarrow> Ok ((version, cid), bs)
         | Some _ \<Rightarrow> Err ''failed to decode''
         | None \<Rightarrow> Err ''no manifest information in bundle root'')
     | _ \<Rightarrow> Err ''expected one root in builtin actor bundle'')"

definition REQUIRED_ACTORS :: "string list" where
  "REQUIRED_ACTORS = [''chainmetadata'', ''eam'', ''objectstore'', ''accumulator'']"

definition manifest_new :: "(string \<times> nat) list \<Rightarrow> (string, (string, nat) hmap) outcome" where
  "manifest_new iter =
     (let code_by_name = hm_from iter in
      case find (\<lambda>name. hm_get code_by_name name = None) REQUIRED_ACTORS of
        Some name \<Rightarrow> Err (''manifest missing required actor '' @ name)
      | None \<Rightarrow> Ok code_by_name)"

definition get_manifest ::
  "('a, 'k, 'h, 'b, 't, 's) genesis_lib \<Rightarrow> nat list \<Rightarrow> 'b \<Rightarrow> (string, (string \<times> nat) list option) outcome" where
  "get_manifest gl cid bs =
     obind (gl_get gl cid bs) (\<lambda>obj.
     case obj of Some (ManifestObj vec) \<Rightarrow> Ok (Some vec) | Some _ \<Rightarrow> Err ''failed to decode'' | None \<Rightarrow> Ok None)"

definition manifest_load ::
  "('a, 'k, 'h, 'b, 't, 's) genesis_lib \<Rightarrow> nat list \<Rightarrow> nat \<Rightarrow> 'b \<Rightarrow> (string, (string, nat) hmap) outcome" where
  "manifest_load gl root_cid ver bs =
     (if ver \<noteq> 1 then Err ''unsupported manifest version''
      else obind (get_manifest gl root_cid bs) (\<lambda>obj.
           case obj of Some vec \<Rightarrow> manifest_new vec | None \<Rightarrow> Err ''cannot find manifest root cid''))"

fun get_subset :: "(string, nat) hmap \<Rightarrow> string list \<Rightarrow> ('e, (string \<times> nat) list) outcome" where
  "get_subset code_by_name [] = Ok []"
| "get_subset code_by_name (name # names) =
     (case hm_get code_by_name name of
        Some code_cid \<Rightarrow> omap (AList.update name code_cid) (get_subset code_by_name names)
      | None \<Rightarrow> Panic)"

definition genesis_state_new ::
  "('a, 'k, 'h, 'b, 't, 's) genesis_lib \<Rightarrow> nat list \<Rightarrow> nat list \<Rightarrow> 'b \<Rightarrow> (string, ('b, 't, 's) FvmGenesisState) outcome" where
  "genesis_state_new gl bundle_car custom_actor_bundle bs =
     obind (parse_bundle gl bundle_car bs) (\<lambda>((version, data_cid), bs).
     obind (gl_load_manifest gl data_cid version bs) (\<lambda>mf.
     obind (parse_bundle gl custom_actor_bundle bs) (\<lambda>((custom_version, custom_cid), bs).
     obind (manifest_load gl custom_cid custom_version bs) (\<lambda>custom.
     obind (gl_tree_new gl bs) (\<lambda>tree.
     Ok \<lparr>manifest_data_cid = data_cid, gs_manifest = mf, custom_actor_manifest = custom, gs_store = bs,
         gs_stage = TreeStage tree\<rparr>)))))"

definition put_state ::
  "('a, 'k, 'h, 'b, 't, 's) genesis_lib \<Rightarrow> 'a actor_obj \<Rightarrow> ('b, 't, 's) FvmGenesisState \<Rightarrow>
     (string, nat list \<times> ('b, 't, 's) FvmGenesisState) outcome" where
  "put_state gl obj st =
     obind (with_context ''failed to store actor state'' (gl_put gl obj (gs_store st))) (\<lambda>(cid, bs).
     Ok (cid, st\<lparr>gs_store := bs\<rparr>))"

text \<open>The operations on the state tree, under either stage.\<close>

definition state_get_actor ::
  "('a, 'k, 'h, 'b, 't, 's) genesis_lib \<Rightarrow> ('a, 's) machine \<Rightarrow> nat \<Rightarrow> ('b, 't, 's) FvmGenesisState \<Rightarrow>
     (string, 'a ActorState option) outcome" where
  "state_get_actor gl mx i st =
     (case gs_stage st of TreeStage t \<Rightarrow> gl_tree_get gl i t | ExecStage es \<Rightarrow> mx_get_actor mx i (executor es))"

definition state_set_actor ::
  "('a, 'k, 'h, 'b, 't, 's) genesis_lib \<Rightarrow> ('a, 's) machine \<Rightarrow> nat \<Rightarrow> 'a ActorState \<Rightarrow> ('b, 't, 's) FvmGenesisState \<Rightarrow>
     ('b, 't, 's) FvmGenesisState" where
  "state_set_actor gl mx i a st =
     st\<lparr>gs_stage :=
       (case gs_stage st of
          TreeStage t \<Rightarrow> TreeStage (gl_tree_set gl i a t)
        | ExecStage es \<Rightarrow> ExecStage (es\<lparr>executor := mx_set_actor mx i a (executor es)\<rparr>))\<rparr>"

definition state_mutate_actor ::
  "('a, 'k, 'h, 'b, 't, 's) genesis_lib \<Rightarrow> ('a, 's) machine \<Rightarrow> nat \<Rightarrow> ('a ActorState \<Rightarrow> 'a ActorState) \<Rightarrow>
     ('b, 't, 's) FvmGenesisState \<Rightarrow> (string, ('b, 't, 's) FvmGenesisState) outcome" where
  "state_mutate_actor gl mx i f st =
     (case gs_stage st of
        TreeStage t \<Rightarrow> omap (\<lambda>t. st\<lparr>gs_stage := TreeStage t\<rparr>) (gl_tree_mutate gl i f t)
      | ExecStage es \<Rightarrow> omap (\<lambda>s. st\<lparr>gs_stage := ExecStage (es\<lparr>executor := s\<rparr>)\<rparr>) (mx_mutate_actor mx i f (executor es)))"

definition state_flush ::
  "('a, 'k, 'h, 'b, 't, 's) genesis_lib \<Rightarrow> ('b, 't, 's) FvmGenesisState \<Rightarrow>
     (string, nat list \<times> ('b, 't, 's) FvmGenesisState) outcome" where
  "state_flush gl st =
     (case gs_stage st of
        TreeStage t \<Rightarrow>
          omap (\<lambda>((cid, t), bs). (cid, st\<lparr>gs_stage := TreeStage t, gs_store := bs\<rparr>)) (gl_tree_flush gl t (gs_store st))
      | ExecStage es \<Rightarrow>
          omap (\<lambda>((cid, s), bs). (cid, st\<lparr>gs_stage := ExecStage (es\<lparr>executor := s\<rparr>), gs_store := bs\<rparr>))
            (gl_exec_tree_flush gl (executor es) (gs_store st)))"

definition init_exec_state ::
  "('a, 'k, 'h, 'b, 't, 's) genesis_lib \<Rightarrow> nat \<Rightarrow> nat \<Rightarrow> int \<Rightarrow> int \<Rightarrow> nat \<Rightarrow> int \<Rightarrow> ('b, 't, 's) FvmGenesisState \<Rightarrow>
     (string, ('b, 't, 's) FvmGenesisState) outcome" where
  "init_exec_state gl timestamp network_version fee supply chain_id scale st =
     (case gs_stage st of
        ExecStage _ \<Rightarrow> Err ''execution engine already initialized''
      | TreeStage t \<Rightarrow>
          obind (gl_tree_flush gl t (gs_store st)) (\<lambda>((state_root, _), bs).
          obind (with_context ''failed to create exec state''
            (exec_state_at (gl_new_executor gl bs) 1
              \<lparr>sp_state_root = state_root, sp_timestamp = timestamp, sp_network_version = network_version,
               sp_base_fee = fee, sp_circ_supply = supply, sp_chain_id = chain_id, sp_power_scale = scale,
               sp_app_version = 0\<rparr>)) (\<lambda>es.
          Ok (st\<lparr>gs_stage := ExecStage es, gs_store := bs\<rparr>))))"

definition genesis_commit ::
  "('a, 'k, 'h, 'b, 't, 's) genesis_lib \<Rightarrow> ('b, 't, 's) FvmGenesisState \<Rightarrow> (string, nat list \<times> 'b) outcome" where
  "genesis_commit gl st =
     (case gs_stage st of
        TreeStage t \<Rightarrow> omap (\<lambda>((cid, _), bs). (cid, bs)) (gl_tree_flush gl t (gs_store st))
      | ExecStage es \<Rightarrow>
          obind (gl_exec_flush gl (executor es) (gs_store st)) (\<lambda>(cid, bs).
          if params_dirty es then Err ''FVM parameters are not expected to be updated in genesis'' else Ok (cid, bs)))"

section \<open>Creating actors\<close>

definition create_actor_internal ::
  "('a, 'k, 'h, 'b, 't, 's) genesis_lib \<Rightarrow> ('a, 's) machine \<Rightarrow> nat \<Rightarrow> nat \<Rightarrow> 'a actor_obj \<Rightarrow> int \<Rightarrow> 'a option \<Rightarrow>
     ('b, 't, 's) FvmGenesisState \<Rightarrow> (string, ('b, 't, 's) FvmGenesisState) outcome" where
  "create_actor_internal gl mx code_cid i obj balance delegated_address st =
     obind (put_state gl obj st) (\<lambda>(state_cid, st).
     omap snd (state_flush gl (state_set_actor gl mx i
       \<lparr>act_code = code_cid, act_state = state_cid, act_sequence = 0, act_balance = balance,
        act_delegated = delegated_address\<rparr> st)))"

definition create_builtin_actor ::
  "('a, 'k, 'h, 'b, 't, 's) genesis_lib \<Rightarrow> ('a, 's) machine \<Rightarrow> nat \<Rightarrow> nat \<Rightarrow> 'a actor_obj \<Rightarrow> int \<Rightarrow> 'a option \<Rightarrow>
     ('b, 't, 's) FvmGenesisState \<Rightarrow> (string, ('b, 't, 's) FvmGenesisState) outcome" where
  "create_builtin_actor gl mx code_id i obj balance delegated_address st =
     (case hm_get (gs_manifest st) code_id of
        None \<Rightarrow> Err ''can't find code in the manifest''
      | Some code_cid \<Rightarrow> create_actor_internal gl mx code_cid i obj balance delegated_address st)"

definition create_custom_actor ::
  "('a, 'k, 'h, 'b, 't, 's) genesis_lib \<Rightarrow> ('a, 's) machine \<Rightarrow> string \<Rightarrow> nat \<Rightarrow> 'a actor_obj \<Rightarrow> int \<Rightarrow> 'a option \<Rightarrow>
     ('b, 't, 's) FvmGenesisState \<Rightarrow> (string, ('b, 't, 's) FvmGenesisState) outcome" where
  "create_custom_actor gl mx name i obj balance delegated_address st =
     (case hm_get (custom_actor_manifest st) name of
        None \<Rightarrow> Err (''can't find actor: '' @ name @ '' in the custom actor manifest'')
      | Some code_cid \<Rightarrow> create_actor_internal gl mx code_cid i obj balance delegated_address st)"

definition SYSTEM_ACTOR_ID :: nat where "SYSTEM_ACTOR_ID = 0"

definition get_system_state ::
  "('a, 'k, 'h, 'b, 't, 's) genesis_lib \<Rightarrow> ('a, 's) machine \<Rightarrow> ('b, 't, 's) FvmGenesisState \<Rightarrow> (string, nat list) outcome" where
  "get_system_state gl mx st =
     obind (state_get_actor gl mx SYSTEM_ACTOR_ID st) (\<lambda>actor.
     case actor of
       None \<Rightarrow> Err ''actor state not found, is it deployed?''
     | Some a \<Rightarrow>
         obind (with_context ''failed to get actor state by state cid''
           (obind (gl_get gl (act_state a) (gs_store st)) (\<lambda>obj.
            case obj of Some (SystemObj c) \<Rightarrow> Ok (Some c) | Some _ \<Rightarrow> Err ''failed to decode'' | None \<Rightarrow> Ok None))) (\<lambda>r.
         case r of Some builtin_actors \<Rightarrow> Ok builtin_actors | None \<Rightarrow> Err ''actor state not found''))"

definition update_system_actor_manifest ::
  "('a, 'k, 'h, 'b, 't, 's) genesis_lib \<Rightarrow> ('a, 's) machine \<Rightarrow> string \<Rightarrow> string \<Rightarrow> ('b, 't, 's) FvmGenesisState \<Rightarrow>
     (string, nat \<times> ('b, 't, 's) FvmGenesisState) outcome" where
  "update_system_actor_manifest gl mx built_in_actor_name custom_actor_name st =
     (case hm_get (custom_actor_manifest st) custom_actor_name of
        None \<Rightarrow> Err (''replacement '' @ custom_actor_name @ '' actor not found'')
      | Some code \<Rightarrow>
          obind (get_system_state gl mx st) (\<lambda>manifest_cid.
          obind (with_context ''could not load built in actors'' (get_manifest gl manifest_cid (gs_store st))) (\<lambda>obj.
          case obj of
            None \<Rightarrow> Err ''cannot find manifest cid''
          | Some built_in_actors \<Rightarrow>
              obind (put_state gl (ManifestObj
                (map (\<lambda>(n, c). (n, if n = built_in_actor_name then code else c)) built_in_actors)) st) (\<lambda>(builtin_actors, st).
              obind (put_state gl (SystemObj builtin_actors) st) (\<lambda>(new_cid, st).
              omap (Pair code) (state_mutate_actor gl mx SYSTEM_ACTOR_ID (\<lambda>a. a\<lparr>act_state := new_cid\<rparr>) st))))))"

definition replace_builtin_actor ::
  "('a, 'k, 'h, 'b, 't, 's) genesis_lib \<Rightarrow> ('a, 's) machine \<Rightarrow> string \<Rightarrow> nat \<Rightarrow> string \<Rightarrow> 'a actor_obj \<Rightarrow> int \<Rightarrow> 'a option \<Rightarrow>
     ('b, 't, 's) FvmGenesisState \<Rightarrow> (string, ('b, 't, 's) FvmGenesisState) outcome" where
  "replace_builtin_actor gl mx built_in_actor_name built_in_actor_id custom_actor_name obj balance delegated_address st =
     obind (with_context ''failed to replace system actor manifest''
       (update_system_actor_manifest gl mx built_in_actor_name custom_actor_name st)) (\<lambda>(code_cid, st).
     create_actor_internal gl mx code_cid built_in_actor_id obj balance delegated_address st)"

definition create_account_actor ::
  "('a, 'k, 'h, 'b, 't, 's) genesis_lib \<Rightarrow> ('a, 's) machine \<Rightarrow> 'a Account \<Rightarrow> int \<Rightarrow> ('a \<times> nat) list \<Rightarrow>
     ('b, 't, 's) FvmGenesisState \<Rightarrow> (string, ('b, 't, 's) FvmGenesisState) outcome" where
  "create_account_actor gl mx acct balance ids st =
     (let owner = acct_owner acct in
      case map_of ids owner of
        None \<Rightarrow> Err ''can't find ID for owner''
      | Some i \<Rightarrow>
          case gl_payload gl owner of
            PSecp \<Rightarrow> create_builtin_actor gl mx 4 i (AccountObj owner) balance None st
          | PDelegated namespace sub \<Rightarrow>
              if namespace = EAM_ACTOR_ID then create_builtin_actor gl mx 16 i EmptyArrObj balance (Some owner) st
              else Err ''unexpected actor owner''
          | _ \<Rightarrow> Err ''unexpected actor owner'')"

fun create_signers ::
  "('a, 'k, 'h, 'b, 't, 's) genesis_lib \<Rightarrow> ('a, 's) machine \<Rightarrow> ('a \<times> nat) list \<Rightarrow> 'a list \<Rightarrow> ('b, 't, 's) FvmGenesisState \<Rightarrow>
     (string, nat list \<times> ('b, 't, 's) FvmGenesisState) outcome" where
  "create_signers gl mx ids [] st = Ok ([], st)"
| "create_signers gl mx ids (signer # signers) st =
     (case map_of ids signer of
        None \<Rightarrow> Err ''can't find ID for signer''
      | Some i \<Rightarrow>
          obind (state_get_actor gl mx i st) (\<lambda>actor.
          obind (if actor = None then create_account_actor gl mx \<lparr>acct_owner = signer\<rparr> 0 ids st else Ok st) (\<lambda>st.
          omap (\<lambda>(is, st). (i # is, st)) (create_signers gl mx ids signers st))))"

text \<open>\<open>x as i64\<close>\<close>

definition as_i64 :: "nat \<Rightarrow> int" where
  "as_i64 n = (if n mod U64 < 2 ^ 63 then int (n mod U64) else int (n mod U64) - int U64)"

definition multisig_state_new ::
  "('a, 'k, 'h, 'b, 't, 's) genesis_lib \<Rightarrow> nat list \<Rightarrow> nat \<Rightarrow> int \<Rightarrow> int \<Rightarrow> int \<Rightarrow> 'b \<Rightarrow> (string, 'a MultisigState \<times> 'b) outcome" where
  "multisig_state_new gl signers threshold start duration balance bs =
     obind (kv_flush (gl_pending_txs gl) (kv_new (gl_pending_txs gl) bs) bs) (\<lambda>((empty_map_cid, _), bs).
     Ok (\<lparr>mss_signers = map (gl_id_addr gl) signers, mss_num_approvals_threshold = threshold, mss_next_tx_id = 0,
          mss_initial_balance = balance, mss_start_epoch = start, mss_unlock_duration = duration,
          mss_pending_txs = empty_map_cid\<rparr>, bs))"

definition create_multisig_actor ::
  "('a, 'k, 'h, 'b, 't, 's) genesis_lib \<Rightarrow> ('a, 's) machine \<Rightarrow> 'a Multisig \<Rightarrow> int \<Rightarrow> ('a \<times> nat) list \<Rightarrow> nat \<Rightarrow>
     ('b, 't, 's) FvmGenesisState \<Rightarrow> (string, ('b, 't, 's) FvmGenesisState) outcome" where
  "create_multisig_actor gl mx ms balance ids next_id st =
     obind (create_signers gl mx ids (ms_signers ms) st) (\<lambda>(signers, st).
     obind (multisig_state_new gl signers (ms_threshold ms) (as_i64 (ms_vesting_start ms)) (as_i64 (ms_vesting_duration ms))
       balance (gs_store st)) (\<lambda>(state, bs).
     create_builtin_actor gl mx 9 next_id (MultisigObj state) balance None (st\<lparr>gs_store := bs\<rparr>)))"

definition create_evm_actor ::
  "('a, 'k, 'h, 'b, 't, 's) genesis_lib \<Rightarrow> ('a, 's) machine \<Rightarrow> nat \<Rightarrow> nat list \<Rightarrow> ('b, 't, 's) FvmGenesisState \<Rightarrow>
     (string, nat list \<times> ('b, 't, 's) FvmGenesisState) outcome" where
  "create_evm_actor gl mx i initcode st =
     obind (gl_evm_params gl (eth_from_id SYSTEM_ACTOR_ID) initcode) (\<lambda>ps.
     let f0_addr = gl_id_addr gl i;
         f4_addr = address_of_eth gl (builtin_actor_eth_addr gl i);
         msg = \<lparr>msg_version = 0, msg_from = gl_id_addr gl 1, msg_to = f0_addr, msg_sequence = 0, msg_value = 0,
                msg_method_num = 1, msg_params = ps, msg_gas_limit = mx_block_gas_limit mx, msg_gas_fee_cap = 0,
                msg_gas_premium = 0\<rparr> in
     obind (with_context ''failed to create empty actor''
       (create_builtin_actor gl mx 14 i EmptyArrObj 0 (Some f4_addr) st)) (\<lambda>st.
     case gs_stage st of
       TreeStage _ \<Rightarrow> Err ''execution engine not initialized''
     | ExecStage exec_state \<Rightarrow>
         obind (with_context ''failed to execute message'' (execute_implicit mx msg exec_state)) (\<lambda>((apply_ret, _), exec_state).
         obind (state_flush gl (st\<lparr>gs_stage := ExecStage exec_state\<rparr>)) (\<lambda>(_, st).
         if exit_code apply_ret \<noteq> EXIT_OK then
           obind (if return_data apply_ret = [] then Ok []
                  else with_context ''failed to deserialize error data'' (gl_decode_bytes gl (return_data apply_ret))) (\<lambda>_.
           Err ''failed to deploy EVM actor'')
         else case gl_payload gl f4_addr of
                PDelegated _ sub \<Rightarrow> if length sub = 20 then Ok (sub, st) else Panic
              | _ \<Rightarrow> Panic))))"

definition create_evm_actor_with_cons ::
  "('a, 'k, 'h, 'b, 't, 's) genesis_lib \<Rightarrow> ('a, 's) machine \<Rightarrow> nat \<Rightarrow> string \<Rightarrow> nat list \<Rightarrow> constructor_params \<Rightarrow>
     ('b, 't, 's) FvmGenesisState \<Rightarrow> (string, nat list \<times> ('b, 't, 's) FvmGenesisState) outcome" where
  "create_evm_actor_with_cons gl mx i abi code constructor_params st =
     (case gl_constructor gl abi of
        None \<Rightarrow> Err ''contract doesn't have a constructor''
      | Some constructor \<Rightarrow>
          obind (with_context ''failed to encode constructor input'' (constructor code constructor_params)) (\<lambda>initcode.
          create_evm_actor gl mx i initcode st))"

section \<open>Deploying contracts\<close>

record EthContract =
  ec_actor_id :: nat
  ec_facets :: "string list"

type_synonym EthContractMap = "(string, EthContract) hmap"

definition GATEWAY_CONTRACT_NAME :: string where
  "GATEWAY_CONTRACT_NAME = ''GatewayDiamond''"

definition REGISTRY_CONTRACT_NAME :: string where
  "REGISTRY_CONTRACT_NAME = ''SubnetRegistryDiamond''"

definition IPC_CONTRACTS :: EthContractMap where
  "IPC_CONTRACTS =
     [(GATEWAY_CONTRACT_NAME, \<lparr>ec_actor_id = GATEWAY_ACTOR_ID, ec_facets =
        [''GatewayGetterFacet'', ''GatewayManagerFacet'', ''TopDownFinalityFacet'', ''CheckpointingFacet'',
         ''GatewayMessengerFacet'', ''XnetMessagingFacet'', ''DiamondLoupeFacet'', ''DiamondCutFacet'',
         ''OwnershipFacet'']\<rparr>),
      (REGISTRY_CONTRACT_NAME, \<lparr>ec_actor_id = 65, ec_facets =
        [''SubnetActorGetterFacet'', ''SubnetActorManagerFacet'', ''SubnetActorRewardFacet'',
         ''SubnetActorCheckpointingFacet'', ''SubnetActorPauseFacet'', ''DiamondLoupeFacet'', ''DiamondCutFacet'',
         ''OwnershipFacet'', ''RegisterSubnetFacet'', ''SubnetGetterFacet'']\<rparr>)]"

definition contract_src :: "string \<Rightarrow> ContractSource" where
  "contract_src name = [name @ ''.sol'']"

text \<open>The deployer: the artifacts, the contracts with a fixed identifier and the addresses of the libraries so far.\<close>

record ContractDeployer =
  hardhat :: contracts_dir
  top_contracts :: EthContractMap
  lib_addrs :: "(string, nat list) hmap"

definition deployer_new :: "contracts_dir \<Rightarrow> EthContractMap \<Rightarrow> ContractDeployer" where
  "deployer_new dir contracts = \<lparr>hardhat = dir, top_contracts = contracts, lib_addrs = []\<rparr>"

definition deploy_library ::
  "('a, 'k, 'h, 'b, 't, 's) genesis_lib \<Rightarrow> ('a, 's) machine \<Rightarrow> ContractSource \<Rightarrow> ContractName \<Rightarrow> nat \<Rightarrow> ContractDeployer \<Rightarrow>
     ('b, 't, 's) FvmGenesisState \<Rightarrow> (string, nat \<times> ContractDeployer \<times> ('b, 't, 's) FvmGenesisState) outcome" where
  "deploy_library gl mx lib_src lib_name next_id d st =
     (let f = fqn lib_src lib_name in
      obind (with_context (''failed to load library bytecode '' @ f)
        (bytecode (gl_hex gl) (gl_unhex gl) (hardhat d) lib_src lib_name (lib_addrs d))) (\<lambda>code.
      obind (with_context (''failed to create library actor '' @ f) (create_evm_actor gl mx next_id code st)) (\<lambda>(_, st).
      Ok (next_id + 1, d\<lparr>lib_addrs := AList.update f (eth_from_id next_id) (lib_addrs d)\<rparr>, st))))"

fun deploy_libraries ::
  "('a, 'k, 'h, 'b, 't, 's) genesis_lib \<Rightarrow> ('a, 's) machine \<Rightarrow> (ContractSource \<times> ContractName) list \<Rightarrow> nat \<Rightarrow>
     ContractDeployer \<Rightarrow> ('b, 't, 's) FvmGenesisState \<Rightarrow>
     (string, nat \<times> ContractDeployer \<times> ('b, 't, 's) FvmGenesisState) outcome" where
  "deploy_libraries gl mx [] next_id d st = Ok (next_id, d, st)"
| "deploy_libraries gl mx ((lib_src, lib_name) # libs) next_id d st =
     obind (deploy_library gl mx lib_src lib_name next_id d st) (\<lambda>(next_id, d, st).
     deploy_libraries gl mx libs next_id d st)"

definition top_contract :: "string \<Rightarrow> ContractDeployer \<Rightarrow> (string, EthContract) outcome" where
  "top_contract contract_name d =
     (case hm_get (top_contracts d) contract_name of
        Some c \<Rightarrow> Ok c
      | None \<Rightarrow> Err (''unknown top contract name: '' @ contract_name))"

definition deploy_contract ::
  "('a, 'k, 'h, 'b, 't, 's) genesis_lib \<Rightarrow> ('a, 's) machine \<Rightarrow> string \<Rightarrow> constructor_params \<Rightarrow> ContractDeployer \<Rightarrow>
     ('b, 't, 's) FvmGenesisState \<Rightarrow> (string, nat list \<times> ('b, 't, 's) FvmGenesisState) outcome" where
  "deploy_contract gl mx contract_name constructor_params d st =
     obind (top_contract contract_name d) (\<lambda>contract.
     obind (with_context (''failed to load '' @ contract_name @ '' bytecode'')
       (bytecode (gl_hex gl) (gl_unhex gl) (hardhat d) (contract_src contract_name) contract_name (lib_addrs d))) (\<lambda>code.
     with_context (''failed to create '' @ contract_name @ '' actor'')
       (create_evm_actor_with_cons gl mx (ec_actor_id contract) contract_name code constructor_params st)))"

definition facet_cut ::
  "('a, 'k, 'h, 'b, 't, 's) genesis_lib \<Rightarrow> ContractDeployer \<Rightarrow> string \<Rightarrow> (string, FacetCut) outcome" where
  "facet_cut gl d facet_name =
     (case hm_get (lib_addrs d) (fqn (contract_src facet_name) facet_name) of
        None \<Rightarrow> Err (''facet '' @ facet_name @ '' has not been deployed'')
      | Some facet_addr \<Rightarrow>
          Ok \<lparr>fc_facet_address = facet_addr, fc_action = 0,
              fc_function_selectors = map snd (filter (\<lambda>f. fst f \<noteq> ''init(bytes)'') (gl_functions gl facet_name))\<rparr>)"

definition facets ::
  "('a, 'k, 'h, 'b, 't, 's) genesis_lib \<Rightarrow> string \<Rightarrow> ContractDeployer \<Rightarrow> (string, FacetCut list) outcome" where
  "facets gl contract_name d =
     obind (top_contract contract_name d) (\<lambda>contract. try_all (facet_cut gl d) (ec_facets contract))"

definition tokens_to_u256 :: "int \<Rightarrow> ('e, nat) outcome" where
  "tokens_to_u256 amount = (if nat \<bar>amount\<bar> < 2 ^ 256 then Ok (nat \<bar>amount\<bar>) else Panic)"

definition gateway_validator ::
  "('a, 'k, 'h, 'b, 't, 's) genesis_lib \<Rightarrow> 'k \<times> int \<Rightarrow> (string, nat list \<times> nat \<times> nat list) outcome" where
  "gateway_validator gl v =
     (let pk = gl_public_key gl (fst v) in
      obind (eth_new_secp256k1 gl pk) (\<lambda>addr.
      obind (tokens_to_u256 (snd v)) (\<lambda>collateral.
      Ok (addr, collateral, pk))))"

definition gateway_constructor ::
  "('a, 'k, 'h, 'b, 't, 's) genesis_lib \<Rightarrow> 'a GatewayParams \<Rightarrow> ('k \<times> int) list \<Rightarrow> (string, GatewayConstructor) outcome" where
  "gateway_constructor gl gp validators =
     obind (try_all (gateway_validator gl) validators) (\<lambda>validators.
     obind (subnet_id_to_eth (gl_payload gl) (gp_subnet_id gp)) (\<lambda>network_name.
     Ok \<lparr>gc_bottom_up_check_period = gp_bottom_up_check_period gp, gc_active_validators_limit = gp_active_validators_limit gp,
         gc_majority_percentage = gp_majority_percentage gp, gc_network_name = network_name,
         gc_validators = validators\<rparr>))"

definition registry_constructor :: "nat list \<Rightarrow> FacetCut list \<Rightarrow> (string, constructor_params) outcome" where
  "registry_constructor gateway_addr cuts =
     (case cuts of
        getter # manager # rewarder # checkpointer # pauser # loupe # dcut # ownership # rest \<Rightarrow>
          Ok (RegistryParameters rest
            \<lparr>rc_gateway = gateway_addr,
             rc_getter_facet = fc_facet_address getter,
             rc_manager_facet = fc_facet_address manager,
             rc_rewarder_facet = fc_facet_address rewarder,
             rc_pauser_facet = fc_facet_address pauser,
             rc_checkpointer_facet = fc_facet_address checkpointer,
             rc_diamond_cut_facet = fc_facet_address dcut,
             rc_diamond_loupe_facet = fc_facet_address loupe,
             rc_ownership_facet = fc_facet_address ownership,
             rc_subnet_getter_selectors = fc_function_selectors getter,
             rc_subnet_manager_selectors = fc_function_selectors manager,
             rc_subnet_rewarder_selectors = fc_function_selectors rewarder,
             rc_subnet_checkpointer_selectors = fc_function_selectors checkpointer,
             rc_subnet_pauser_selectors = fc_function_selectors pauser,
             rc_subnet_actor_diamond_cut_selectors = fc_function_selectors dcut,
             rc_subnet_actor_diamond_loupe_selectors = fc_function_selectors loupe,
             rc_subnet_actor_ownership_selectors = fc_function_selectors ownership,
             rc_creation_privileges = 0\<rparr>)
      | _ \<Rightarrow> Panic)"

section \<open>Initialization\<close>

definition genesis_circ_supply :: "('a, 'k) Genesis \<Rightarrow> int" where
  "genesis_circ_supply g = foldl (\<lambda>s a. s + actor_balance a) 0 (gen_accounts g)"

definition genesis_output ::
  "('a, 'k, 'h, 'b, 't, 's) genesis_lib \<Rightarrow> ('a, 'k) Genesis \<Rightarrow> (string, 'k FvmGenesisOutput) outcome" where
  "genesis_output gl g =
     obind (from_str_hashed (gl_fnv gl) (gen_chain_name g)) (\<lambda>chain_id.
     obind (try_all (\<lambda>(k, c). omap (\<lambda>p. \<lparr>val_key = k, val_power = p\<rparr>) (into_power c (gen_power_scale g)))
       (gen_validators g)) (\<lambda>validators.
     Ok \<lparr>go_chain_id = chain_id, go_timestamp = gen_timestamp g, go_network_version = gen_network_version g,
         go_base_fee = gen_base_fee g, go_power_scale = gen_power_scale g, go_circ_supply = genesis_circ_supply g,
         go_validators = validators\<rparr>))"

definition genesis_contracts :: "('a, 'k) Genesis \<Rightarrow> EthContractMap" where
  "genesis_contracts g = (if gen_ipc g \<noteq> None then IPC_CONTRACTS else [])"

definition genesis_libraries ::
  "contracts_dir \<Rightarrow> EthContractMap \<Rightarrow> (string, (ContractSource \<times> ContractName) list) outcome" where
  "genesis_libraries dir eth_contracts =
     obind (with_context ''failed to collect EVM contract dependencies''
       (dependencies dir (map (\<lambda>n. (contract_src n, n))
         (map fst eth_contracts @ concat (map (\<lambda>(n, c). ec_facets c) eth_contracts))))) (\<lambda>eth_libs.
     Ok (filter (\<lambda>(s, n). n \<notin> fst ` set eth_contracts) eth_libs))"

text \<open>Stage 1: the built-in actors and those of the repository. A state that is made in the store comes with it.\<close>

definition with_store ::
  "('b \<Rightarrow> (string, 'x \<times> 'b) outcome) \<Rightarrow> ('b, 't, 's) FvmGenesisState \<Rightarrow>
     (string, 'x \<times> ('b, 't, 's) FvmGenesisState) outcome" where
  "with_store f st = omap (\<lambda>(x, bs). (x, st\<lparr>gs_store := bs\<rparr>)) (f (gs_store st))"

definition genesis_builtin_actors ::
  "('a, 'k, 'h, 'b, 't, 's) genesis_lib \<Rightarrow> ('a, 's) machine \<Rightarrow> ('a, 'k) Genesis \<Rightarrow> nat list \<Rightarrow> nat \<Rightarrow>
     ('b, 't, 's) FvmGenesisState \<Rightarrow> (string, (InitState \<times> ('a \<times> nat) list) \<times> ('b, 't, 's) FvmGenesisState) outcome" where
  "genesis_builtin_actors gl mx g eth_builtin_ids eth_library_count st =
     obind (with_context ''failed to create system actor''
       (create_builtin_actor gl mx 1 SYSTEM_ACTOR_ID (SystemObj (manifest_data_cid st)) 0 None st)) (\<lambda>st.
     obind (with_context ''failed to create init state''
       (with_store (init_state_new gl (gen_chain_name g) (gen_accounts g) eth_builtin_ids eth_library_count) st))
       (\<lambda>((init_state, addr_to_id), st).
     obind (with_context ''failed to create init actor'' (create_builtin_actor gl mx 2 1 (InitObj init_state) 0 None st)) (\<lambda>st.
     obind (with_context ''failed to create cron actor'' (create_builtin_actor gl mx 3 3 CronObj 0 None st)) (\<lambda>st.
     obind (with_context ''failed to create EAM actor'' (create_builtin_actor gl mx 15 EAM_ACTOR_ID EmptyArrObj 0 None st)) (\<lambda>st.
     obind (with_context ''failed to create burnt funds actor''
       (create_builtin_actor gl mx 4 99 (AccountObj (gl_id_addr gl 99)) 0 None st)) (\<lambda>st.
     obind (with_context ''failed to create reward actor''
       (create_builtin_actor gl mx 4 2 (AccountObj (gl_id_addr gl 2)) 0 None st)) (\<lambda>st.
     obind (get_subset (custom_actor_manifest st) [''accumulator'', ''objectstore'']) (\<lambda>machine_codes.
     obind (with_store (gl_adm_new gl machine_codes) st) (\<lambda>(adm_state, st).
     obind (with_context ''failed to create adm actor'' (create_builtin_actor gl mx 17 17 (AdmObj adm_state) 0 None st)) (\<lambda>st.
     obind (with_store (cm_new (gl_blockhashes gl) DEFAULT_LOOKBACK_LEN) st) (\<lambda>(chainmetadata_state, st).
     obind (with_context ''failed to create chainmetadata actor''
       (create_custom_actor gl mx ''chainmetadata'' 48 (ChainMetadataObj chainmetadata_state) 0 None st)) (\<lambda>st.
     obind (with_store (\<lambda>bs. map_err ae_msg
         (eam_new (gl_deployers gl) (permission_mode_params (gen_eam_permission_mode g)) bs)) st) (\<lambda>(eam_state, st).
     obind (with_context ''failed to replace built in eam actor''
       (replace_builtin_actor gl mx ''eam'' EAM_ACTOR_ID ''eam'' (EamObj eam_state) 0 None st)) (\<lambda>st.
     Ok ((init_state, addr_to_id), st)))))))))))))))"

text \<open>Stage 2: the accounts, which have been assigned identifiers, and the multisig accounts behind them.\<close>

fun genesis_accounts ::
  "('a, 'k, 'h, 'b, 't, 's) genesis_lib \<Rightarrow> ('a, 's) machine \<Rightarrow> ('a \<times> nat) list \<Rightarrow> 'a Actor list \<Rightarrow> nat \<Rightarrow>
     ('b, 't, 's) FvmGenesisState \<Rightarrow> (string, nat \<times> ('b, 't, 's) FvmGenesisState) outcome" where
  "genesis_accounts gl mx addr_to_id [] next_id st = Ok (next_id, st)"
| "genesis_accounts gl mx addr_to_id (a # as) next_id st =
     (case actor_meta a of
        MetaAccount acct \<Rightarrow>
          obind (with_context ''failed to create account actor''
            (create_account_actor gl mx acct (actor_balance a) addr_to_id st)) (\<lambda>st.
          genesis_accounts gl mx addr_to_id as next_id st)
      | MetaMultisig ms \<Rightarrow>
          obind (with_context ''failed to create multisig actor''
            (create_multisig_actor gl mx ms (actor_balance a) addr_to_id next_id st)) (\<lambda>st.
          genesis_accounts gl mx addr_to_id as (next_id + 1) st))"

text \<open>Stages 1 and 2: all actors that are in the state tree before there is an executor.\<close>

definition genesis_actors ::
  "('a, 'k, 'h, 'b, 't, 's) genesis_lib \<Rightarrow> ('a, 's) machine \<Rightarrow> ('a, 'k) Genesis \<Rightarrow> nat list \<Rightarrow> nat \<Rightarrow>
     ('b, 't, 's) FvmGenesisState \<Rightarrow> (string, InitState \<times> nat \<times> ('b, 't, 's) FvmGenesisState) outcome" where
  "genesis_actors gl mx g eth_builtin_ids eth_library_count st =
     obind (genesis_builtin_actors gl mx g eth_builtin_ids eth_library_count st) (\<lambda>((init_state, addr_to_id), st).
     obind (genesis_accounts gl mx addr_to_id (gen_accounts g) (FIRST_NON_SINGLETON_ADDR + length addr_to_id) st)
       (\<lambda>(next_id, st).
     Ok (init_state, next_id, st)))"

definition genesis_ipc ::
  "('a, 'k, 'h, 'b, 't, 's) genesis_lib \<Rightarrow> ('a, 's) machine \<Rightarrow> 'a GatewayParams \<Rightarrow> ('k \<times> int) list \<Rightarrow> ContractDeployer \<Rightarrow>
     ('b, 't, 's) FvmGenesisState \<Rightarrow> (string, ('b, 't, 's) FvmGenesisState) outcome" where
  "genesis_ipc gl mx gp validators d st =
     obind (with_context ''failed to create gateway constructor'' (gateway_constructor gl gp validators)) (\<lambda>ps.
     obind (with_context ''failed to collect gateway facets'' (facets gl GATEWAY_CONTRACT_NAME d)) (\<lambda>cuts.
     obind (deploy_contract gl mx GATEWAY_CONTRACT_NAME (GatewayParameters cuts ps) d st) (\<lambda>(gateway_addr, st).
     obind (with_context ''failed to collect registry facets'' (facets gl REGISTRY_CONTRACT_NAME d)) (\<lambda>cuts.
     obind (registry_constructor gateway_addr cuts) (\<lambda>ps.
     omap snd (deploy_contract gl mx REGISTRY_CONTRACT_NAME ps d st))))))"

definition genesis_init ::
  "('a, 'k, 'h, 'b, 't, 's) genesis_lib \<Rightarrow> ('a, 's) machine \<Rightarrow> contracts_dir \<Rightarrow> ('a, 'k) Genesis \<Rightarrow>
     ('b, 't, 's) FvmGenesisState \<Rightarrow> (string, ('b, 't, 's) FvmGenesisState \<times> 'k FvmGenesisOutput) outcome" where
  "genesis_init gl mx dir g st =
     obind (genesis_output gl g) (\<lambda>out.
     let eth_contracts = genesis_contracts g in
     obind (genesis_libraries dir eth_contracts) (\<lambda>eth_libs.
     obind (genesis_actors gl mx g (sort (map (\<lambda>(n, c). ec_actor_id c) eth_contracts)) (length eth_libs) st)
       (\<lambda>(_, next_id, st).
     obind (with_context ''failed to init exec state''
       (init_exec_state gl (go_timestamp out) (go_network_version out) (go_base_fee out) (go_circ_supply out)
         (go_chain_id out) (go_power_scale out) st)) (\<lambda>st.
     obind (deploy_libraries gl mx eth_libs next_id (deployer_new dir eth_contracts) st) (\<lambda>(_, d, st).
     obind (case gen_ipc g of
              Some gp \<Rightarrow> genesis_ipc gl mx gp (gen_validators g) d st
            | None \<Rightarrow> Ok st) (\<lambda>st.
     Ok (st, out)))))))"

section \<open>Lemmas\<close>

subsection \<open>Identifiers\<close>

text \<open>The identifiers from the first one that is not reserved, each for one address.\<close>

definition ids_ok :: "('a \<times> nat) list \<Rightarrow> bool" where
  "ids_ok ids = (distinct (map fst ids) \<and> map snd ids = [FIRST_NON_SINGLETON_ADDR..<FIRST_NON_SINGLETON_ADDR + length ids])"

lemma allocate_ids_spec:
  assumes "allocate_ids addrs allocated next_id = (ids, n)" "ids_ok allocated" "next_id = FIRST_NON_SINGLETON_ADDR + length allocated"
  shows "ids_ok ids \<and> n = FIRST_NON_SINGLETON_ADDR + length ids \<and> fst ` set ids = fst ` set allocated \<union> set addrs"
  using assms
proof (induction addrs arbitrary: allocated next_id)
  case (Cons addr addrs)
  show ?case
  proof (cases "addr \<in> fst ` set allocated")
    case True
    then show ?thesis using Cons.IH [of allocated next_id] Cons.prems by auto
  next
    case False
    then have "ids_ok (allocated @ [(addr, next_id)])" using Cons.prems by (auto simp: ids_ok_def)
    then show ?thesis using Cons.IH [of "allocated @ [(addr, next_id)]" "next_id + 1"] Cons.prems False by auto
  qed
qed simp

lemma ids_ok_range: "ids_ok ids \<Longrightarrow> map_of ids a = Some i \<Longrightarrow> FIRST_NON_SINGLETON_ADDR \<le> i \<and> i < FIRST_NON_SINGLETON_ADDR + length ids"
proof -
  assume ok: "ids_ok ids" and "map_of ids a = Some i"
  then have "i \<in> set (map snd ids)" by (force dest: map_of_SomeD)
  also have "map snd ids = [FIRST_NON_SINGLETON_ADDR..<FIRST_NON_SINGLETON_ADDR + length ids]" using ok by (simp add: ids_ok_def)
  finally show ?thesis by simp
qed

lemma ids_ok_inj: "ids_ok ids \<Longrightarrow> map_of ids a = Some i \<Longrightarrow> map_of ids a' = Some i \<Longrightarrow> a = a'"
proof -
  assume ok: "ids_ok ids" and "map_of ids a = Some i" "map_of ids a' = Some i"
  then have "(a, i) \<in> set ids" "(a', i) \<in> set ids" by (auto dest: map_of_SomeD)
  moreover have "distinct (map snd ids)" using ok by (simp add: ids_ok_def)
  ultimately show "a = a'" by (metis distinct_map fst_conv inj_on_def snd_conv)
qed

lemma set_addresses_rep:
  assumes kv: "kv_ok kv rep holds grow (\<lambda>_. True)" and r: "rep bs h m"
  shows "\<exists>h'. set_addresses kv ctx bs es h = Ok h' \<and> rep bs h' (m ++ map_of (rev es))"
  using r
proof (induction es arbitrary: h m)
  case (Cons e es)
  obtain a i where e: "e = (a, i)" by fastforce
  obtain h1 where h1: "kv_set kv bs h a i = Ok h1" "rep bs h1 (m(a \<mapsto> i))" using kv_set_rep [OF kv, OF Cons.prems] by blast
  obtain h' where h': "set_addresses kv ctx bs es h1 = Ok h'" "rep bs h' (m(a \<mapsto> i) ++ map_of (rev es))"
    using Cons.IH [OF h1(2)] by blast
  have "m(a \<mapsto> i) ++ map_of (rev es) = m ++ map_of (rev (e # es))"
    by (rule ext) (simp add: e map_add_def split: option.split)
  then show ?case using h1(1) h' e by (simp add: with_context_def)
qed simp

text \<open>What the init actor knows: an entry that is set later replaces an earlier one.\<close>

abbreviation eth_entry :: "('a, 'k, 'h, 'b, 't, 's) genesis_lib \<Rightarrow> nat \<Rightarrow> 'a \<times> nat" where
  "eth_entry gl i \<equiv> (address_of_eth gl (builtin_actor_eth_addr gl i), i)"

definition init_entries :: "('a, 'k, 'h, 'b, 't, 's) genesis_lib \<Rightarrow> ('a \<times> nat) list \<Rightarrow> nat list \<Rightarrow> nat list \<Rightarrow> ('a \<times> nat) list" where
  "init_entries gl ids builtin libs =
     (address_of_eth gl (replicate 20 0), 0) # rev (map (eth_entry gl) libs) @ rev (map (eth_entry gl) builtin) @ rev ids"

definition multisig_count :: "'a Actor list \<Rightarrow> nat" where
  "multisig_count accounts = length (filter (\<lambda>a. is_multisig (actor_meta a)) accounts)"

definition account_addresses :: "'a Actor list \<Rightarrow> 'a set" where
  "account_addresses accounts = (\<Union>a \<in> set accounts. set (meta_addresses (actor_meta a)))"

lemma init_state_new_ids:
  assumes "init_state_new gl name accounts builtin libs bs = Ok ((st, ids), bs')"
  shows "ids_ok ids" "fst ` set ids = account_addresses accounts"
    "is_next_id st = FIRST_NON_SINGLETON_ADDR + length ids + multisig_count accounts + libs"
proof -
  obtain n where n: "allocate_ids (concat (map (\<lambda>a. meta_addresses (actor_meta a)) accounts)) [] FIRST_NON_SINGLETON_ADDR = (ids, n)"
      "is_next_id st = n + multisig_count accounts + libs"
    using assms by (auto simp: init_state_new_def Let_def multisig_count_def outcome_simps split: prod.splits)
  note spec = allocate_ids_spec [OF n(1)]
  show "ids_ok ids" "fst ` set ids = account_addresses accounts"
    "is_next_id st = FIRST_NON_SINGLETON_ADDR + length ids + multisig_count accounts + libs"
    using spec n(2) by (auto simp: ids_ok_def account_addresses_def)
qed

lemma init_state_new_map:
  assumes kv: "kv_ok (gl_address_map gl) rep holds grow (\<lambda>_. True)"
  shows "\<exists>st ids bs'. init_state_new gl name accounts builtin libs bs = Ok ((st, ids), bs') \<and>
     holds bs' (is_address_map st) (map_of (init_entries gl ids builtin [is_next_id st - libs..<is_next_id st]))"
proof -
  let ?kv = "gl_address_map gl"
  obtain ids n where a: "allocate_ids (concat (map (\<lambda>a. meta_addresses (actor_meta a)) accounts)) [] FIRST_NON_SINGLETON_ADDR = (ids, n)"
    by fastforce
  define lib_id where "lib_id = n + length (filter (\<lambda>a. is_multisig (actor_meta a)) accounts)"
  note step = set_addresses_rep [OF kv]
  obtain h1 where h1: "set_addresses ?kv ''cannot set ID of account address'' bs ids (kv_new ?kv bs) = Ok h1"
      "rep bs h1 (Map.empty ++ map_of (rev ids))"
    using step [OF kv_new_rep [OF kv]] by blast
  obtain h2 where h2: "set_addresses ?kv ''cannot set ID of eth contract address'' bs (map (eth_entry gl) builtin) h1 = Ok h2"
      "rep bs h2 (Map.empty ++ map_of (rev ids) ++ map_of (rev (map (eth_entry gl) builtin)))"
    using step [OF h1(2)] by blast
  obtain h3 where h3: "set_addresses ?kv ''cannot set ID of eth library address'' bs (map (eth_entry gl) [lib_id..<lib_id + libs]) h2 = Ok h3"
      "rep bs h3 (Map.empty ++ map_of (rev ids) ++ map_of (rev (map (eth_entry gl) builtin)) ++ map_of (rev (map (eth_entry gl) [lib_id..<lib_id + libs])))"
    using step [OF h2(2)] by blast
  obtain h4 where h4: "set_addresses ?kv ''cannot set ID of system eth address'' bs [(address_of_eth gl (replicate 20 0), 0)] h3 = Ok h4"
      "rep bs h4 (map_of (init_entries gl ids builtin [lib_id..<lib_id + libs]))"
    using step [OF h3(2), of _ "[(address_of_eth gl (replicate 20 0), 0)]"] by (auto simp: init_entries_def map_of_append)
  obtain c h' bs' where "kv_flush ?kv h4 bs = Ok ((c, h'), bs')" "holds bs' c (map_of (init_entries gl ids builtin [lib_id..<lib_id + libs]))"
    using kv_flush_rep [OF kv, OF h4(2)] by blast
  then show ?thesis
    using a h1(1) h2(1) h3(1) h4(1) by (simp add: init_state_new_def Let_def flip: lib_id_def)
qed

subsection \<open>Balances\<close>

text \<open>What the genesis relies on of the state tree: \<open>acts\<close> has the actors of a tree.\<close>

definition genesis_tree_ok :: "('a, 'k, 'h, 'b, 't, 's) genesis_lib \<Rightarrow> ('t \<Rightarrow> nat \<rightharpoonup> 'a ActorState) \<Rightarrow> bool" where
  "genesis_tree_ok gl acts =
     ((\<forall>bs t. gl_tree_new gl bs = Ok t \<longrightarrow> acts t = Map.empty) \<and>
      (\<forall>i t r. gl_tree_get gl i t = Ok r \<longrightarrow> r = acts t i) \<and>
      (\<forall>i a t. acts (gl_tree_set gl i a t) = (acts t)(i \<mapsto> a)) \<and>
      (\<forall>i f t t'. gl_tree_mutate gl i f t = Ok t' \<longrightarrow> acts t' = (acts t)(i := map_option f (acts t i))) \<and>
      (\<forall>t bs c t' bs'. gl_tree_flush gl t bs = Ok ((c, t'), bs') \<longrightarrow> acts t' = acts t))"

text \<open>The state is a tree with these balances.\<close>

definition on_tree :: "('t \<Rightarrow> nat \<rightharpoonup> 'a ActorState) \<Rightarrow> ('b, 't, 's) FvmGenesisState \<Rightarrow> (nat \<rightharpoonup> int) \<Rightarrow> bool" where
  "on_tree acts st m = (\<exists>t. gs_stage st = TreeStage t \<and> (\<lambda>i. map_option act_balance (acts t i)) = m)"

lemma on_tree_store [simp]: "on_tree acts (st\<lparr>gs_store := bs\<rparr>) m = on_tree acts st m"
  by (simp add: on_tree_def)

lemma put_state_tree: "put_state gl obj st = Ok (c, st') \<Longrightarrow> on_tree acts st m \<Longrightarrow> on_tree acts st' m"
  by (auto simp: put_state_def outcome_simps)

lemma create_actor_tree:
  assumes ok: "genesis_tree_ok gl acts" and c: "create_actor_internal gl mx code i obj b del st = Ok st'" and t: "on_tree acts st m"
  shows "on_tree acts st' (m(i \<mapsto> b))"
proof -
  obtain cid st1 where p: "put_state gl obj st = Ok (cid, st1)"
      "omap snd (state_flush gl (state_set_actor gl mx i
        \<lparr>act_code = code, act_state = cid, act_sequence = 0, act_balance = b, act_delegated = del\<rparr> st1)) = Ok st'"
    using c by (auto simp: create_actor_internal_def outcome_simps)
  obtain t1 where t1: "gs_stage st1 = TreeStage t1" "(\<lambda>i. map_option act_balance (acts t1 i)) = m"
    using put_state_tree [OF p(1) t] by (auto simp: on_tree_def)
  let ?a = "\<lparr>act_code = code, act_state = cid, act_sequence = 0, act_balance = b, act_delegated = del\<rparr>"
  obtain c t' bs' where t': "gl_tree_flush gl (gl_tree_set gl i ?a t1) (gs_store st1) = Ok ((c, t'), bs')" "gs_stage st' = TreeStage t'"
    using p(2) t1(1) by (auto simp: state_flush_def state_set_actor_def outcome_simps)
  have "acts t' = (acts t1)(i \<mapsto> ?a)" using ok t'(1) unfolding genesis_tree_ok_def by metis
  then show ?thesis using t1(2) t'(2) by (auto simp: on_tree_def fun_eq_iff)
qed

lemma create_builtin_tree:
  assumes "genesis_tree_ok gl acts" "create_builtin_actor gl mx code i obj b del st = Ok st'" "on_tree acts st m"
  shows "on_tree acts st' (m(i \<mapsto> b))"
  using assms by (auto simp: create_builtin_actor_def split: option.splits intro: create_actor_tree)

lemma create_custom_tree:
  assumes "genesis_tree_ok gl acts" "create_custom_actor gl mx name i obj b del st = Ok st'" "on_tree acts st m"
  shows "on_tree acts st' (m(i \<mapsto> b))"
  using assms by (auto simp: create_custom_actor_def split: option.splits intro: create_actor_tree)

lemma mutate_actor_tree:
  assumes ok: "genesis_tree_ok gl acts" and m: "state_mutate_actor gl mx i f st = Ok st'" and t: "on_tree acts st m"
    and f: "\<And>a. act_balance (f a) = act_balance a"
  shows "on_tree acts st' m"
proof -
  obtain t0 t' where t': "gs_stage st = TreeStage t0" "(\<lambda>i. map_option act_balance (acts t0 i)) = m"
      "gl_tree_mutate gl i f t0 = Ok t'" "st' = st\<lparr>gs_stage := TreeStage t'\<rparr>"
    using m t by (auto simp: on_tree_def state_mutate_actor_def outcome_simps)
  then have "acts t' = (acts t0)(i := map_option f (acts t0 i))" using ok unfolding genesis_tree_ok_def by blast
  then show ?thesis using t' f by (auto simp: on_tree_def fun_eq_iff option.map_comp comp_def)
qed

lemma replace_builtin_tree:
  assumes ok: "genesis_tree_ok gl acts" and r: "replace_builtin_actor gl mx n i c obj b del st = Ok st'" and t: "on_tree acts st m"
  shows "on_tree acts st' (m(i \<mapsto> b))"
proof -
  obtain code st1 where s: "update_system_actor_manifest gl mx n c st = Ok (code, st1)"
      "create_actor_internal gl mx code i obj b del st1 = Ok st'"
    using r by (auto simp: replace_builtin_actor_def with_context_def outcome_simps)
  obtain o1 o2 c1 c2 s1 s2 where u: "put_state gl o1 st = Ok (c1, s1)" "put_state gl o2 s1 = Ok (c2, s2)"
      "state_mutate_actor gl mx SYSTEM_ACTOR_ID (\<lambda>a. a\<lparr>act_state := c2\<rparr>) s2 = Ok st1"
    using s(1) unfolding update_system_actor_manifest_def by (auto simp: outcome_simps split: option.splits)
  have "on_tree acts s2 m" using put_state_tree [OF u(2)] put_state_tree [OF u(1)] t by blast
  then have "on_tree acts st1 m" by (rule mutate_actor_tree [OF ok u(3)]) simp
  then show ?thesis using create_actor_tree [OF ok s(2)] by blast
qed

lemma create_account_tree:
  assumes "genesis_tree_ok gl acts" "create_account_actor gl mx acct b ids st = Ok st'" "on_tree acts st m"
  shows "\<exists>i. map_of ids (acct_owner acct) = Some i \<and> on_tree acts st' (m(i \<mapsto> b))"
  using assms unfolding create_account_actor_def Let_def
  by (auto split: option.splits Payload.splits if_splits intro: create_builtin_tree)

text \<open>Signers get an account without a balance, if they have none.\<close>

definition zeros_added :: "('a \<times> nat) list \<Rightarrow> (nat \<rightharpoonup> int) \<Rightarrow> (nat \<rightharpoonup> int) \<Rightarrow> bool" where
  "zeros_added ids m m' = (\<forall>i. m' i = m i \<or> m i = None \<and> m' i = Some 0 \<and> i \<in> snd ` set ids)"

lemma zeros_added_trans: "zeros_added ids m m1 \<Longrightarrow> zeros_added ids m1 m2 \<Longrightarrow> zeros_added ids m m2"
  unfolding zeros_added_def by (metis option.distinct(1))

lemma create_signers_tree:
  assumes ok: "genesis_tree_ok gl acts" and "create_signers gl mx ids signers st = Ok (is, st')" "on_tree acts st m"
  shows "\<exists>m'. on_tree acts st' m' \<and> zeros_added ids m m'"
  using assms(2,3)
proof (induction signers arbitrary: st "is" m)
  case (Cons signer signers)
  obtain i actor st1 is' where s: "map_of ids signer = Some i" "state_get_actor gl mx i st = Ok actor"
      "(if actor = None then create_account_actor gl mx \<lparr>acct_owner = signer\<rparr> 0 ids st else Ok st) = Ok st1"
      "create_signers gl mx ids signers st1 = Ok (is', st')"
    using Cons.prems(1) by (auto simp: outcome_simps split: option.splits)
  obtain t where t: "gs_stage st = TreeStage t" "(\<lambda>i. map_option act_balance (acts t i)) = m"
    using Cons.prems(2) by (auto simp: on_tree_def)
  then have m: "map_option act_balance actor = m i" using s(2) ok by (auto simp: state_get_actor_def genesis_tree_ok_def)
  have "\<exists>m1. on_tree acts st1 m1 \<and> zeros_added ids m m1"
  proof (cases actor)
    case None
    then have "on_tree acts st1 (m(i \<mapsto> 0))" using s create_account_tree [OF ok _ Cons.prems(2)] by fastforce
    moreover have "i \<in> snd ` set ids" using s(1) by (force dest: map_of_SomeD)
    ultimately show ?thesis using None m by (intro exI [of _ "m(i \<mapsto> 0)"]) (simp add: zeros_added_def)
  next
    case (Some a)
    then show ?thesis using s(3) Cons.prems(2) by (auto simp: zeros_added_def)
  qed
  then show ?case using Cons.IH [OF s(4)] zeros_added_trans by blast
qed (auto simp: zeros_added_def)

lemma create_multisig_tree:
  assumes ok: "genesis_tree_ok gl acts" and c: "create_multisig_actor gl mx ms b ids next_id st = Ok st'" and t: "on_tree acts st m"
  shows "\<exists>m'. zeros_added ids m m' \<and> on_tree acts st' (m'(next_id \<mapsto> b))"
proof -
  obtain "is" st1 obj bs where s: "create_signers gl mx ids (ms_signers ms) st = Ok (is, st1)"
      "create_builtin_actor gl mx 9 next_id obj b None (st1\<lparr>gs_store := bs\<rparr>) = Ok st'"
    using c by (auto simp: create_multisig_actor_def outcome_simps)
  obtain m' where m': "on_tree acts st1 m'" "zeros_added ids m m'" using create_signers_tree [OF ok s(1) t] by blast
  then show ?thesis using create_builtin_tree [OF ok s(2)] by auto
qed

definition balance_at :: "(nat \<rightharpoonup> int) \<Rightarrow> nat \<Rightarrow> int" where
  "balance_at m i = (case m i of Some b \<Rightarrow> b | None \<Rightarrow> 0)"

lemma balance_zeros: "zeros_added ids m m' \<Longrightarrow> balance_at m' = balance_at m"
proof (rule ext)
  fix i
  assume "zeros_added ids m m'"
  then have "m' i = m i \<or> m i = None \<and> m' i = Some 0" unfolding zeros_added_def by blast
  then show "balance_at m' i = balance_at m i" by (auto simp: balance_at_def)
qed

lemma balance_upd: "balance_at (m(i \<mapsto> b)) = (balance_at m)(i := b)"
  by (rule ext) (simp add: balance_at_def)

lemma sum_upd:
  fixes f :: "nat \<Rightarrow> int"
  assumes "i < N"
  shows "(\<Sum>j<N. (f(i := b)) j) = (\<Sum>j<N. f j) - f i + b"
proof -
  have "(\<Sum>j<N. (f(i := b)) j) = b + (\<Sum>j \<in> {..<N} - {i}. (f(i := b)) j)" using assms by (subst sum.remove [of _ i]) auto
  also have "(\<Sum>j \<in> {..<N} - {i}. (f(i := b)) j) = (\<Sum>j \<in> {..<N} - {i}. f j)" by (rule sum.cong) auto
  also have "\<dots> = (\<Sum>j<N. f j) - f i" using assms by (subst (2) sum.remove [of _ i]) auto
  finally show ?thesis by simp
qed

fun meta_owner :: "'a ActorMeta \<Rightarrow> 'a list" where
  "meta_owner (MetaAccount acct) = [acct_owner acct]"
| "meta_owner (MetaMultisig _) = []"

definition account_owners :: "'a Actor list \<Rightarrow> 'a list" where
  "account_owners as = concat (map (\<lambda>a. meta_owner (actor_meta a)) as)"

lemma genesis_accounts_tree:
  assumes ok: "genesis_tree_ok gl acts" and ids: "ids_ok ids"
    and "genesis_accounts gl mx ids as next_id st = Ok (next', st')" "on_tree acts st m"
    and "FIRST_NON_SINGLETON_ADDR + length ids \<le> next_id" "\<forall>i \<ge> next_id. m i = None"
    and "distinct (account_owners as)"
    and "\<forall>a \<in> set (account_owners as). \<forall>i. map_of ids a = Some i \<longrightarrow> balance_at m i = 0"
    and "next' \<le> N"
  shows "next' = next_id + multisig_count as \<and> (\<exists>m'. on_tree acts st' m' \<and> (\<forall>i \<ge> next'. m' i = None) \<and>
     (\<Sum>i<N. balance_at m' i) = (\<Sum>i<N. balance_at m i) + sum_list (map actor_balance as))"
  using assms(3-)
proof (induction "as" arbitrary: next_id st m)
  case Nil
  then show ?case by (auto simp: multisig_count_def)
next
  case (Cons a "as")
  show ?case
  proof (cases "actor_meta a")
    case (MetaAccount acct)
    obtain st1 where s: "create_account_actor gl mx acct (actor_balance a) ids st = Ok st1"
        "genesis_accounts gl mx ids as next_id st1 = Ok (next', st')"
      using Cons.prems(1) MetaAccount by (auto simp: outcome_simps with_context_def)
    obtain i where i: "map_of ids (acct_owner acct) = Some i" "on_tree acts st1 (m(i \<mapsto> actor_balance a))"
      using create_account_tree [OF ok s(1) Cons.prems(2)] by blast
    have lt: "i < next_id" using ids_ok_range [OF ids i(1)] Cons.prems(3) by simp
    have owners: "account_owners (a # as) = acct_owner acct # account_owners as" using MetaAccount by (simp add: account_owners_def)
    have zero: "balance_at m i = 0" using Cons.prems(6) i(1) owners by auto
    have rest: "\<forall>x \<in> set (account_owners as). \<forall>j. map_of ids x = Some j \<longrightarrow> balance_at (m(i \<mapsto> actor_balance a)) j = 0"
    proof (intro ballI allI impI)
      fix o' j
      assume o': "o' \<in> set (account_owners as)" and j: "map_of ids o' = Some j"
      then have "o' \<noteq> acct_owner acct" using Cons.prems(5) owners by auto
      then have "j \<noteq> i" using ids_ok_inj [OF ids] i(1) j by blast
      then show "balance_at (m(i \<mapsto> actor_balance a)) j = 0" using Cons.prems(6) owners o' j by (simp add: balance_at_def)
    qed
    have IH: "next' = next_id + multisig_count as \<and> (\<exists>m'. on_tree acts st' m' \<and> (\<forall>i \<ge> next'. m' i = None) \<and>
       (\<Sum>i<N. balance_at m' i) = (\<Sum>j<N. balance_at (m(i \<mapsto> actor_balance a)) j) + sum_list (map actor_balance as))"
    proof (rule Cons.IH [OF s(2) i(2) Cons.prems(3) _ _ rest Cons.prems(7)])
      show "\<forall>j \<ge> next_id. (m(i \<mapsto> actor_balance a)) j = None" using Cons.prems(4) lt by simp
      show "distinct (account_owners as)" using Cons.prems(5) owners by simp
    qed
    have "i < N" using lt IH Cons.prems(7) by linarith
    then have "(\<Sum>j<N. balance_at (m(i \<mapsto> actor_balance a)) j) = (\<Sum>j<N. balance_at m j) + actor_balance a"
      using zero by (simp add: balance_upd sum_upd del: fun_upd_apply)
    moreover have "multisig_count (a # as) = multisig_count as" using MetaAccount by (simp add: multisig_count_def)
    ultimately show ?thesis using IH by (auto simp: add.assoc)
  next
    case (MetaMultisig ms)
    obtain st1 where s: "create_multisig_actor gl mx ms (actor_balance a) ids next_id st = Ok st1"
        "genesis_accounts gl mx ids as (next_id + 1) st1 = Ok (next', st')"
      using Cons.prems(1) MetaMultisig by (auto simp: outcome_simps with_context_def)
    obtain m1 where m1: "zeros_added ids m m1" "on_tree acts st1 (m1(next_id \<mapsto> actor_balance a))"
      using create_multisig_tree [OF ok s(1) Cons.prems(2)] by blast
    have owners: "account_owners (a # as) = account_owners as" using MetaMultisig by (simp add: account_owners_def)
    have bal: "balance_at (m1(next_id \<mapsto> actor_balance a)) = (balance_at m)(next_id := actor_balance a)"
      using balance_zeros [OF m1(1)] by (simp add: balance_upd)
    have above: "\<forall>i \<ge> next_id + 1. (m1(next_id \<mapsto> actor_balance a)) i = None"
    proof (intro allI impI)
      fix i
      assume i: "next_id + 1 \<le> i"
      have "i \<notin> set (map snd ids)" using ids i Cons.prems(3) unfolding ids_ok_def by (metis add_leD1 atLeastLessThan_iff leD le_trans set_upt)
      then have "m1 i = m i" using m1(1) by (auto simp: zeros_added_def)
      then show "(m1(next_id \<mapsto> actor_balance a)) i = None" using i Cons.prems(4) by simp
    qed
    have rest: "\<forall>x \<in> set (account_owners as). \<forall>j. map_of ids x = Some j \<longrightarrow> balance_at (m1(next_id \<mapsto> actor_balance a)) j = 0"
      using Cons.prems(3,6) owners ids_ok_range [OF ids] by (fastforce simp: bal)
    have IH: "next' = next_id + 1 + multisig_count as \<and> (\<exists>m'. on_tree acts st' m' \<and> (\<forall>i \<ge> next'. m' i = None) \<and>
       (\<Sum>i<N. balance_at m' i) = (\<Sum>j<N. balance_at (m1(next_id \<mapsto> actor_balance a)) j) + sum_list (map actor_balance as))"
      by (rule Cons.IH [OF s(2) m1(2) _ above _ rest Cons.prems(7)]) (use Cons.prems(3,5) owners in simp_all)
    have "next_id < N" using IH Cons.prems(7) by linarith
    moreover have "balance_at m next_id = 0" using Cons.prems(4) by (simp add: balance_at_def)
    ultimately have "(\<Sum>j<N. balance_at (m1(next_id \<mapsto> actor_balance a)) j) = (\<Sum>j<N. balance_at m j) + actor_balance a"
      by (simp add: bal sum_upd del: fun_upd_apply)
    moreover have "multisig_count (a # as) = 1 + multisig_count as" using MetaMultisig by (simp add: multisig_count_def)
    ultimately show ?thesis using IH by (auto simp: add.assoc)
  qed
qed

lemma builtin_actors_steps:
  assumes run: "genesis_builtin_actors gl mx g builtin libs st = Ok ((init_state, ids), st')"
  obtains s1 b1 s2 s3 s4 s5 s6 b2 s7 b3 s8 b4 o1 o2 o3 o4 o5 o6 o7 o8 o9 where
    "create_builtin_actor gl mx 1 SYSTEM_ACTOR_ID o1 0 None st = Ok s1"
    "init_state_new gl (gen_chain_name g) (gen_accounts g) builtin libs (gs_store s1) = Ok ((init_state, ids), b1)"
    "create_builtin_actor gl mx 2 1 o2 0 None (s1\<lparr>gs_store := b1\<rparr>) = Ok s2"
    "create_builtin_actor gl mx 3 3 o3 0 None s2 = Ok s3"
    "create_builtin_actor gl mx 15 EAM_ACTOR_ID o4 0 None s3 = Ok s4"
    "create_builtin_actor gl mx 4 99 o5 0 None s4 = Ok s5"
    "create_builtin_actor gl mx 4 2 o6 0 None s5 = Ok s6"
    "create_builtin_actor gl mx 17 17 o7 0 None (s6\<lparr>gs_store := b2\<rparr>) = Ok s7"
    "create_custom_actor gl mx ''chainmetadata'' 48 o8 0 None (s7\<lparr>gs_store := b3\<rparr>) = Ok s8"
    "replace_builtin_actor gl mx ''eam'' EAM_ACTOR_ID ''eam'' o9 0 None (s8\<lparr>gs_store := b4\<rparr>) = Ok st'"
  using run unfolding genesis_builtin_actors_def with_store_def
  by (clarsimp simp: obind_Ok_iff with_context_Ok omap_Ok_iff)

lemma builtin_actors_tree:
  assumes run: "genesis_builtin_actors gl mx g builtin libs st = Ok ((init_state, ids), st')"
    and ok: "genesis_tree_ok gl acts" and t: "on_tree acts st Map.empty"
  shows "\<exists>m. on_tree acts st' m \<and> balance_at m = (\<lambda>_. 0) \<and> (\<forall>i \<ge> FIRST_NON_SINGLETON_ADDR. m i = None)"
  using run
proof (rule builtin_actors_steps)
  let ?m = "[SYSTEM_ACTOR_ID \<mapsto> 0, 1 \<mapsto> 0, 3 \<mapsto> 0, EAM_ACTOR_ID \<mapsto> 0, 99 \<mapsto> 0, 2 \<mapsto> 0, 17 \<mapsto> 0, 48 \<mapsto> 0, EAM_ACTOR_ID \<mapsto> 0]"
  fix s1 b1 s2 s3 s4 s5 s6 b2 s7 b3 s8 b4 o1 o2 o3 o4 o5 o6 o7 o8 o9
  assume s: "create_builtin_actor gl mx 1 SYSTEM_ACTOR_ID o1 0 None st = Ok s1"
    "create_builtin_actor gl mx 2 1 o2 0 None (s1\<lparr>gs_store := b1\<rparr>) = Ok s2"
    "create_builtin_actor gl mx 3 3 o3 0 None s2 = Ok s3"
    "create_builtin_actor gl mx 15 EAM_ACTOR_ID o4 0 None s3 = Ok s4"
    "create_builtin_actor gl mx 4 99 o5 0 None s4 = Ok s5"
    "create_builtin_actor gl mx 4 2 o6 0 None s5 = Ok s6"
    "create_builtin_actor gl mx 17 17 o7 0 None (s6\<lparr>gs_store := b2\<rparr>) = Ok s7"
    "create_custom_actor gl mx ''chainmetadata'' 48 o8 0 None (s7\<lparr>gs_store := b3\<rparr>) = Ok s8"
    "replace_builtin_actor gl mx ''eam'' EAM_ACTOR_ID ''eam'' o9 0 None (s8\<lparr>gs_store := b4\<rparr>) = Ok st'"
  note step = create_builtin_tree [OF ok]
  note t1 = step [OF s(1) t]
  note t2 = step [OF s(2), unfolded on_tree_store, OF t1]
  note t6 = step [OF s(6) step [OF s(5) step [OF s(4) step [OF s(3) t2]]]]
  note t7 = step [OF s(7), unfolded on_tree_store, OF t6]
  note t8 = create_custom_tree [OF ok s(8), unfolded on_tree_store, OF t7]
  have "on_tree acts st' ?m" by (rule replace_builtin_tree [OF ok s(9), unfolded on_tree_store, OF t8])
  moreover have "balance_at ?m = (\<lambda>_. 0)" by (simp add: balance_at_def fun_eq_iff)
  moreover have "\<forall>i \<ge> FIRST_NON_SINGLETON_ADDR. ?m i = None"
    by (simp add: FIRST_NON_SINGLETON_ADDR_def EAM_ACTOR_ID_def SYSTEM_ACTOR_ID_def)
  ultimately show ?thesis by blast
qed

lemma genesis_circ_supply_sum:
  fixes g :: "('a, 'k) Genesis"
  shows "genesis_circ_supply g = sum_list (map actor_balance (gen_accounts g))"
proof -
  have "foldl (\<lambda>s a. s + actor_balance a) k xs = k + sum_list (map actor_balance xs)" for k and xs :: "'a Actor list"
    by (induction xs arbitrary: k) (simp_all add: add.assoc)
  then show ?thesis by (simp add: genesis_circ_supply_def)
qed

lemma genesis_state_new_tree:
  assumes ok: "genesis_tree_ok gl acts" and new: "genesis_state_new gl bundle_car custom_bundle bs = Ok st"
  shows "on_tree acts st Map.empty"
proof -
  obtain bs' t where "gl_tree_new gl bs' = Ok t" "gs_stage st = TreeStage t"
    using new by (auto simp: genesis_state_new_def outcome_simps)
  moreover from this(1) have "acts t = Map.empty" using ok unfolding genesis_tree_ok_def by blast
  ultimately show ?thesis by (simp add: on_tree_def)
qed

text \<open>C11: the supply of a new chain. The genesis creates the built-in actors, the accounts and the multisig accounts of
  the genesis document, and if no address owns two of the accounts, then the balances of all actors in the state tree
  sum up to the circulating supply that the executor is started with, and no actor has an identifier from \<open>next_id\<close>
  on, where the libraries will go.\<close>

theorem genesis_supply:
  assumes ok: "genesis_tree_ok gl acts" and new: "genesis_state_new gl bundle_car custom_bundle bs = Ok st"
    and run: "genesis_actors gl mx g builtin libs st = Ok (init_state, next_id, st')"
    and owners: "distinct (account_owners (gen_accounts g))"
  shows "\<exists>t. gs_stage st' = TreeStage t \<and> (\<forall>i \<ge> next_id. acts t i = None) \<and>
     (\<Sum>i<next_id. case acts t i of Some a \<Rightarrow> act_balance a | None \<Rightarrow> 0) = genesis_circ_supply g"
proof -
  obtain ids st1 where s: "genesis_builtin_actors gl mx g builtin libs st = Ok ((init_state, ids), st1)"
      "genesis_accounts gl mx ids (gen_accounts g) (FIRST_NON_SINGLETON_ADDR + length ids) st1 = Ok (next_id, st')"
    using run by (auto simp: genesis_actors_def outcome_simps)
  have ids: "ids_ok ids" using s(1) by (rule builtin_actors_steps) (rule init_state_new_ids)
  obtain m where m: "on_tree acts st1 m" "balance_at m = (\<lambda>_. 0)" "\<forall>i \<ge> FIRST_NON_SINGLETON_ADDR. m i = None"
    using builtin_actors_tree [OF s(1) ok genesis_state_new_tree [OF ok new]] by blast
  obtain m' where m': "on_tree acts st' m'" "\<forall>i \<ge> next_id. m' i = None"
      "(\<Sum>i<next_id. balance_at m' i) = (\<Sum>i<next_id. balance_at m i) + sum_list (map actor_balance (gen_accounts g))"
    using genesis_accounts_tree [OF ok ids s(2) m(1) _ _ owners _ order_refl] m(2,3) by auto
  obtain t where t: "gs_stage st' = TreeStage t" "(\<lambda>i. map_option act_balance (acts t i)) = m'" using m'(1) by (auto simp: on_tree_def)
  have "balance_at m' = (\<lambda>i. case acts t i of Some a \<Rightarrow> act_balance a | None \<Rightarrow> 0)"
    by (rule ext) (simp add: balance_at_def flip: t(2) split: option.split)
  then show ?thesis using m' m(2) t by (auto simp: genesis_circ_supply_sum)
qed

subsection \<open>Libraries\<close>

text \<open>The identifier address of every library, in the order of deployment.\<close>

definition library_addresses :: "(ContractSource \<times> ContractName) list \<Rightarrow> nat \<Rightarrow> (string \<times> nat list) list" where
  "library_addresses libs next_id =
     zip (map (\<lambda>(s, n). fqn s n) libs) (map eth_from_id [next_id..<next_id + length libs])"

lemma library_addresses_Cons: "library_addresses ((s, n) # libs) i = (fqn s n, eth_from_id i) # library_addresses libs (Suc i)"
  by (simp add: library_addresses_def upt_conv_Cons del: upt_Suc)

lemma deploy_libraries_spec:
  assumes "deploy_libraries gl mx libs next_id d st = Ok (n, d', st')"
  shows "n = next_id + length libs \<and> hm_get (lib_addrs d') = hm_get (lib_addrs d) ++ map_of (rev (library_addresses libs next_id))"
  using assms
proof (induction libs arbitrary: next_id d st)
  case (Cons l libs)
  obtain s m where l: "l = (s, m)" by fastforce
  obtain st1 where "deploy_libraries gl mx libs (next_id + 1)
      (d\<lparr>lib_addrs := AList.update (fqn s m) (eth_from_id next_id) (lib_addrs d)\<rparr>) st1 = Ok (n, d', st')"
    using Cons.prems by (auto simp: l deploy_library_def Let_def outcome_simps with_context_Ok)
  from Cons.IH [OF this] have n: "n = next_id + 1 + length libs"
    and m: "hm_get (lib_addrs d') = (hm_get (lib_addrs d))(fqn s m \<mapsto> eth_from_id next_id) ++ map_of (rev (library_addresses libs (next_id + 1)))"
    by (simp_all add: update_conv' del: fun_upd_apply)
  have "hm_get (lib_addrs d') = hm_get (lib_addrs d) ++ map_of (rev (library_addresses (l # libs) next_id))"
    unfolding m l library_addresses_Cons by (rule ext) (simp add: map_add_def split: option.split)
  then show ?case using n by simp
qed (simp add: library_addresses_def)

lemma library_addresses_dom: "dom (map_of (rev (library_addresses libs i))) = (\<lambda>(s, n). fqn s n) ` set libs"
  by (simp add: dom_map_of_conv_image_fst library_addresses_def flip: set_map)

lemma library_addresses_ran:
  "map_of (rev (library_addresses libs i)) f = Some a \<Longrightarrow> \<exists>j. i \<le> j \<and> j < i + length libs \<and> a = eth_from_id j"
proof -
  assume "map_of (rev (library_addresses libs i)) f = Some a"
  then have "(f, a) \<in> set (library_addresses libs i)" by (metis map_of_SomeD set_rev)
  then have "a \<in> set (map eth_from_id [i..<i + length libs])" unfolding library_addresses_def by (rule set_zip_rightD)
  then show ?thesis by auto
qed

lemma genesis_accounts_count:
  "genesis_accounts gl mx ids as next_id st = Ok (n, st') \<Longrightarrow> n = next_id + multisig_count as"
proof (induction "as" arbitrary: next_id st)
  case (Cons a "as")
  then show ?case
    by (cases "actor_meta a") (fastforce simp: multisig_count_def obind_Ok_iff with_context_Ok dest: Cons.IH)+
qed (simp add: multisig_count_def)

lemma filter_eq_append_ConsD:
  "filter P xs = ys @ x # zs \<Longrightarrow> \<exists>us vs. xs = us @ x # vs \<and> filter P us = ys"
proof (induction xs arbitrary: ys)
  case (Cons z xs)
  show ?case
  proof (cases "P z \<and> ys = []")
    case True
    then show ?thesis using Cons.prems by (auto intro: exI [of _ "[]"])
  next
    case False
    then have "filter P xs = (if P z then tl ys else ys) @ x # zs" using Cons.prems by (cases ys) auto
    then obtain us vs where "xs = us @ x # vs" "filter P us = (if P z then tl ys else ys)" using Cons.IH by blast
    then have "z # xs = (z # us) @ x # vs" "filter P (z # us) = ys" using Cons.prems False by (cases ys; auto)+
    then show ?thesis by blast
  qed
qed simp

text \<open>C20: the identifiers of a new chain. The addresses of the accounts and signers get the identifiers from 100 on, each its
  own, the multisig accounts those behind, then come the libraries, and the init actor continues behind all of them: the
  counter of the deployer ends where the init actor begins. The address map of the init actor has exactly these
  assignments, the contracts with a fixed identifier and the null address, and the deployer knows the libraries by the
  addresses of the identifiers that the init actor reserved for them.\<close>

theorem genesis_ids:
  assumes kv: "kv_ok (gl_address_map gl) rep holds grow (\<lambda>_. True)"
    and run: "genesis_actors gl mx g builtin (length libs) st = Ok (init_state, next_id, st1)"
    and dep: "deploy_libraries gl mx libs next_id (deployer_new dir contracts) st2 = Ok (n, d, st3)"
  shows "next_id = 100 + card (account_addresses (gen_accounts g)) + multisig_count (gen_accounts g) \<and>
     is_next_id init_state = n \<and> n = next_id + length libs \<and>
     (\<exists>ids bs. fst ` set ids = account_addresses (gen_accounts g) \<and> distinct (map fst ids) \<and>
        map snd ids = [100..<100 + card (account_addresses (gen_accounts g))] \<and>
        holds bs (is_address_map init_state) (map_of (init_entries gl ids builtin [next_id..<n]))) \<and>
     hm_get (lib_addrs d) = map_of (rev (library_addresses libs next_id))"
proof -
  obtain ids s where s: "genesis_builtin_actors gl mx g builtin (length libs) st = Ok ((init_state, ids), s)"
      "genesis_accounts gl mx ids (gen_accounts g) (FIRST_NON_SINGLETON_ADDR + length ids) s = Ok (next_id, st1)"
    using run by (auto simp: genesis_actors_def outcome_simps)
  obtain bs bs' where init: "init_state_new gl (gen_chain_name g) (gen_accounts g) builtin (length libs) bs = Ok ((init_state, ids), bs')"
    using s(1) by (rule builtin_actors_steps) blast
  note ids = init_state_new_ids [OF init]
  have card: "card (account_addresses (gen_accounts g)) = length ids"
    using ids(1,2) by (metis distinct_card ids_ok_def length_map list.set_map)
  have next_id: "next_id = 100 + length ids + multisig_count (gen_accounts g)" using genesis_accounts_count [OF s(2)] by (simp add: FIRST_NON_SINGLETON_ADDR_def)
  then have n: "n = next_id + length libs" "is_next_id init_state = n"
    using deploy_libraries_spec [OF dep] ids(3) by (simp_all add: FIRST_NON_SINGLETON_ADDR_def)
  have "holds bs' (is_address_map init_state) (map_of (init_entries gl ids builtin [next_id..<n]))"
    using init_state_new_map [OF kv, of "gen_chain_name g" "gen_accounts g" builtin "length libs" bs] init n by simp
  moreover have "distinct (map fst ids)" "map snd ids = [100..<100 + length ids]"
    using ids(1) by (simp_all add: ids_ok_def FIRST_NON_SINGLETON_ADDR_def)
  moreover have "hm_get (lib_addrs d) = map_of (rev (library_addresses libs next_id))"
    using deploy_libraries_spec [OF dep] by (simp add: deployer_new_def)
  ultimately show ?thesis using card next_id n ids(2) by auto
qed


section \<open>Evaluation on concrete inputs\<close>

text \<open>Addresses are numbers, by their residue an identifier, a key or a delegated address; trees and executors are tables of
  accounts, and an identifier in the block store has the contents in it where they are read again.\<close>

fun unpairs :: "nat list \<Rightarrow> (nat \<times> nat) list option" where
  "unpairs [] = Some []"
| "unpairs (a # i # xs) = map_option ((#) (a, i)) (unpairs xs)"
| "unpairs [_] = None"

definition sample_address_map :: "(nat list, nat, nat, (nat \<times> nat) list, unit) kv_lib" where
  "sample_address_map = mem_kv_of (\<lambda>h. concat (map (\<lambda>(a, i). [a, i]) h)) unpairs (\<lambda>_. True)"

lemma sample_address_map_ok:
  "kv_ok sample_address_map mem_rep (\<lambda>s c m. \<exists>h. unpairs c = Some h \<and> mem_rep s h m) (\<lambda>_ _. True) (\<lambda>_. True)"
proof -
  have "unpairs (concat (map (\<lambda>(a, i). [a, i]) h)) = Some h" for h by (induction h) auto
  then show ?thesis unfolding sample_address_map_def by (rule mem_kv_of_ok)
qed

definition empty_kv :: "(nat list, 'k, 'v, (nat \<times> nat) list, unit) kv_lib" where
  "empty_kv =
     \<lparr>kv_new = (\<lambda>_. []), kv_load = (\<lambda>_ _. Ok []), kv_get = (\<lambda>_ _ _. Ok None), kv_set = (\<lambda>_ _ _ _. Err ''full''),
      kv_set_if_absent = (\<lambda>_ _ _ _. Err ''full''), kv_contains = (\<lambda>_ _ _. Ok False), kv_delete = (\<lambda>_ h _. Ok (None, h)),
      kv_count = (\<lambda>_. 0), kv_iter = (\<lambda>_ _. []), kv_flush = (\<lambda>h s. Ok (([0], h), s))\<rparr>"

definition sample_put :: "nat actor_obj \<Rightarrow> unit \<Rightarrow> (string, nat list \<times> unit) outcome" where
  "sample_put obj bs = (case obj of SystemObj c \<Rightarrow> Ok (1 # c, bs) | _ \<Rightarrow> Ok ([2], bs))"

definition sample_get :: "nat list \<Rightarrow> unit \<Rightarrow> (string, nat actor_obj option) outcome" where
  "sample_get c bs =
     (case c of
        [] \<Rightarrow> Ok (Some (BundleObj 1 [2]))
      | i # c \<Rightarrow>
          if i = 1 then Ok (Some (SystemObj c))
          else Ok (Some (ManifestObj [(''eam'', 15), (''chainmetadata'', 48), (''objectstore'', 50), (''accumulator'', 51)])))"

definition sample_genesis_lib :: "(nat, nat, (nat \<times> nat) list, unit, accounts, accounts) genesis_lib" where
  "sample_genesis_lib =
     \<lparr>gl_address_map = sample_address_map, gl_blockhashes = empty_kv, gl_deployers = empty_kv, gl_pending_txs = empty_kv,
      gl_adm_new = (\<lambda>codes bs. Ok (map snd codes, bs)), gl_put = sample_put, gl_get = sample_get,
      gl_load_car = (\<lambda>car bs. Ok ([car], bs)),
      gl_load_manifest = (\<lambda>c v bs. Ok (map (\<lambda>i. (i, i)) [1, 2, 3, 4, 9, 14, 15, 16, 17])),
      gl_tree_new = (\<lambda>_. Ok []), gl_tree_get = (\<lambda>i t. Ok (hm_get t i)), gl_tree_set = AList.update,
      gl_tree_mutate = (\<lambda>i f t. case hm_get t i of Some a \<Rightarrow> Ok (AList.update i (f a) t) | None \<Rightarrow> Err ''actor not found''),
      gl_tree_flush = (\<lambda>t bs. Ok (([9], t), bs)), gl_exec_tree_flush = (\<lambda>s bs. Ok (([9], s), bs)),
      gl_exec_flush = (\<lambda>s bs. Ok ([9], bs)), gl_new_executor = (\<lambda>_ _ _. Ok []),
      gl_payload = (\<lambda>a. if even a then PID (a div 2) else if a mod 4 = 1 then PSecp else PDelegated 10 (replicate 20 (a div 4))),
      gl_id_addr = (\<lambda>i. 2 * i), gl_delegated = (\<lambda>ns sub. 4 * last sub + 3), gl_public_key = (\<lambda>k. replicate 65 k),
      gl_keccak = (\<lambda>x. replicate 12 0 @ 1 # tl x), gl_fnv = length, gl_hex = (\<lambda>a. replicate 40 CHR ''f''),
      gl_unhex = (\<lambda>x. Ok (map of_char x)), gl_evm_params = (\<lambda>c code. Ok (c @ code)), gl_decode_bytes = Ok,
      gl_constructor = (\<lambda>_. None), gl_functions = (\<lambda>_. [])\<rparr>"

lemma sample_genesis_tree_ok: "genesis_tree_ok sample_genesis_lib map_of"
  by (auto simp: genesis_tree_ok_def sample_genesis_lib_def update_conv' split: option.splits)

definition sample_genesis :: "(nat, nat) Genesis" where
  "sample_genesis =
     \<lparr>gen_chain_name = ''/r5'', gen_timestamp = 50, gen_network_version = 21, gen_base_fee = 100, gen_power_scale = 3,
      gen_validators = [(7, 10 ^ 18)],
      gen_accounts =
        [\<lparr>actor_meta = MetaAccount \<lparr>acct_owner = 5\<rparr>, actor_balance = 70\<rparr>,
         \<lparr>actor_meta = MetaMultisig \<lparr>ms_signers = [5, 13], ms_threshold = 2, ms_vesting_duration = 0, ms_vesting_start = 0\<rparr>,
          actor_balance = 30\<rparr>,
         \<lparr>actor_meta = MetaAccount \<lparr>acct_owner = 7\<rparr>, actor_balance = 8\<rparr>],
      gen_eam_permission_mode = GenUnrestricted, gen_ipc = None\<rparr>"

definition sample_contracts :: contracts_dir where
  "sample_contracts =
     [((''A.sol'', ''A''), Ok \<lparr>art_bytecode = \<lparr>bc_object = ''0x'' @ replicate 50 CHR ''0'',
        link_references = [([''L.sol''], [(''L'', [\<lparr>pos_start = 1, pos_length = 20\<rparr>])])]\<rparr>\<rparr>),
      ((''L.sol'', ''L''), Ok \<lparr>art_bytecode = \<lparr>bc_object = ''0x00'', link_references = []\<rparr>\<rparr>),
      ((''T.sol'', ''T''), Ok \<lparr>art_bytecode = \<lparr>bc_object = ''0x00'', link_references = [([''L.sol''], [(''L'', [])])]\<rparr>\<rparr>)]"

definition sample_top :: EthContractMap where
  "sample_top = [(''T'', \<lparr>ec_actor_id = 64, ec_facets = [''A'']\<rparr>)]"

definition sample_genesis_state :: "(unit, accounts, accounts) FvmGenesisState" where
  "sample_genesis_state =
     \<lparr>manifest_data_cid = [2], gs_manifest = map (\<lambda>i. (i, i)) [1, 2, 3, 4, 9, 14, 15, 16, 17],
      custom_actor_manifest = [(''eam'', 15), (''chainmetadata'', 48), (''objectstore'', 50), (''accumulator'', 51)],
      gs_store = (), gs_stage = TreeStage []\<rparr>"

lemma sample_genesis_state_new: "genesis_state_new sample_genesis_lib [] [] () = Ok sample_genesis_state"
  by (simp add: genesis_state_new_def parse_bundle_def sample_genesis_lib_def sample_get_def manifest_load_def
      get_manifest_def manifest_new_def hm_from_def REQUIRED_ACTORS_def sample_genesis_state_def)

text \<open>The state while it is a tree, and what the operations make of the tree.\<close>

definition tree_state :: "accounts \<Rightarrow> (unit, accounts, accounts) FvmGenesisState" where
  "tree_state t = sample_genesis_state\<lparr>gs_stage := TreeStage t\<rparr>"

definition new_actor :: "nat \<Rightarrow> nat actor_obj \<Rightarrow> int \<Rightarrow> nat option \<Rightarrow> nat ActorState" where
  "new_actor code obj b del =
     \<lparr>act_code = code, act_state = (case obj of SystemObj c \<Rightarrow> 1 # c | _ \<Rightarrow> [2]), act_sequence = 0, act_balance = b,
      act_delegated = del\<rparr>"

lemma tree_state_nil: "sample_genesis_state = tree_state []"
  by (simp add: tree_state_def sample_genesis_state_def)

lemma tree_state_sel:
  "gs_manifest (tree_state t) = map (\<lambda>i. (i, i)) [1, 2, 3, 4, 9, 14, 15, 16, 17]" "manifest_data_cid (tree_state t) = [2]"
  "custom_actor_manifest (tree_state t) = [(''eam'', 15), (''chainmetadata'', 48), (''objectstore'', 50), (''accumulator'', 51)]"
  "gs_store (tree_state t) = ()" "gs_stage (tree_state t) = TreeStage t" "(tree_state t)\<lparr>gs_store := bs\<rparr> = tree_state t"
  "(tree_state t)\<lparr>gs_stage := TreeStage t'\<rparr> = tree_state t'"
  by (simp_all add: tree_state_def sample_genesis_state_def)

lemma sample_internal:
  "create_actor_internal sample_genesis_lib mx code i obj b del (tree_state t) = Ok (tree_state (AList.update i (new_actor code obj b del) t))"
  by (simp add: create_actor_internal_def put_state_def state_flush_def state_set_actor_def sample_genesis_lib_def sample_put_def
      new_actor_def tree_state_sel with_context_def split: actor_obj.splits)

lemma sample_builtin:
  "code \<in> {1, 2, 3, 4, 9, 14, 15, 16, 17} \<Longrightarrow> create_builtin_actor sample_genesis_lib mx code i obj b del (tree_state t) =
     Ok (tree_state (AList.update i (new_actor code obj b del) t))"
  by (auto simp: create_builtin_actor_def sample_internal tree_state_sel)

lemma sample_custom:
  "create_custom_actor sample_genesis_lib mx ''chainmetadata'' i obj b del (tree_state t) =
     Ok (tree_state (AList.update i (new_actor 48 obj b del) t))"
  by (simp add: create_custom_actor_def sample_internal tree_state_sel)

lemma sample_replace:
  assumes "hm_get t 0 = Some (new_actor 1 (SystemObj [2]) 0 None)"
  shows "replace_builtin_actor sample_genesis_lib mx ''eam'' i ''eam'' obj b del (tree_state t) =
     Ok (tree_state (AList.update i (new_actor 15 obj b del) (AList.update 0 (new_actor 1 (SystemObj [2]) 0 None) t)))"
proof -
  have "update_system_actor_manifest sample_genesis_lib mx ''eam'' ''eam'' (tree_state t) =
      Ok (15, tree_state (AList.update 0 (new_actor 1 (SystemObj [2]) 0 None) t))"
    using assms
    by (simp add: update_system_actor_manifest_def get_system_state_def get_manifest_def put_state_def
        state_get_actor_def state_mutate_actor_def sample_genesis_lib_def sample_put_def sample_get_def SYSTEM_ACTOR_ID_def
        tree_state_sel with_context_def new_actor_def)
  then show ?thesis by (simp add: replace_builtin_actor_def sample_internal with_context_def)
qed

lemma sample_with_store: "with_store f (tree_state t) = omap (\<lambda>(x, _). (x, tree_state t)) (f ())"
  by (simp add: with_store_def tree_state_sel)

lemma with_context_value: "with_context c (Ok x) = Ok x"
  by (simp add: with_context_def)

lemma sample_lib_sel:
  "gl_address_map sample_genesis_lib = sample_address_map" "gl_blockhashes sample_genesis_lib = empty_kv"
  "gl_deployers sample_genesis_lib = empty_kv" "gl_pending_txs sample_genesis_lib = empty_kv"
  "gl_adm_new sample_genesis_lib = (\<lambda>codes bs. Ok (map snd codes, bs))" "gl_tree_get sample_genesis_lib = (\<lambda>i t. Ok (hm_get t i))"
  "gl_id_addr sample_genesis_lib = (\<lambda>i. 2 * i)"
  "gl_payload sample_genesis_lib =
     (\<lambda>a. if even a then PID (a div 2) else if a mod 4 = 1 then PSecp else PDelegated 10 (replicate 20 (a div 4)))"
  by (simp_all add: sample_genesis_lib_def)

lemma sample_cm_new: "cm_new empty_kv n () = Ok (\<lparr>cm_blockhashes = [0], cm_lookback_len = n\<rparr>, ())"
  by (simp add: cm_new_def empty_kv_def)

lemmas sample_eval = sample_builtin sample_custom sample_replace sample_with_store with_context_value tree_state_sel sample_lib_sel
  sample_cm_new SYSTEM_ACTOR_ID_def EAM_ACTOR_ID_def

definition sample_init :: InitState where
  "sample_init = \<lparr>is_address_map = [3, 0, 5, 100, 7, 102, 13, 101, 419, 104, 423, 105], is_next_id = 106, is_network_name = ''/r5''\<rparr>"

lemma sample_eth_addr: "address_of_eth sample_genesis_lib (builtin_actor_eth_addr sample_genesis_lib i) = 4 * (i mod 256) + 3"
proof -
  have len: "length (to_be_bytes i) = 8" "last (to_be_bytes i) = i mod 256" by (simp_all add: to_be_bytes_def upt_rec)
  then have "builtin_actor_eth_addr sample_genesis_lib i = 1 # replicate 11 0 @ to_be_bytes i"
    by (simp add: builtin_actor_eth_addr_def eth_from_id_def sample_genesis_lib_def)
  moreover have "to_be_bytes i \<noteq> []" using len(1) by auto
  ultimately show ?thesis using len(2) by (simp add: address_of_eth_def is_masked_id_def sample_genesis_lib_def)
qed

lemma sample_null_addr: "address_of_eth sample_genesis_lib (replicate 20 0) = 3"
  by (simp add: address_of_eth_def is_masked_id_def sample_genesis_lib_def)

lemma sample_init_new:
  "init_state_new sample_genesis_lib (gen_chain_name sample_genesis) (gen_accounts sample_genesis) [] 2 () = Ok ((sample_init, [(5, 100), (13, 101), (7, 102)]), ())"
  by (simp add: init_state_new_def sample_eth_addr sample_null_addr sample_lib_sel sample_genesis_def sample_address_map_def mem_kv_of_def
      FIRST_NON_SINGLETON_ADDR_def with_context_value sample_init_def)

definition sample_builtin_tree :: accounts where
  "sample_builtin_tree =
     [(0, new_actor 1 (SystemObj [2]) 0 None), (1, new_actor 2 (InitObj sample_init) 0 None), (3, new_actor 3 CronObj 0 None),
      (10, new_actor 15 (EamObj \<lparr>permission_mode = Unrestricted\<rparr>) 0 None), (99, new_actor 4 (AccountObj 198) 0 None),
      (2, new_actor 4 (AccountObj 4) 0 None), (17, new_actor 17 (AdmObj [50, 51]) 0 None),
      (48, new_actor 48 (ChainMetadataObj \<lparr>cm_blockhashes = [0], cm_lookback_len = DEFAULT_LOOKBACK_LEN\<rparr>) 0 None)]"

lemma sample_stage1:
  "genesis_builtin_actors sample_genesis_lib sample_machine sample_genesis [] 2 sample_genesis_state =
     Ok ((sample_init, [(5, 100), (13, 101), (7, 102)]), tree_state sample_builtin_tree)"
proof -
  have eam: "permission_mode_params (gen_eam_permission_mode sample_genesis) = UnrestrictedParams" by (simp add: sample_genesis_def)
  show ?thesis
    by (simp add: genesis_builtin_actors_def tree_state_nil sample_eval sample_init_new eam eam_new_def sample_builtin_tree_def)
qed

definition sample_tree :: accounts where
  "sample_tree = sample_builtin_tree @
     [(100, new_actor 4 (AccountObj 5) 70 None), (101, new_actor 4 (AccountObj 13) 0 None),
      (103, new_actor 9 (MultisigObj \<lparr>mss_signers = [200, 202], mss_num_approvals_threshold = 2, mss_next_tx_id = 0,
         mss_initial_balance = 30, mss_start_epoch = 0, mss_unlock_duration = 0, mss_pending_txs = [0]\<rparr>) 30 None),
      (102, new_actor 16 EmptyArrObj 8 (Some 7))]"

lemma sample_actors:
  "genesis_actors sample_genesis_lib sample_machine sample_genesis [] 2 sample_genesis_state = Ok (sample_init, 104, tree_state sample_tree)"
  by (simp add: genesis_actors_def sample_stage1)
   (simp add: sample_genesis_def FIRST_NON_SINGLETON_ADDR_def create_account_actor_def create_multisig_actor_def multisig_state_new_def
      state_get_actor_def sample_eval empty_kv_def as_i64_def sample_tree_def sample_builtin_tree_def)

text \<open>The state while there is an executor: deploying a contract succeeds.\<close>

definition exec_stage :: "accounts \<Rightarrow> (unit, accounts, accounts) FvmGenesisState" where
  "exec_stage s = sample_genesis_state\<lparr>gs_stage := ExecStage
     (exec_state_new s \<lparr>app_version = 0, base_fee = 100, circ_supply = 108, power_scale = 3\<rparr>)\<rparr>"

lemma sample_evm: "\<exists>s' e. create_evm_actor sample_genesis_lib sample_machine i code (exec_stage s) = Ok (e, exec_stage s')"
proof -
  have addr: "gl_payload sample_genesis_lib (4 * (i mod 256) + 3) = PDelegated 10 (replicate 20 (i mod 256))" by (simp add: sample_lib_sel)
  show ?thesis
    unfolding create_evm_actor_def Let_def sample_eth_addr addr
    by (simp add: exec_stage_def sample_genesis_state_def sample_genesis_lib_def create_builtin_actor_def create_actor_internal_def
        put_state_def state_set_actor_def state_flush_def sample_put_def with_context_value execute_implicit_def execute_message_def
        emitter_delegated_addresses_def sample_machine_def exec_state_new_def Let_def)
qed

definition sample_libs :: "(ContractSource \<times> ContractName) list" where
  "sample_libs = [([''L.sol''], ''L''), ([''A.sol''], ''A'')]"

lemma sample_deploy:
  assumes "bytecode (gl_hex sample_genesis_lib) (gl_unhex sample_genesis_lib) (hardhat d) src name (lib_addrs d) = Ok code"
  shows "\<exists>s'. deploy_library sample_genesis_lib sample_machine src name i d (exec_stage s) =
     Ok (i + 1, d\<lparr>lib_addrs := AList.update (fqn src name) (eth_from_id i) (lib_addrs d)\<rparr>, exec_stage s')"
proof -
  obtain s' e where "create_evm_actor sample_genesis_lib sample_machine i code (exec_stage s) = Ok (e, exec_stage s')"
    using sample_evm by blast
  then show ?thesis using assms by (auto simp: deploy_library_def Let_def with_context_value)
qed

lemma sample_bytecode:
  "\<exists>code. bytecode (gl_hex sample_genesis_lib) (gl_unhex sample_genesis_lib) sample_contracts [''L.sol''] ''L'' [] = Ok code"
  "\<exists>code. bytecode (gl_hex sample_genesis_lib) (gl_unhex sample_genesis_lib) sample_contracts [''A.sol''] ''A''
     [(''L.sol:L'', a)] = Ok code"
  by (simp_all add: bytecode_def artifact_def sample_contracts_def with_context_value libraries_needed_def resolve_library_def fqn_def
      library_positions_def replace_range_def sample_genesis_lib_def)

abbreviation sample_deployer :: ContractDeployer where
  "sample_deployer \<equiv> deployer_new sample_contracts sample_top"

abbreviation sample_deployer1 :: ContractDeployer where
  "sample_deployer1 \<equiv> sample_deployer\<lparr>lib_addrs := [(''L.sol:L'', eth_from_id 104)]\<rparr>"

lemma sample_deploy_first:
  "\<exists>s'. deploy_library sample_genesis_lib sample_machine [''L.sol''] ''L'' 104 sample_deployer (exec_stage s) =
     Ok (105, sample_deployer1, exec_stage s')"
  using sample_bytecode(1) sample_deploy [of sample_deployer "[''L.sol'']" "''L''" _ 104 s] by (auto simp: deployer_new_def fqn_def)

lemma sample_deploy_libraries:
  "\<exists>d s'. deploy_libraries sample_genesis_lib sample_machine sample_libs 104 sample_deployer (exec_stage s) = Ok (106, d, exec_stage s')"
proof -
  obtain s1 where "deploy_library sample_genesis_lib sample_machine [''L.sol''] ''L'' 104 sample_deployer (exec_stage s) =
      Ok (105, sample_deployer1, exec_stage s1)"
    using sample_deploy_first by blast
  moreover obtain code where code: "bytecode (gl_hex sample_genesis_lib) (gl_unhex sample_genesis_lib) (hardhat sample_deployer1) [''A.sol''] ''A''
      (lib_addrs sample_deployer1) = Ok code"
    using sample_bytecode(2) [of "eth_from_id 104"] by (auto simp: deployer_new_def)
  moreover obtain s2 d2 where "deploy_library sample_genesis_lib sample_machine [''A.sol''] ''A'' 105 sample_deployer1 (exec_stage s1) =
      Ok (106, d2, exec_stage s2)"
    using sample_deploy [OF code, of 105 s1] by auto
  ultimately show ?thesis by (auto simp: sample_libs_def)
qed

theorem genesis_supply_witness:
  "\<exists>t. gs_stage (tree_state sample_tree) = TreeStage t \<and>
     (\<Sum>i<104. case map_of t i of Some a \<Rightarrow> act_balance a | None \<Rightarrow> 0) = genesis_circ_supply sample_genesis \<and>
     genesis_circ_supply sample_genesis = 108"
proof -
  have "distinct (account_owners (gen_accounts sample_genesis))" by (simp add: account_owners_def sample_genesis_def)
  then show ?thesis
    using genesis_supply [OF sample_genesis_tree_ok sample_genesis_state_new sample_actors]
    by (auto simp: genesis_circ_supply_def sample_genesis_def)
qed

theorem genesis_ids_witness: "is_next_id sample_init = 106 \<and> card (account_addresses (gen_accounts sample_genesis)) = 3"
proof -
  have len: "length sample_libs = 2" by (simp add: sample_libs_def)
  obtain d s' where dep: "deploy_libraries sample_genesis_lib sample_machine sample_libs 104 (deployer_new sample_contracts sample_top) (exec_stage []) =
      Ok (106, d, exec_stage s')"
    using sample_deploy_libraries by blast
  have kv: "kv_ok (gl_address_map sample_genesis_lib) mem_rep (\<lambda>s c m. \<exists>h. unpairs c = Some h \<and> mem_rep s h m) (\<lambda>_ _. True) (\<lambda>_. True)"
    using sample_address_map_ok by (simp add: sample_lib_sel)
  have "multisig_count (gen_accounts sample_genesis) = 1" by (simp add: multisig_count_def sample_genesis_def)
  then show ?thesis using genesis_ids [OF kv sample_actors [folded len] dep] by simp
qed

lemma sample_libraries: "genesis_libraries sample_contracts sample_top = Ok sample_libs"
  by code_simp


text \<open>Of two accounts with the same owner the second replaces the first in the state tree, with its balance, while the
  circulating supply has both.\<close>

lemma duplicate_owner_supply:
  "genesis_accounts sample_genesis_lib sample_machine [(5, 100)]
     [\<lparr>actor_meta = MetaAccount \<lparr>acct_owner = 5\<rparr>, actor_balance = 70\<rparr>,
      \<lparr>actor_meta = MetaAccount \<lparr>acct_owner = 5\<rparr>, actor_balance = 8\<rparr>] 101 (tree_state []) =
     Ok (101, tree_state [(100, new_actor 4 (AccountObj 5) 8 None)])"
  by (simp add: create_account_actor_def sample_eval)

end
