(* ===== verification/Abci_App.thy ===== *)
theory Abci_App
  imports Bytes_Interpreter Snapshots Genesis
begin

text \<open>
  The application that consensus talks to (\<open>fendermint/app/src/app.rs\<close>), the conversions to its types
  (\<open>fendermint/app/src/tmconv.rs\<close>) and the limit on the size of a proposal (\<open>fendermint/abci/src/util.rs\<close>).

  The database is part of the state of the application; reading and writing it does not fail. The
  interpreter comes in as a record of functions, one for each trait the application asks for, and the
  node instantiates it with the interpreters of the other theories. The handlers return the application
  next to their outcome, since what they did to it before they failed stays.
\<close>

section \<open>Conversions\<close>

definition I64_MAX :: nat where
  "I64_MAX = 2 ^ 63 - 1"

text \<open>The values of the exit codes.\<close>

fun exit_value :: "ExitCode \<Rightarrow> nat" where
  "exit_value EXIT_OK = 0"
| "exit_value SYS_SENDER_INVALID = 1"
| "exit_value SYS_SENDER_STATE_INVALID = 2"
| "exit_value SYS_INSUFFICIENT_FUNDS = 6"
| "exit_value SYS_OUT_OF_GAS = 7"
| "exit_value SYS_ASSERTION_FAILED = 10"
| "exit_value ExitCode.USR_INSUFFICIENT_FUNDS = 19"
| "exit_value (OtherCode n) = n"

datatype AppError = InvalidEncoding | InvalidSignature | IllegalMessageError | NotInitialized

fun app_error_code :: "AppError \<Rightarrow> nat" where
  "app_error_code InvalidEncoding = 51"
| "app_error_code InvalidSignature = 52"
| "app_error_code IllegalMessageError = 53"
| "app_error_code NotInitialized = 54"

text \<open>A response to a transaction or to a check; events are left out.\<close>

record TxResponse =
  tx_code :: nat
  tx_data :: "nat list"
  tx_info :: string
  tx_gas_wanted :: nat
  tx_gas_used :: nat

definition invalid_tx :: "AppError \<Rightarrow> string \<Rightarrow> TxResponse" where
  "invalid_tx err description =
     \<lparr>tx_code = app_error_code err, tx_data = [], tx_info = description, tx_gas_wanted = 0, tx_gas_used = 0\<rparr>"

definition error_messages :: "(nat \<times> string) list" where
  "error_messages =
     [(0, ''''),
      (1, ''The message sender doesn't exist.''),
      (2, ''The message sender was not in a valid state to send this message. '' @
          ''Either the nonce didn't match, or the sender didn't have funds to cover the message gas.''),
      (4, ''The message receiver trapped (panicked).''),
      (5, ''The message receiver doesn't exist and can't be automatically created''),
      (6, ''The message sender didn't have the requisite funds.''),
      (7, ''Message execution (including subcalls) used more gas than the specified limit.''),
      (9, ''The message receiver aborted with a reserved exit code.''),
      (10, ''An internal VM assertion failed.''),
      (11, ''The actor returned a block handle that doesn't exist''),
      (16, ''The method parameters are invalid.''),
      (17, ''The requested resource does not exist.''),
      (18, ''The requested operation is forbidden.''),
      (19, ''The actor has insufficient funds to perform the requested operation.''),
      (20, ''The actor's internal state is invalid.''),
      (21, ''There was a de/serialization failure within actor code.''),
      (22, ''The message cannot be handled (usually indicates an unhandled method number).''),
      (23, ''The actor failed with an unspecified error.''),
      (24, ''The actor failed a user-level assertion.''),
      (25, ''The requested operation cannot be performed in 'read-only' mode.''),
      (26, ''The method cannot handle a transfer of value.'')]"

definition to_error_msg :: "ExitCode \<Rightarrow> string" where
  "to_error_msg code = (case map_of error_messages (exit_value code) of Some s \<Rightarrow> s | None \<Rightarrow> '''')"

definition message_or :: "string option \<Rightarrow> ExitCode \<Rightarrow> string" where
  "message_or info code =
     (case info of
        Some s \<Rightarrow> if s = '''' then to_error_msg code else s
      | None \<Rightarrow> to_error_msg code)"

definition to_deliver_tx :: "'a FvmApplyRet \<Rightarrow> TxResponse" where
  "to_deliver_tx ret =
     (let r = far_apply_ret ret in
      \<lparr>tx_code = exit_value (exit_code r), tx_data = return_data r,
       tx_info = message_or (failure_info r) (exit_code r),
       tx_gas_wanted = min (far_gas_limit ret) I64_MAX, tx_gas_used = min (gas_used r) I64_MAX\<rparr>)"

definition to_check_tx :: "'a FvmCheckRet \<Rightarrow> TxResponse" where
  "to_check_tx ret =
     \<lparr>tx_code = exit_value (chk_exit_code ret),
      tx_data = (case chk_return_data ret of Some d \<Rightarrow> d | None \<Rightarrow> []),
      tx_info = message_or (chk_info ret) (chk_exit_code ret),
      tx_gas_wanted = min (chk_gas_limit ret) I64_MAX, tx_gas_used = 0\<rparr>"

text \<open>Validator updates: the key has to be one that consensus knows, and the power has to fit.\<close>

definition to_validator_updates ::
  "('k \<Rightarrow> (string, 'p) outcome) \<Rightarrow> 'k Validator list \<Rightarrow> (string, ('p \<times> nat) list) outcome" where
  "to_validator_updates key =
     try_all (\<lambda>v. obind (key (val_key v)) (\<lambda>k.
       if val_power v \<le> I64_MAX then Ok (k, val_power v) else Err ''power overflow''))"

definition to_timestamp :: "int \<Rightarrow> ('e, nat) outcome" where
  "to_timestamp time = (if time < 0 then Panic else Ok (nat time))"

definition to_height :: "nat \<Rightarrow> (string, nat) outcome" where
  "to_height h = (if h \<le> I64_MAX then Ok h else Err ''height too big'')"

text \<open>Snapshots as consensus sees them; \<open>encode_meta\<close> and \<open>decode_meta\<close> are the IPLD encoding of the metadata,
  \<open>app_hash\<close> is the identifier of the parameters and \<open>parse_hash\<close> the conversion of the checksum.\<close>

record AbciSnapshot =
  as_height :: nat
  as_format :: nat
  as_chunks :: nat
  as_hash :: "nat list"
  as_metadata :: "nat list"

definition to_snapshot ::
  "(nat \<times> FvmStateParams \<Rightarrow> (string, nat list) outcome) \<Rightarrow> SnapshotItem \<Rightarrow> (string, AbciSnapshot) outcome" where
  "to_snapshot encode_meta item =
     (let m = si_manifest item in
      if sm_block_height m > I64_MAX then Panic
      else obind (encode_meta (sm_size m, sm_state_params m)) (\<lambda>metadata.
        Ok \<lparr>as_height = sm_block_height m, as_format = sm_version m, as_chunks = sm_chunks m,
            as_hash = sm_checksum m, as_metadata = metadata\<rparr>))"

definition from_snapshot ::
  "(nat list \<Rightarrow> (string, nat \<times> FvmStateParams) outcome) \<Rightarrow> (FvmStateParams \<Rightarrow> nat list) \<Rightarrow>
     (nat list \<Rightarrow> (string, nat list) outcome) \<Rightarrow> AbciSnapshot \<Rightarrow> nat list \<Rightarrow> (string, SnapshotManifest) outcome" where
  "from_snapshot decode_meta app_hash parse_hash sn offered_hash =
     obind (with_context ''failed to parse snapshot metadata'' (decode_meta (as_metadata sn))) (\<lambda>(meta_size, ps).
     if app_hash ps \<noteq> offered_hash then Err ''the application hash does not match the metadata''
     else obind (with_context ''failed to parse checksum'' (parse_hash (as_hash sn))) (\<lambda>checksum.
     Ok \<lparr>sm_block_height = as_height sn, sm_size = meta_size, sm_chunks = as_chunks sn, sm_checksum = checksum,
         sm_state_params = ps, sm_version = as_format sn\<rparr>))"

section \<open>Heights of queries\<close>

datatype FvmQueryHeight = Committed | Pending | Height nat

definition query_height_from :: "nat \<Rightarrow> FvmQueryHeight" where
  "query_height_from n = (if n = 0 then Committed else if n \<ge> I64_MAX then Pending else Height n)"

fun query_height_into :: "FvmQueryHeight \<Rightarrow> nat" where
  "query_height_into Committed = 0"
| "query_height_into Pending = I64_MAX"
| "query_height_into (Height n) = n"

section \<open>The size of a proposal\<close>

fun take_until_max_size :: "nat list list \<Rightarrow> nat \<Rightarrow> nat \<Rightarrow> nat list list" where
  "take_until_max_size [] max_tx_bytes so_far = []"
| "take_until_max_size (tx # txs) max_tx_bytes so_far =
     (if min (so_far + length tx) (U64 - 1) > max_tx_bytes then []
      else tx # take_until_max_size txs max_tx_bytes (so_far + length tx))"

section \<open>The state of the application\<close>

record AppState =
  st_block_height :: nat
  st_oldest_state_height :: nat
  st_state_params :: FvmStateParams

definition state_height :: "AppState \<Rightarrow> nat" where
  "state_height st = add_u64 (st_block_height st) 1"

record ('a, 'k, 's, 'b) App =
  app_committed :: "AppState option"
  app_state_hist :: "(nat, FvmStateParams) hmap"
  app_state_hist_size :: nat
  app_halt_height :: int
  app_exec_state :: "'s FvmExecState option"
  app_check_state :: "'s FvmExecState option"
  app_chain_env :: "('a, 'k) ChainEnv"
  app_snapshots :: "SnapshotClient option"
  app_store :: 'b


text \<open>The interpreter, and what else the handlers call: creating an empty state tree and, from the bundles and
  the genesis file, the genesis state, both with their roots; creating and flushing an executor; the context
  of the executor; and the conversions.\<close>

record ('a, 'k, 's, 'b, 'p) app_context =
  ax_machine :: "('a, 's) machine"
  ax_empty_tree :: "'b \<Rightarrow> 'b \<times> (string, nat list) outcome"
  ax_genesis :: "nat list \<Rightarrow> 'b \<Rightarrow> 'b \<times> (string, nat list \<times> 'k FvmGenesisOutput) outcome"
  ax_new_executor :: "'b \<Rightarrow> int \<Rightarrow> FvmStateParams \<Rightarrow> (string, 's) outcome"
  ax_flush :: "'s \<Rightarrow> 'b \<Rightarrow> 'b \<times> (string, nat list) outcome"
  ax_timestamp :: "'s \<Rightarrow> nat"
  ax_query_context :: "'b \<Rightarrow> ('a, 's) query_context"
  ax_prepare :: "('a, 'k) ChainEnv \<Rightarrow> 's FvmExecState \<Rightarrow> nat list list \<Rightarrow>
     ('a, 'k) ChainEnv \<times> (string, nat list list) outcome"
  ax_process :: "('a, 'k) ChainEnv \<Rightarrow> 's FvmExecState \<Rightarrow> nat list list \<Rightarrow>
     ('a, 'k) ChainEnv \<times> (string, bool) outcome"
  ax_begin :: "('a, 'k) ChainEnv \<times> 's FvmExecState \<Rightarrow>
     (string, (('a, 'k) ChainEnv \<times> 's FvmExecState) \<times> 'a FvmApplyRet) outcome"
  ax_deliver :: "('a, 'k) ChainEnv \<times> 's FvmExecState \<Rightarrow> nat list \<Rightarrow>
     (string, (('a, 'k) ChainEnv \<times> 's FvmExecState) \<times> (string + 'a ChainMessageApplyRet)) outcome"
  ax_end :: "('a, 'k) ChainEnv \<times> 's FvmExecState \<Rightarrow>
     (string, (('a, 'k) ChainEnv \<times> 's FvmExecState) \<times> 'k Validator list) outcome"
  ax_check :: "'s FvmExecState \<Rightarrow> nat list \<Rightarrow> bool \<Rightarrow>
     (string, 's FvmExecState \<times> (string + (IllegalMessage + (string + 'a FvmCheckRet)))) outcome"
  ax_query :: "'b \<Rightarrow> string \<Rightarrow> nat list \<Rightarrow> 's FvmQueryState \<Rightarrow>
     ('s FvmQueryState \<times> (string, string + 'a FvmQueryRet) outcome) option"
  ax_encode_ret :: "'a FvmQueryRet \<Rightarrow> (string, nat list \<times> nat list) outcome"
  ax_validator_key :: "'k \<Rightarrow> (string, 'p) outcome"
  ax_app_hash :: "FvmStateParams \<Rightarrow> nat list"
  ax_snapshot_lib :: "'b snapshot_lib"
  ax_sha256 :: "nat list \<Rightarrow> nat list"
  ax_encode_meta :: "nat \<times> FvmStateParams \<Rightarrow> (string, nat list) outcome"
  ax_decode_meta :: "nat list \<Rightarrow> (string, nat \<times> FvmStateParams) outcome"
  ax_parse_hash :: "nat list \<Rightarrow> (string, nat list) outcome"

definition committed_state :: "('a, 'k, 's, 'b) App \<Rightarrow> (string, AppState) outcome" where
  "committed_state app =
     (case app_committed app of Some st \<Rightarrow> Ok st | None \<Rightarrow> Err ''app state not found'')"

text \<open>The loop that deletes states up to \<open>prune_height\<close>.\<close>

function prune_hist ::
  "nat \<Rightarrow> nat \<Rightarrow> (nat, FvmStateParams) hmap \<Rightarrow> nat \<times> (nat, FvmStateParams) hmap" where
  "prune_hist prune_height oldest hist =
     (if oldest \<le> prune_height then prune_hist prune_height (oldest + 1) (AList.delete oldest hist)
      else (oldest, hist))"
  by auto
termination by (relation "measure (\<lambda>(p, oldest, h). Suc p - oldest)") auto

declare prune_hist.simps [simp del]

definition set_committed_state :: "AppState \<Rightarrow> ('a, 'k, 's, 'b) App \<Rightarrow> ('a, 'k, 's, 'b) App" where
  "set_committed_state st app =
     (let hist = AList.update (state_height st) (st_state_params st) (app_state_hist app) in
      case (if app_state_hist_size app > 0 \<and> state_height st \<ge> app_state_hist_size app
            then prune_hist (state_height st - app_state_hist_size app) (st_oldest_state_height st) hist
            else (st_oldest_state_height st, hist)) of
        (oldest, hist) \<Rightarrow>
          app\<lparr>app_state_hist := hist, app_committed := Some (st\<lparr>st_oldest_state_height := oldest\<rparr>)\<rparr>)"

definition empty_params :: "nat list \<Rightarrow> FvmStateParams" where
  "empty_params state_root =
     \<lparr>sp_state_root = state_root, sp_timestamp = 0, sp_network_version = 0, sp_base_fee = 0, sp_circ_supply = 0,
      sp_chain_id = 0, sp_power_scale = 0, sp_app_version = 0\<rparr>"

definition init_committed_state ::
  "('a, 'k, 's, 'b, 'p) app_context \<Rightarrow> ('a, 'k, 's, 'b) App \<Rightarrow> ('a, 'k, 's, 'b) App \<times> (string, unit) outcome" where
  "init_committed_state ax app =
     (if app_committed app \<noteq> None then (app, Ok ())
      else case ax_empty_tree ax (app_store app) of
             (bs, r) \<Rightarrow>
               let app = app\<lparr>app_store := bs\<rparr> in
               case with_context ''failed to create empty state tree'' r of
                 Ok state_root \<Rightarrow>
                   (set_committed_state
                      \<lparr>st_block_height = 0, st_oldest_state_height = 0, st_state_params = empty_params state_root\<rparr> app,
                    Ok ())
               | Err e \<Rightarrow> (app, Err e)
               | Retry \<Rightarrow> (app, Retry)
               | Panic \<Rightarrow> (app, Panic))"

definition app_new ::
  "('a, 'k, 's, 'b, 'p) app_context \<Rightarrow> AppState option \<Rightarrow> (nat, FvmStateParams) hmap \<Rightarrow> nat \<Rightarrow> int \<Rightarrow>
     ('a, 'k) ChainEnv \<Rightarrow> SnapshotClient option \<Rightarrow> 'b \<Rightarrow> ('a, 'k, 's, 'b) App \<times> (string, unit) outcome" where
  "app_new ax committed hist hist_size halt_height env snapshots bs =
     init_committed_state ax
       \<lparr>app_committed = committed, app_state_hist = hist, app_state_hist_size = hist_size,
        app_halt_height = halt_height, app_exec_state = None, app_check_state = None, app_chain_env = env,
        app_snapshots = snapshots, app_store = bs\<rparr>"

definition put_exec_state ::
  "'s FvmExecState \<Rightarrow> ('a, 'k, 's, 'b) App \<Rightarrow> ('e, ('a, 'k, 's, 'b) App) outcome" where
  "put_exec_state st app =
     (if app_exec_state app \<noteq> None then Panic else Ok (app\<lparr>app_exec_state := Some st\<rparr>))"

text \<open>On an error the execution state has been taken out and is lost.\<close>

definition modify_exec_state ::
  "(('a, 'k) ChainEnv \<times> 's FvmExecState \<Rightarrow> (string, (('a, 'k) ChainEnv \<times> 's FvmExecState) \<times> 't) outcome) \<Rightarrow>
     ('a, 'k, 's, 'b) App \<Rightarrow> ('a, 'k, 's, 'b) App \<times> (string, 't) outcome" where
  "modify_exec_state f app =
     (case app_exec_state app of
        None \<Rightarrow> (app, Panic)
      | Some st \<Rightarrow>
          (case f (app_chain_env app, st) of
             Ok ((env, st), ret) \<Rightarrow> (app\<lparr>app_chain_env := env, app_exec_state := Some st\<rparr>, Ok ret)
           | Err e \<Rightarrow> (app\<lparr>app_exec_state := None\<rparr>, Err e)
           | Retry \<Rightarrow> (app\<lparr>app_exec_state := None\<rparr>, Retry)
           | Panic \<Rightarrow> (app\<lparr>app_exec_state := None\<rparr>, Panic)))"

definition can_query_state :: "nat \<Rightarrow> FvmStateParams \<Rightarrow> bool" where
  "can_query_state height ps = (\<not> (height = 0 \<and> sp_timestamp ps = 0 \<and> sp_network_version ps = 0))"

definition new_read_only_exec_state ::
  "('a, 'k, 's, 'b, 'p) app_context \<Rightarrow> ('a, 'k, 's, 'b) App \<Rightarrow> (string, 's FvmExecState option) outcome" where
  "new_read_only_exec_state ax app =
     (case app_committed app of
        Some st \<Rightarrow>
          if \<not> can_query_state (st_block_height st) (st_state_params st) then Ok None
          else omap Some (with_context ''error creating execution state''
            (exec_state_at (ax_new_executor ax (app_store app)) (as_epoch (st_block_height st)) (st_state_params st)))
      | None \<Rightarrow> Ok None)"

definition state_params_at_height ::
  "FvmQueryHeight \<Rightarrow> ('a, 'k, 's, 'b) App \<Rightarrow> (string, FvmStateParams \<times> nat) outcome" where
  "state_params_at_height height app =
     (let latest = omap (\<lambda>st. (st_state_params st, st_block_height st)) (committed_state app) in
      case height of
        Height h \<Rightarrow> (case map_of (app_state_hist app) h of Some p \<Rightarrow> Ok (p, h) | None \<Rightarrow> latest)
      | _ \<Rightarrow> latest)"

section \<open>The handlers\<close>

record InfoResponse =
  in_app_version :: nat
  in_last_block_height :: nat
  in_last_block_app_hash :: "nat list"

definition app_info ::
  "('a, 'k, 's, 'b, 'p) app_context \<Rightarrow> ('a, 'k, 's, 'b) App \<Rightarrow> (string, InfoResponse) outcome" where
  "app_info ax app =
     obind (committed_state app) (\<lambda>st.
     obind (to_height (st_block_height st)) (\<lambda>height.
     Ok \<lparr>in_app_version = sp_app_version (st_state_params st), in_last_block_height = height,
         in_last_block_app_hash = ax_app_hash ax (st_state_params st)\<rparr>))"

definition app_init_chain ::
  "('a, 'k, 's, 'b, 'p) app_context \<Rightarrow> nat list \<Rightarrow> nat \<Rightarrow> ('a, 'k, 's, 'b) App \<Rightarrow>
     ('a, 'k, 's, 'b) App \<times> (string, ('p \<times> nat) list \<times> nat list) outcome" where
  "app_init_chain ax genesis_bytes initial_height app =
     (case ax_genesis ax genesis_bytes (app_store app) of
        (bs, r) \<Rightarrow>
          let app = app\<lparr>app_store := bs\<rparr> in
          finish app r (\<lambda>(state_root, out).
          finish app (with_context ''failed to convert validators''
            (to_validator_updates (ax_validator_key ax) (go_validators out))) (\<lambda>validators.
          let height = sub_u64 initial_height 1;
              ps = \<lparr>sp_state_root = state_root, sp_timestamp = go_timestamp out,
                    sp_network_version = go_network_version out, sp_base_fee = go_base_fee out,
                    sp_circ_supply = go_circ_supply out, sp_chain_id = go_chain_id out,
                    sp_power_scale = go_power_scale out, sp_app_version = 0\<rparr> in
          (set_committed_state \<lparr>st_block_height = height, st_oldest_state_height = height, st_state_params = ps\<rparr> app,
           Ok (validators, ax_app_hash ax ps)))))"

text \<open>The genesis of \<open>init_chain\<close>, from the bundles of the node and the genesis document. If it fails, the blocks that it
  has written are not referred to.\<close>

definition genesis_from_bytes ::
  "('a, 'k, 'h, 'b, 't, 's) genesis_lib \<Rightarrow> ('a, 's) machine \<Rightarrow> contracts_dir \<Rightarrow> ('m, 'q, ('a, 'k) Genesis) codec \<Rightarrow>
     nat list \<Rightarrow> nat list \<Rightarrow> nat list \<Rightarrow> 'b \<Rightarrow> (string, (nat list \<times> 'k FvmGenesisOutput) \<times> 'b) outcome" where
  "genesis_from_bytes gl mx dir cd bundle_car custom_actors_bundle genesis_bytes bs =
     obind (with_context ''failed to create genesis state'' (genesis_state_new gl bundle_car custom_actors_bundle bs)) (\<lambda>st.
     obind (with_context ''failed to init from genesis'' (bytes_init cd (\<lambda>st g. genesis_init gl mx dir g st) st genesis_bytes))
       (\<lambda>(st, out).
     obind (with_context ''failed to commit genesis state'' (genesis_commit gl st)) (\<lambda>(state_root, bs).
     Ok ((state_root, out), bs))))"

definition with_genesis ::
  "('a, 'k, 'h, 'b, 't, 's) genesis_lib \<Rightarrow> contracts_dir \<Rightarrow> ('m, 'q, ('a, 'k) Genesis) codec \<Rightarrow> nat list \<Rightarrow> nat list \<Rightarrow>
     ('a, 'k, 's, 'b, 'p) app_context \<Rightarrow> ('a, 'k, 's, 'b, 'p) app_context" where
  "with_genesis gl dir cd bundle_car custom_actors_bundle ax =
     ax\<lparr>ax_genesis := (\<lambda>genesis_bytes bs.
       case genesis_from_bytes gl (ax_machine ax) dir cd bundle_car custom_actors_bundle genesis_bytes bs of
         Ok (r, bs') \<Rightarrow> (bs', Ok r) | Err e \<Rightarrow> (bs, Err e) | Retry \<Rightarrow> (bs, Retry) | Panic \<Rightarrow> (bs, Panic))\<rparr>"

record QueryResponse =
  qr_code :: nat
  qr_info :: string
  qr_key :: "nat list"
  qr_value :: "nat list"
  qr_height :: nat

definition invalid_query :: "AppError \<Rightarrow> string \<Rightarrow> QueryResponse" where
  "invalid_query err description =
     \<lparr>qr_code = app_error_code err, qr_info = description, qr_key = [], qr_value = [], qr_height = 0\<rparr>"

definition USR_NOT_FOUND :: ExitCode where
  "USR_NOT_FOUND = OtherCode 17"

definition query_exit_code :: "'a FvmQueryRet \<Rightarrow> ExitCode" where
  "query_exit_code ret =
     (case ret of RIpld None \<Rightarrow> USR_NOT_FOUND | RActorState None \<Rightarrow> USR_NOT_FOUND | _ \<Rightarrow> EXIT_OK)"

definition to_query ::
  "('a, 'k, 's, 'b, 'p) app_context \<Rightarrow> 'a FvmQueryRet \<Rightarrow> nat \<Rightarrow> (string, QueryResponse) outcome" where
  "to_query ax ret block_height =
     (let code = query_exit_code ret in
      obind (ax_encode_ret ax ret) (\<lambda>(key, value).
      obind (to_height block_height) (\<lambda>height.
      Ok \<lparr>qr_code = exit_value code, qr_info = to_error_msg code, qr_key = key, qr_value = value,
          qr_height = height\<rparr>)))"

definition app_query ::
  "('a, 'k, 's, 'b, 'p) app_context \<Rightarrow> string \<Rightarrow> nat list \<Rightarrow> nat \<Rightarrow> ('a, 'k, 's, 'b) App \<Rightarrow>
     (('a, 'k, 's, 'b) App \<times> (string, QueryResponse) outcome) option" where
  "app_query ax path data request_height app =
     (let height = query_height_from request_height in
      case state_params_at_height height app of
        Ok (ps, block_height) \<Rightarrow>
          if \<not> can_query_state block_height ps
          then Some (app, Ok (invalid_query NotInitialized ''The app hasn't been initialized yet.''))
          else (case obind (to_height block_height) (\<lambda>h.
                       with_context ''error creating query state''
                         (query_state_new (ax_query_context ax (app_store app)) (int h) ps (app_check_state app)
                           (height = Pending))) of
                  Ok qs \<Rightarrow>
                    map_option (\<lambda>(qs, r).
                      (app\<lparr>app_check_state := qs_check_state qs\<rparr>,
                       obind (with_context ''error running query'' r) (\<lambda>result.
                       case result of
                         Inl e \<Rightarrow> Ok (invalid_query InvalidEncoding e)
                       | Inr result \<Rightarrow> to_query ax result block_height)))
                    (ax_query ax (app_store app) path data qs)
                | Err e \<Rightarrow> Some (app, Err e)
                | Retry \<Rightarrow> Some (app, Retry)
                | Panic \<Rightarrow> Some (app, Panic))
      | Err e \<Rightarrow> Some (app, Err e)
      | Retry \<Rightarrow> Some (app, Retry)
      | Panic \<Rightarrow> Some (app, Panic))"

definition app_check_tx ::
  "('a, 'k, 's, 'b, 'p) app_context \<Rightarrow> nat list \<Rightarrow> bool \<Rightarrow> ('a, 'k, 's, 'b) App \<Rightarrow>
     ('a, 'k, 's, 'b) App \<times> (string, TxResponse) outcome" where
  "app_check_tx ax tx is_recheck app =
     (let taken = app\<lparr>app_check_state := None\<rparr> in
      finish taken
        (case app_check_state app of
           Some st \<Rightarrow> Ok st
         | None \<Rightarrow>
             obind (committed_state app) (\<lambda>state.
             obind (to_height (st_block_height state)) (\<lambda>height.
             with_context ''error creating check state''
               (exec_state_at (ax_new_executor ax (app_store app)) (int height) (st_state_params state)))))
        (\<lambda>st.
      finish taken (with_context ''error running check'' (ax_check ax st tx is_recheck)) (\<lambda>(st, result).
        (app\<lparr>app_check_state := Some st\<rparr>,
         Ok (case result of
               Inl e \<Rightarrow> invalid_tx InvalidEncoding e
             | Inr (Inl _) \<Rightarrow> invalid_tx IllegalMessageError ''''
             | Inr (Inr (Inl d)) \<Rightarrow> invalid_tx InvalidSignature d
             | Inr (Inr (Inr ret)) \<Rightarrow> to_check_tx ret)))))"

text \<open>The state that proposals are prepared and processed on.\<close>

definition proposal_state ::
  "('a, 'k, 's, 'b, 'p) app_context \<Rightarrow> ('a, 'k, 's, 'b) App \<Rightarrow> (string, 's FvmExecState) outcome" where
  "proposal_state ax app =
     obind (committed_state app) (\<lambda>state.
     with_context ''error creating execution state''
       (exec_state_at (ax_new_executor ax (app_store app)) (as_epoch (st_block_height state)) (st_state_params state)))"

definition app_prepare_proposal ::
  "('a, 'k, 's, 'b, 'p) app_context \<Rightarrow> nat list list \<Rightarrow> int \<Rightarrow> ('a, 'k, 's, 'b) App \<Rightarrow>
     ('a, 'k, 's, 'b) App \<times> (string, nat list list) outcome" where
  "app_prepare_proposal ax txs max_tx_bytes app =
     finish app (proposal_state ax app) (\<lambda>st.
     case ax_prepare ax (app_chain_env app) st txs of
       (env, r) \<Rightarrow>
         let app = app\<lparr>app_chain_env := env\<rparr> in
         finish app (with_context ''failed to prepare proposal'' r) (\<lambda>txs.
         if max_tx_bytes < 0 then (app, Panic)
         else (app, Ok (take_until_max_size txs (nat max_tx_bytes) 0))))"

definition app_process_proposal ::
  "('a, 'k, 's, 'b, 'p) app_context \<Rightarrow> nat list list \<Rightarrow> ('a, 'k, 's, 'b) App \<Rightarrow>
     ('a, 'k, 's, 'b) App \<times> (string, bool) outcome" where
  "app_process_proposal ax txs app =
     finish app (proposal_state ax app) (\<lambda>st.
     case ax_process ax (app_chain_env app) st txs of
       (env, r) \<Rightarrow> (app\<lparr>app_chain_env := env\<rparr>, with_context ''failed to process proposal'' r))"

record BeginBlock =
  bb_height :: int
  bb_hash :: "nat list option"
  bb_time :: int
  bb_proposer :: "nat list"

datatype 'a BeginResponse = Began "'a FvmApplyRet" | ExitHalt

definition app_begin_block ::
  "('a, 'k, 's, 'b, 'p) app_context \<Rightarrow> BeginBlock \<Rightarrow> ('a, 'k, 's, 'b) App \<Rightarrow>
     ('a, 'k, 's, 'b) App \<times> (string, 'a BeginResponse) outcome" where
  "app_begin_block ax req app =
     (case bb_hash req of
        None \<Rightarrow> (app, Err ''empty block hash'')
      | Some hash \<Rightarrow>
          if app_halt_height app \<noteq> 0 \<and> bb_height req = app_halt_height app then (app, Ok ExitHalt)
          else finish app (committed_state app) (\<lambda>state.
          finish app (to_timestamp (bb_time req)) (\<lambda>timestamp.
          let ps = (st_state_params state)\<lparr>sp_timestamp := timestamp\<rparr> in
          finish app (with_context ''error creating new state''
            (exec_state_at (ax_new_executor ax (app_store app)) (bb_height req) ps)) (\<lambda>st.
          finish app (put_exec_state (with_validator_id (bb_proposer req) (with_block_hash hash st)) app) (\<lambda>app.
          case modify_exec_state (ax_begin ax) app of
            (app, r) \<Rightarrow> (app, omap Began (with_context ''begin failed'' r)))))))"

definition deliver_response :: "string + 'a ChainMessageApplyRet \<Rightarrow> TxResponse" where
  "deliver_response result =
     (case result of
        Inl e \<Rightarrow> invalid_tx InvalidEncoding e
      | Inr (RetSigned (Inl d)) \<Rightarrow> invalid_tx InvalidSignature d
      | Inr (RetSigned (Inr ret)) \<Rightarrow> to_deliver_tx (sar_fvm ret)
      | Inr (RetIpc ret) \<Rightarrow> to_deliver_tx ret)"

definition app_deliver_tx ::
  "('a, 'k, 's, 'b, 'p) app_context \<Rightarrow> nat list \<Rightarrow> ('a, 'k, 's, 'b) App \<Rightarrow>
     ('a, 'k, 's, 'b) App \<times> (string, TxResponse) outcome" where
  "app_deliver_tx ax tx app =
     (case modify_exec_state (\<lambda>s. ax_deliver ax s tx) app of
        (app, r) \<Rightarrow> (app, omap (deliver_response) (with_context ''deliver failed'' r)))"

definition app_end_block ::
  "('a, 'k, 's, 'b, 'p) app_context \<Rightarrow> ('a, 'k, 's, 'b) App \<Rightarrow>
     ('a, 'k, 's, 'b) App \<times> (string, ('p \<times> nat) list) outcome" where
  "app_end_block ax app =
     (case modify_exec_state (ax_end ax) app of
        (app, r) \<Rightarrow>
          (app, obind (with_context ''end failed'' r) (\<lambda>power_table.
                with_context ''failed to convert validator updates''
                  (to_validator_updates (ax_validator_key ax) power_table))))"

definition retain_height :: "nat \<Rightarrow> nat \<Rightarrow> nat" where
  "retain_height hist_size block_height = (if hist_size = 0 then 0 else block_height - hist_size)"

definition app_commit ::
  "('a, 'k, 's, 'b, 'p) app_context \<Rightarrow> ('a, 'k, 's, 'b) App \<Rightarrow>
     ('a, 'k, 's, 'b) App \<times> (string, nat list \<times> nat) outcome" where
  "app_commit ax app =
     (case app_exec_state app of
        None \<Rightarrow> (app, Panic)
      | Some exec_state \<Rightarrow>
          let app = app\<lparr>app_exec_state := None\<rparr> in
          finish app (committed_state app) (\<lambda>state.
          if mx_epoch (ax_machine ax) (executor exec_state) < 0 then (app, Err ''out of range integral type conversion attempted'')
          else case ax_flush ax (executor exec_state) (app_store app) of
            (bs, r) \<Rightarrow>
              let app = app\<lparr>app_store := bs\<rparr>; up = params exec_state;
                  block_height = nat (mx_epoch (ax_machine ax) (executor exec_state)) in
              finish app (with_context ''failed to commit FVM'' r) (\<lambda>state_root.
              let ps = (st_state_params state)\<lparr>sp_timestamp := ax_timestamp ax (executor exec_state),
                         sp_state_root := state_root, sp_app_version := app_version up, sp_base_fee := base_fee up,
                         sp_circ_supply := circ_supply up, sp_power_scale := power_scale up\<rparr>;
                  state = state\<lparr>st_block_height := block_height, st_state_params := ps\<rparr>;
                  retain = retain_height (app_state_hist_size app) block_height in
              finish app
                (case app_snapshots app of
                   Some c \<Rightarrow> omap Some (client_notify block_height ps c)
                 | None \<Rightarrow> Ok None) (\<lambda>snapshots.
              let app = set_committed_state state (app\<lparr>app_snapshots := snapshots\<rparr>);
                  app = app\<lparr>app_check_state := None\<rparr> in
              if retain > I64_MAX then (app, Panic)
              else (app, Ok (ax_app_hash ax ps, retain))))))"

subsection \<open>Snapshots\<close>

definition app_list_snapshots ::
  "('a, 'k, 's, 'b, 'p) app_context \<Rightarrow> ('a, 'k, 's, 'b) App \<Rightarrow> (string, AbciSnapshot list) outcome" where
  "app_list_snapshots ax app =
     (case app_snapshots app of
        Some c \<Rightarrow> try_all (to_snapshot (ax_encode_meta ax)) (client_list_snapshots c)
      | None \<Rightarrow> Ok [])"

definition app_load_snapshot_chunk ::
  "nat \<Rightarrow> nat \<Rightarrow> nat \<Rightarrow> nat \<Rightarrow> ('a, 'k, 's, 'b) App \<Rightarrow> ('a, 'k, 's, 'b) App \<times> nat list" where
  "app_load_snapshot_chunk now height format chunk app =
     (case app_snapshots app of
        Some c \<Rightarrow>
          (case client_access_snapshot now height format c of
             (c, item) \<Rightarrow>
               (app\<lparr>app_snapshots := Some c\<rparr>,
                case item of
                  Some item \<Rightarrow> (case load_chunk chunk item of Ok contents \<Rightarrow> contents | _ \<Rightarrow> [])
                | None \<Rightarrow> []))
      | None \<Rightarrow> (app, []))"

datatype OfferResponse = OfferUnknown | OfferAccept | OfferAbort | OfferReject | OfferRejectFormat

definition app_offer_snapshot ::
  "('a, 'k, 's, 'b, 'p) app_context \<Rightarrow> (string, unit) outcome \<Rightarrow> AbciSnapshot \<Rightarrow> nat list \<Rightarrow>
     ('a, 'k, 's, 'b) App \<Rightarrow> ('a, 'k, 's, 'b) App \<times> OfferResponse" where
  "app_offer_snapshot ax io sn offered_hash app =
     (case app_snapshots app of
        None \<Rightarrow> (app, OfferUnknown)
      | Some c \<Rightarrow>
          (case from_snapshot (ax_decode_meta ax) (ax_app_hash ax) (ax_parse_hash ax) sn offered_hash of
             Ok manifest \<Rightarrow>
               (case client_offer_snapshot io manifest c of
                  (c, r) \<Rightarrow>
                    (app\<lparr>app_snapshots := Some c\<rparr>,
                     case r of
                       Ok _ \<Rightarrow> OfferAccept
                     | Err (IncompatibleVersion v) \<Rightarrow> OfferRejectFormat
                     | _ \<Rightarrow> OfferAbort))
           | _ \<Rightarrow> (app, OfferReject)))"

datatype ApplyResponse = ApplyUnknown | ApplyAccept | ApplyRetry "nat list" | ApplyRejectSnapshot

definition app_apply_snapshot_chunk ::
  "('a, 'k, 's, 'b, 'p) app_context \<Rightarrow> (string, unit) outcome \<Rightarrow> nat \<Rightarrow> nat list \<Rightarrow> ('a, 'k, 's, 'b) App \<Rightarrow>
     ('a, 'k, 's, 'b) App \<times> (string, ApplyResponse) outcome" where
  "app_apply_snapshot_chunk ax io index chunk app =
     (case app_snapshots app of
        None \<Rightarrow> (app, Ok ApplyUnknown)
      | Some c \<Rightarrow>
          (case client_save_chunk (ax_sha256 ax) io index chunk c of
             (c, r) \<Rightarrow>
               let app = app\<lparr>app_snapshots := Some c\<rparr> in
               case r of
                 Ok None \<Rightarrow> (app, Ok ApplyAccept)
               | Ok (Some item) \<Rightarrow>
                   (case snapshot_import (ax_snapshot_lib ax) item (app_store app) True of
                      (bs, imported) \<Rightarrow>
                        let app = app\<lparr>app_store := bs\<rparr> in
                        case imported of
                          Ok _ \<Rightarrow>
                            finish app (committed_state app) (\<lambda>state.
                            (set_committed_state
                               (state\<lparr>st_block_height := sm_block_height (si_manifest item),
                                     st_state_params := sm_state_params (si_manifest item)\<rparr>) app, Ok ApplyAccept))
                        | _ \<Rightarrow> (app, Ok ApplyRejectSnapshot))
               | Err (UnexpectedChunk expected got) \<Rightarrow> (app, Ok (ApplyRetry [expected]))
               | Err (WrongChecksum expected got) \<Rightarrow> (app, Ok ApplyRejectSnapshot)
               | _ \<Rightarrow> (app, Ok ApplyUnknown)))"

section \<open>The node\<close>

text \<open>The interpreter of the node: raw transactions, chain messages, signed messages, the FVM.\<close>

definition node_app ::
  "('a ChainMessage, 'a FvmQuery, 'g) codec \<Rightarrow> nat \<Rightarrow> ('a, 'sk) crypto \<Rightarrow> ('a, 'k, 's) chain_context \<Rightarrow>
     ('a, 'k, 's) fvm_interpreter \<Rightarrow> gas_settings \<Rightarrow> ('a, 'k, 's, 'b, 'p) app_context \<Rightarrow>
     ('a, 'k, 's, 'b, 'p) app_context" where
  "node_app cd block_max_msgs cr cx fi gs ax =
     (let mx = cx_machine cx in
      ax\<lparr>ax_machine := mx,
         ax_prepare := node_prepare cd block_max_msgs mx,
         ax_process := node_process cd block_max_msgs mx,
         ax_begin := (\<lambda>(env, st). chain_begin (fvm_begin mx fi) env st),
         ax_deliver := node_deliver cd cx,
         ax_end := (\<lambda>(env, st). omap (map_prod id fst) (node_end mx fi env st)),
         ax_check := bytes_check cd (chain_check mx (cx_relayed_cid cx)
           (signed_check cr (\<lambda>st. mx_chain_id mx (executor st)) (fvm_check mx (fi_exec_in_check fi)))),
         ax_query := (\<lambda>bs. bytes_query cd (fvm_query (ax_query_context ax bs) gs))\<rparr>)"

section \<open>Lemmas\<close>

subsection \<open>The history of states\<close>

lemma prune_hist_oldest: "fst (prune_hist p oldest hist) = max oldest (Suc p)"
proof (induction p oldest hist rule: prune_hist.induct)
  case (1 p oldest hist)
  then show ?case by (cases "oldest \<le> p") (simp_all add: prune_hist.simps [of p oldest])
qed

lemma prune_hist_get:
  "map_of (snd (prune_hist p oldest hist)) k = (if oldest \<le> k \<and> k \<le> p then None else map_of hist k)"
proof (induction p oldest hist rule: prune_hist.induct)
  case (1 p oldest hist)
  then show ?case by (cases "oldest \<le> p") (auto simp: prune_hist.simps [of p oldest])
qed

lemma prune_hist_wf: "hm_wf hist \<Longrightarrow> hm_wf (snd (prune_hist p oldest hist))"
proof (induction p oldest hist rule: prune_hist.induct)
  case (1 p oldest hist)
  then show ?case by (cases "oldest \<le> p") (simp_all add: prune_hist.simps [of p oldest])
qed

text \<open>What the history has after a state was committed.\<close>

lemma set_committed_conv:
  "set_committed_state st app =
     (let hist = AList.update (state_height st) (st_state_params st) (app_state_hist app);
          r = (if 0 < app_state_hist_size app \<and> app_state_hist_size app \<le> state_height st
               then prune_hist (state_height st - app_state_hist_size app) (st_oldest_state_height st) hist
               else (st_oldest_state_height st, hist)) in
      app\<lparr>app_state_hist := snd r, app_committed := Some (st\<lparr>st_oldest_state_height := fst r\<rparr>)\<rparr>)"
  by (simp add: set_committed_state_def Let_def split: prod.splits)

lemma set_committed_hist:
  "map_of (app_state_hist (set_committed_state st app)) k =
     (if k = state_height st then Some (st_state_params st)
      else if 0 < app_state_hist_size app \<and> st_oldest_state_height st \<le> k \<and> k + app_state_hist_size app \<le> state_height st
      then None else map_of (app_state_hist app) k)"
  by (auto simp: set_committed_conv prune_hist_get Let_def)

lemma set_committed_fields [simp]:
  "app_state_hist_size (set_committed_state st app) = app_state_hist_size app"
  "app_halt_height (set_committed_state st app) = app_halt_height app"
  "app_exec_state (set_committed_state st app) = app_exec_state app"
  "app_check_state (set_committed_state st app) = app_check_state app"
  "app_chain_env (set_committed_state st app) = app_chain_env app"
  "app_snapshots (set_committed_state st app) = app_snapshots app"
  "app_store (set_committed_state st app) = app_store app"
  by (simp_all add: set_committed_conv Let_def)

lemma set_committed_state_committed:
  "app_committed (set_committed_state st app) =
     Some (st\<lparr>st_oldest_state_height :=
       if 0 < app_state_hist_size app \<and> app_state_hist_size app \<le> state_height st
       then max (st_oldest_state_height st) (Suc (state_height st - app_state_hist_size app))
       else st_oldest_state_height st\<rparr>)"
  by (simp add: set_committed_conv prune_hist_oldest Let_def)

text \<open>The first committed state has the parameters of the genesis document.\<close>

lemma init_chain_params:
  assumes run: "app_init_chain (with_genesis gl dir cd bundle_car custom_actors_bundle ax) genesis_bytes initial app = (app', Ok r)"
  shows "\<exists>g st. parse_genesis cd genesis_bytes = Ok g \<and> committed_state app' = Ok st \<and>
     from_str_hashed (gl_fnv gl) (gen_chain_name g) = Ok (sp_chain_id (st_state_params st)) \<and>
     sp_circ_supply (st_state_params st) = genesis_circ_supply g \<and> sp_timestamp (st_state_params st) = gen_timestamp g \<and>
     sp_network_version (st_state_params st) = gen_network_version g \<and> sp_base_fee (st_state_params st) = gen_base_fee g \<and>
     sp_power_scale (st_state_params st) = gen_power_scale g"
proof -
  obtain root out bs' bs where gen: "genesis_from_bytes gl (ax_machine ax) dir cd bundle_car custom_actors_bundle genesis_bytes bs = Ok ((root, out), bs')"
      "\<exists>st. committed_state app' = Ok st \<and> sp_chain_id (st_state_params st) = go_chain_id out \<and>
         sp_circ_supply (st_state_params st) = go_circ_supply out \<and> sp_timestamp (st_state_params st) = go_timestamp out \<and>
         sp_network_version (st_state_params st) = go_network_version out \<and> sp_base_fee (st_state_params st) = go_base_fee out \<and>
         sp_power_scale (st_state_params st) = go_power_scale out"
    using run
    by (auto simp: app_init_chain_def with_genesis_def finish_def Let_def committed_state_def set_committed_state_committed
        split: outcome.splits)
  obtain g st st' where g: "parse_genesis cd genesis_bytes = Ok g" "genesis_init gl (ax_machine ax) dir g st = Ok (st', out)"
    using gen(1) by (auto simp: genesis_from_bytes_def bytes_init_def outcome_simps)
  have "genesis_output gl g = Ok out" using g(2) by (auto simp: genesis_init_def Let_def outcome_simps)
  then have "from_str_hashed (gl_fnv gl) (gen_chain_name g) = Ok (go_chain_id out)" "go_circ_supply out = genesis_circ_supply g"
      "go_timestamp out = gen_timestamp g" "go_network_version out = gen_network_version g" "go_base_fee out = gen_base_fee g"
      "go_power_scale out = gen_power_scale g"
    by (auto simp: genesis_output_def outcome_simps)
  with gen(2) g(1) show ?thesis by auto
qed

lemma set_committed_wf:
  assumes "hm_wf (app_state_hist app)"
  shows "hm_wf (app_state_hist (set_committed_state st app))"
  using assms by (simp add: set_committed_conv prune_hist_wf Let_def)

subsection \<open>Blocks\<close>

fun deliver_txs ::
  "('a, 'k, 's, 'b, 'p) app_context \<Rightarrow> nat list list \<Rightarrow> ('a, 'k, 's, 'b) App \<Rightarrow>
     ('a, 'k, 's, 'b) App \<times> (string, TxResponse list) outcome" where
  "deliver_txs ax [] app = (app, Ok [])"
| "deliver_txs ax (tx # txs) app =
     (case app_deliver_tx ax tx app of
        (app, r) \<Rightarrow> finish app r (\<lambda>resp.
          case deliver_txs ax txs app of (app, r) \<Rightarrow> (app, omap ((#) resp) r)))"

text \<open>A block as consensus hands it over: begin, the transactions, end, commit. A node that halts does not
  go on.\<close>

definition run_block ::
  "('a, 'k, 's, 'b, 'p) app_context \<Rightarrow> BeginBlock \<times> nat list list \<Rightarrow> ('a, 'k, 's, 'b) App \<Rightarrow>
     ('a, 'k, 's, 'b) App \<times> (string, TxResponse list \<times> ('p \<times> nat) list \<times> nat list \<times> nat) outcome" where
  "run_block ax blk app =
     (case app_begin_block ax (fst blk) app of
        (app, r) \<Rightarrow> finish app r (\<lambda>b.
          if b = ExitHalt then (app, Panic)
          else case deliver_txs ax (snd blk) app of
            (app, r) \<Rightarrow> finish app r (\<lambda>resp.
              case app_end_block ax app of
                (app, r) \<Rightarrow> finish app r (\<lambda>updates.
                  case app_commit ax app of
                    (app, r) \<Rightarrow> (app, omap (\<lambda>(hash, retain). (resp, updates, hash, retain)) r)))))"

text \<open>An executor is created for a height and a time, and execution does not change them.\<close>

definition exec_context :: "('a, 'k, 's, 'b, 'p) app_context \<Rightarrow> 's FvmExecState \<Rightarrow> int \<times> nat" where
  "exec_context ax st = (mx_epoch (ax_machine ax) (executor st), ax_timestamp ax (executor st))"

definition context_ok :: "('a, 'k, 's, 'b, 'p) app_context \<Rightarrow> bool" where
  "context_ok ax =
     ((\<forall>bs h ps ex. ax_new_executor ax bs h ps = Ok ex \<longrightarrow>
         mx_epoch (ax_machine ax) ex = h \<and> ax_timestamp ax ex = sp_timestamp ps) \<and>
      (\<forall>env st env' st' r. ax_begin ax (env, st) = Ok ((env', st'), r) \<longrightarrow> exec_context ax st' = exec_context ax st) \<and>
      (\<forall>env st tx env' st' r. ax_deliver ax (env, st) tx = Ok ((env', st'), r) \<longrightarrow>
         exec_context ax st' = exec_context ax st) \<and>
      (\<forall>env st env' st' r. ax_end ax (env, st) = Ok ((env', st'), r) \<longrightarrow> exec_context ax st' = exec_context ax st))"

lemma context_okD:
  assumes "context_ok ax"
  shows "ax_new_executor ax bs h ps = Ok ex \<Longrightarrow> mx_epoch (ax_machine ax) ex = h \<and> ax_timestamp ax ex = sp_timestamp ps"
    "ax_begin ax (env, st) = Ok ((env', st'), r) \<Longrightarrow> exec_context ax st' = exec_context ax st"
    "ax_deliver ax (env, st) tx = Ok ((env', st'), r') \<Longrightarrow> exec_context ax st' = exec_context ax st"
    "ax_end ax (env, st) = Ok ((env', st'), r'') \<Longrightarrow> exec_context ax st' = exec_context ax st"
  using assms unfolding context_ok_def by blast+

text \<open>What a block leaves alone until it is committed.\<close>

definition durable where
  "durable app = (app_committed app, app_state_hist app, app_state_hist_size app, app_snapshots app, app_check_state app)"

lemma durable_env_exec [simp]: "durable (app\<lparr>app_chain_env := e, app_exec_state := x\<rparr>) = durable app"
  "durable (app\<lparr>app_exec_state := x\<rparr>) = durable app"
  by (simp_all add: durable_def)

lemma modify_exec_Ok:
  assumes "modify_exec_state f app = (app', Ok ret)"
  shows "\<exists>st env' st'. app_exec_state app = Some st \<and> f (app_chain_env app, st) = Ok ((env', st'), ret) \<and>
     app' = app\<lparr>app_chain_env := env', app_exec_state := Some st'\<rparr>"
  using assms by (auto simp: modify_exec_state_def split: option.splits outcome.splits prod.splits)

text \<open>A step of a block that goes well.\<close>

definition exec_step where
  "exec_step ax c app app' =
     ((\<exists>st. app_exec_state app = Some st \<and> exec_context ax st = c) \<longrightarrow>
      (\<exists>st. app_exec_state app' = Some st \<and> exec_context ax st = c) \<and> durable app' = durable app)"

lemma exec_step_refl [simp]: "exec_step ax c app app"
  by (simp add: exec_step_def)

lemma exec_step_trans: "exec_step ax c a b \<Longrightarrow> exec_step ax c b d \<Longrightarrow> exec_step ax c a d"
  by (auto simp: exec_step_def)

lemma modify_exec_step:
  assumes "modify_exec_state f app = (app', Ok ret)"
    and "\<And>env st env' st' r. f (env, st) = Ok ((env', st'), r) \<Longrightarrow> exec_context ax st' = exec_context ax st"
  shows "exec_step ax c app app'"
  using modify_exec_Ok [OF assms(1)] assms(2) by (auto simp: exec_step_def durable_def)

lemma deliver_tx_step:
  assumes "context_ok ax" "app_deliver_tx ax tx app = (app', Ok resp)"
  shows "exec_step ax c app app'"
proof -
  obtain ret where "modify_exec_state (\<lambda>s. ax_deliver ax s tx) app = (app', Ok ret)"
    using assms(2) by (auto simp: app_deliver_tx_def outcome_simps split: prod.splits)
  then show ?thesis by (rule modify_exec_step) (erule context_okD [OF assms(1)])
qed

lemma deliver_txs_step:
  assumes "context_ok ax"
  shows "deliver_txs ax txs app = (app', Ok resps) \<Longrightarrow> exec_step ax c app app' \<and> length resps = length txs"
proof (induction txs arbitrary: app resps)
  case (Cons tx txs)
  obtain app1 r1 where d1: "app_deliver_tx ax tx app = (app1, r1)" by force
  obtain app2 r2 where d2: "deliver_txs ax txs app1 = (app2, r2)" by force
  from Cons.prems d1 d2 obtain resp resps1 where d: "app_deliver_tx ax tx app = (app1, Ok resp)"
    "deliver_txs ax txs app1 = (app', Ok resps1)" "resps = resp # resps1"
    by (cases r1; cases r2) (simp_all add: finish_def)
  from Cons.IH [OF d(2)] d(3) show ?case using exec_step_trans [OF deliver_tx_step [OF assms d(1), of c]] by auto
qed simp

lemma end_block_step:
  assumes "context_ok ax" "app_end_block ax app = (app', Ok updates)"
  shows "exec_step ax c app app'"
proof -
  obtain ret where "modify_exec_state (ax_end ax) app = (app', Ok ret)"
    using assms(2) by (auto simp: app_end_block_def outcome_simps split: prod.splits)
  then show ?thesis by (rule modify_exec_step) (erule context_okD [OF assms(1)])
qed

lemma begin_block_step:
  assumes ok: "context_ok ax" and b: "app_begin_block ax req app = (app', Ok r)" "r \<noteq> ExitHalt"
  shows "app_exec_state app = None \<and> 0 \<le> bb_time req \<and> durable app' = durable app \<and>
     (\<exists>st. app_exec_state app' = Some st \<and> exec_context ax st = (bb_height req, nat (bb_time req)))"
proof -
  obtain hash where hash: "bb_hash req = Some hash"
    "\<not> (app_halt_height app \<noteq> 0 \<and> bb_height req = app_halt_height app)"
    using b by (cases "bb_hash req") (auto simp: app_begin_block_def split: if_splits)
  have "\<exists>(state :: AppState) ts st app1.
      to_timestamp (bb_time req) = (Ok ts :: (string, _) outcome) \<and>
      exec_state_at (ax_new_executor ax (app_store app)) (bb_height req) ((st_state_params state)\<lparr>sp_timestamp := ts\<rparr>) = Ok st \<and>
      put_exec_state (with_validator_id (bb_proposer req) (with_block_hash hash st)) app =
        (Ok app1 :: (string, _) outcome) \<and>
      (case modify_exec_state (ax_begin ax) app1 of (app, r) \<Rightarrow> (app, omap Began (with_context ''begin failed'' r))) =
        (app', Ok r)"
    using b(1) unfolding app_begin_block_def hash(1) option.case if_not_P [OF hash(2)] finish_Ok Let_def with_context_Ok
    by (elim exE conjE) (intro exI conjI)
  then obtain state :: AppState and ts st app1 where
    st: "exec_state_at (ax_new_executor ax (app_store app)) (bb_height req) ((st_state_params state)\<lparr>sp_timestamp := ts\<rparr>) = Ok st"
    and ts: "to_timestamp (bb_time req) = (Ok ts :: (string, _) outcome)"
    and put: "put_exec_state (with_validator_id (bb_proposer req) (with_block_hash hash st)) app =
        (Ok app1 :: (string, _) outcome)"
    and m: "(case modify_exec_state (ax_begin ax) app1 of (app, r) \<Rightarrow> (app, omap Began (with_context ''begin failed'' r))) =
        (app', Ok r)"
    by (elim exE conjE) (rule that)
  from m obtain ret where m: "modify_exec_state (ax_begin ax) app1 = (app', Ok ret)"
    by (auto simp: outcome_simps split: prod.splits)
  have exec: "exec_context ax (with_validator_id (bb_proposer req) (with_block_hash hash st)) = (bb_height req, ts)"
    using st context_okD(1) [OF ok]
    by (auto simp: exec_state_at_def exec_state_new_def exec_context_def with_validator_id_def with_block_hash_def
        outcome_simps)
  have 1: "app_exec_state app = None"
    "app1 = app\<lparr>app_exec_state := Some (with_validator_id (bb_proposer req) (with_block_hash hash st))\<rparr>"
    using put by (auto simp: put_exec_state_def split: if_splits)
  have "exec_step ax (bb_height req, ts) app1 app'"
    using m by (rule modify_exec_step) (erule context_okD [OF ok])
  then show ?thesis using 1 exec ts by (auto simp: exec_step_def to_timestamp_def split: if_splits)
qed

text \<open>The state that a commit stores.\<close>

lemma commit_step:
  assumes c: "app_commit ax app = (app', Ok (hash, retain))" and ex: "app_exec_state app = Some st"
    "exec_context ax st = (h, ts)"
  shows "\<exists>state ps app0. app_committed app = Some state \<and> 0 \<le> h \<and> hash = ax_app_hash ax ps \<and>
     sp_timestamp ps = ts \<and> sp_chain_id ps = sp_chain_id (st_state_params state) \<and>
     sp_network_version ps = sp_network_version (st_state_params state) \<and>
     retain = retain_height (app_state_hist_size app) (nat h) \<and>
     app' = (set_committed_state (state\<lparr>st_block_height := nat h, st_state_params := ps\<rparr>) app0)\<lparr>app_check_state := None\<rparr> \<and>
     app_state_hist app0 = app_state_hist app \<and> app_state_hist_size app0 = app_state_hist_size app \<and>
     app_exec_state app0 = None"
proof -
  have h: "mx_epoch (ax_machine ax) (executor st) = h" "ax_timestamp ax (executor st) = ts"
    using ex(2) by (auto simp: exec_context_def)
  obtain bs r where flush: "ax_flush ax (executor st) (app_store app) = (bs, r)" by force
  define fields where "fields state root_cid = (st_state_params state)\<lparr>sp_timestamp := ts, sp_state_root := root_cid,
      sp_app_version := app_version (params st), sp_base_fee := base_fee (params st),
      sp_circ_supply := circ_supply (params st), sp_power_scale := power_scale (params st)\<rparr>" for state :: AppState and root_cid
  obtain state where state: "app_committed app = Some state" "0 \<le> h"
    using c by (auto simp: app_commit_def ex(1) h committed_state_def Let_def finish_Ok split: if_splits option.splits)
  show ?thesis
    using c state flush
    by (auto simp: app_commit_def ex(1) h committed_state_def Let_def finish_Ok fields_def [symmetric]
        split: if_splits
        intro!: exI [of _ "fields state x" for x] exI [of _ "app\<lparr>app_exec_state := None, app_store := bs, app_snapshots := x\<rparr>" for x])
      (auto simp: fields_def)
qed

subsection \<open>The node keeps the context of a block\<close>

text \<open>Executing messages, changing the balance of an actor and calling the gateway run at the height and time the
  machine was created with, and so do the migrations of the schedule.\<close>

definition gateway_keeps :: "('s \<Rightarrow> 'c) \<Rightarrow> ('a, 'k, 's) gateway \<Rightarrow> bool" where
  "gateway_keeps clock gw =
     (keeps clock (gw_network_name gw) \<and> keeps clock (gw_bottom_up_check_period gw) \<and>
      (\<forall>h. keeps clock (gw_bottom_up_msg_batch gw h)) \<and>
      (\<forall>cp r p. keeps clock (gw_create_bottom_up_checkpoint gw cp r p)) \<and>
      keeps clock (gw_get_incomplete_checkpoints gw) \<and> keeps clock (gw_apply_finality_changes gw) \<and>
      keeps clock (gw_get_current_membership gw) \<and> (\<forall>f. keeps clock (gw_commit_parent_finality gw f)) \<and>
      (\<forall>cs. keeps clock (gw_store_validator_changes gw cs)) \<and>
      (\<forall>ms. keeps clock (gw_apply_cross_messages gw ms)) \<and>
      (\<forall>h. keeps clock (gw_get_checkpoint_signatories gw h)))"

definition machine_keeps :: "('s \<Rightarrow> 'c) \<Rightarrow> ('a, 's) machine \<Rightarrow> bool" where
  "machine_keeps clock mx =
     ((\<forall>msg kind n. keeps clock (mx_execute mx msg kind n)) \<and>
      (\<forall>i f ex ex'. mx_mutate_actor mx i f ex = Ok ex' \<longrightarrow> clock ex' = clock ex))"

definition upgrades_keep :: "('s \<Rightarrow> 'c) \<Rightarrow> 's UpgradeScheduler \<Rightarrow> bool" where
  "upgrades_keep clock us =
     (\<forall>k u st st'. (k, u) \<in> set us \<longrightarrow> up_migration u st = Ok st' \<longrightarrow> clock (executor st') = clock (executor st))"

lemma execute_keeps:
  assumes "machine_keeps clock mx" "execute_message mx msg kind st = Ok (r, st')"
  shows "clock (executor st') = clock (executor st)"
  using assms by (auto simp: execute_message_def machine_keeps_def keeps_def Let_def outcome_simps split: option.splits)

lemmas implicit_keeps = execute_keeps [where kind = Implicit, folded execute_implicit_def]
lemmas explicit_keeps = execute_keeps [where kind = Explicit, folded execute_explicit_def]

lemma mint_keeps:
  "machine_keeps clock mx \<Longrightarrow> mint_to_gateway mx v st = Ok st' \<Longrightarrow> clock (executor st') = clock (executor st)"
  by (auto simp: mint_to_gateway_def machine_keeps_def outcome_simps)

lemma executor_update [simp]: "executor (update_params f st) = executor st"
  "executor (update_circ_supply g st) = executor st" "executor (update_app_version h st) = executor st"
  by (simp_all add: update_params_def update_circ_supply_def update_app_version_def)

lemma run_upgrade_keeps:
  assumes "upgrades_keep clock us" "run_upgrade us chain_id height st = Ok st'"
  shows "clock (executor st') = clock (executor st)"
  using assms
  by (auto simp: run_upgrade_def scheduler_get_def upgrade_execute_def upgrades_keep_def with_context_def outcome_simps
      split: option.splits dest!: map_of_SomeD)

lemma fvm_begin_keeps:
  assumes "machine_keeps clock mx" "upgrades_keep clock (fi_upgrades fi)" "fvm_begin mx fi st = Ok (st', r)"
  shows "clock (executor st') = clock (executor st)"
  using assms(3)
  by (auto simp: fvm_begin_def Let_def outcome_simps split: if_splits option.splits bool.splits prod.splits
      dest!: run_upgrade_keeps [OF assms(2)] implicit_keeps [OF assms(1)])

lemma fvm_deliver_keeps:
  assumes "machine_keeps clock mx" "fvm_deliver mx st msg = Ok (st', r)"
  shows "clock (executor st') = clock (executor st)"
  using assms(2)
  by (auto simp: fvm_deliver_def outcome_simps split: if_splits dest!: implicit_keeps [OF assms(1)] explicit_keeps [OF assms(1)])

lemma signed_deliver_keeps:
  assumes "\<And>m st' r. inner st m = Ok (st', r) \<Longrightarrow> cl st' = cl st" "signed_deliver cr ch inner st msg = Ok (st', r)"
  shows "cl st' = cl st"
  using assms by (auto simp: signed_deliver_def Let_def outcome_simps split: outcome.splits SignedMessageError.splits)

lemma topdown_keeps:
  assumes mx: "machine_keeps clock mx" and gw: "gateway_keeps clock gw"
    and d: "deliver_topdown mx gw qv qm env st p = Ok ((env', st'), r)"
  shows "clock (executor st') = clock (executor st)"
proof -
  note call = keeps_call [where table = clock]
  have gw': "keeps clock (gw_commit_parent_finality gw f)" "keeps clock (gw_store_validator_changes gw cs)"
    "keeps clock (gw_apply_cross_messages gw ms)" for f cs ms
    using gw by (simp_all add: gateway_keeps_def)
  show ?thesis
    using d
    by (auto simp: deliver_topdown_def topdown_commit_finality_def commit_parent_finality_def store_validator_changes_def
        execute_topdown_msgs_def apply_cross_messages_def with_context_def Let_def outcome_simps
        split: if_splits option.splits
        dest!: call [OF gw'(1)] call [OF gw'(2)] call [OF gw'(3)] mint_keeps [OF mx])
qed

lemma chain_deliver_keeps:
  assumes mx: "machine_keeps clock mx" and gw: "gateway_keeps clock gw"
    and d: "chain_deliver (node_context cr mx gw rc qv qm) env st m = Ok ((env', st'), r)"
  shows "clock (executor st') = clock (executor st)"
proof -
  have inner: "clock (executor st') = clock (executor st)"
    if d: "signed_deliver cr (\<lambda>st. mx_chain_id mx (executor st)) (fvm_deliver mx) st msg = Ok (st', ret)" for st' msg ret
    by (rule signed_deliver_keeps [where cl = "\<lambda>st. clock (executor st)", OF _ d])
      (rule fvm_deliver_keeps [OF mx])
  consider p where "m = CIpc (TopDownExec p)" | ob where "m = CIpc (ObjectResolved ob)"
    | s where "m = CSigned s" | b where "m = CIpc (BottomUpResolve b)" | cp where "m = CIpc (BottomUpExec cp)"
    by (metis ChainMessage.exhaust IpcMessage.exhaust)
  then show ?thesis
  proof cases
    case 1
    with d show ?thesis by (simp add: node_context_def topdown_keeps [OF mx gw])
  next
    case 2
    with d show ?thesis
      by (auto simp: node_context_def deliver_object_resolved_def Let_def outcome_simps dest!: implicit_keeps [OF mx])
  next
    case 3
    with d show ?thesis by (auto simp: node_context_def Let_def outcome_simps dest!: inner)
  next
    case 4
    with d show ?thesis by (auto simp: node_context_def Let_def with_context_def outcome_simps dest!: inner)
  qed (use d in simp)
qed

lemma collect_unsigned_keeps:
  assumes "gateway_keeps clock gw"
  shows "collect_unsigned gw a cps st = Ok (x, st') \<Longrightarrow> clock (executor st') = clock (executor st)"
proof (induction cps arbitrary: st x)
  case (Cons cp cps)
  have "keeps clock (gw_get_checkpoint_signatories gw h)" for h using assms by (simp add: gateway_keeps_def)
  from keeps_call [OF this] Cons.IH Cons.prems show ?case
    by (auto simp: with_context_def outcome_simps)
qed simp

lemma fvm_end_keeps:
  assumes gw: "gateway_keeps clock (fi_gateway fi)" and e: "fvm_end mx fi st = Ok (st', r)"
  shows "clock (executor st') = clock (executor st)"
proof -
  note gw' = gw [unfolded gateway_keeps_def]
  have due: "clock (executor st') = clock (executor st)"
    if "should_create_checkpoint mx (fi_gateway fi) h st = Ok (x, st')" for h st x st'
    using that gw'
    by (auto simp: should_create_checkpoint_def outcome_simps split: if_splits dest!: keeps_call [of clock, rotated])
  have table: "clock (executor st') = clock (executor st)"
    if "ipc_power_table (fi_gateway fi) st = Ok (x, st')" for st x st'
    using that gw'
    by (auto simp: ipc_power_table_def current_power_table_def with_context_def outcome_simps
        dest!: keeps_call [of clock, rotated])
  have create: "clock (executor st') = clock (executor st)"
    if "create_bottom_up_checkpoint (fi_gateway fi) cp pt st = Ok (x, st')" for cp pt st x st'
    using that gw'
    by (auto simp: create_bottom_up_checkpoint_def with_context_def outcome_simps
        dest!: keeps_call [of clock, rotated])
  have changes: "clock (executor st') = clock (executor st)"
    if "contract_call (gw_apply_finality_changes (fi_gateway fi)) st = Ok (x, st')" for st x st'
    using that gw' by (auto dest!: keeps_call [of clock, rotated])
  have maybe: "clock (executor st') = clock (executor st)"
    if "maybe_create_checkpoint mx (fi_gateway fi) st = Ok (x, st')" for x st'
    using that
    by (auto simp: maybe_create_checkpoint_def with_context_def Let_def outcome_simps split: if_splits option.splits
        dest!: due table create changes)
  have unsigned: "clock (executor st') = clock (executor st)"
    if "unsigned_checkpoints (fi_gateway fi) k st = Ok (x, st')" for k st x st'
    using that gw'
    by (auto simp: unsigned_checkpoints_def with_context_def outcome_simps
        dest!: keeps_call [of clock, rotated] collect_unsigned_keeps [OF gw])
  obtain res st1 where m: "maybe_create_checkpoint mx (fi_gateway fi) st = Ok (res, st1)"
    using e by (auto simp: fvm_end_def with_context_def outcome_simps)
  have "clock (executor st') = clock (executor st1)"
    using e
    by (cases res; cases "fi_validator fi")
      (auto simp: fvm_end_def m with_context_def outcome_simps split: if_splits dest!: unsigned)
  with maybe [OF m] show ?thesis by simp
qed

text \<open>So the application of the node keeps the height and the time of a block, if its executors do.\<close>

definition node_keeps where
  "node_keeps clock mx gw fi =
     (machine_keeps clock mx \<and> gateway_keeps clock gw \<and> fi_gateway fi = gw \<and> upgrades_keep clock (fi_upgrades fi))"

lemma node_context_ok:
  assumes keep: "node_keeps (\<lambda>ex. (mx_epoch mx ex, ax_timestamp ax ex)) mx gw fi"
    and new: "\<And>bs h ps ex. ax_new_executor ax bs h ps = Ok ex \<Longrightarrow> mx_epoch mx ex = h \<and> ax_timestamp ax ex = sp_timestamp ps"
  shows "context_ok (node_app cd n cr (node_context cr mx gw rc qv qm) fi gs ax)"
proof -
  let ?clock = "\<lambda>ex. (mx_epoch mx ex, ax_timestamp ax ex)" and ?cx = "node_context cr mx gw rc qv qm"
  let ?ax = "node_app cd n cr ?cx fi gs ax"
  have k: "machine_keeps ?clock mx" "gateway_keeps ?clock gw" "fi_gateway fi = gw" "upgrades_keep ?clock (fi_upgrades fi)"
    using keep by (simp_all add: node_keeps_def)
  have cx: "cx_machine ?cx = mx" by (simp add: node_context_def)
  have c: "exec_context ?ax st = ?clock (executor st)" for st
    by (simp add: exec_context_def node_app_def cx Let_def)
  have b: "?clock (executor st') = ?clock (executor st)" if "ax_begin ?ax (env, st) = Ok ((env', st'), r)" for env st env' st' r
    using that fvm_begin_keeps [OF k(1,4)] by (auto simp: node_app_def chain_begin_def cx Let_def outcome_simps)
  have d: "?clock (executor st') = ?clock (executor st)" if "ax_deliver ?ax (env, st) tx = Ok ((env', st'), r)" for env st tx env' st' r
    using that
    by (auto simp: node_app_def node_deliver_def bytes_deliver_def Let_def outcome_simps split: sum.splits
        dest!: chain_deliver_keeps [OF k(1,2)])
  have e: "?clock (executor st') = ?clock (executor st)" if "ax_end ?ax (env, st) = Ok ((env', st'), r)" for env st env' st' r
    using that fvm_end_keeps [of ?clock fi mx st] k(2,3)
    by (auto simp: node_app_def node_end_def chain_end_def cx Let_def outcome_simps)
  have n: "mx_epoch (ax_machine ?ax) ex = h \<and> ax_timestamp ?ax ex = sp_timestamp ps"
    if "ax_new_executor ?ax bs h ps = Ok ex" for bs h ps ex
    using that new by (simp add: node_app_def cx Let_def)
  show ?thesis unfolding context_ok_def c using n b d e by blast
qed

subsection \<open>A block and what it leaves\<close>

lemma add_u64_small: "a + b < U64 \<Longrightarrow> add_u64 a b = a + b"
  by (simp add: add_u64_def)

lemma run_block_step:
  assumes ok: "context_ok ax" and b: "run_block ax (req, txs) app = (app', Ok (resp, updates, hash, retain))"
  shows "\<exists>state ps app0. app_committed app = Some state \<and> app_exec_state app = None \<and>
     0 \<le> bb_height req \<and> 0 \<le> bb_time req \<and> length resp = length txs \<and> hash = ax_app_hash ax ps \<and>
     sp_timestamp ps = nat (bb_time req) \<and> sp_chain_id ps = sp_chain_id (st_state_params state) \<and>
     sp_network_version ps = sp_network_version (st_state_params state) \<and>
     retain = retain_height (app_state_hist_size app) (nat (bb_height req)) \<and>
     app' = (set_committed_state (state\<lparr>st_block_height := nat (bb_height req), st_state_params := ps\<rparr>) app0)
       \<lparr>app_check_state := None\<rparr> \<and>
     app_state_hist app0 = app_state_hist app \<and> app_state_hist_size app0 = app_state_hist_size app \<and>
     app_exec_state app0 = None"
proof -
  obtain app1 r1 where s1: "app_begin_block ax req app = (app1, r1)" by force
  obtain app2 r2 where s2: "deliver_txs ax txs app1 = (app2, r2)" by force
  obtain app3 r3 where s3: "app_end_block ax app2 = (app3, r3)" by force
  obtain app4 r4 where s4: "app_commit ax app3 = (app4, r4)" by force
  obtain beg where r1: "r1 = Ok beg" "beg \<noteq> ExitHalt" and r2: "r2 = Ok resp" and r3: "r3 = Ok updates"
    and r4: "app4 = app'" "r4 = Ok (hash, retain)"
    using b s1 s2 s3 s4 by (auto simp: run_block_def outcome_simps split: if_splits)
  obtain st1 where 1: "app_exec_state app = None" "0 \<le> bb_time req" "durable app1 = durable app" "app_exec_state app1 = Some st1"
    "exec_context ax st1 = (bb_height req, nat (bb_time req))"
    using begin_block_step [OF ok s1 [unfolded r1(1)] r1(2)] by blast
  let ?c = "(bb_height req, nat (bb_time req))"
  have "exec_step ax ?c app1 app3" "length resp = length txs"
    using deliver_txs_step [OF ok s2 [unfolded r2]] end_block_step [OF ok s3 [unfolded r3]] exec_step_trans by blast+
  then obtain st3 where 3: "app_exec_state app3 = Some st3" "exec_context ax st3 = ?c" "durable app3 = durable app"
    "length resp = length txs"
    using 1(3-5) unfolding exec_step_def by metis
  have "app_committed app3 = app_committed app" "app_state_hist app3 = app_state_hist app"
    "app_state_hist_size app3 = app_state_hist_size app"
    using 3(3) by (simp_all add: durable_def)
  with commit_step [OF s4 [unfolded r4] 3(1,2)] 1(1,2) 3(4) show ?thesis by (simp only:) blast
qed

section \<open>Chains of blocks\<close>

fun run_blocks ::
  "('a, 'k, 's, 'b, 'p) app_context \<Rightarrow> (BeginBlock \<times> nat list list) list \<Rightarrow> ('a, 'k, 's, 'b) App \<Rightarrow>
     ('a, 'k, 's, 'b) App \<times> (string, nat list list) outcome" where
  "run_blocks ax [] app = (app, Ok [])"
| "run_blocks ax (blk # blks) app =
     (case run_block ax blk app of
        (app, r) \<Rightarrow> finish app r (\<lambda>(_, _, hash, _).
          case run_blocks ax blks app of (app, r) \<Rightarrow> (app, omap ((#) hash) r)))"

text \<open>The history after the states \<open>pss\<close> were committed, the first of them the one of genesis.\<close>

definition hist_holds :: "nat \<Rightarrow> FvmStateParams list \<Rightarrow> ('a, 'k, 's, 'b) App \<Rightarrow> bool" where
  "hist_holds initial pss app =
     (let n = app_state_hist_size app; top = initial + length pss - 1 in
      pss \<noteq> [] \<and> 0 < initial \<and>
      (\<exists>st. app_committed app = Some st \<and> Suc (st_block_height st) = top \<and> st_state_params st = last pss \<and>
         st_oldest_state_height st \<le> max initial (top + 1 - n)) \<and>
      (\<forall>k \<ge> initial. map_of (app_state_hist app) k =
         (if k \<le> top \<and> (n = 0 \<or> top < k + n) then Some (pss ! (k - initial)) else None)))"

lemma hist_holds_commit:
  assumes h: "hist_holds initial pss app" and top: "initial + length pss < U64"
    and st: "app_committed app = Some st"
    and app0: "app_state_hist app0 = app_state_hist app" "app_state_hist_size app0 = app_state_hist_size app"
  shows "hist_holds initial (pss @ [ps])
     ((set_committed_state (st\<lparr>st_block_height := initial + length pss - 1, st_state_params := ps\<rparr>) app0)\<lparr>app_check_state := x\<rparr>)"
proof -
  let ?n = "app_state_hist_size app" and ?top = "initial + length pss"
  let ?st = "st\<lparr>st_block_height := ?top - 1, st_state_params := ps\<rparr>"
  have p: "pss \<noteq> []" "0 < initial" "st_oldest_state_height st \<le> max initial (?top - ?n)"
    and hist: "\<And>k. initial \<le> k \<Longrightarrow> map_of (app_state_hist app) k =
       (if k \<le> ?top - 1 \<and> (?n = 0 \<or> ?top - 1 < k + ?n) then Some (pss ! (k - initial)) else None)"
    using h st unfolding hist_holds_def Let_def by auto
  have sh: "state_height ?st = ?top" using top p(1,2) by (cases pss) (simp_all add: state_height_def add_u64_small)
  have get: "map_of (app_state_hist (set_committed_state ?st app0)) k =
      (if k \<le> ?top \<and> (?n = 0 \<or> ?top < k + ?n) then Some ((pss @ [ps]) ! (k - initial)) else None)" if k: "initial \<le> k" for k
  proof -
    have "st_oldest_state_height ?st \<le> k \<or> k + ?n < ?top \<or> ?top < k + ?n"
      using p(3) k by auto
    then show ?thesis
      unfolding set_committed_hist sh app0 hist [OF k] using p(2) k
      by (auto simp: nth_append)
  qed
  have "app_committed (set_committed_state ?st app0) =
      Some (?st\<lparr>st_oldest_state_height := if 0 < ?n \<and> ?n \<le> ?top then max (st_oldest_state_height st) (Suc (?top - ?n))
         else st_oldest_state_height st\<rparr>)"
    unfolding set_committed_state_committed sh app0 by simp
  moreover have "(if 0 < ?n \<and> ?n \<le> ?top then max (st_oldest_state_height st) (Suc (?top - ?n))
         else st_oldest_state_height st) \<le> max initial (?top + 1 - ?n)" using p(3) by auto
  ultimately show ?thesis using get p app0 unfolding hist_holds_def Let_def by simp
qed

lemma run_blocks_hist:
  assumes ok: "context_ok ax"
  shows "hist_holds initial pss app \<Longrightarrow> run_blocks ax blks app = (app', Ok hashes) \<Longrightarrow>
     map (\<lambda>(req, txs). bb_height req) blks = map int [initial + length pss - 1..<initial + length pss - 1 + length blks] \<Longrightarrow>
     initial + length pss + length blks \<le> U64 \<Longrightarrow>
     \<exists>qss. hist_holds initial (pss @ qss) app' \<and> hashes = map (ax_app_hash ax) qss \<and> length qss = length blks \<and>
       app_state_hist_size app' = app_state_hist_size app"
proof (induction blks arbitrary: pss app hashes)
  case (Cons blk blks)
  obtain req txs where blk: "blk = (req, txs)" by force
  obtain app1 r where b: "run_block ax (req, txs) app = (app1, r)" by force
  obtain app2 r2 where "run_blocks ax blks app1 = (app2, r2)" by force
  with b Cons.prems(2) blk obtain resp upd hash ret hs where r: "r = Ok (resp, upd, hash, ret)"
    "run_blocks ax blks app1 = (app', Ok hs)" "hashes = hash # hs"
    by (auto simp: outcome_simps)
  let ?h = "initial + length pss - 1"
  have pss: "pss \<noteq> []" "0 < initial" using Cons.prems(1) by (simp_all add: hist_holds_def Let_def)
  have len: "length blks + Suc ?h = initial + length pss + length blks" using pss by simp
  have h: "bb_height req = int ?h" "map (\<lambda>(req, txs). bb_height req) blks = map int [Suc ?h..<Suc ?h + length blks]"
    using Cons.prems(3) pss by (auto simp: blk upt_conv_Cons)
  obtain state ps app0 where s: "app_committed app = Some state" "hash = ax_app_hash ax ps"
    "app1 = (set_committed_state (state\<lparr>st_block_height := ?h, st_state_params := ps\<rparr>) app0)\<lparr>app_check_state := None\<rparr>"
    "app_state_hist app0 = app_state_hist app" "app_state_hist_size app0 = app_state_hist_size app"
    using run_block_step [OF ok b [unfolded r(1)]] h(1) by auto
  have holds: "hist_holds initial (pss @ [ps]) app1"
    unfolding s(3) by (rule hist_holds_commit [OF Cons.prems(1) _ s(1,4,5)]) (use Cons.prems(4) in simp)
  obtain qss where "hist_holds initial ((pss @ [ps]) @ qss) app'" "hs = map (ax_app_hash ax) qss" "length qss = length blks"
    "app_state_hist_size app' = app_state_hist_size app1"
    using Cons.IH [OF holds r(2)] h(2) Cons.prems(4) pss by auto
  then have "hist_holds initial (pss @ (ps # qss)) app' \<and> hashes = map (ax_app_hash ax) (ps # qss) \<and>
      length (ps # qss) = length (blk # blks) \<and> app_state_hist_size app' = app_state_hist_size app"
    using r(3) s(2,3,5) by simp
  then show ?case by blast
qed simp

text \<open>On an empty database the empty state is committed as the state of block 0, under height 1.\<close>

lemma fresh_app:
  assumes "app_new ax None [] n halt env snaps bs = (app, Ok ())"
  shows "\<exists>root_cid. app_committed app = Some \<lparr>st_block_height = 0, st_oldest_state_height = (if n = 1 then 1 else 0),
         st_state_params = empty_params root_cid\<rparr> \<and>
     (\<forall>k. map_of (app_state_hist app) k = (if k = 1 then Some (empty_params root_cid) else None)) \<and>
     app_state_hist_size app = n \<and> app_exec_state app = None \<and> app_check_state app = None"
proof -
  obtain root_cid bs0 where app: "app = set_committed_state
      \<lparr>st_block_height = 0, st_oldest_state_height = 0, st_state_params = empty_params root_cid\<rparr>
      \<lparr>app_committed = None, app_state_hist = [], app_state_hist_size = n, app_halt_height = halt,
       app_exec_state = None, app_check_state = None, app_chain_env = env, app_snapshots = snaps, app_store = bs0\<rparr>"
    using assms by (auto simp: app_new_def init_committed_state_def Let_def split: prod.splits outcome.splits)
  have "state_height \<lparr>st_block_height = 0, st_oldest_state_height = 0, st_state_params = empty_params root_cid\<rparr> = 1"
    by (simp add: state_height_def add_u64_def U64_def)
  then show ?thesis unfolding app by (auto simp: set_committed_hist set_committed_state_committed)
qed

lemma genesis_hist:
  fixes app0 :: "('a, 'k, 's, 'b) App"
  assumes new: "app_new ax None [] n halt env snaps bs = (app0, Ok ())"
    and gen: "app_init_chain ax genesis initial app0 = (app1, Ok (validators, hash))" and i: "0 < initial" "initial < U64"
  shows "\<exists>ps. hist_holds initial [ps] app1 \<and> hash = ax_app_hash ax ps \<and> app_state_hist_size app1 = n \<and> app_exec_state app1 = None"
proof -
  have sub: "sub_u64 initial (Suc 0) = initial - 1" using i by (simp add: sub_u64_def)
  obtain root_cid where h0: "\<And>k. map_of (app_state_hist app0) k = (if k = 1 then Some (empty_params root_cid) else None)"
    and n0: "app_state_hist_size app0 = n" "app_exec_state app0 = None"
    using fresh_app [OF new] by blast
  obtain ps bs1 where 1: "app1 = set_committed_state
      \<lparr>st_block_height = initial - 1, st_oldest_state_height = initial - 1, st_state_params = ps\<rparr> (app0\<lparr>app_store := bs1\<rparr>)"
    "hash = ax_app_hash ax ps"
    using gen by (auto simp: app_init_chain_def sub Let_def outcome_simps split: prod.splits)
  have sh: "state_height \<lparr>st_block_height = initial - 1, st_oldest_state_height = initial - 1, st_state_params = ps\<rparr> = initial"
    using i by (simp add: state_height_def add_u64_small)
  have "map_of (app_state_hist app1) k =
      (if k \<le> initial \<and> (n = 0 \<or> initial < k + n) then Some ([ps] ! (k - initial)) else None)" if "initial \<le> k" for k
    unfolding 1(1) set_committed_hist sh using that i by (auto simp: n0 h0)
  moreover have "app_state_hist_size app1 = n" "app_exec_state app1 = None" unfolding 1(1) by (simp_all add: n0)
  moreover have "\<exists>st. app_committed app1 = Some st \<and> Suc (st_block_height st) = initial \<and> st_state_params st = ps \<and>
      st_oldest_state_height st \<le> max initial (initial + 1 - n)"
    unfolding 1(1) set_committed_state_committed sh using i by (auto simp: n0)
  ultimately have "hist_holds initial [ps] app1" using i by (simp add: hist_holds_def Let_def)
  then show ?thesis using 1(2) \<open>app_state_hist_size app1 = n\<close> \<open>app_exec_state app1 = None\<close> by blast
qed

section \<open>Well-formed applications\<close>

text \<open>Consensus calls the handlers in any order; whatever they return, the application goes on with what they left.\<close>

inductive app_step ::
  "('a, 'k, 's, 'b, 'p) app_context \<Rightarrow> ('a, 'k, 's, 'b) App \<Rightarrow> ('a, 'k, 's, 'b) App \<Rightarrow> bool" for ax where
  step_init_chain: "app_init_chain ax genesis_bytes initial app = (app', r) \<Longrightarrow> app_step ax app app'"
| step_query: "app_query ax path data height app = Some (app', r) \<Longrightarrow> app_step ax app app'"
| step_check_tx: "app_check_tx ax tx is_recheck app = (app', r) \<Longrightarrow> app_step ax app app'"
| step_prepare: "app_prepare_proposal ax txs max_tx_bytes app = (app', r) \<Longrightarrow> app_step ax app app'"
| step_process: "app_process_proposal ax txs app = (app', r) \<Longrightarrow> app_step ax app app'"
| step_begin: "app_begin_block ax req app = (app', r) \<Longrightarrow> app_step ax app app'"
| step_deliver: "app_deliver_tx ax tx app = (app', r) \<Longrightarrow> app_step ax app app'"
| step_end: "app_end_block ax app = (app', r) \<Longrightarrow> app_step ax app app'"
| step_commit: "app_commit ax app = (app', r) \<Longrightarrow> app_step ax app app'"
| step_load_chunk: "app_load_snapshot_chunk now height format chunk app = (app', r) \<Longrightarrow> app_step ax app app'"
| step_offer: "app_offer_snapshot ax io sn offered_hash app = (app', r) \<Longrightarrow> app_step ax app app'"
| step_apply_chunk: "app_apply_snapshot_chunk ax io index contents app = (app', r) \<Longrightarrow> app_step ax app app'"

text \<open>The database: the history has one state for a height, and the committed state is in it.\<close>

definition db_wf :: "AppState option \<Rightarrow> (nat, FvmStateParams) hmap \<Rightarrow> bool" where
  "db_wf committed hist =
     (hm_wf hist \<and> (\<forall>st. committed = Some st \<longrightarrow> map_of hist (state_height st) = Some (st_state_params st)))"

definition app_wf :: "('a, 'k, 's, 'b) App \<Rightarrow> bool" where
  "app_wf app = (app_committed app \<noteq> None \<and> db_wf (app_committed app) (app_state_hist app))"

lemma app_wf_cong:
  "app_committed app' = app_committed app \<Longrightarrow> app_state_hist app' = app_state_hist app \<Longrightarrow> app_wf app' = app_wf app"
  by (simp add: app_wf_def)

lemma app_wf_fields [simp]:
  "app_wf (app\<lparr>app_chain_env := e\<rparr>) = app_wf app" "app_wf (app\<lparr>app_exec_state := x\<rparr>) = app_wf app"
  "app_wf (app\<lparr>app_check_state := x\<rparr>) = app_wf app" "app_wf (app\<lparr>app_snapshots := c\<rparr>) = app_wf app"
  "app_wf (app\<lparr>app_store := b\<rparr>) = app_wf app"
  by (simp_all add: app_wf_def)

lemma set_committed_app_wf:
  assumes "hm_wf (app_state_hist app)"
  shows "app_wf (set_committed_state st app)"
proof -
  have "state_height (st\<lparr>st_oldest_state_height := k\<rparr>) = state_height st" for k by (simp add: state_height_def)
  then show ?thesis
    using set_committed_wf [OF assms, of st]
    by (simp add: app_wf_def db_wf_def set_committed_state_committed set_committed_hist)
qed

lemma app_wf_hist: "app_wf app \<Longrightarrow> hm_wf (app_state_hist app)"
  by (simp add: app_wf_def db_wf_def)

lemma committed_app_wf: "app_wf app \<Longrightarrow> app_wf (set_committed_state st app)"
  by (rule set_committed_app_wf) (rule app_wf_hist)

lemma finish_wf:
  assumes "finish app r k = (app', z)" "app_wf app" "\<And>y. r = Ok y \<Longrightarrow> k y = (app', z) \<Longrightarrow> app_wf app'"
  shows "app_wf app'"
  using assms by (cases r) (simp_all add: finish_def)

lemma modify_exec_wf: "modify_exec_state f app = (app', r) \<Longrightarrow> app_wf app \<Longrightarrow> app_wf app'"
  by (auto simp: modify_exec_state_def split: option.splits outcome.splits prod.splits)

lemma app_step_wf:
  assumes "app_step ax app app'" "app_wf app"
  shows "app_wf app'"
  using assms
proof cases
  case (step_init_chain g i r)
  then show ?thesis
    using assms(2)
    by (auto simp: app_init_chain_def Let_def split: prod.splits elim!: finish_wf intro!: committed_app_wf)
next
  case (step_query path data height r)
  then show ?thesis
    using assms(2) by (auto simp: app_query_def Let_def split: prod.splits outcome.splits if_splits)
next
  case (step_check_tx tx is_recheck r)
  then show ?thesis using assms(2) by (auto simp: app_check_tx_def Let_def elim!: finish_wf)
next
  case (step_prepare txs max_tx_bytes r)
  then show ?thesis using assms(2) by (auto simp: app_prepare_proposal_def Let_def split: prod.splits if_splits elim!: finish_wf)
next
  case (step_process txs r)
  then show ?thesis using assms(2) by (auto simp: app_process_proposal_def split: prod.splits elim!: finish_wf)
next
  case (step_begin req r)
  then show ?thesis
    using assms(2)
    by (auto simp: app_begin_block_def put_exec_state_def Let_def split: prod.splits option.splits if_splits
        elim!: finish_wf modify_exec_wf)
next
  case (step_deliver tx r)
  then show ?thesis using assms(2) by (auto simp: app_deliver_tx_def split: prod.splits elim!: modify_exec_wf)
next
  case (step_end r)
  then show ?thesis using assms(2) by (auto simp: app_end_block_def split: prod.splits elim!: modify_exec_wf)
next
  case (step_commit r)
  then show ?thesis
    using assms(2)
    by (auto simp: app_commit_def Let_def split: prod.splits option.splits if_splits elim!: finish_wf
        intro!: committed_app_wf)
next
  case (step_load_chunk now height format chunk r)
  then show ?thesis using assms(2) by (auto simp: app_load_snapshot_chunk_def split: prod.splits option.splits)
next
  case (step_offer io sn h r)
  then show ?thesis using assms(2) by (auto simp: app_offer_snapshot_def split: prod.splits option.splits outcome.splits)
next
  case (step_apply_chunk io index contents r)
  then show ?thesis
    using assms(2)
    by (auto simp: app_apply_snapshot_chunk_def Let_def split: prod.splits option.splits outcome.splits SnapshotError.splits
        elim!: finish_wf intro!: committed_app_wf)
qed

lemma app_new_wf:
  assumes db: "db_wf committed hist" and new: "app_new ax committed hist n halt env snaps bs = (app, Ok ())"
  shows "app_wf app"
proof (cases committed)
  case None
  then show ?thesis
    using new db
    by (auto simp: app_new_def init_committed_state_def Let_def db_wf_def split: prod.splits outcome.splits
        intro!: set_committed_app_wf)
next
  case (Some st)
  then show ?thesis using new db by (auto simp: app_new_def init_committed_state_def app_wf_def)
qed

interpretation app: start_invariant "app_step ax" app_wf
  "\<lambda>app0. \<exists>committed hist n halt env snaps bs. db_wf committed hist \<and> app_new ax committed hist n halt env snaps bs = (app0, Ok ())"
  by unfold_locales (auto intro: app_step_wf app_new_wf)

section \<open>Proposals\<close>

lemma take_until_max_size_spec:
  "\<exists>k. take_until_max_size txs max_tx_bytes so_far = take k txs \<and>
     (so_far \<le> max_tx_bytes \<and> max_tx_bytes < U64 - 1 \<longrightarrow>
      so_far + sum_list (map length (take_until_max_size txs max_tx_bytes so_far)) \<le> max_tx_bytes)"
proof (induction txs arbitrary: so_far)
  case (Cons tx txs)
  show ?case
  proof (cases "min (so_far + length tx) (U64 - 1) > max_tx_bytes")
    case True
    then show ?thesis by (intro exI [of _ 0]) auto
  next
    case False
    obtain k where "take_until_max_size txs max_tx_bytes (so_far + length tx) = take k txs"
      "so_far + length tx \<le> max_tx_bytes \<and> max_tx_bytes < U64 - 1 \<longrightarrow>
         so_far + length tx + sum_list (map length (take_until_max_size txs max_tx_bytes (so_far + length tx))) \<le> max_tx_bytes"
      using Cons.IH by blast
    with False show ?thesis by (intro exI [of _ "Suc k"]) (auto simp: add.assoc)
  qed
qed simp

section \<open>State sync\<close>

fun apply_chunks ::
  "('a, 'k, 's, 'b, 'p) app_context \<Rightarrow> nat \<Rightarrow> nat list list \<Rightarrow> ('a, 'k, 's, 'b) App \<Rightarrow>
     ('a, 'k, 's, 'b) App \<times> (string, ApplyResponse list) outcome" where
  "apply_chunks ax i [] app = (app, Ok [])"
| "apply_chunks ax i (x # xs) app =
     (case app_apply_snapshot_chunk ax (Ok ()) i x app of
        (app, r) \<Rightarrow> finish app r (\<lambda>resp.
          case apply_chunks ax (i + 1) xs app of (app, r) \<Rightarrow> (app, omap ((#) resp) r)))"

lemma apply_chunks_spec:
  "app_snapshots app = Some c \<Longrightarrow> downloading c m pre \<Longrightarrow> xs \<noteq> [] \<Longrightarrow> length pre + length xs = sm_chunks m \<Longrightarrow>
   sm_chunks m < U32 \<Longrightarrow> ax_sha256 ax (concat (pre @ xs)) = sm_checksum m \<Longrightarrow> app_committed app = Some st \<Longrightarrow>
   snapshot_import (ax_snapshot_lib ax) (snapshot_item_new (zip [0..<sm_chunks m] (pre @ xs)) m) (app_store app) True =
     (bs', Ok sn) \<Longrightarrow>
   \<exists>app' oldest. apply_chunks ax (length pre) xs app = (app', Ok (replicate (length xs) ApplyAccept)) \<and>
     app_committed app' = Some \<lparr>st_block_height = sm_block_height m, st_oldest_state_height = oldest,
       st_state_params = sm_state_params m\<rparr> \<and> app_store app' = bs'"
proof (induction xs arbitrary: pre app c)
  case (Cons x xs)
  show ?case
  proof (cases "xs = []")
    case True
    then obtain c1 where c1: "client_save_chunk (ax_sha256 ax) (Ok ()) (length pre) x c =
        (c1, Ok (Some (snapshot_item_new (zip [0..<sm_chunks m] (pre @ [x])) m)))"
      using save_chunk_step(2) [of c m pre "ax_sha256 ax" x] Cons.prems by (auto simp del: upt_Suc)
    have m: "si_manifest (snapshot_item_new ps m) = m" for ps by (simp add: snapshot_item_new_def)
    show ?thesis
      using True c1 Cons.prems
      by (cases st) (auto simp: app_apply_snapshot_chunk_def Let_def committed_state_def finish_def m set_committed_state_committed
          simp del: upt_Suc)
  next
    case False
    then have n: "Suc (length pre) \<noteq> sm_chunks m" "Suc (length pre) < U32" using Cons.prems(4,5) by (cases xs; simp)+
    obtain c1 where c1: "client_save_chunk (ax_sha256 ax) (Ok ()) (length pre) x c = (c1, Ok None)" "downloading c1 m (pre @ [x])"
      using save_chunk_step(1) [OF Cons.prems(2) n(2,1)] by blast
    let ?app = "app\<lparr>app_snapshots := Some c1\<rparr>"
    have a: "app_apply_snapshot_chunk ax (Ok ()) (length pre) x app = (?app, Ok ApplyAccept)"
      using c1(1) Cons.prems(1) by (simp add: app_apply_snapshot_chunk_def Let_def)
    obtain app' oldest where "apply_chunks ax (length (pre @ [x])) xs ?app = (app', Ok (replicate (length xs) ApplyAccept))"
      "app_committed app' = Some \<lparr>st_block_height = sm_block_height m, st_oldest_state_height = oldest,
         st_state_params = sm_state_params m\<rparr>" "app_store app' = bs'"
      using Cons.IH [OF _ c1(2) False, of ?app] Cons.prems(4-8) by auto
    with a show ?thesis by (simp add: finish_def)
  qed
qed simp

lemma access_first_append:
  assumes "\<forall>s \<in> set pre. sm_block_height (si_manifest s) \<noteq> h" "sm_block_height (si_manifest item) = h"
    "sm_version (si_manifest item) = v"
  shows "fst (access_first now h v (pre @ item # post)) = Some (item\<lparr>si_last_access := now\<rparr>)"
  using assms by (induction pre) (simp_all add: Let_def)

lemma load_chunk_access [simp]: "load_chunk i (item\<lparr>si_last_access := now\<rparr>) = load_chunk i item"
  by (simp add: load_chunk_def)

lemma load_snapshot_chunk:
  assumes "app_snapshots app = Some c" "ss_snapshots (sc_state c) = pre @ item # post"
    "\<forall>s \<in> set pre. sm_block_height (si_manifest s) \<noteq> sm_block_height (si_manifest item)" "load_chunk i item = Ok x"
  shows "snd (app_load_snapshot_chunk now (sm_block_height (si_manifest item)) (sm_version (si_manifest item)) i app) = x"
proof -
  let ?h = "sm_block_height (si_manifest item)" and ?v = "sm_version (si_manifest item)"
  have "fst (access_first now ?h ?v (pre @ item # post)) = Some (item\<lparr>si_last_access := now\<rparr>)"
    by (rule access_first_append [OF assms(3) refl refl])
  then obtain ss where "access_first now ?h ?v (ss_snapshots (sc_state c)) = (Some (item\<lparr>si_last_access := now\<rparr>), ss)"
    unfolding assms(2) by (cases "access_first now ?h ?v (pre @ item # post)") simp
  then show ?thesis using assms(1,4) by (simp add: app_load_snapshot_chunk_def client_access_snapshot_def)
qed

section \<open>Properties\<close>


text \<open>C23: the application is well-formed at all times. On an empty database, or on one that is well-formed, its
  handlers can be called in any order and with any outcome: there is always a committed state, it is in
  the history under the height after its block, the history has one state for each height, and so no
  handler fails for the lack of a state.\<close>

theorem app_state_available:
  assumes "db_wf committed hist" "app_new ax committed hist n halt env snaps bs = (app0, Ok ())" "(app_step ax)\<^sup>*\<^sup>* app0 app"
  shows "\<exists>st. committed_state app = Ok st \<and> hm_wf (app_state_hist app) \<and>
     map_of (app_state_hist app) (state_height st) = Some (st_state_params st) \<and>
     (\<forall>q. \<exists>ps h. state_params_at_height q app = Ok (ps, h))"
proof -
  have "app_wf app" using app.reachable_good [OF _ assms(3)] assms(1,2) by blast
  then show ?thesis
    by (auto simp: app_wf_def db_wf_def committed_state_def state_params_at_height_def Let_def
        split: FvmQueryHeight.splits option.splits)
qed


text \<open>C3: what a node proposes, it accepts. A proposal made from transactions of the mempool, none of which decodes to
  a message that only validators may propose, has at most as many messages and as many bytes as allowed,
  starts with what the node itself has to propose, and the same node votes for it.\<close>

theorem own_proposal_accepted:
  assumes ax: "ax = node_app cd msgs_cap cr cx fi gs ax0"
    and wf: "chain_env_wf (app_chain_env app)" and st: "proposal_state ax app = Ok st"
    and q: "queries_ok (cx_machine cx) st fin"
    and new: "chain_prepare (cx_machine cx) (app_chain_env app) st [] = (env1, Ok new)" and cd: "codec_ok cd (set new)"
    and txs: "\<forall>m \<in> set (decodable cd txs). user_message m" and size: "0 \<le> max_tx_bytes" "max_tx_bytes \<le> int I64_MAX"
  shows "\<exists>app1 bs k app2. decodable cd bs = new \<and>
     app_prepare_proposal ax txs max_tx_bytes app = (app1, Ok (take k (bs @ txs))) \<and>
     length (take k (bs @ txs)) \<le> msgs_cap \<and>
     int (sum_list (map length (take k (bs @ txs)))) \<le> max_tx_bytes \<and>
     app_process_proposal ax (take k (bs @ txs)) app1 = (app2, Ok True)"
proof -
  obtain bs where p: "node_prepare cd msgs_cap (cx_machine cx) (app_chain_env app) st txs = (env1, Ok (take msgs_cap (bs @ txs)))"
    "decodable cd bs = new" "env_core env1 = env_core (app_chain_env app)"
    "\<forall>m \<in> set new. acceptable fin (app_chain_env app) m"
    using node_prepare_spec [OF wf q new cd] by blast
  let ?app = "app\<lparr>app_chain_env := env1\<rparr>"
  obtain k where k: "take_until_max_size (take msgs_cap (bs @ txs)) (nat max_tx_bytes) 0 = take k (take msgs_cap (bs @ txs))"
    "nat max_tx_bytes < U64 - 1 \<longrightarrow>
       sum_list (map length (take_until_max_size (take msgs_cap (bs @ txs)) (nat max_tx_bytes) 0)) \<le> nat max_tx_bytes"
    using take_until_max_size_spec [of "take msgs_cap (bs @ txs)" "nat max_tx_bytes" 0] by fastforce
  define out where "out = take (min k msgs_cap) (bs @ txs)"
  have out: "take_until_max_size (take msgs_cap (bs @ txs)) (nat max_tx_bytes) 0 = out"
    unfolding k(1) take_take out_def ..
  have prep: "app_prepare_proposal ax txs max_tx_bytes app = (?app, Ok out)"
    using st p(1) size(1) out by (simp add: app_prepare_proposal_def ax node_app_def Let_def finish_def with_context_def)
  have "nat max_tx_bytes < U64 - 1" using size by (simp add: I64_MAX_def U64_def)
  then have bytes: "int (sum_list (map length out)) \<le> max_tx_bytes" using k(2) size(1) unfolding out by linarith
  have acc: "\<forall>m \<in> set (decodable cd out). acceptable fin env1 m"
  proof
    fix m assume "m \<in> set (decodable cd out)"
    then have "m \<in> set (decodable cd (bs @ txs))" unfolding out_def by (rule subsetD [OF decodable_take])
    then have "m \<in> set new \<or> user_message m" using p(2) txs by auto
    then show "acceptable fin env1 m" unfolding acceptable_core [OF p(3)] using p(4) user_acceptable by blast
  qed
  have wf1: "toggle_wf (parent_finality_provider env1)"
    using chain_env_toggle [OF wf] env_coreD(2) [OF p(3)] by simp
  have len: "length out \<le> msgs_cap" unfolding out_def length_take by linarith
  obtain env2 where "node_process cd msgs_cap (cx_machine cx) env1 st out = (env2, Ok True)"
    using node_process_exact [OF q wf1, of cd msgs_cap out] acc len by auto
  moreover have "proposal_state ax ?app = Ok st" using st by (simp add: proposal_state_def committed_state_def)
  ultimately have "app_process_proposal ax out ?app = (?app\<lparr>app_chain_env := env2\<rparr>, Ok True)"
    by (simp add: app_process_proposal_def ax node_app_def Let_def finish_def with_context_def)
  with prep bytes len p(2) show ?thesis unfolding out_def by blast
qed

text \<open>A query sees the empty state. On an empty database, before genesis, a query at the latest height is refused
  because the application is not initialized; but a query at height 1, where the empty state is stored,
  runs on that state.\<close>

theorem empty_state_queried:
  assumes new: "app_new ax None [] n halt env snaps bs = (app, Ok ())"
    and qs: "\<forall>ps. query_state_new (ax_query_context ax (app_store app)) 1 ps None False = Ok (qs ps)"
    and q: "\<forall>ps. ax_query ax (app_store app) path data (qs ps) = Some (qs' ps, Ok (Inr ret))" and r: "to_query ax ret 1 = Ok resp"
  shows "app_query ax path data 0 app = Some (app, Ok (invalid_query NotInitialized ''The app hasn't been initialized yet.'')) \<and>
     (\<exists>app' root_cid. app_query ax path data 1 app = Some (app', Ok resp) \<and>
        state_params_at_height (Height 1) app = Ok (empty_params root_cid, 1))"
proof -
  obtain root_cid where app: "st_state_params (the (app_committed app)) = empty_params root_cid" "app_committed app \<noteq> None"
    "st_block_height (the (app_committed app)) = 0" "map_of (app_state_hist app) 1 = Some (empty_params root_cid)"
    "app_check_state app = None"
    using fresh_app [OF new] by auto
  have "query_height_from 0 = Committed" "query_height_from 1 = Height 1"
    by (simp_all add: query_height_from_def I64_MAX_def)
  moreover have "to_height 1 = Ok 1" by (simp add: to_height_def I64_MAX_def)
  moreover have "state_params_at_height (Height 1) app = Ok (empty_params root_cid, 1)"
    "state_params_at_height Committed app = Ok (empty_params root_cid, 0)"
    using app by (auto simp: state_params_at_height_def committed_state_def)
  moreover have "can_query_state 1 (empty_params root_cid)" "\<not> can_query_state 0 (empty_params root_cid)"
    by (simp_all add: can_query_state_def empty_params_def)
  ultimately show ?thesis
    using qs q r app(5) by (auto simp: app_query_def Let_def with_context_def)
qed

text \<open>C9: state sync. A node that offers a snapshot it took, and serves its chunks, brings another node to the state of
  the snapshot: the other node accepts the offer if the hash is the one consensus expects, accepts every
  chunk, then reports the height and hash of the snapshot, and has every block of the state.\<close>

theorem state_sync:
  assumes lib: "snapshot_lib_ok (ax_snapshot_lib ax) valid" "store_ok (ax_snapshot_lib ax) bs rank"
      "\<forall>c b. sl_get (ax_snapshot_lib ax) bs c = Ok (Some b) \<longrightarrow> valid c b"
      "\<forall>roots. sl_header (ax_snapshot_lib ax) roots \<noteq> []" "\<forall>b. sl_frame (ax_snapshot_lib ax) b \<noteq> []"
    and meta: "\<forall>m. \<exists>b. ax_encode_meta ax m = Ok b \<and> ax_decode_meta ax b = Ok m"
    and hash: "\<forall>x. ax_parse_hash ax (ax_sha256 ax x) = Ok (ax_sha256 ax x)"
    and new: "snapshot_new (ax_snapshot_lib ax) bs ps h = Ok sn"
    and create: "create_snapshot (ax_snapshot_lib ax) (ax_sha256 ax) chunk_size bs h ps = Some (Ok item)"
    and bounds: "length (si_parts item) < U32" "h \<le> I64_MAX"
    and srv: "app_snapshots srv = Some sc" "ss_snapshots (sc_state sc) = pre @ item # post"
      "\<forall>s \<in> set pre. sm_block_height (si_manifest s) \<noteq> h"
    and cl: "app_snapshots cl = Some cc" "app_committed cl = Some st"
  shows "\<exists>offer cl1 cl2. to_snapshot (ax_encode_meta ax) item = Ok offer \<and>
     app_offer_snapshot ax (Ok ()) offer (ax_app_hash ax ps) cl = (cl1, OfferAccept) \<and>
     apply_chunks ax 0
       (map (\<lambda>i. snd (app_load_snapshot_chunk now h (as_format offer) i srv)) [0..<as_chunks offer]) cl1 =
         (cl2, Ok (replicate (as_chunks offer) ApplyAccept)) \<and>
     app_info ax cl2 = Ok \<lparr>in_app_version = sp_app_version ps, in_last_block_height = h,
       in_last_block_app_hash = ax_app_hash ax ps\<rparr> \<and>
     (\<forall>k b. reach (ax_snapshot_lib ax) bs (sp_state_root ps) k \<and> sl_get (ax_snapshot_lib ax) bs k = Ok (Some b) \<longrightarrow>
        sl_get (ax_snapshot_lib ax) (app_store cl2) k = Ok (Some b))"
proof -
  obtain xs m bs' where it: "xs \<noteq> []" "item = snapshot_item_new (zip [0..<length xs] xs) m" "sm_block_height m = h"
    "sm_state_params m = ps" "sm_version m = 1" "sm_chunks m = length xs mod U32" "sm_checksum m = ax_sha256 ax (concat xs)"
    "snapshot_import (ax_snapshot_lib ax) item (app_store cl) True = (bs', Ok sn)"
    "\<forall>k b. reach (ax_snapshot_lib ax) bs (sp_state_root ps) k \<and> sl_get (ax_snapshot_lib ax) bs k = Ok (Some b) \<longrightarrow>
        sl_get (ax_snapshot_lib ax) bs' k = Ok (Some b)"
    using created_item [OF lib(1,2) _ _ _ new create, of "app_store cl"] lib(3-5) by blast
  have item: "si_manifest item = m" "si_parts item = zip [0..<length xs] xs" by (simp_all add: it(2) snapshot_item_new_def)
  have chunks: "sm_chunks m = length xs" "length xs < U32" using it(6) bounds(1) item(2) by simp_all
  obtain metadata where md: "ax_encode_meta ax (sm_size m, ps) = Ok metadata" "ax_decode_meta ax metadata = Ok (sm_size m, ps)"
    using meta by blast
  define offer where "offer = \<lparr>as_height = h, as_format = 1, as_chunks = length xs, as_hash = sm_checksum m, as_metadata = metadata\<rparr>"
  have offer: "to_snapshot (ax_encode_meta ax) item = Ok offer"
    using bounds(2) md(1) it(3-5) chunks(1) by (simp add: to_snapshot_def item offer_def)
  have "from_snapshot (ax_decode_meta ax) (ax_app_hash ax) (ax_parse_hash ax) offer (ax_app_hash ax ps) = Ok m"
    using md(2) hash it(3-5,7) chunks(1) by (cases m) (simp add: from_snapshot_def offer_def with_context_def)
  moreover obtain c1 where c1: "client_offer_snapshot (Ok ()) m cc = (c1, Ok ())" "downloading c1 m []"
    using offer_accepted [OF it(5)] by blast
  ultimately have acc: "app_offer_snapshot ax (Ok ()) offer (ax_app_hash ax ps) cl = (cl\<lparr>app_snapshots := Some c1\<rparr>, OfferAccept)"
    using cl(1) by (simp add: app_offer_snapshot_def)
  have "snd (app_load_snapshot_chunk now h 1 i srv) = xs ! i" if "i < length xs" for i
    using load_snapshot_chunk [OF srv(1,2), of i "xs ! i" now] srv(3) item(1) it(2,3,5) load_chunk_zip [OF that chunks(1)] by simp
  then have loaded: "map (\<lambda>i. snd (app_load_snapshot_chunk now h 1 i srv)) [0..<length xs] = xs"
    by (intro nth_equalityI) simp_all
  obtain cl2 oldest where cl2: "apply_chunks ax 0 xs (cl\<lparr>app_snapshots := Some c1\<rparr>) = (cl2, Ok (replicate (length xs) ApplyAccept))"
    "app_committed cl2 = Some \<lparr>st_block_height = h, st_oldest_state_height = oldest, st_state_params = ps\<rparr>" "app_store cl2 = bs'"
    using apply_chunks_spec [of "cl\<lparr>app_snapshots := Some c1\<rparr>" c1 m "[]" xs ax st bs' sn] c1(2) it chunks cl(2) by auto
  have "app_info ax cl2 = Ok \<lparr>in_app_version = sp_app_version ps, in_last_block_height = h,
       in_last_block_app_hash = ax_app_hash ax ps\<rparr>"
    using cl2(2) bounds(2) by (simp add: app_info_def committed_state_def to_height_def)
  with offer acc cl2(1,3) loaded it(9) show ?thesis
    by (intro exI [of _ offer] exI [of _ "cl\<lparr>app_snapshots := Some c1\<rparr>"] exI [of _ cl2]) (simp add: offer_def)
qed

section \<open>Witnesses\<close>

text \<open>A node for evaluation. Its machine keeps the height and the time of the block in actor 0, which no message
  changes; its blocks are identified by the hash \<open>[timestamp]\<close>.\<close>

definition clock_machine :: "(nat, accounts) machine" where
  "clock_machine = sample_machine
     \<lparr>mx_epoch := (\<lambda>s. case hm_get s 0 of Some a \<Rightarrow> act_balance a | None \<Rightarrow> 0),
      mx_mutate_actor := (\<lambda>i f s. if i = 0 then Err ''clock'' else mx_mutate_actor sample_machine i f s)\<rparr>"

definition clock_time :: "accounts \<Rightarrow> nat" where
  "clock_time s = (case hm_get s 0 of Some a \<Rightarrow> act_sequence a | None \<Rightarrow> 0)"

definition clock_accounts :: "int \<Rightarrow> nat \<Rightarrow> accounts" where
  "clock_accounts h t =
     (0, \<lparr>act_code = 1, act_state = [], act_sequence = t, act_balance = h, act_delegated = None\<rparr>) # sample_accounts"

definition sample_app_context :: "(nat, nat, accounts, (cid, nat list) hmap, nat) app_context" where
  "sample_app_context =
     \<lparr>ax_machine = clock_machine, ax_empty_tree = (\<lambda>bs. (bs, Ok [])),
      ax_genesis = (\<lambda>g bs. (bs, Ok ([7], \<lparr>go_chain_id = 1, go_timestamp = 50, go_network_version = 21, go_base_fee = 0,
         go_power_scale = 3, go_circ_supply = 1000, go_validators = [\<lparr>val_key = 1, val_power = 4\<rparr>]\<rparr>))),
      ax_new_executor = (\<lambda>bs h ps. Ok (clock_accounts h (sp_timestamp ps))), ax_flush = (\<lambda>ex bs. (bs, Ok [7])),
      ax_timestamp = clock_time, ax_query_context = (\<lambda>bs. sample_query_context),
      ax_prepare = (\<lambda>env st txs. (env, Ok txs)), ax_process = (\<lambda>env st txs. (env, Ok True)),
      ax_begin = (\<lambda>s. Err []), ax_deliver = (\<lambda>s tx. Err []), ax_end = (\<lambda>s. Err []), ax_check = (\<lambda>st tx r. Err []),
      ax_query = (\<lambda>bs p d qs. Some (qs, Ok (Inr (RIpld None)))), ax_encode_ret = (\<lambda>r. Ok ([], [])), ax_validator_key = Ok,
      ax_app_hash = (\<lambda>ps. [sp_timestamp ps]), ax_snapshot_lib = mem_snapshot_lib,
      ax_sha256 = id, ax_encode_meta = (\<lambda>(n, ps). mem_encode_params (ps, n)),
      ax_decode_meta = (\<lambda>b. omap prod.swap (mem_decode_params b)), ax_parse_hash = Ok\<rparr>"

definition sample_codec :: "(nat ChainMessage, nat FvmQuery, unit) codec" where
  "sample_codec =
     \<lparr>cd_decode = (\<lambda>b. if b = [1] then Inr (CIpc (BottomUpExec sample_checkpoint)) else Inl ''bad encoding''),
      cd_encode = (\<lambda>m. if m = CIpc (BottomUpExec sample_checkpoint) then Ok [1] else Err ''bad message''),
      cd_decode_cid = (\<lambda>b. Inr (QIpld b)), cd_decode_query = (\<lambda>b. Inr (QIpld b)), cd_genesis_json = (\<lambda>b. Ok ()),
      cd_genesis_cbor = (\<lambda>b. Ok ())\<rparr>"

definition clock_interpreter :: "(nat, nat, accounts) fvm_interpreter" where
  "clock_interpreter = sample_interpreter\<lparr>fi_gateway := sample_gateway\<rparr>"

definition sample_node where
  "sample_node = node_app sample_codec 3 sample_crypto
     (node_context sample_crypto clock_machine sample_gateway (\<lambda>_. Ok []) (\<lambda>_ _. Ok []) (\<lambda>_ _. Ok []))
     clock_interpreter sample_gas_settings sample_app_context"

lemma clock_keeps: "node_keeps (\<lambda>ex. (mx_epoch clock_machine ex, ax_timestamp sample_app_context ex)) clock_machine sample_gateway
    clock_interpreter"
  by (auto simp: node_keeps_def machine_keeps_def gateway_keeps_def upgrades_keep_def keeps_def clock_machine_def
      sample_machine_def sample_app_context_def clock_time_def sample_gateway_def clock_interpreter_def sample_interpreter_def
      split: option.splits if_splits)

lemma clock_new: "\<forall>bs h ps ex. ax_new_executor sample_app_context bs h ps = Ok ex \<longrightarrow>
    mx_epoch clock_machine ex = h \<and> ax_timestamp sample_app_context ex = sp_timestamp ps"
  by (simp add: sample_app_context_def clock_accounts_def clock_machine_def clock_time_def)


definition sample_block :: "nat \<Rightarrow> nat \<Rightarrow> BeginBlock \<times> nat list list" where
  "sample_block h t = (\<lparr>bb_height = int h, bb_hash = Some [9], bb_time = int t, bb_proposer = [8]\<rparr>, [[2]])"

definition idle :: "('a, 'k, 's, 'b) App \<Rightarrow> bool" where
  "idle app = (app_committed app \<noteq> None \<and> app_exec_state app = None \<and> app_halt_height app = 0 \<and> app_snapshots app = None \<and>
     app_state_hist_size app = 2)"

lemma node_fields [simp]:
  "ax_machine sample_node = clock_machine"
  "ax_new_executor sample_node = (\<lambda>bs h ps. Ok (clock_accounts h (sp_timestamp ps)))"
  "ax_begin sample_node = (\<lambda>(env, st). chain_begin (fvm_begin clock_machine clock_interpreter) env st)"
  "ax_deliver sample_node = node_deliver sample_codec
     (node_context sample_crypto clock_machine sample_gateway (\<lambda>_. Ok []) (\<lambda>_ _. Ok []) (\<lambda>_ _. Ok []))"
  "ax_end sample_node = (\<lambda>(env, st). omap (map_prod id fst) (node_end clock_machine clock_interpreter env st))"
  "ax_flush sample_node = (\<lambda>ex bs. (bs, Ok [7]))" "ax_timestamp sample_node = clock_time"
  "ax_validator_key sample_node = Ok" "ax_app_hash sample_node = (\<lambda>ps. [sp_timestamp ps])"
  by (simp_all add: sample_node_def node_app_def node_context_def sample_app_context_def Let_def)

lemma clock_begin:
  assumes "executor st = clock_accounts (int h) t" "block_hash st = Some b"
  shows "\<exists>ret. fvm_begin clock_machine clock_interpreter st = Ok (st, ret)"
  using assms
  by (simp add: fvm_begin_def run_upgrade_def scheduler_get_def clock_interpreter_def sample_interpreter_def Let_def
      clock_machine_def clock_accounts_def sample_machine_def execute_implicit_def execute_message_def system_msg_def
      emitter_delegated_addresses_def mul_u64_def U64_def)

lemma clock_end:
  assumes "executor st = clock_accounts (int h) t" "block_hash st = Some b" "0 < h" "h < 5"
  shows "fvm_end clock_machine clock_interpreter st = Ok (st, [], [])"
  using assms
  by (simp add: fvm_end_def maybe_create_checkpoint_def should_create_checkpoint_def clock_interpreter_def
      sample_interpreter_def clock_machine_def clock_accounts_def sample_gateway_def contract_call_def gateway_enabled_def
      sample_accounts_def sample_machine_def GATEWAY_ACTOR_ID_def with_context_def Let_def)


lemma sample_run:
  assumes "idle app" "0 < h" "h < 5"
  shows "\<exists>app' resps retain. run_block sample_node (sample_block h t) app = (app', Ok (resps, [], [t], retain)) \<and> idle app'"
proof -
  obtain state where state: "app_committed app = Some state" and idle: "app_exec_state app = None" "app_halt_height app = 0"
    "app_snapshots app = None" "app_state_hist_size app = 2"
    using assms(1) by (auto simp: idle_def)
  let ?req = "\<lparr>bb_height = int h, bb_hash = Some [9], bb_time = int t, bb_proposer = [8]\<rparr>"
  let ?ps = "(st_state_params state)\<lparr>sp_timestamp := t\<rparr>"
  define st where "st = with_validator_id [8] (with_block_hash [9] (exec_state_new (clock_accounts (int h) t)
     \<lparr>app_version = sp_app_version ?ps, base_fee = sp_base_fee ?ps, circ_supply = sp_circ_supply ?ps, power_scale = sp_power_scale ?ps\<rparr>))"
  have st: "executor st = clock_accounts (int h) t" "block_hash st = Some [9]"
    by (simp_all add: st_def with_validator_id_def with_block_hash_def exec_state_new_def)
  obtain ret where ret: "fvm_begin clock_machine clock_interpreter st = Ok (st, ret)" using clock_begin [OF st] by blast
  let ?app = "app\<lparr>app_exec_state := Some st\<rparr>"
  have b: "app_begin_block sample_node ?req app = (?app, Ok (Began ret))"
    using state idle(1,2) ret
    by (simp add: app_begin_block_def committed_state_def finish_def to_timestamp_def Let_def exec_state_at_def st_def
        put_exec_state_def modify_exec_state_def chain_begin_def with_context_def)
  have d: "deliver_txs sample_node [[2]] ?app = (?app, Ok [invalid_tx InvalidEncoding ''bad encoding''])"
    by (simp add: app_deliver_tx_def modify_exec_state_def node_deliver_def bytes_deliver_def sample_codec_def finish_def
        deliver_response_def with_context_def)
  have e: "app_end_block sample_node ?app = (?app, Ok [])"
    using clock_end [OF st assms(2,3)]
    by (simp add: app_end_block_def modify_exec_state_def node_end_def chain_end_def with_context_def to_validator_updates_def)
  have epoch: "mx_epoch clock_machine (executor st) = int h" "clock_time (executor st) = t"
    by (simp_all add: st clock_machine_def clock_accounts_def clock_time_def)
  have c: "\<exists>app' retain. app_commit sample_node ?app = (app', Ok ([t], retain)) \<and> idle app'"
    using state idle assms(2,3)
    by (simp add: app_commit_def committed_state_def finish_def epoch Let_def with_context_def retain_height_def I64_MAX_def
        idle_def set_committed_state_committed)
  then obtain app' retain where c: "app_commit sample_node ?app = (app', Ok ([t], retain))" "idle app'" by blast
  have "run_block sample_node (sample_block h t) app = (app', Ok ([invalid_tx InvalidEncoding ''bad encoding''], [], [t], retain))"
    using b d e c(1) by (simp add: run_block_def sample_block_def finish_def del: deliver_txs.simps)
  with c(2) show ?thesis by blast
qed

lemma sample_new: "\<exists>app. app_new sample_node None [] 2 0 sample_env None [] = (app, Ok ()) \<and> idle app"
  by (simp add: app_new_def init_committed_state_def idle_def set_committed_state_committed with_context_def Let_def
      sample_node_def node_app_def sample_app_context_def)

lemma sample_genesis:
  assumes "idle app"
  shows "\<exists>app'. app_init_chain sample_node [] 1 app = (app', Ok ([(1, 4)], [50])) \<and> idle app'"
  using assms
  by (simp add: app_init_chain_def idle_def set_committed_state_committed with_context_def Let_def finish_def
      sample_node_def node_app_def sample_app_context_def to_validator_updates_def I64_MAX_def)



theorem app_state_available_witness:
  "\<exists>app0 app1 vs st. app_new sample_node None [] 2 0 sample_env None [] = (app0, Ok ()) \<and>
     app_init_chain sample_node [] 1 app0 = (app1, Ok (vs, [50])) \<and> committed_state app1 = Ok st \<and>
     map_of (app_state_hist app1) (state_height st) = Some (st_state_params st)"
proof -
  obtain app0 where 0: "app_new sample_node None [] 2 0 sample_env None [] = (app0, Ok ())" "idle app0"
    using sample_new by blast
  obtain app1 where 1: "app_init_chain sample_node [] 1 app0 = (app1, Ok ([(1, 4)], [50]))"
    using sample_genesis [OF 0(2)] by blast
  have wf: "db_wf None []" by (simp add: db_wf_def)
  have steps: "(app_step sample_node)\<^sup>*\<^sup>* app0 app1" using step_init_chain [OF 1] by (rule r_into_rtranclp [of "app_step sample_node"])
  obtain st where "committed_state app1 = Ok st" "map_of (app_state_hist app1) (state_height st) = Some (st_state_params st)"
    using app_state_available [OF wf 0(1) steps] by blast
  with 0(1) 1 show ?thesis by blast
qed

text \<open>An environment without a parent, where one checkpoint is resolved.\<close>

definition checkpoint_env :: "(nat, nat) ChainEnv" where
  "checkpoint_env = sample_env\<lparr>parent_finality_provider := None, object_pool := \<lparr>ipfs_store = [], ipfs_items = [], ipfs_queue = []\<rparr>\<rparr>"

definition checkpoint_app :: "(nat, nat, accounts, (cid, nat list) hmap) App" where
  "checkpoint_app =
     \<lparr>app_committed = Some \<lparr>st_block_height = 4, st_oldest_state_height = 0, st_state_params = sample_state_params\<rparr>,
      app_state_hist = [(5, sample_state_params)], app_state_hist_size = 2, app_halt_height = 0, app_exec_state = None,
      app_check_state = None, app_chain_env = checkpoint_env, app_snapshots = Some sample_client, app_store = []\<rparr>"

lemma checkpoint_env_wf: "chain_env_wf checkpoint_env"
  using sample_env_wf by (simp add: chain_env_wf_def checkpoint_env_def)

lemma clock_queries_ok: "queries_ok clock_machine st (\<lambda>_. False)"
  by (simp add: queries_ok_def is_object_finalized_def begin_transaction_def revert_transaction_def execute_implicit_def
      execute_message_def emitter_delegated_addresses_def system_msg_def clock_machine_def sample_machine_def Let_def)

theorem own_proposal_accepted_witness:
  "\<exists>app1 app2 bs k. decodable sample_codec bs = [CIpc (BottomUpExec sample_checkpoint)] \<and>
     app_prepare_proposal sample_node [[5, 5], [6]] 3 checkpoint_app = (app1, Ok (take k (bs @ [[5, 5], [6]]))) \<and>
     length (take k (bs @ [[5, 5], [6]])) \<le> 3 \<and> int (sum_list (map length (take k (bs @ [[5, 5], [6]])))) \<le> 3 \<and>
     app_process_proposal sample_node (take k (bs @ [[5, 5], [6]])) app1 = (app2, Ok True)"
proof -
  let ?cx = "node_context sample_crypto clock_machine sample_gateway (\<lambda>_. Ok []) (\<lambda>_ _. Ok []) (\<lambda>_ _. Ok [])"
  let ?m = "CIpc (BottomUpExec sample_checkpoint) :: nat ChainMessage"
  obtain st where st: "proposal_state sample_node checkpoint_app = Ok st"
    by (simp add: proposal_state_def checkpoint_app_def committed_state_def exec_state_at_def with_context_def)
  have env: "app_chain_env checkpoint_app = checkpoint_env" "cx_machine ?cx = clock_machine"
    by (simp_all add: checkpoint_app_def node_context_def)
  have "checkpoint_txs checkpoint_env = [?m]"
    by (simp add: checkpoint_txs_def pool_collect_resolved_def checkpoint_env_def sample_env_def hs_insert_def)
  then obtain env1 where new: "chain_prepare clock_machine checkpoint_env st [] = (env1, Ok [?m])"
    by (simp add: chain_prepare_def Let_def toggle_next_proposal_def perform_or_else_def checkpoint_env_def choose_finality_def
        finality_tx_def ipfs_pool_collect_resolved_def split_def)
  have cd: "codec_ok sample_codec (set [?m])" "\<forall>m \<in> set (decodable sample_codec [[5, 5], [6]]). user_message m"
    by (simp_all add: codec_ok_def sample_codec_def)
  show ?thesis
    using own_proposal_accepted [OF sample_node_def, where app = checkpoint_app, unfolded env,
        OF checkpoint_env_wf st clock_queries_ok new cd, of 3]
    by (simp add: I64_MAX_def del: length_take length_append take_append) blast
qed

theorem empty_state_queried_witness:
  "\<exists>app app' resp. app_new sample_app_context None [] 2 0 sample_env None [] = (app, Ok ()) \<and>
     app_query sample_app_context '''' [3] 0 app = Some (app, Ok (invalid_query NotInitialized ''The app hasn't been initialized yet.'')) \<and>
     app_query sample_app_context '''' [3] 1 app = Some (app', Ok resp) \<and> qr_code resp = 17"
proof -
  obtain app where new: "app_new sample_app_context None [] 2 0 sample_env None [] = (app, Ok ())"
    by (simp add: app_new_def init_committed_state_def with_context_def Let_def sample_app_context_def)
  define qs :: "FvmStateParams \<Rightarrow> accounts FvmQueryState" where
    "qs ps = \<lparr>qs_block_height = 1, qs_state_params = ps, qs_exec_state = None, qs_check_state = None, qs_pending = False\<rparr>" for ps
  have 1: "\<forall>ps. query_state_new (ax_query_context sample_app_context (app_store app)) 1 ps None False = Ok (qs ps)"
    by (simp add: query_state_new_def sample_app_context_def sample_query_context_def with_context_def qs_def)
  have 2: "\<forall>ps. ax_query sample_app_context (app_store app) '''' [3] (qs ps) = Some (qs ps, Ok (Inr (RIpld None)))"
    by (simp add: sample_app_context_def)
  obtain resp where 3: "to_query sample_app_context (RIpld None) 1 = Ok resp" "qr_code resp = 17"
    by (simp add: to_query_def sample_app_context_def query_exit_code_def USR_NOT_FOUND_def to_height_def I64_MAX_def Let_def)
  from empty_state_queried [OF new 1 2 3(1)] 3(2) new show ?thesis by blast
qed

lemma sample_meta:
  "\<forall>m. \<exists>b. ax_encode_meta sample_app_context m = Ok b \<and> ax_decode_meta sample_app_context b = Ok m"
proof
  fix m :: "nat \<times> FvmStateParams"
  obtain n ps where m: "m = (n, ps)" by force
  obtain b where "mem_encode_params (ps, n) = Ok b" "mem_decode_params b = Ok (ps, n)" using mem_params_roundtrip by blast
  then show "\<exists>b. ax_encode_meta sample_app_context m = Ok b \<and> ax_decode_meta sample_app_context b = Ok m"
    by (auto simp: sample_app_context_def m)
qed

theorem state_sync_witness:
  "\<exists>item offer cl1 cl2. create_snapshot mem_snapshot_lib id 4 mem_store 40 mem_params = Some (Ok item) \<and>
     to_snapshot (ax_encode_meta sample_app_context) item = Ok offer \<and>
     app_offer_snapshot sample_app_context (Ok ()) offer [100] checkpoint_app = (cl1, OfferAccept) \<and>
     apply_chunks sample_app_context 0
       (map (\<lambda>i. snd (app_load_snapshot_chunk 0 40 (as_format offer) i
          (checkpoint_app\<lparr>app_snapshots := Some \<lparr>sc_interval = 10, sc_state = snapshot_state_new [item]\<rparr>\<rparr>)))
         [0..<as_chunks offer]) cl1 = (cl2, Ok (replicate (as_chunks offer) ApplyAccept)) \<and>
     app_info sample_app_context cl2 = Ok \<lparr>in_app_version = 0, in_last_block_height = 40, in_last_block_app_hash = [100]\<rparr>"
proof -
  let ?ax = sample_app_context
  have ax: "ax_snapshot_lib ?ax = mem_snapshot_lib" "ax_sha256 ?ax = id" "\<forall>x. ax_parse_hash ?ax (id x) = Ok (id x)"
    "ax_app_hash ?ax mem_params = [100]" "sp_app_version mem_params = 0"
    by (simp_all add: sample_app_context_def mem_params_def sample_state_params_def)
  obtain item where item: "create_snapshot mem_snapshot_lib id 4 mem_store 40 mem_params = Some (Ok item)" "length (si_parts item) < 20"
    using mem_created by blast
  have valid: "\<forall>c b. sl_get mem_snapshot_lib mem_store c = Ok (Some b) \<longrightarrow> mem_valid c b"
    using mem_store_valid by simp
  have ne: "\<forall>roots. sl_header mem_snapshot_lib roots \<noteq> []" "\<forall>b. sl_frame mem_snapshot_lib b \<noteq> []"
    by (simp_all add: mem_frames_nonempty)
  have small: "length (si_parts item) < U32" "(40::nat) \<le> I64_MAX" using item(2) by (simp_all add: U32_def I64_MAX_def)
  let ?srv = "checkpoint_app\<lparr>app_snapshots := Some \<lparr>sc_interval = 10, sc_state = snapshot_state_new [item]\<rparr>\<rparr>"
  have srv: "app_snapshots ?srv = Some \<lparr>sc_interval = 10, sc_state = snapshot_state_new [item]\<rparr>"
    "ss_snapshots (sc_state \<lparr>sc_interval = 10, sc_state = snapshot_state_new [item]\<rparr>) = [] @ item # []"
    "\<forall>s \<in> set []. sm_block_height (si_manifest s) \<noteq> 40"
    by (simp_all add: snapshot_state_new_def)
  have cl: "app_snapshots checkpoint_app = Some sample_client"
    "app_committed checkpoint_app = Some \<lparr>st_block_height = 4, st_oldest_state_height = 0, st_state_params = sample_state_params\<rparr>"
    by (simp_all add: checkpoint_app_def)
  show ?thesis
    using state_sync [of ?ax mem_valid mem_store length mem_params 40, unfolded ax, OF mem_lib_ok mem_store_ok valid ne sample_meta
        ax(3) mem_snapshot_new item(1) small srv cl, of 0] item(1) by blast
qed

end
