(* ===== verification/Accumulator.thy ===== *)
theory Accumulator
  imports Actor_Runtime
begin

text \<open>
  The accumulator actor, \<open>fendermint/actors/accumulator/src/shared.rs\<close> and \<open>actor.rs\<close>: a Merkle mountain
  range. The leaves lie in perfect trees of decreasing height, one for each bit of their number; the
  state holds the identifiers of the roots, the peaks, in an array. Pushing a leaf merges as many
  trees as the number of leaves has trailing ones; the path to a leaf is computed from its index and
  the number of leaves by operations on bits.

  The block store is the record \<open>block_lib\<close>; a block is a leaf or a pair of identifiers. \<open>acc_ok\<close>
  says what is relied on of the store and of the array: identifiers name their blocks, and no block
  is lost. 64-bit integers are natural numbers.
\<close>

unbundle bit_operations_syntax

section \<open>Bits\<close>

fun count_ones :: "nat \<Rightarrow> nat" where
  "count_ones n = (if n = 0 then 0 else n mod 2 + count_ones (n div 2))"

fun bit_len :: "nat \<Rightarrow> nat" where
  "bit_len n = (if n = 0 then 0 else Suc (bit_len (n div 2)))"

fun trailing_zeros :: "nat \<Rightarrow> nat" where
  "trailing_zeros n = (if n = 0 then 64 else if odd n then 0 else Suc (trailing_zeros (n div 2)))"

declare count_ones.simps [simp del] bit_len.simps [simp del] trailing_zeros.simps [simp del]

definition leading_zeros :: "nat \<Rightarrow> nat" where
  "leading_zeros n = 64 - bit_len n"

definition not_u64 :: "nat \<Rightarrow> nat" where
  "not_u64 n = U64 - 1 - n"

section \<open>Blocks\<close>

datatype 'c block = LeafBlock "nat list" | PairBlock 'c 'c

record ('c, 's) block_lib =
  bl_put :: "'c block \<Rightarrow> 's \<Rightarrow> (string, 'c \<times> 's) outcome"
  bl_get :: "'s \<Rightarrow> 'c \<Rightarrow> (string, 'c block option) outcome"
  bl_cid :: "'c block \<Rightarrow> (string, 'c) outcome"
  bl_default :: 'c

text \<open>\<open>get_cbor\<close> at the type of leaves and of pairs.\<close>

definition get_leaf :: "('c, 's) block_lib \<Rightarrow> 's \<Rightarrow> 'c \<Rightarrow> (string, nat list option) outcome" where
  "get_leaf bl s c =
     obind (bl_get bl s c) (\<lambda>b. case b of
       None \<Rightarrow> Ok None
     | Some (LeafBlock v) \<Rightarrow> Ok (Some v)
     | Some (PairBlock l r) \<Rightarrow> Err ''unexpected type'')"

definition get_pair :: "('c, 's) block_lib \<Rightarrow> 's \<Rightarrow> 'c \<Rightarrow> (string, ('c \<times> 'c) option) outcome" where
  "get_pair bl s c =
     obind (bl_get bl s c) (\<lambda>b. case b of
       None \<Rightarrow> Ok None
     | Some (PairBlock l r) \<Rightarrow> Ok (Some (l, r))
     | Some (LeafBlock v) \<Rightarrow> Err ''unexpected type'')"

definition hash_pair :: "('c, 's) block_lib \<Rightarrow> 'c option \<Rightarrow> 'c option \<Rightarrow> (string, 'c) outcome" where
  "hash_pair bl left right =
     (case (left, right) of
        (Some l, Some r) \<Rightarrow> bl_cid bl (PairBlock l r)
      | _ \<Rightarrow> Err ''hash_pair requires two CIDs'')"

definition hash_and_put_pair ::
  "('c, 's) block_lib \<Rightarrow> 'c option \<Rightarrow> 'c option \<Rightarrow> 's \<Rightarrow> (string, 'c \<times> 's) outcome" where
  "hash_and_put_pair bl left right s =
     (case (left, right) of
        (Some l, Some r) \<Rightarrow> bl_put bl (PairBlock l r) s
      | _ \<Rightarrow> Err ''hash_pair requires two CIDs'')"

section \<open>Mountain range\<close>

text \<open>The loop that pops two peaks and pushes their hash, \<open>n\<close> times.\<close>

primrec merge_peaks ::
  "('c, 's) block_lib \<Rightarrow> ('c, nat, 'c, 'h, 's) kv_lib \<Rightarrow> nat \<Rightarrow> 'h \<Rightarrow> 's \<Rightarrow> (string, 'h \<times> 's) outcome" where
  "merge_peaks bl amt 0 peaks s = Ok (peaks, s)"
| "merge_peaks bl amt (Suc n) peaks s =
     obind (kv_delete amt s peaks (sub_u64 (kv_count amt peaks) 1)) (\<lambda>(right, peaks).
     obind (kv_delete amt s peaks (sub_u64 (kv_count amt peaks) 1)) (\<lambda>(left, peaks).
     obind (hash_and_put_pair bl left right s) (\<lambda>(c, s).
     obind (kv_set amt s peaks (kv_count amt peaks) c) (\<lambda>peaks.
     merge_peaks bl amt n peaks s))))"

definition mmr_push ::
  "('c, 's) block_lib \<Rightarrow> ('c, nat, 'c, 'h, 's) kv_lib \<Rightarrow> nat \<Rightarrow> 'h \<Rightarrow> nat list \<Rightarrow> 's \<Rightarrow>
     (string, ('c \<times> 'h) \<times> 's) outcome" where
  "mmr_push bl amt leaf_count peaks obj s =
     obind (bl_put bl (LeafBlock obj) s) (\<lambda>(leaf, s).
     obind (kv_set amt s peaks (kv_count amt peaks) leaf) (\<lambda>peaks.
     obind (merge_peaks bl amt (trailing_zeros (not_u64 leaf_count)) peaks s) (\<lambda>(peaks, s).
     kv_flush amt peaks s)))"

text \<open>The loop of \<open>bag_peaks\<close> over \<open>i\<close> in \<open>2..peaks_count\<close>.\<close>

fun bag_loop ::
  "('c, 's) block_lib \<Rightarrow> ('c, nat, 'c, 'h, 's) kv_lib \<Rightarrow> 's \<Rightarrow> 'h \<Rightarrow> nat \<Rightarrow> nat list \<Rightarrow> 'c \<Rightarrow> (string, 'c) outcome" where
  "bag_loop bl amt s peaks peaks_count [] root = Ok root"
| "bag_loop bl amt s peaks peaks_count (i # is) root =
     obind (kv_get amt s peaks (peaks_count - 1 - i)) (\<lambda>p.
     obind (hash_pair bl p (Some root)) (\<lambda>root.
     bag_loop bl amt s peaks peaks_count is root))"

definition bag_peaks ::
  "('c, 's) block_lib \<Rightarrow> ('c, nat, 'c, 'h, 's) kv_lib \<Rightarrow> 's \<Rightarrow> 'h \<Rightarrow> (string, 'c) outcome" where
  "bag_peaks bl amt s peaks =
     (let peaks_count = kv_count amt peaks in
      if peaks_count = 0 then Ok (bl_default bl)
      else if peaks_count = 1 then obind (kv_get amt s peaks 0) unwrap
      else
        obind (kv_get amt s peaks (peaks_count - 2)) (\<lambda>l.
        obind (kv_get amt s peaks (peaks_count - 1)) (\<lambda>r.
        obind (hash_pair bl l r) (\<lambda>root.
        bag_loop bl amt s peaks peaks_count [2..<peaks_count] root))))"

definition path_for_eigen_root :: "nat \<Rightarrow> nat \<Rightarrow> (string, nat \<times> nat) outcome" where
  "path_for_eigen_root leaf_index leaf_count =
     (if leaf_count \<le> leaf_index then Err ''`leaf_index` must less than `leaf_count`''
      else
        let diff = leaf_index XOR leaf_count;
            eigentree_height = 64 - leading_zeros diff - 1;
            merge_height = push_bit eigentree_height 1;
            bitmask = merge_height - 1;
            eigentree_count = count_ones leaf_count;
            offset = count_ones (leaf_count AND bitmask);
            eigen_index = eigentree_count - offset - 1;
            local_offset = leaf_index AND bitmask;
            local_path = local_offset + merge_height
        in Ok (local_path, eigen_index))"

definition pair_nth :: "'c \<times> 'c \<Rightarrow> nat \<Rightarrow> 'c" where
  "pair_nth p b = (if b = 0 then fst p else snd p)"

text \<open>The loop over the bits of the path between the first and the last one.\<close>

fun walk_path ::
  "('c, 's) block_lib \<Rightarrow> 's \<Rightarrow> nat \<Rightarrow> nat \<Rightarrow> nat list \<Rightarrow> 'c \<times> 'c \<Rightarrow> (string, 'c \<times> 'c) outcome" where
  "walk_path bl s path significant_bits [] pair = Ok pair"
| "walk_path bl s path significant_bits (i # is) pair =
     (let bt = drop_bit (significant_bits - i - 1) path AND 1 in
      obind (get_pair bl s (pair_nth pair bt)) (\<lambda>r.
      case r of
        Some root \<Rightarrow> walk_path bl s path significant_bits is root
      | None \<Rightarrow> Err ''failed to get eigentree intermediate node''))"

definition mmr_get_at ::
  "('c, 's) block_lib \<Rightarrow> ('c, nat, 'c, 'h, 's) kv_lib \<Rightarrow> 's \<Rightarrow> nat \<Rightarrow> nat \<Rightarrow> 'h \<Rightarrow> (string, nat list) outcome" where
  "mmr_get_at bl amt s leaf_index leaf_count peaks =
     obind (path_for_eigen_root leaf_index leaf_count) (\<lambda>(path, eigen_index).
     obind (kv_get amt s peaks eigen_index) (\<lambda>r.
     case r of
       None \<Rightarrow> Err ''failed to get peak at index''
     | Some c \<Rightarrow>
         if path = 1 then
           obind (get_leaf bl s c) (\<lambda>r. case r of
             Some v \<Rightarrow> Ok v
           | None \<Rightarrow> Err ''failed to get leaf for cid'')
         else
           obind (get_pair bl s c) (\<lambda>r. case r of
             None \<Rightarrow> Err ''failed to get eigentree root node for cid''
           | Some pair \<Rightarrow>
               let significant_bits = 64 - leading_zeros path in
               obind (walk_path bl s path significant_bits [1..<significant_bits - 1] pair) (\<lambda>pair.
               let bt = path AND 1 in
               obind (get_leaf bl s (pair_nth pair bt)) (\<lambda>r. case r of
                 Some v \<Rightarrow> Ok v
               | None \<Rightarrow> Err ''failed to get leaf for cid'')))))"

section \<open>State\<close>

record ('a, 'c) Accumulator =
  acc_owner :: 'a
  acc_write_access :: WriteAccess
  acc_peaks :: 'c
  acc_leaf_count :: nat

record 'c PushReturn =
  pr_root :: 'c
  pr_index :: nat

definition acc_new ::
  "('c, nat, 'c, 'h, 's) kv_lib \<Rightarrow> 'a \<Rightarrow> WriteAccess \<Rightarrow> 's \<Rightarrow> (string, ('a, 'c) Accumulator \<times> 's) outcome" where
  "acc_new amt creator access s =
     obind (map_err (\<lambda>e. ''accumulator actor failed to create empty Amt: '' @ e) (kv_flush amt (kv_new amt s) s))
       (\<lambda>((c, _), s). Ok (\<lparr>acc_owner = creator, acc_write_access = access, acc_peaks = c, acc_leaf_count = 0\<rparr>, s))"

definition acc_peak_count :: "('a, 'c) Accumulator \<Rightarrow> nat" where
  "acc_peak_count st = count_ones (acc_leaf_count st)"

definition acc_push ::
  "('c, 's) block_lib \<Rightarrow> ('c, nat, 'c, 'h, 's) kv_lib \<Rightarrow> nat list \<Rightarrow> ('a, 'c) Accumulator \<Rightarrow> 's \<Rightarrow>
     (string, 'c PushReturn \<times> ('a, 'c) Accumulator \<times> 's) outcome" where
  "acc_push bl amt obj st s =
     obind (kv_load amt s (acc_peaks st)) (\<lambda>peaks.
     obind (mmr_push bl amt (acc_leaf_count st) peaks obj s) (\<lambda>((c, peaks), s).
     let st = st\<lparr>acc_peaks := c, acc_leaf_count := add_u64 (acc_leaf_count st) 1\<rparr> in
     obind (bag_peaks bl amt s peaks) (\<lambda>root.
     Ok (\<lparr>pr_root = root, pr_index = sub_u64 (acc_leaf_count st) 1\<rparr>, st, s))))"

definition acc_get_root ::
  "('c, 's) block_lib \<Rightarrow> ('c, nat, 'c, 'h, 's) kv_lib \<Rightarrow> ('a, 'c) Accumulator \<Rightarrow> 's \<Rightarrow> (string, 'c) outcome" where
  "acc_get_root bl amt st s = obind (kv_load amt s (acc_peaks st)) (bag_peaks bl amt s)"

text \<open>\<open>for_each\<close> over the array, which fails at the first entry that cannot be read.\<close>

fun collect_values :: "(string, 'k \<times> 'v) outcome list \<Rightarrow> (string, 'v list) outcome" where
  "collect_values [] = Ok []"
| "collect_values (r # rs) = obind r (\<lambda>(_, v). obind (collect_values rs) (\<lambda>vs. Ok (v # vs)))"

definition acc_get_peaks ::
  "('c, nat, 'c, 'h, 's) kv_lib \<Rightarrow> ('a, 'c) Accumulator \<Rightarrow> 's \<Rightarrow> (string, 'c list) outcome" where
  "acc_get_peaks amt st s = obind (kv_load amt s (acc_peaks st)) (\<lambda>peaks. collect_values (kv_iter amt s peaks))"

definition acc_get_leaf_at ::
  "('c, 's) block_lib \<Rightarrow> ('c, nat, 'c, 'h, 's) kv_lib \<Rightarrow> nat \<Rightarrow> ('a, 'c) Accumulator \<Rightarrow> 's \<Rightarrow>
     (string, nat list option) outcome" where
  "acc_get_leaf_at bl amt index st s =
     obind (kv_load amt s (acc_peaks st)) (\<lambda>peaks.
     case mmr_get_at bl amt s index (acc_leaf_count st) peaks of
       Ok leaf \<Rightarrow> Ok (Some leaf)
     | Err _ \<Rightarrow> Ok None
     | Retry \<Rightarrow> Retry
     | Panic \<Rightarrow> Panic)"

section \<open>Methods\<close>

definition acc_constructor ::
  "('c, nat, 'c, 'h, 's) kv_lib \<Rightarrow> 'a runtime \<Rightarrow> 'a MachineParams \<Rightarrow> 's \<Rightarrow>
     (ActorError, ('a, 'c) Accumulator \<times> 's) outcome" where
  "acc_constructor amt rt ps s =
     obind (rt_validate_caller_is rt [rt_init_actor rt]) (\<lambda>_.
     downcast_default USR_ILLEGAL_STATE ''failed to construct empty store''
       (acc_new amt (mp_creator ps) (mp_write_access ps) s))"

definition push_leaf ::
  "('c, 's) block_lib \<Rightarrow> ('c, nat, 'c, 'h, 's) kv_lib \<Rightarrow> 'a runtime \<Rightarrow> nat list \<Rightarrow> ('a, 'c) Accumulator \<Rightarrow> 's \<Rightarrow>
     (ActorError, 'c PushReturn \<times> ('a, 'c) Accumulator \<times> 's) outcome" where
  "push_leaf bl amt rt obj st s =
     obind (ensure_write_allowed rt (acc_owner st) (acc_write_access st)) (\<lambda>_.
     downcast_default USR_ILLEGAL_STATE ''failed to push object'' (acc_push bl amt obj st s))"

definition get_leaf_at ::
  "('c, 's) block_lib \<Rightarrow> ('c, nat, 'c, 'h, 's) kv_lib \<Rightarrow> 'a runtime \<Rightarrow> nat \<Rightarrow> ('a, 'c) Accumulator \<Rightarrow> 's \<Rightarrow>
     (ActorError, nat list option) outcome" where
  "get_leaf_at bl amt rt index st s =
     obind (rt_validate_caller_any rt) (\<lambda>_.
     downcast_default USR_ILLEGAL_STATE ''failed to get leaf'' (acc_get_leaf_at bl amt index st s))"

definition get_root ::
  "('c, 's) block_lib \<Rightarrow> ('c, nat, 'c, 'h, 's) kv_lib \<Rightarrow> 'a runtime \<Rightarrow> ('a, 'c) Accumulator \<Rightarrow> 's \<Rightarrow>
     (ActorError, 'c) outcome" where
  "get_root bl amt rt st s =
     obind (rt_validate_caller_any rt) (\<lambda>_.
     downcast_default USR_ILLEGAL_STATE ''failed to bag peaks'' (acc_get_root bl amt st s))"

definition get_peaks ::
  "('c, nat, 'c, 'h, 's) kv_lib \<Rightarrow> 'a runtime \<Rightarrow> ('a, 'c) Accumulator \<Rightarrow> 's \<Rightarrow> (ActorError, 'c list) outcome" where
  "get_peaks amt rt st s =
     obind (rt_validate_caller_any rt) (\<lambda>_.
     downcast_default USR_ILLEGAL_STATE ''failed to get peaks'' (acc_get_peaks amt st s))"

definition get_count :: "'a runtime \<Rightarrow> ('a, 'c) Accumulator \<Rightarrow> (ActorError, nat) outcome" where
  "get_count rt st = obind (rt_validate_caller_any rt) (\<lambda>_. Ok (acc_leaf_count st))"

section \<open>Perfect trees\<close>

datatype ptree = PLeaf "nat list" | PNode ptree ptree

fun leaves :: "ptree \<Rightarrow> nat list list" where
  "leaves (PLeaf v) = [v]"
| "leaves (PNode l r) = leaves l @ leaves r"

fun perfect :: "nat \<Rightarrow> ptree \<Rightarrow> bool" where
  "perfect h (PLeaf v) = (h = 0)"
| "perfect h (PNode l r) = (\<exists>k. h = Suc k \<and> perfect k l \<and> perfect k r)"

lemma length_leaves: "perfect h t \<Longrightarrow> length (leaves t) = 2 ^ h"
  by (induction t arbitrary: h) auto

text \<open>The heights of the trees over \<open>n\<close> leaves.\<close>

fun heights :: "nat \<Rightarrow> nat list" where
  "heights n = (if n = 0 then [] else map Suc (heights (n div 2)) @ (if odd n then [0] else []))"

declare heights.simps [simp del]

lemma heights_0 [simp]: "heights 0 = []"
  by (simp add: heights.simps)

lemma heights_double: "heights (2 * n) = map Suc (heights n)"
  by (cases "n = 0") (simp_all add: heights.simps [of "2 * n"])

lemma heights_double_Suc: "heights (Suc (2 * n)) = map Suc (heights n) @ [0]"
  by (simp add: heights.simps [of "Suc (2 * n)"])

lemma count_ones_0 [simp]: "count_ones 0 = 0"
  by (simp add: count_ones.simps)

lemma count_ones_rec: "count_ones n = n mod 2 + count_ones (n div 2)"
  by (cases "n = 0") (simp_all add: count_ones.simps [of n])

lemma length_heights: "length (heights n) = count_ones n"
proof (induction n rule: heights.induct)
  case (1 n)
  show ?case
  proof (cases "n = 0")
    case False
    then show ?thesis using 1 by (simp add: heights.simps [of n] count_ones_rec [of n] mod_2_eq_odd)
  qed simp
qed

lemma count_ones_bound: "n < 2 ^ w \<Longrightarrow> count_ones n \<le> w"
proof (induction w arbitrary: n)
  case (Suc w)
  then have "n div 2 < 2 ^ w" by auto
  with Suc.IH have "count_ones (n div 2) \<le> w" by blast
  moreover have "n mod 2 \<le> 1" by simp
  ultimately show ?case unfolding count_ones_rec [of n] by linarith
qed simp

lemma sum_heights: "sum_list (map ((^) 2) (heights n)) = n"
proof (induction n rule: heights.induct)
  case (1 n)
  show ?case
  proof (cases "n = 0")
    case False
    have "sum_list (map ((^) (2 :: nat)) (map Suc hs)) = 2 * sum_list (map ((^) 2) hs)" for hs
      by (induction hs) auto
    with 1 [OF False] False show ?thesis by (simp add: heights.simps [of n] comp_def)
  qed simp
qed

section \<open>Merging\<close>

function trailing_ones :: "nat \<Rightarrow> nat" where
  "trailing_ones n = (if even n then 0 else Suc (trailing_ones (n div 2)))"
  by pat_completeness auto
termination
  by (relation "measure id") (auto elim: oddE)

declare trailing_ones.simps [simp del]

lemma trailing_zeros_not:
  "n < 2 ^ w - 1 \<Longrightarrow> trailing_zeros (2 ^ w - 1 - n) = trailing_ones n"
proof (induction n arbitrary: w rule: trailing_ones.induct)
  case (1 n)
  then obtain v where w: "w = Suc v" by (cases w) auto
  define x :: nat where "x = 2 ^ w - 1 - n"
  have x: "x + n + 1 = 2 * 2 ^ v" "x \<noteq> 0" using 1(2) by (auto simp: x_def w)
  show ?case
  proof (cases "even n")
    case True
    then have "odd x" using x(1) by presburger
    then have "trailing_zeros x = 0" by (cases "x = 0") (simp_all add: trailing_zeros.simps [of x])
    with True show ?thesis by (simp add: x_def trailing_ones.simps [of n])
  next
    case False
    then obtain k where k: "n = Suc (2 * k)" by (metis oddE add.commute plus_1_eq_Suc)
    have "even x" using x(1) k by presburger
    then have "trailing_zeros x = Suc (trailing_zeros (x div 2))" using x(2) by (simp add: trailing_zeros.simps [of x])
    moreover have "x div 2 = 2 ^ v - 1 - k" "k < 2 ^ v - 1" using x k by auto
    ultimately show ?thesis
      using 1(1) [OF False, of v] False k by (simp add: x_def trailing_ones.simps [of "Suc (2 * k)"])
  qed
qed

lemma trailing_ones_le: "trailing_ones n \<le> length (heights n)"
proof (induction n rule: trailing_ones.induct)
  case (1 n)
  then show ?case
    by (cases "even n") (auto simp: trailing_ones.simps [of n] heights.simps [of n] elim: oddE)
qed

lemma plus_0_fun: "map ((+) (0 :: nat)) xs = xs"
  by (induction xs) simp_all

lemma plus_Suc_fun: "(+) (Suc j) = (\<lambda>x. Suc (j + x))"
  by (simp add: fun_eq_iff)

fun merge_trees :: "nat \<Rightarrow> ptree list \<Rightarrow> ptree list" where
  "merge_trees 0 ts = ts"
| "merge_trees (Suc k) ts = merge_trees k (butlast (butlast ts) @ [PNode (last (butlast ts)) (last ts)])"

lemma merge_trees_perfect:
  "list_all2 perfect (map ((+) j) (heights n)) ts \<Longrightarrow> perfect j t \<Longrightarrow>
     list_all2 perfect (map ((+) j) (heights (Suc n))) (merge_trees (trailing_ones n) (ts @ [t]))"
proof (induction n arbitrary: j ts t rule: trailing_ones.induct)
  case (1 n)
  show ?case
  proof (cases "even n")
    case True
    then obtain k where k: "n = 2 * k" by blast
    then have "heights (Suc n) = heights n @ [0]" by (simp add: heights_double heights_double_Suc)
    with True 1(2,3) show ?thesis by (simp add: trailing_ones.simps [of n] list_all2_appendI)
  next
    case False
    then obtain k where k: "n = Suc (2 * k)" by (metis oddE add.commute plus_1_eq_Suc)
    then have half: "n div 2 = k" by simp
    have "heights n = map Suc (heights k) @ [0]" using k by (simp add: heights_double_Suc)
    with 1(2) obtain us u where ts: "ts = us @ [u]" "perfect j u"
        "list_all2 perfect (map ((+) (Suc j)) (heights k)) us"
      by (auto simp: list_all2_append1 list_all2_Cons1 comp_def plus_Suc_fun)
    have "perfect (Suc j) (PNode u t)" using ts(2) 1(3) by simp
    from 1(1) [OF False, unfolded half, OF ts(3) this]
    have "list_all2 perfect (map ((+) (Suc j)) (heights (Suc k))) (merge_trees (trailing_ones k) (us @ [PNode u t]))" .
    moreover have "heights (Suc n) = map Suc (heights (Suc k))" using k heights_double [of "Suc k"] by simp
    ultimately show ?thesis
      using False half ts(1) by (simp add: trailing_ones.simps [of n] butlast_append comp_def plus_Suc_fun)
  qed
qed

lemma merge_trees_leaves: "k < length ts \<Longrightarrow> concat (map leaves (merge_trees k ts)) = concat (map leaves ts)"
proof (induction k arbitrary: ts)
  case (Suc k)
  then obtain us u t where ts: "ts = us @ [u, t]"
    by (cases ts rule: rev_cases; cases "butlast ts" rule: rev_cases) auto
  with Suc.prems have "k < length (us @ [PNode u t])" by simp
  from Suc.IH [OF this] ts show ?case by (simp add: butlast_append)
qed simp

section \<open>Paths\<close>

lemma bit_len_0 [simp]: "bit_len 0 = 0"
  by (simp add: bit_len.simps)

lemma bit_len_Suc: "n \<noteq> 0 \<Longrightarrow> bit_len n = Suc (bit_len (n div 2))"
  by (simp add: bit_len.simps [of n])

lemma bit_len_range: "r < 2 ^ h \<Longrightarrow> bit_len (r + 2 ^ h) = Suc h"
proof (induction h arbitrary: r)
  case 0
  then show ?case by (simp add: bit_len_Suc)
next
  case (Suc h)
  have half: "(r + 2 ^ Suc h) div 2 = r div 2 + 2 ^ h" by simp
  have "r div 2 < 2 ^ h" using Suc.prems by auto
  with Suc.IH [of "r div 2"] half show ?case using bit_len_Suc [of "r + 2 ^ Suc h"] by (simp add: add.commute)
qed

lemma bit_len_bound: "n < 2 ^ w \<Longrightarrow> bit_len n \<le> w"
proof (induction w arbitrary: n)
  case (Suc w)
  then have "n div 2 < 2 ^ w" by auto
  with Suc.IH show ?case using bit_len_Suc [of n] by (cases "n = 0") auto
qed simp

lemma count_ones_mod: "count_ones (n mod 2 ^ Suc h) = n mod 2 + count_ones (n div 2 mod 2 ^ h)"
proof -
  have "n mod 2 ^ Suc h mod 2 = n mod 2" by (simp add: mod_mod_cancel)
  moreover have "n mod 2 ^ Suc h div 2 = n div 2 mod 2 ^ h" by (simp add: mod_mult2_eq)
  ultimately show ?thesis using count_ones_rec [of "n mod 2 ^ Suc h"] by simp
qed

text \<open>The leaf \<open>i\<close> lies in the tree at \<open>eigen i n\<close>, whose height is the highest bit in which \<open>i\<close> and \<open>n\<close> differ.\<close>

definition merge_height :: "nat \<Rightarrow> nat \<Rightarrow> nat" where
  "merge_height i n = bit_len (i XOR n) - 1"

definition eigen :: "nat \<Rightarrow> nat \<Rightarrow> nat" where
  "eigen i n = count_ones n - count_ones (n mod 2 ^ merge_height i n) - 1"

lemma eigen_position:
  "i < n \<Longrightarrow> eigen i n < length (heights n) \<and> heights n ! eigen i n = merge_height i n \<and>
     i = sum_list (map ((^) 2) (take (eigen i n) (heights n))) + i mod 2 ^ merge_height i n"
proof (induction n arbitrary: i rule: heights.induct)
  case (1 n)
  then have n: "n \<noteq> 0" by simp
  have half: "(i XOR n) div 2 = (i div 2) XOR (n div 2)" by (simp add: drop_bit_eq_div [of 1, simplified, symmetric])
  show ?case
  proof (cases "i div 2 = n div 2")
    case True
    with 1(2) have odd: "odd n" "i = n - 1" by presburger+
    then obtain k where k: "n = Suc (2 * k)" by (metis oddE add.commute plus_1_eq_Suc)
    have "i XOR n = 1" using odd k by (simp add: xor_nat_unfold)
    then have h: "merge_height i n = 0" by (simp add: merge_height_def bit_len_Suc)
    have e: "eigen i n = length (heights n) - 1" by (simp add: eigen_def h length_heights)
    have hs: "heights n = map Suc (heights k) @ [0]" using k by (simp add: heights_double_Suc)
    have "sum_list (map ((^) (2 :: nat)) (map Suc (heights k))) = 2 * k"
      using sum_heights [of "2 * k"] by (simp add: heights_double)
    then show ?thesis using e h hs odd(2) k by (simp add: comp_def nth_append)
  next
    case False
    then have lt: "i div 2 < n div 2" using 1(2) by (meson div_le_mono le_neq_implies_less less_imp_le)
    let ?h = "merge_height (i div 2) (n div 2)" and ?e = "eigen (i div 2) (n div 2)"
    have ne: "(i div 2) XOR (n div 2) \<noteq> 0" using False by (metis xor.assoc xor.left_neutral xor.right_neutral xor_self_eq)
    then have "i XOR n \<noteq> 0" using half by (metis div_0)
    with half ne have h: "merge_height i n = Suc ?h"
      by (simp add: merge_height_def bit_len_Suc [of "i XOR n"] bit_len_Suc [of "(i div 2) XOR (n div 2)"])
    have e: "eigen i n = ?e"
      by (simp add: eigen_def h count_ones_mod count_ones_rec [of n] del: power_Suc)
    note ih = 1(1) [OF n lt]
    have hs: "heights n = map Suc (heights (n div 2)) @ (if odd n then [0] else [])"
      using n by (simp add: heights.simps [of n])
    have sum: "sum_list (map ((^) (2 :: nat)) (map Suc xs)) = 2 * sum_list (map ((^) 2) xs)" for xs
      by (induction xs) auto
    let ?S = "sum_list (map ((^) 2) (take ?e (heights (n div 2)))) :: nat"
    have "i = 2 * (i div 2) + i mod 2" by simp
    moreover have "i mod 2 ^ Suc ?h = 2 * (i div 2 mod 2 ^ ?h) + i mod 2" by (simp add: mod_mult2_eq)
    moreover have "i div 2 = ?S + i div 2 mod 2 ^ ?h" using ih by simp
    ultimately have i: "i = 2 * ?S + i mod 2 ^ Suc ?h" by linarith
    have "take ?e (heights n) = map Suc (take ?e (heights (n div 2)))" using hs ih by (simp add: take_map)
    then have "sum_list (map ((^) 2) (take ?e (heights n))) = 2 * ?S" by (simp only: sum)
    with i ih hs show ?thesis by (simp add: h e nth_append del: power_Suc)
  qed
qed

lemma and_mask_mod: "n AND (2 ^ h - Suc 0) = n mod 2 ^ h"
  by (metis One_nat_def mask_nat_def take_bit_eq_mask take_bit_eq_mod)

lemma path_for_eigen_root_exact:
  assumes "i < n" "n < U64"
  shows "path_for_eigen_root i n = Ok (i mod 2 ^ merge_height i n + 2 ^ merge_height i n, eigen i n)"
proof -
  have "take_bit 64 i = i" "take_bit 64 n = n" using assms by (simp_all add: U64_def take_bit_nat_eq_self)
  then have "take_bit 64 (i XOR n) = i XOR n" by simp
  then have "i XOR n < 2 ^ 64" by (simp add: take_bit_nat_eq_self_iff del: take_bit_xor)
  then have b: "bit_len (i XOR n) \<le> 64" by (rule bit_len_bound)
  then have "64 - leading_zeros (i XOR n) - 1 = merge_height i n" by (simp add: leading_zeros_def merge_height_def)
  then show ?thesis
    using assms(1)
    by (simp add: path_for_eigen_root_def Let_def eigen_def push_bit_eq_mult and_mask_mod)
qed

section \<open>Trees in the store\<close>

primrec tree_cid :: "('c block \<Rightarrow> 'c) \<Rightarrow> ptree \<Rightarrow> 'c" where
  "tree_cid cid (PLeaf v) = cid (LeafBlock v)"
| "tree_cid cid (PNode l r) = cid (PairBlock (tree_cid cid l) (tree_cid cid r))"

primrec stored :: "('c, 's) block_lib \<Rightarrow> ('c block \<Rightarrow> 'c) \<Rightarrow> 's \<Rightarrow> ptree \<Rightarrow> bool" where
  "stored bl cid s (PLeaf v) = (bl_get bl s (cid (LeafBlock v)) = Ok (Some (LeafBlock v)))"
| "stored bl cid s (PNode l r) =
     (bl_get bl s (tree_cid cid (PNode l r)) = Ok (Some (PairBlock (tree_cid cid l) (tree_cid cid r))) \<and>
      stored bl cid s l \<and> stored bl cid s r)"

text \<open>The identifier of a block is a function of the block, different blocks have different
  identifiers, and a block that was put can be read for good.\<close>

definition acc_ok ::
  "('c, 's) block_lib \<Rightarrow> ('c, nat, 'c, 'h, 's) kv_lib \<Rightarrow> ('c block \<Rightarrow> 'c) \<Rightarrow>
     ('s \<Rightarrow> 'h \<Rightarrow> (nat \<rightharpoonup> 'c) \<Rightarrow> bool) \<Rightarrow> ('s \<Rightarrow> 'c \<Rightarrow> (nat \<rightharpoonup> 'c) \<Rightarrow> bool) \<Rightarrow> ('s \<Rightarrow> 's \<Rightarrow> bool) \<Rightarrow> bool" where
  "acc_ok bl amt cid rep holds grow =
     (kv_ok amt rep holds grow (\<lambda>k. k < U64 - 1) \<and> iter_ordered amt rep \<and>
      inj cid \<and> (\<forall>b. bl_cid bl b = Ok (cid b)) \<and>
      (\<forall>b s. \<exists>s'. bl_put bl b s = Ok (cid b, s') \<and> grow s s' \<and> bl_get bl s' (cid b) = Ok (Some b)) \<and>
      (\<forall>s s' c b. grow s s' \<and> bl_get bl s c = Ok (Some b) \<longrightarrow> bl_get bl s' c = Ok (Some b)) \<and>
      (\<forall>s. grow s s) \<and> (\<forall>s s' s''. grow s s' \<and> grow s' s'' \<longrightarrow> grow s s''))"

lemma acc_okD:
  assumes "acc_ok bl amt cid rep holds grow"
  shows acc_kv: "kv_ok amt rep holds grow (\<lambda>k. k < U64 - 1)"
    and acc_iter: "iter_ordered amt rep"
    and acc_inj: "inj cid"
    and acc_cid: "bl_cid bl b = Ok (cid b)"
    and acc_put: "\<exists>s'. bl_put bl b s = Ok (cid b, s') \<and> grow s s' \<and> bl_get bl s' (cid b) = Ok (Some b)"
    and acc_get_grow: "grow s s' \<Longrightarrow> bl_get bl s c = Ok (Some b) \<Longrightarrow> bl_get bl s' c = Ok (Some b)"
    and acc_refl: "grow s s"
    and acc_trans: "grow s s' \<Longrightarrow> grow s' s'' \<Longrightarrow> grow s s''"
  using assms unfolding acc_ok_def by blast+

lemma stored_grow:
  assumes "acc_ok bl amt cid rep holds grow" "grow s s'"
  shows "stored bl cid s t \<Longrightarrow> stored bl cid s' t"
  using acc_get_grow [OF assms] by (induction t) auto

definition amt_list :: "'c list \<Rightarrow> (nat \<rightharpoonup> 'c)" where
  "amt_list cs = (\<lambda>i. if i < length cs then Some (cs ! i) else None)"

lemma amt_list_dom: "dom (amt_list cs) = {..<length cs}"
  by (auto simp: amt_list_def split: if_splits)

lemma amt_list_snoc: "(amt_list cs)(length cs \<mapsto> c) = amt_list (cs @ [c])"
  by (auto simp: amt_list_def nth_append fun_eq_iff)

lemma amt_list_butlast: "(amt_list (cs @ [c]))(length cs := None) = amt_list cs"
  by (auto simp: amt_list_def nth_append fun_eq_iff)

lemma amt_count:
  assumes "acc_ok bl amt cid rep holds grow" "rep s h (amt_list cs)"
  shows "kv_count amt h = length cs"
  using kv_count_rep [OF acc_kv [OF assms(1)], OF assms(2)] by (simp add: amt_list_dom)

lemma amt_pop:
  assumes acc: "acc_ok bl amt cid rep holds grow" and r: "rep s h (amt_list (cs @ [c]))"
  shows "\<exists>h'. kv_delete amt s h (sub_u64 (kv_count amt h) 1) = Ok (Some c, h') \<and> rep s h' (amt_list cs)"
proof -
  have k: "sub_u64 (kv_count amt h) 1 = length cs"
    using amt_count [OF acc r] by (simp add: sub_u64_def)
  have "amt_list (cs @ [c]) (length cs) = Some c" by (simp add: amt_list_def)
  with kv_delete_rep [OF acc_kv [OF acc], OF r, of "length cs"] show ?thesis
    unfolding k by (simp add: amt_list_butlast)
qed

lemma amt_push:
  assumes acc: "acc_ok bl amt cid rep holds grow" and r: "rep s h (amt_list cs)" and n: "length cs < U64 - 1"
  shows "\<exists>h'. kv_set amt s h (kv_count amt h) c = Ok h' \<and> rep s h' (amt_list (cs @ [c]))"
  using kv_set_rep [OF acc_kv [OF acc], OF r, OF n, of c] amt_count [OF acc r] by (simp add: amt_list_snoc)

lemma merge_peaks_trees:
  assumes acc: "acc_ok bl amt cid rep holds grow"
  shows "rep s h (amt_list (map (tree_cid cid) ts)) \<Longrightarrow> \<forall>t \<in> set ts. stored bl cid s t \<Longrightarrow> k < length ts \<Longrightarrow>
    length ts < U64 - 1 \<Longrightarrow>
    \<exists>h' s'. merge_peaks bl amt k h s = Ok (h', s') \<and> grow s s' \<and>
      rep s' h' (amt_list (map (tree_cid cid) (merge_trees k ts))) \<and>
      (\<forall>t \<in> set (merge_trees k ts). stored bl cid s' t)"
proof (induction k arbitrary: s h ts)
  case 0
  then show ?case using acc_refl [OF acc] by auto
next
  case (Suc k)
  then obtain us u t where ts: "ts = us @ [u, t]"
    by (cases ts rule: rev_cases; cases "butlast ts" rule: rev_cases) auto
  let ?c = "tree_cid cid"
  have "rep s h (amt_list ((map ?c us @ [?c u]) @ [?c t]))" using Suc.prems(1) ts by simp
  from amt_pop [OF acc this] Suc.prems(4) ts obtain h1 where
    h1: "kv_delete amt s h (sub_u64 (kv_count amt h) 1) = Ok (Some (?c t), h1)" "rep s h1 (amt_list (map ?c us @ [?c u]))"
    by auto
  from amt_pop [OF acc h1(2)] Suc.prems(4) ts obtain h2 where
    h2: "kv_delete amt s h1 (sub_u64 (kv_count amt h1) 1) = Ok (Some (?c u), h2)" "rep s h2 (amt_list (map ?c us))"
    by auto
  from acc_put [OF acc, of "PairBlock (?c u) (?c t)" s] obtain s3 where
    s3: "bl_put bl (PairBlock (?c u) (?c t)) s = Ok (?c (PNode u t), s3)" "grow s s3"
      "bl_get bl s3 (?c (PNode u t)) = Ok (Some (PairBlock (?c u) (?c t)))" by auto
  have "rep s3 h2 (amt_list (map ?c us))" by (rule kv_grow_rep [OF acc_kv [OF acc], OF h2(2) s3(2)])
  from amt_push [OF acc this, of "?c (PNode u t)"] Suc.prems(4) ts obtain h4 where
    h4: "kv_set amt s3 h2 (kv_count amt h2) (?c (PNode u t)) = Ok h4"
      "rep s3 h4 (amt_list (map ?c us @ [?c (PNode u t)]))" by auto
  have st: "\<forall>v \<in> set (us @ [PNode u t]). stored bl cid s3 v"
    using Suc.prems(2) ts s3(3) stored_grow [OF acc s3(2)] by auto
  from Suc.IH [of s3 h4 "us @ [PNode u t]"] h4(2) st Suc.prems(3,4) ts obtain h' s' where
    ih: "merge_peaks bl amt k h4 s3 = Ok (h', s')" "grow s3 s'"
      "rep s' h' (amt_list (map ?c (merge_trees k (us @ [PNode u t]))))"
      "\<forall>v \<in> set (merge_trees k (us @ [PNode u t])). stored bl cid s' v" by auto
  have "merge_trees (Suc k) ts = merge_trees k (us @ [PNode u t])" using ts by (simp add: butlast_append)
  moreover have "merge_peaks bl amt (Suc k) h s = Ok (h', s')"
    using h1(1) h2(1) s3(1) h4(1) ih(1) by (simp add: hash_and_put_pair_def)
  ultimately show ?case using ih acc_trans [OF acc s3(2) ih(2)] by auto
qed

section \<open>Root\<close>

text \<open>The root is that of the tree in which the last tree is paired with the one before, and so on.\<close>

definition bag_tree :: "ptree list \<Rightarrow> ptree" where
  "bag_tree ts = foldr PNode (butlast ts) (last ts)"

lemma leaves_bag_tree: "ts \<noteq> [] \<Longrightarrow> leaves (bag_tree ts) = concat (map leaves ts)"
proof -
  have "leaves (foldr PNode us t) = concat (map leaves us) @ leaves t" for us t by (induction us) auto
  moreover assume "ts \<noteq> []"
  ultimately show ?thesis
    unfolding bag_tree_def by (cases ts rule: rev_cases) auto
qed

lemma tree_cid_inj: "inj cid \<Longrightarrow> tree_cid cid t = tree_cid cid u \<Longrightarrow> t = u"
proof (induction t arbitrary: u)
  case (PLeaf v)
  then show ?case by (cases u) (auto dest: injD)
next
  case (PNode l r)
  then show ?case by (cases u) (auto dest: injD)
qed

lemma bag_loop_foldr:
  assumes acc: "acc_ok bl amt cid rep holds grow" and r: "rep s h (amt_list cs)"
  shows "i \<le> length cs \<Longrightarrow> bag_loop bl amt s h (length cs) [i..<length cs] root =
     Ok (foldr (\<lambda>p q. cid (PairBlock p q)) (take (length cs - i) cs) root)"
proof (induction "length cs - i" arbitrary: i root)
  case 0
  then show ?case by simp
next
  case (Suc d)
  then have lt: "i < length cs" by simp
  have d: "length cs - i = Suc d" "length cs - Suc i = d" using Suc.hyps(2) by auto
  have "amt_list cs (length cs - 1 - i) = Some (cs ! d)" using d lt by (simp add: amt_list_def)
  then have "bag_loop bl amt s h (length cs) [i..<length cs] root =
      bag_loop bl amt s h (length cs) [Suc i..<length cs] (cid (PairBlock (cs ! d) root))"
    using lt kv_get_rep [OF acc_kv [OF acc], OF r]
    by (simp add: upt_conv_Cons hash_pair_def acc_cid [OF acc])
  also have "\<dots> = Ok (foldr (\<lambda>p q. cid (PairBlock p q)) (take d cs) (cid (PairBlock (cs ! d) root)))"
    using Suc.hyps(1) [of "Suc i"] d lt by simp
  also have "\<dots> = Ok (foldr (\<lambda>p q. cid (PairBlock p q)) (take (Suc d) cs) root)"
    using d lt by (simp add: take_Suc_conv_app_nth)
  finally show ?case using d by simp
qed

lemma bag_peaks_root:
  assumes acc: "acc_ok bl amt cid rep holds grow" and r: "rep s h (amt_list (map (tree_cid cid) ts))"
  shows "bag_peaks bl amt s h = Ok (if ts = [] then bl_default bl else tree_cid cid (bag_tree ts))"
proof -
  let ?cs = "map (tree_cid cid) ts"
  have n: "kv_count amt h = length ts" using amt_count [OF acc r] by simp
  have get: "kv_get amt s h i = Ok (amt_list ?cs i)" for i by (rule kv_get_rep [OF acc_kv [OF acc], OF r])
  have fold: "tree_cid cid (foldr PNode us t) = foldr (\<lambda>p q. cid (PairBlock p q)) (map (tree_cid cid) us) (tree_cid cid t)"
    for us t by (induction us) auto
  consider "ts = []" | t where "ts = [t]" | us u t where "ts = us @ [u, t]"
    by (cases ts rule: rev_cases; cases "butlast ts" rule: rev_cases) auto
  then show ?thesis
  proof cases
    case 1
    then show ?thesis using n by (simp add: bag_peaks_def)
  next
    case 2
    then show ?thesis using n get by (simp add: bag_peaks_def amt_list_def bag_tree_def)
  next
    case 3
    have len: "length ?cs = length us + 2" using 3 by simp
    have "amt_list ?cs (length ?cs - 2) = Some (tree_cid cid u)" "amt_list ?cs (length ?cs - 1) = Some (tree_cid cid t)"
      using 3 by (auto simp: amt_list_def nth_append)
    then have "bag_peaks bl amt s h =
        bag_loop bl amt s h (length ?cs) [2..<length ?cs] (cid (PairBlock (tree_cid cid u) (tree_cid cid t)))"
      using n get 3 by (simp add: bag_peaks_def Let_def hash_pair_def acc_cid [OF acc] del: upt_Suc)
    also have "\<dots> = Ok (foldr (\<lambda>p q. cid (PairBlock p q)) (take (length ?cs - 2) ?cs)
        (cid (PairBlock (tree_cid cid u) (tree_cid cid t))))"
      using len by (intro bag_loop_foldr [OF acc r]) simp
    also have "\<dots> = Ok (tree_cid cid (bag_tree ts))"
      using 3 by (simp add: bag_tree_def fold butlast_append)
    finally show ?thesis using 3 by simp
  qed
qed

section \<open>Leaves\<close>

lemma leaves_children:
  assumes "perfect k l"
  shows "(leaves l @ leaves r) ! (path mod 2 ^ Suc k) =
     leaves (if path div 2 ^ k mod 2 = 0 then l else r) ! (path mod 2 ^ k)"
proof -
  have "path mod 2 ^ Suc k = 2 ^ k * (path div 2 ^ k mod 2) + path mod 2 ^ k"
    by (simp add: mult.commute [of 2] mod_mult2_eq)
  then show ?thesis using length_leaves [OF assms] by (auto simp: nth_append mod_2_eq_odd)
qed

lemma get_pair_node: "stored bl cid s (PNode l r) \<Longrightarrow>
    get_pair bl s (tree_cid cid (PNode l r)) = Ok (Some (tree_cid cid l, tree_cid cid r))"
  by (simp add: get_pair_def)

lemma get_leaf_node: "stored bl cid s (PLeaf v) \<Longrightarrow> get_leaf bl s (tree_cid cid (PLeaf v)) = Ok (Some v)"
  by (simp add: get_leaf_def)

lemma walk_path_leaf:
  "perfect (Suc k) (PNode l r) \<Longrightarrow> stored bl cid s (PNode l r) \<Longrightarrow> Suc k \<le> h \<Longrightarrow>
   \<exists>l' r'. walk_path bl s path (Suc h) [h - k..<h] (tree_cid cid l, tree_cid cid r) =
       Ok (tree_cid cid (PLeaf l'), tree_cid cid (PLeaf r')) \<and>
     stored bl cid s (PLeaf l') \<and> stored bl cid s (PLeaf r') \<and>
     leaves (PNode l r) ! (path mod 2 ^ Suc k) = (if path mod 2 = 0 then l' else r')"
proof (induction k arbitrary: l r)
  case 0
  then obtain l' r' where "l = PLeaf l'" "r = PLeaf r'" by (cases l; cases r) auto
  with 0 show ?case by (auto simp: mod_2_eq_odd)
next
  case (Suc k)
  let ?c = "if path div 2 ^ Suc k mod 2 = 0 then l else r"
  obtain cl cr where c: "?c = PNode cl cr"
    using Suc.prems(1) by (cases ?c) (auto split: if_splits)
  have pc: "perfect (Suc k) (PNode cl cr)" "stored bl cid s (PNode cl cr)"
    using Suc.prems(1,2) c by (auto split: if_splits)
  have up: "[h - Suc k..<h] = (h - Suc k) # [h - k..<h]" using Suc.prems(3) by (simp add: upt_conv_Cons Suc_diff_Suc)
  have "Suc h - (h - Suc k) - 1 = Suc k" using Suc.prems(3) by simp
  then have bit: "drop_bit (Suc h - (h - Suc k) - 1) path AND 1 = path div 2 ^ Suc k mod 2"
    by (simp add: drop_bit_eq_div and_one_eq)
  have "pair_nth (tree_cid cid l, tree_cid cid r) (path div 2 ^ Suc k mod 2) = tree_cid cid (PNode cl cr)"
    unfolding c [symmetric] by (simp add: pair_nth_def)
  then have "walk_path bl s path (Suc h) [h - Suc k..<h] (tree_cid cid l, tree_cid cid r) =
      walk_path bl s path (Suc h) [h - k..<h] (tree_cid cid cl, tree_cid cid cr)"
    unfolding up walk_path.simps bit Let_def using get_pair_node [OF pc(2)] by simp
  moreover have "leaves (PNode l r) ! (path mod 2 ^ Suc (Suc k)) = leaves (PNode cl cr) ! (path mod 2 ^ Suc k)"
    using leaves_children [of "Suc k" l r path] Suc.prems(1) c by (simp del: power_Suc)
  ultimately show ?case using Suc.IH [OF pc] Suc.prems(3) by simp
qed

lemma mmr_get_tree:
  assumes acc: "acc_ok bl amt cid rep holds grow" and r: "rep s p (amt_list (map (tree_cid cid) ts))"
    and t: "perfect h t" "stored bl cid s t" "e < length ts" "ts ! e = t" and h: "h < 64" "x < 2 ^ h"
    and path: "path_for_eigen_root i n = Ok (x + 2 ^ h, e)"
  shows "mmr_get_at bl amt s i n p = Ok (leaves t ! x)"
proof -
  have peak: "kv_get amt s p e = Ok (Some (tree_cid cid t))"
    using kv_get_rep [OF acc_kv [OF acc], OF r, of e] t(3,4) by (simp add: amt_list_def)
  show ?thesis
  proof (cases h)
    case 0
    then obtain v where v: "t = PLeaf v" using t(1) by (cases t) auto
    with 0 h(2) t(2) peak path get_leaf_node [of bl cid s v] show ?thesis by (simp add: mmr_get_at_def)
  next
    case (Suc k)
    then obtain l r where lr: "t = PNode l r" using t(1) by (cases t) auto
    have "bit_len (x + 2 ^ h) = Suc h" by (rule bit_len_range [OF h(2)])
    then have sig: "64 - leading_zeros (x + 2 ^ h) = Suc h" using h(1) by (simp add: leading_zeros_def)
    have ne: "x + 2 ^ h \<noteq> 1" using Suc by (simp add: add_is_1)
    have "h - k = 1" using Suc by simp
    from walk_path_leaf [of k l r bl cid s h "x + 2 ^ h"] t(1,2) Suc lr this obtain l' r' where
      w: "walk_path bl s (x + 2 ^ h) (Suc h) [1..<h] (tree_cid cid l, tree_cid cid r) =
          Ok (tree_cid cid (PLeaf l'), tree_cid cid (PLeaf r'))"
        "stored bl cid s (PLeaf l')" "stored bl cid s (PLeaf r')"
        "leaves t ! ((x + 2 ^ h) mod 2 ^ h) = (if (x + 2 ^ h) mod 2 = 0 then l' else r')" by auto
    have x: "(x + 2 ^ h) mod 2 ^ h = x" using h(2) by simp
    have "get_leaf bl s (pair_nth (tree_cid cid (PLeaf l'), tree_cid cid (PLeaf r')) ((x + 2 ^ h) AND 1)) =
        Ok (Some (leaves t ! x))"
      using w(2-4) x get_leaf_node [of bl cid s l'] get_leaf_node [of bl cid s r']
      by (cases "(x + 2 ^ h) mod 2 = 0") (simp_all add: pair_nth_def and_one_eq)
    moreover have "get_pair bl s (tree_cid cid t) = Ok (Some (tree_cid cid l, tree_cid cid r))"
      using get_pair_node [of bl cid s l r] t(2) lr by simp
    ultimately show ?thesis
      using peak path ne w(1) by (simp add: mmr_get_at_def sig del: One_nat_def)
  qed
qed

section \<open>Invariant\<close>

text \<open>The state holds the leaves \<open>xs\<close>.\<close>

definition accumulates ::
  "('c, 's) block_lib \<Rightarrow> ('c block \<Rightarrow> 'c) \<Rightarrow> ('s \<Rightarrow> 'c \<Rightarrow> (nat \<rightharpoonup> 'c) \<Rightarrow> bool) \<Rightarrow> 's \<Rightarrow> ('a, 'c) Accumulator \<Rightarrow>
     nat list list \<Rightarrow> ptree list \<Rightarrow> bool" where
  "accumulates bl cid holds s st xs ts =
     (list_all2 perfect (heights (length xs)) ts \<and> concat (map leaves ts) = xs \<and>
      (\<forall>t \<in> set ts. stored bl cid s t) \<and> holds s (acc_peaks st) (amt_list (map (tree_cid cid) ts)) \<and>
      acc_leaf_count st = length xs \<and> length xs < U64)"

lemma accumulates_length:
  assumes "accumulates bl cid holds s st xs ts"
  shows "length ts = count_ones (length xs)" "length ts \<le> 64"
proof -
  show "length ts = count_ones (length xs)"
    using assms list_all2_lengthD length_heights unfolding accumulates_def by metis
  moreover have "length xs < 2 ^ 64" using assms by (simp add: accumulates_def U64_def)
  ultimately show "length ts \<le> 64" using count_ones_bound by metis
qed

lemma acc_new_accumulates:
  assumes acc: "acc_ok bl amt cid rep holds grow"
  shows "\<exists>st s'. acc_new amt owner access s = Ok (st, s') \<and> accumulates bl cid holds s' st [] [] \<and>
    acc_owner st = owner \<and> acc_write_access st = access"
proof -
  have "amt_list [] = Map.empty" by (simp add: amt_list_def)
  with kv_flush_rep [OF acc_kv [OF acc], OF kv_new_rep [OF acc_kv [OF acc]], of s] show ?thesis
    by (auto simp: acc_new_def accumulates_def amt_list_def)
qed

lemma acc_push_accumulates:
  assumes acc: "acc_ok bl amt cid rep holds grow" and i: "accumulates bl cid holds s st xs ts"
    and n: "Suc (length xs) < U64"
  shows "\<exists>st' s' ts'. acc_push bl amt v st s =
      Ok (\<lparr>pr_root = tree_cid cid (bag_tree ts'), pr_index = length xs\<rparr>, st', s') \<and>
    accumulates bl cid holds s' st' (xs @ [v]) ts' \<and> ts' \<noteq> [] \<and>
    acc_owner st' = acc_owner st \<and> acc_write_access st' = acc_write_access st"
proof -
  let ?c = "tree_cid cid" and ?k = "trailing_ones (length xs)"
  let ?ts = "merge_trees ?k (ts @ [PLeaf v])"
  note kv = acc_kv [OF acc]
  from i have inv: "list_all2 perfect (heights (length xs)) ts" "concat (map leaves ts) = xs"
      "\<forall>t \<in> set ts. stored bl cid s t" "holds s (acc_peaks st) (amt_list (map ?c ts))" "acc_leaf_count st = length xs"
    by (auto simp: accumulates_def)
  have len: "length ts \<le> 64" by (rule accumulates_length [OF i])
  have U: "65 < U64 - 1" by (simp add: U64_def)
  obtain h0 where h0: "kv_load amt s (acc_peaks st) = Ok h0" "rep s h0 (amt_list (map ?c ts))"
    using kv_load_rep [OF kv, OF inv(4)] by blast
  obtain s1 where s1: "bl_put bl (LeafBlock v) s = Ok (?c (PLeaf v), s1)" "grow s s1" "stored bl cid s1 (PLeaf v)"
    using acc_put [OF acc, of "LeafBlock v" s] by auto
  obtain h1 where h1: "kv_set amt s1 h0 (kv_count amt h0) (?c (PLeaf v)) = Ok h1"
      "rep s1 h1 (amt_list (map ?c (ts @ [PLeaf v])))"
    using amt_push [OF acc kv_grow_rep [OF kv, OF h0(2) s1(2)], of "?c (PLeaf v)"] len U by auto
  have st1: "\<forall>t \<in> set (ts @ [PLeaf v]). stored bl cid s1 t"
    using inv(3) s1(3) stored_grow [OF acc s1(2)] by auto
  have k: "?k < length (ts @ [PLeaf v])"
    using trailing_ones_le [of "length xs"] list_all2_lengthD [OF inv(1)] by simp
  obtain h2 s2 where h2: "merge_peaks bl amt ?k h1 s1 = Ok (h2, s2)" "rep s2 h2 (amt_list (map ?c ?ts))"
      "\<forall>t \<in> set ?ts. stored bl cid s2 t"
    using merge_peaks_trees [OF acc h1(2) st1 k] len U by auto
  obtain c h3 s3 where h3: "kv_flush amt h2 s2 = Ok ((c, h3), s3)" "holds s3 c (amt_list (map ?c ?ts))"
      "rep s3 h3 (amt_list (map ?c ?ts))" "grow s2 s3"
    using kv_flush_rep [OF kv, OF h2(2)] by (elim exE conjE) (rule that)
  have ts': "list_all2 perfect (heights (length (xs @ [v]))) ?ts"
    using merge_trees_perfect [of 0 "length xs" ts "PLeaf v"] inv(1) by (simp add: plus_0_fun)
  have leaves: "concat (map leaves ?ts) = xs @ [v]" using merge_trees_leaves [OF k] inv(2) by simp
  then have ne: "?ts \<noteq> []" by auto
  have "not_u64 (length xs) = 2 ^ 64 - 1 - length xs" by (simp add: not_u64_def U64_def)
  then have "trailing_zeros (not_u64 (length xs)) = ?k"
    using trailing_zeros_not [of "length xs" 64] n by (simp add: U64_def)
  with s1(1) h1(1) h2(1) h3(1) have push: "mmr_push bl amt (length xs) h0 v s = Ok ((c, h3), s3)"
    by (simp add: mmr_push_def)
  let ?st = "st\<lparr>acc_peaks := c, acc_leaf_count := Suc (length xs)\<rparr>"
  have "acc_push bl amt v st s = Ok (\<lparr>pr_root = ?c (bag_tree ?ts), pr_index = length xs\<rparr>, ?st, s3)"
    using h0(1) push bag_peaks_root [OF acc h3(3)] ne inv(5) n
    by (simp add: acc_push_def Let_def u64_simps)
  moreover have "accumulates bl cid holds s3 ?st (xs @ [v]) ?ts"
    using ts' leaves h2(3) stored_grow [OF acc h3(4)] h3(2) n by (simp add: accumulates_def)
  ultimately show ?thesis using ne by (intro exI [of _ ?st] exI [of _ s3] exI [of _ ?ts]) simp
qed

fun push_all ::
  "('c, 's) block_lib \<Rightarrow> ('c, nat, 'c, 'h, 's) kv_lib \<Rightarrow> 'a runtime \<Rightarrow> nat list list \<Rightarrow> ('a, 'c) Accumulator \<Rightarrow> 's \<Rightarrow>
     (ActorError, 'c PushReturn list \<times> ('a, 'c) Accumulator \<times> 's) outcome" where
  "push_all bl amt rt [] st s = Ok ([], st, s)"
| "push_all bl amt rt (v # vs) st s =
     obind (push_leaf bl amt rt v st s) (\<lambda>(r, st, s).
     obind (push_all bl amt rt vs st s) (\<lambda>(rs, st, s). Ok (r # rs, st, s)))"

lemma push_all_accumulates:
  assumes acc: "acc_ok bl amt cid rep holds grow" and rt: "runtime_ok rt"
  shows "accumulates bl cid holds s st xs ts \<Longrightarrow> may_write rt (acc_owner st) (acc_write_access st) \<Longrightarrow>
    length (xs @ vs) < U64 \<Longrightarrow>
    \<exists>rs st' s' ts'. push_all bl amt rt vs st s = Ok (rs, st', s') \<and>
      accumulates bl cid holds s' st' (xs @ vs) ts' \<and> map pr_index rs = [length xs..<length (xs @ vs)]"
proof (induction vs arbitrary: st s xs ts)
  case Nil
  then show ?case by auto
next
  case (Cons v vs)
  from acc_push_accumulates [OF acc Cons.prems(1), of v] Cons.prems(3) obtain st1 s1 ts1 where
    p: "acc_push bl amt v st s = Ok (\<lparr>pr_root = tree_cid cid (bag_tree ts1), pr_index = length xs\<rparr>, st1, s1)"
      "accumulates bl cid holds s1 st1 (xs @ [v]) ts1"
      "acc_owner st1 = acc_owner st" "acc_write_access st1 = acc_write_access st" by auto
  have allowed: "ensure_write_allowed rt (acc_owner st) (acc_write_access st) = Ok ()"
    using ensure_write_allowed_iff(1) [OF rt] Cons.prems(2) by blast
  from Cons.IH [OF p(2)] p(3,4) Cons.prems(2,3) obtain rs st' s' ts' where
    ih: "push_all bl amt rt vs st1 s1 = Ok (rs, st', s')" "accumulates bl cid holds s' st' ((xs @ [v]) @ vs) ts'"
      "map pr_index rs = [length (xs @ [v])..<length ((xs @ [v]) @ vs)]" by auto
  have "push_all bl amt rt (v # vs) st s =
      Ok (\<lparr>pr_root = tree_cid cid (bag_tree ts1), pr_index = length xs\<rparr> # rs, st', s')"
    using allowed p(1) ih(1) by (simp add: push_leaf_def)
  moreover have "[length xs..<length (xs @ v # vs)] = length xs # [Suc (length xs)..<length (xs @ v # vs)]"
    by (rule upt_conv_Cons) simp
  ultimately show ?case using ih(2,3) by auto
qed

lemma constructed_accumulates:
  assumes acc: "acc_ok bl amt cid rep holds grow" and new: "acc_constructor amt rt0 ps s0 = Ok (st, s)"
  shows "accumulates bl cid holds s st [] [] \<and> acc_owner st = mp_creator ps \<and> acc_write_access st = mp_write_access ps"
  using new acc_new_accumulates [OF acc, of "mp_creator ps" "mp_write_access ps" s0]
  by (auto simp: acc_constructor_def outcome_simps)

lemma get_leaf_accumulated:
  assumes acc: "acc_ok bl amt cid rep holds grow" and rt: "runtime_ok rt"
    and i: "accumulates bl cid holds s st xs ts"
  shows "get_leaf_at bl amt rt i st s = Ok (if i < length xs then Some (xs ! i) else None)"
proof -
  from i have inv: "list_all2 perfect (heights (length xs)) ts" "concat (map leaves ts) = xs"
      "\<forall>t \<in> set ts. stored bl cid s t" "holds s (acc_peaks st) (amt_list (map (tree_cid cid) ts))"
      "acc_leaf_count st = length xs" "length xs < U64" by (auto simp: accumulates_def)
  obtain p where p: "kv_load amt s (acc_peaks st) = Ok p" "rep s p (amt_list (map (tree_cid cid) ts))"
    using kv_load_rep [OF acc_kv [OF acc], OF inv(4)] by blast
  show ?thesis
  proof (cases "i < length xs")
    case False
    then have "mmr_get_at bl amt s i (length xs) p = Err ''`leaf_index` must less than `leaf_count`''"
      by (simp add: mmr_get_at_def path_for_eigen_root_def)
    with False p(1) inv(5) show ?thesis
      by (simp add: get_leaf_at_def acc_get_leaf_at_def any_passes [OF rt])
  next
    case True
    let ?h = "merge_height i (length xs)" and ?e = "eigen i (length xs)"
    have e: "?e < length ts" "perfect ?h (ts ! ?e)"
      using eigen_position [OF True] list_all2_lengthD [OF inv(1)] list_all2_nthD [OF inv(1)] by metis+
    have len: "length (leaves (ts ! j)) = 2 ^ (heights (length xs) ! j)" if "j < length ts" for j
      using that list_all2_lengthD [OF inv(1)] list_all2_nthD [OF inv(1)] length_leaves by metis
    have "map (length \<circ> leaves) ts = map ((^) 2) (heights (length xs))"
      using len list_all2_lengthD [OF inv(1)] by (intro nth_equalityI) simp_all
    then have "sum_list (map ((^) 2) (take ?e (heights (length xs)))) = length (concat (map leaves (take ?e ts)))"
      by (metis length_concat map_map take_map)
    moreover have "i mod 2 ^ ?h < length (leaves (ts ! ?e))" using length_leaves [OF e(2)] by simp
    moreover have "concat (map leaves ts) =
        concat (map leaves (take ?e ts)) @ leaves (ts ! ?e) @ concat (map leaves (drop (Suc ?e) ts))"
      by (metis append_assoc concat_append e(1) id_take_nth_drop list.simps(9) map_append concat.simps(2))
    ultimately have x: "leaves (ts ! ?e) ! (i mod 2 ^ ?h) = xs ! i"
      using eigen_position [OF True] inv(2) by (metis nth_append nth_append_length_plus)
    have "i XOR length xs < 2 ^ 64"
      using True inv(6) by (metis U64_def less_trans take_bit_nat_eq_self take_bit_nat_eq_self_iff take_bit_xor)
    then have "?h < 64" using bit_len_bound [of "i XOR length xs" 64] by (simp add: merge_height_def)
    from mmr_get_tree [OF acc p(2) e(2) _ e(1) refl this _ path_for_eigen_root_exact [OF True inv(6)]] e(1) inv(3)
    have "mmr_get_at bl amt s i (length xs) p = Ok (xs ! i)" using x by simp
    with True p(1) inv(5) show ?thesis
      by (simp add: get_leaf_at_def acc_get_leaf_at_def any_passes [OF rt])
  qed
qed

lemma get_root_accumulated:
  assumes acc: "acc_ok bl amt cid rep holds grow" and rt: "runtime_ok rt"
    and i: "accumulates bl cid holds s st xs ts" and ne: "xs \<noteq> []"
  shows "get_root bl amt rt st s = Ok (tree_cid cid (bag_tree ts)) \<and> leaves (bag_tree ts) = xs"
proof -
  from i have inv: "concat (map leaves ts) = xs" "holds s (acc_peaks st) (amt_list (map (tree_cid cid) ts))"
    by (auto simp: accumulates_def)
  then have "ts \<noteq> []" using ne by auto
  moreover obtain p where "kv_load amt s (acc_peaks st) = Ok p" "rep s p (amt_list (map (tree_cid cid) ts))"
    using kv_load_rep [OF acc_kv [OF acc], OF inv(2)] by blast
  ultimately show ?thesis
    using bag_peaks_root [OF acc] leaves_bag_tree [of ts] inv(1)
    by (simp add: get_root_def acc_get_root_def any_passes [OF rt])
qed

section \<open>Properties\<close>

text \<open>C10: what is pushed can be read. As long as the number of leaves fits 64 bits, every push by an
  allowed writer succeeds and returns the next index, and afterwards each leaf is found at its index
  and nothing is found behind the last one.\<close>

theorem accumulator_roundtrip:
  assumes acc: "acc_ok bl amt cid rep holds grow" and rt: "runtime_ok rt" "runtime_ok reader"
    and new: "acc_constructor amt rt0 ps s0 = Ok (st, s)"
    and allowed: "may_write rt (mp_creator ps) (mp_write_access ps)" and n: "length xs < U64"
  shows "\<exists>rs st' s'. push_all bl amt rt xs st s = Ok (rs, st', s') \<and> map pr_index rs = [0..<length xs] \<and>
     get_count reader st' = Ok (length xs) \<and>
     (\<forall>i. get_leaf_at bl amt reader i st' s' = Ok (if i < length xs then Some (xs ! i) else None))"
proof -
  note c = constructed_accumulates [OF acc new]
  from push_all_accumulates [OF acc rt(1), of s st "[]" "[]" xs] c allowed n obtain rs st' s' ts where
    p: "push_all bl amt rt xs st s = Ok (rs, st', s')" "accumulates bl cid holds s' st' xs ts"
      "map pr_index rs = [0..<length xs]" by auto
  moreover from p(2) have "get_count reader st' = Ok (length xs)"
    by (simp add: accumulates_def get_count_def any_passes [OF rt(2)])
  ultimately show ?thesis using get_leaf_accumulated [OF acc rt(2) p(2)] by blast
qed

text \<open>C12: the root commits to the leaves. Two accumulators with the same root hold the same leaves in the
  same order, also when their numbers of leaves were not known to agree.\<close>

theorem accumulator_root_binds:
  assumes acc: "acc_ok bl amt cid rep holds grow" and rt: "runtime_ok rt" "runtime_ok rt'"
    and new: "acc_constructor amt r0 ps s0 = Ok (st, s)" "acc_constructor amt r0' ps' s0' = Ok (st', s')"
    and allowed: "may_write rt (mp_creator ps) (mp_write_access ps)" "may_write rt' (mp_creator ps') (mp_write_access ps')"
    and n: "length xs < U64" "length ys < U64" "xs \<noteq> []" "ys \<noteq> []"
    and push: "push_all bl amt rt xs st s = Ok (rs, st1, s1)" "push_all bl amt rt' ys st' s' = Ok (rs', st1', s1')"
    and root: "get_root bl amt rt st1 s1 = get_root bl amt rt' st1' s1'"
  shows "xs = ys"
proof -
  from push_all_accumulates [OF acc rt(1), of s st "[]" "[]" xs] constructed_accumulates [OF acc new(1)] allowed(1) n(1) push(1)
  obtain ts where ts: "accumulates bl cid holds s1 st1 xs ts" by auto
  from push_all_accumulates [OF acc rt(2), of s' st' "[]" "[]" ys] constructed_accumulates [OF acc new(2)] allowed(2) n(2) push(2)
  obtain us where us: "accumulates bl cid holds s1' st1' ys us" by auto
  from get_root_accumulated [OF acc rt(1) ts n(3)] get_root_accumulated [OF acc rt(2) us n(4)] root
  have "tree_cid cid (bag_tree ts) = tree_cid cid (bag_tree us)" "leaves (bag_tree ts) = xs" "leaves (bag_tree us) = ys"
    by simp_all
  with tree_cid_inj [OF acc_inj [OF acc]] show ?thesis by metis
qed

section \<open>Examples\<close>

text \<open>Identifiers that are the blocks themselves.\<close>

datatype mem_cid = MDefault | MLeaf "nat list" | MPair mem_cid mem_cid | MArray "(nat \<times> mem_cid) list"

fun mem_block_cid :: "mem_cid block \<Rightarrow> mem_cid" where
  "mem_block_cid (LeafBlock v) = MLeaf v"
| "mem_block_cid (PairBlock l r) = MPair l r"

fun mem_block :: "mem_cid \<Rightarrow> mem_cid block option" where
  "mem_block (MLeaf v) = Some (LeafBlock v)"
| "mem_block (MPair l r) = Some (PairBlock l r)"
| "mem_block _ = None"

definition mem_blocks :: "(mem_cid, unit) block_lib" where
  "mem_blocks = \<lparr>bl_put = (\<lambda>b s. Ok (mem_block_cid b, s)), bl_get = (\<lambda>_ c. Ok (mem_block c)),
     bl_cid = (\<lambda>b. Ok (mem_block_cid b)), bl_default = MDefault\<rparr>"

definition mem_amt :: "(mem_cid, nat, mem_cid, (nat \<times> mem_cid) list, unit) kv_lib" where
  "mem_amt = mem_kv_of MArray (\<lambda>c. case c of MArray h \<Rightarrow> Some h | _ \<Rightarrow> None) (\<lambda>k. k < U64 - 1)"

definition mem_holds :: "unit \<Rightarrow> mem_cid \<Rightarrow> (nat \<rightharpoonup> mem_cid) \<Rightarrow> bool" where
  "mem_holds s c m = (\<exists>h. (case c of MArray h \<Rightarrow> Some h | _ \<Rightarrow> None) = Some h \<and> mem_rep s h m)"

lemma mem_amt_ok: "kv_ok mem_amt mem_rep mem_holds (\<lambda>_ _. True) (\<lambda>k. k < U64 - 1)"
  unfolding mem_amt_def mem_holds_def by (rule mem_kv_of_ok) simp

lemma mem_acc_ok: "acc_ok mem_blocks mem_amt mem_block_cid mem_rep mem_holds (\<lambda>_ _. True)"
proof -
  have "inj mem_block_cid" by (rule injI) (metis block.exhaust mem_block_cid.simps mem_cid.inject(1,2) mem_cid.distinct(7))
  moreover have "mem_block (mem_block_cid b) = Some b" for b by (cases b) simp_all
  moreover have "iter_ordered mem_amt mem_rep"
    unfolding mem_amt_def by (rule mem_iter_ordered_of)
  ultimately show ?thesis using mem_amt_ok by (simp add: acc_ok_def mem_blocks_def)
qed

definition sample_accumulator :: "(nat, mem_cid) Accumulator" where
  "sample_accumulator = \<lparr>acc_owner = 5, acc_write_access = OnlyOwner, acc_peaks = MArray [], acc_leaf_count = 0\<rparr>"

lemma sample_accumulator_new:
  "acc_constructor mem_amt (sample_runtime 1) \<lparr>mp_creator = 5, mp_write_access = OnlyOwner\<rparr> () = Ok (sample_accumulator, ())"
  by (simp add: acc_constructor_def acc_new_def mem_amt_def mem_kv_of_def sample_runtime_def sample_accumulator_def)

lemma sample_writer:
  "may_write (sample_runtime 5) (mp_creator \<lparr>mp_creator = 5, mp_write_access = OnlyOwner\<rparr>)
     (mp_write_access \<lparr>mp_creator = 5 :: nat, mp_write_access = OnlyOwner\<rparr>)"
  by (simp add: may_write_def sample_runtime_def)

lemma sample_pushes:
  assumes "length xs < U64"
  shows "\<exists>rs st' s'. push_all mem_blocks mem_amt (sample_runtime 5) xs sample_accumulator () = Ok (rs, st', s')"
  using push_all_accumulates [OF mem_acc_ok sample_runtime_ok [of 5], of "()" sample_accumulator "[]" "[]" xs] assms
    constructed_accumulates [OF mem_acc_ok sample_accumulator_new] sample_writer
  by (auto simp: sample_accumulator_def)

theorem accumulator_roundtrip_witness:
  "\<exists>rs st' s'. push_all mem_blocks mem_amt (sample_runtime 5) [[1], [2], [3]] sample_accumulator () = Ok (rs, st', s') \<and>
     get_leaf_at mem_blocks mem_amt (sample_runtime 9) 2 st' s' = Ok (Some [3]) \<and>
     get_leaf_at mem_blocks mem_amt (sample_runtime 9) 3 st' s' = Ok None"
proof -
  have "length [[1], [2], [3 :: nat]] < U64" by (simp add: U64_def)
  from accumulator_roundtrip [OF mem_acc_ok sample_runtime_ok [of 5] sample_runtime_ok [of 9] sample_accumulator_new
      sample_writer this] obtain rs st' s' where
    p: "push_all mem_blocks mem_amt (sample_runtime 5) [[1], [2], [3]] sample_accumulator () = Ok (rs, st', s')" and
    g: "\<And>i. get_leaf_at mem_blocks mem_amt (sample_runtime 9) i st' s' =
        Ok (if i < length [[1], [2], [3 :: nat]] then Some ([[1], [2], [3]] ! i) else None)" by blast
  from p g [of 2] g [of 3] show ?thesis by auto
qed

theorem accumulator_root_binds_witness:
  "\<exists>rs st1 s1 rs' st2 s2.
     push_all mem_blocks mem_amt (sample_runtime 5) [[1], [2]] sample_accumulator () = Ok (rs, st1, s1) \<and>
     push_all mem_blocks mem_amt (sample_runtime 5) [[2], [1]] sample_accumulator () = Ok (rs', st2, s2) \<and>
     get_root mem_blocks mem_amt (sample_runtime 5) st1 s1 \<noteq> get_root mem_blocks mem_amt (sample_runtime 5) st2 s2"
proof -
  have n: "length [[1], [2 :: nat]] < U64" "length [[2], [1 :: nat]] < U64" by (simp_all add: U64_def)
  obtain rs st1 s1 where p1: "push_all mem_blocks mem_amt (sample_runtime 5) [[1], [2]] sample_accumulator () = Ok (rs, st1, s1)"
    using sample_pushes [OF n(1)] by blast
  obtain rs' st2 s2 where p2: "push_all mem_blocks mem_amt (sample_runtime 5) [[2], [1]] sample_accumulator () = Ok (rs', st2, s2)"
    using sample_pushes [OF n(2)] by blast
  have "[[1], [2 :: nat]] \<noteq> [[2], [1]]" by simp
  with accumulator_root_binds [OF mem_acc_ok sample_runtime_ok [of 5] sample_runtime_ok [of 5] sample_accumulator_new
      sample_accumulator_new sample_writer sample_writer n _ _ p1 p2] p1 p2
  show ?thesis by blast
qed

end
