(* ===== verification/Checkpoint_Relayer.thy ===== *)
theory Checkpoint_Relayer
  imports Fvm_Interpreter
begin

text \<open>
  The relayer of bottom-up checkpoints (\<open>ipc/provider/src/checkpoint.rs\<close>): in every round it asks the parent for
  the last committed checkpoint, collects the checkpoints of the child that have reached a quorum since, and
  submits them to the parent in parallel tasks, whose number a semaphore limits.

  The handlers of the two subnets are parameters (\<open>relayer_io\<close>). The parent has a state that submissions
  change. What the child has finalized at a height does not change, but every query can fail. The loop of the
  relayer and its tasks interleave: \<open>relayer_step\<close> is one step of either of them. Tasks of a round that failed
  are not cancelled, and keep their permits until they are done.
\<close>

section \<open>Data\<close>

record QuorumReachedEvent =
  qr_obj_kind :: nat
  qr_height :: int
  qr_obj_hash :: "nat list"
  qr_quorum_weight :: int

record 'a BottomUpCheckpointBundle =
  bb_checkpoint :: "'a BottomUpCheckpoint"
  bb_signatures :: "nat list list"
  bb_signatories :: "'a list"

record 'a CheckpointConfig =
  cc_parent :: "'a SubnetID"
  cc_child :: "'a SubnetID"
  cc_period :: int

record 'a BottomUpCheckpointManager =
  mg_metadata :: "'a CheckpointConfig"
  finalization_blocks :: int
  max_parallelism :: nat

record ('a, 'p) relayer_io =
  io_last_height :: "'a SubnetID \<Rightarrow> 'p \<Rightarrow> int"
  io_submit :: "'a \<Rightarrow> 'a BottomUpCheckpointBundle \<Rightarrow> 'p \<Rightarrow> 'p \<times> (string, int) outcome"
  io_events :: "int \<Rightarrow> QuorumReachedEvent list"
  io_bundle_at :: "int \<Rightarrow> 'a BottomUpCheckpointBundle option"

definition relayer_new ::
  "'a SubnetID \<Rightarrow> 'a SubnetID \<Rightarrow> (string, int) outcome \<Rightarrow> nat \<Rightarrow> (string, 'a BottomUpCheckpointManager) outcome" where
  "relayer_new par child period max_par =
     obind (map_err (\<lambda>e. ''cannot get bottom up checkpoint period: '' @ e) period) (\<lambda>period.
     Ok \<lparr>mg_metadata = \<lparr>cc_parent = par, cc_child = child, cc_period = period\<rparr>, finalization_blocks = 0,
         max_parallelism = max_par\<rparr>)"

definition with_finalization_blocks :: "int \<Rightarrow> 'a BottomUpCheckpointManager \<Rightarrow> 'a BottomUpCheckpointManager" where
  "with_finalization_blocks n mg = mg\<lparr>finalization_blocks := n\<rparr>"

section \<open>The loop and its tasks\<close>

text \<open>Where the loop of \<open>run\<close> is: asleep, in the loops over heights and their events (with what is left of both),
  waiting for a permit for a checkpoint, or waiting for its tasks.\<close>

datatype 'a phase =
  Sleeping
| Looping "int list" "QuorumReachedEvent list"
| Acquiring "int list" "QuorumReachedEvent list" "'a BottomUpCheckpointBundle" QuorumReachedEvent
| Joining

text \<open>\<open>rs_range\<close> holds the variables \<open>last_checkpoint_epoch\<close> and \<open>finalized_height\<close> of the round, \<open>rs_tasks\<close> is
  \<open>all_submit_tasks\<close>, with the number of each task and what it submits, and \<open>rs_result\<close> is the result of the last
  round. \<open>rs_running\<close> and \<open>rs_finished\<close> are the tasks of all rounds.\<close>

record ('a, 'p) relayer_state =
  rs_phase :: "'a phase"
  rs_range :: "int \<times> int"
  rs_tasks :: "(nat \<times> 'a BottomUpCheckpointBundle) list"
  rs_result :: "(string, unit) outcome option"
  rs_running :: "(nat \<times> 'a BottomUpCheckpointBundle \<times> QuorumReachedEvent) list"
  rs_finished :: "(nat \<times> 'a BottomUpCheckpointBundle \<times> (string, unit) outcome) list"
  rs_permits :: nat
  rs_next :: nat
  rs_parent :: 'p

definition relayer_init :: "'a BottomUpCheckpointManager \<Rightarrow> 'p \<Rightarrow> ('a, 'p) relayer_state" where
  "relayer_init mg p =
     \<lparr>rs_phase = Sleeping, rs_range = (0, 0), rs_tasks = [], rs_result = None, rs_running = [], rs_finished = [],
      rs_permits = max_parallelism mg, rs_next = 0, rs_parent = p\<rparr>"

definition end_round :: "(string, unit) outcome \<Rightarrow> ('a, 'p) relayer_state \<Rightarrow> ('a, 'p) relayer_state" where
  "end_round res s = s\<lparr>rs_phase := Sleeping, rs_result := Some res\<rparr>"

definition show_i64 :: "int \<Rightarrow> string" where
  "show_i64 h = (if h < 0 then ''-'' @ show_u64 (nat (- h)) else show_u64 (nat h))"

text \<open>The start of a round, with the answers of the parent and of the child.\<close>

definition start_round ::
  "'a BottomUpCheckpointManager \<Rightarrow> (string, int) outcome \<Rightarrow> (string, int) outcome \<Rightarrow> ('a, 'p) relayer_state \<Rightarrow>
     ('a, 'p) relayer_state" where
  "start_round mg last_height epoch s =
     (case obind (map_err (\<lambda>e. ''cannot obtain the last bottom up checkpoint height due to: '' @ e) last_height) (\<lambda>l.
           obind epoch (\<lambda>current_height. Ok (l, max 1 (current_height - finalization_blocks mg)))) of
        Ok (l, finalized_height) \<Rightarrow>
          let s = s\<lparr>rs_range := (l, finalized_height), rs_tasks := []\<rparr> in
          if finalized_height \<le> l then end_round (Ok ()) s
          else s\<lparr>rs_phase := Looping [l + 1..finalized_height] []\<rparr>
      | Err e \<Rightarrow> end_round (Err e) s
      | _ \<Rightarrow> s)"

definition on_events ::
  "(string, QuorumReachedEvent list) outcome \<Rightarrow> int list \<Rightarrow> ('a, 'p) relayer_state \<Rightarrow> ('a, 'p) relayer_state" where
  "on_events ans hs s =
     (case ans of Ok evs \<Rightarrow> s\<lparr>rs_phase := Looping hs evs\<rparr> | Err e \<Rightarrow> end_round (Err e) s | _ \<Rightarrow> s)"

definition on_bundle ::
  "(string, 'a BottomUpCheckpointBundle option) outcome \<Rightarrow> QuorumReachedEvent \<Rightarrow> int list \<Rightarrow> QuorumReachedEvent list \<Rightarrow>
     ('a, 'p) relayer_state \<Rightarrow> ('a, 'p) relayer_state" where
  "on_bundle ans ev hs evs s =
     (case ans of
        Ok (Some b) \<Rightarrow> s\<lparr>rs_phase := Acquiring hs evs b ev\<rparr>
      | Ok None \<Rightarrow> end_round (Err (''expected checkpoint at height '' @ show_i64 (qr_height ev) @ '' but none found'')) s
      | Err e \<Rightarrow> end_round (Err e) s
      | _ \<Rightarrow> s)"

definition spawn_task ::
  "'a BottomUpCheckpointBundle \<Rightarrow> QuorumReachedEvent \<Rightarrow> int list \<Rightarrow> QuorumReachedEvent list \<Rightarrow>
     ('a, 'p) relayer_state \<Rightarrow> ('a, 'p) relayer_state" where
  "spawn_task b ev hs evs s =
     s\<lparr>rs_permits := rs_permits s - 1, rs_running := rs_running s @ [(rs_next s, b, ev)],
       rs_tasks := rs_tasks s @ [(rs_next s, b)], rs_next := rs_next s + 1, rs_phase := Looping hs evs\<rparr>"

definition submit_checkpoint ::
  "('a, 'p) relayer_io \<Rightarrow> 'a \<Rightarrow> 'a BottomUpCheckpointBundle \<Rightarrow> QuorumReachedEvent \<Rightarrow> 'p \<Rightarrow> 'p \<times> (string, unit) outcome" where
  "submit_checkpoint io submitter b ev p =
     (let (p, r) = io_submit io submitter b p in
      (p, obind (map_err (\<lambda>e. ''cannot submit bottom up checkpoint at height '' @ show_i64 (qr_height ev) @ '' due to: '' @ e) r)
            (\<lambda>epoch. Ok ())))"

text \<open>A task runs to its end and gives its permit back.\<close>

definition run_task ::
  "('a, 'p) relayer_io \<Rightarrow> 'a \<Rightarrow> nat \<times> 'a BottomUpCheckpointBundle \<times> QuorumReachedEvent \<Rightarrow> ('a, 'p) relayer_state \<Rightarrow>
     ('a, 'p) relayer_state" where
  "run_task io submitter task s =
     (let (k, b, ev) = task; (p, r) = submit_checkpoint io submitter b ev (rs_parent s) in
      s\<lparr>rs_parent := p, rs_running := filter (\<lambda>t. fst t \<noteq> k) (rs_running s), rs_finished := rs_finished s @ [(k, b, r)],
        rs_permits := rs_permits s + 1\<rparr>)"

text \<open>The tasks are joined when none of them is running; what they returned is not looked at.\<close>

definition joined :: "('a, 'p) relayer_state \<Rightarrow> bool" where
  "joined s = (\<forall>t \<in> set (rs_running s). fst t \<notin> fst ` set (rs_tasks s))"

text \<open>A query is answered, or fails.\<close>

definition answer :: "(string, 'x) outcome \<Rightarrow> 'x \<Rightarrow> bool" where
  "answer ans x = (ans = Ok x \<or> (\<exists>e. ans = Err e))"

inductive relayer_step ::
  "'a BottomUpCheckpointManager \<Rightarrow> ('a, 'p) relayer_io \<Rightarrow> 'a \<Rightarrow> ('a, 'p) relayer_state \<Rightarrow> ('a, 'p) relayer_state \<Rightarrow> bool"
  for mg io submitter where
  start: "rs_phase s = Sleeping \<Longrightarrow> answer l (io_last_height io (cc_child (mg_metadata mg)) (rs_parent s)) \<Longrightarrow> answer c cur \<Longrightarrow>
    relayer_step mg io submitter s (start_round mg l c s)"
| events: "rs_phase s = Looping (h # hs) [] \<Longrightarrow> answer ans (io_events io h) \<Longrightarrow> relayer_step mg io submitter s (on_events ans hs s)"
| skip: "rs_phase s = Looping hs (ev # evs) \<Longrightarrow> qr_height ev \<le> fst (rs_range s) \<Longrightarrow>
    relayer_step mg io submitter s (s\<lparr>rs_phase := Looping hs evs\<rparr>)"
| fetch: "rs_phase s = Looping hs (ev # evs) \<Longrightarrow> fst (rs_range s) < qr_height ev \<Longrightarrow> answer ans (io_bundle_at io (qr_height ev)) \<Longrightarrow>
    relayer_step mg io submitter s (on_bundle ans ev hs evs s)"
| spawn: "rs_phase s = Acquiring hs evs b ev \<Longrightarrow> 0 < rs_permits s \<Longrightarrow> relayer_step mg io submitter s (spawn_task b ev hs evs s)"
| wait: "rs_phase s = Looping [] [] \<Longrightarrow> relayer_step mg io submitter s (s\<lparr>rs_phase := Joining\<rparr>)"
| join: "rs_phase s = Joining \<Longrightarrow> joined s \<Longrightarrow> relayer_step mg io submitter s (end_round (Ok ()) s)"
| task: "t \<in> set (rs_running s) \<Longrightarrow> relayer_step mg io submitter s (run_task io submitter t s)"

inductive_cases relayer_stepE: "relayer_step mg io submitter s s'"

section \<open>Lemmas\<close>

text \<open>The checkpoints that are left to submit when the loop has these heights and events ahead of it.\<close>

definition due :: "('a, 'p) relayer_io \<Rightarrow> int \<Rightarrow> int list \<Rightarrow> QuorumReachedEvent list \<Rightarrow> 'a BottomUpCheckpointBundle option list" where
  "due io l hs evs =
     map (\<lambda>ev. io_bundle_at io (qr_height ev)) (filter (\<lambda>ev. l < qr_height ev) (evs @ concat (map (io_events io) hs)))"

fun phase_due :: "('a, 'p) relayer_io \<Rightarrow> int \<Rightarrow> 'a phase \<Rightarrow> 'a BottomUpCheckpointBundle option list" where
  "phase_due io l (Looping hs evs) = due io l hs evs"
| "phase_due io l (Acquiring hs evs b ev) = Some b # due io l hs evs"
| "phase_due io l Sleeping = []"
| "phase_due io l Joining = []"

text \<open>The tasks of a round and what is left are the checkpoints of the whole range; a round that has ended without an
  error has left nothing.\<close>

definition round_ok :: "('a, 'p) relayer_io \<Rightarrow> ('a, 'p) relayer_state \<Rightarrow> bool" where
  "round_ok io s =
     (rs_phase s \<noteq> Sleeping \<or> rs_result s = Some (Ok ()) \<longrightarrow>
        map (\<lambda>t. Some (snd t)) (rs_tasks s) @ phase_due io (fst (rs_range s)) (rs_phase s) =
          due io (fst (rs_range s)) [fst (rs_range s) + 1..snd (rs_range s)] [] \<and>
        (rs_phase s = Sleeping \<longrightarrow> joined s))"

text \<open>The tasks that were started, the finished ones first. Each has a number of its own; with a single permit they
  finish in the order in which they were started.\<close>

definition started :: "('a, 'p) relayer_state \<Rightarrow> (nat \<times> 'a BottomUpCheckpointBundle) list" where
  "started s = map (\<lambda>(k, b, r). (k, b)) (rs_finished s) @ map (\<lambda>(k, b, ev). (k, b)) (rs_running s)"

definition tasks_ok :: "'a BottomUpCheckpointManager \<Rightarrow> ('a, 'p) relayer_state \<Rightarrow> bool" where
  "tasks_ok mg s =
     (rs_permits s + length (rs_running s) = max_parallelism mg \<and> distinct (map fst (started s)) \<and>
      (\<forall>k \<in> fst ` set (started s). k < rs_next s) \<and> set (rs_tasks s) \<subseteq> set (started s) \<and> distinct (map fst (rs_tasks s)) \<and>
      (max_parallelism mg = 1 \<longrightarrow> map fst (started s) = [0..<rs_next s]))"

lemma due_Nil [simp]: "due io l [] [] = []"
  by (simp add: due_def)

lemma due_height: "due io l (h # hs) [] = due io l hs (io_events io h)"
  by (simp add: due_def)

lemma due_event:
  "due io l hs (ev # evs) = (if l < qr_height ev then io_bundle_at io (qr_height ev) # due io l hs evs else due io l hs evs)"
  by (simp add: due_def)

lemmas relayer_defs = start_round_def on_events_def on_bundle_def spawn_task_def end_round_def answer_def

lemma start_roundE:
  assumes "answer l x" "answer c y"
  obtains e where "start_round mg l c s = end_round (Err e) s"
  | f where "start_round mg l c s = end_round (Ok ()) (s\<lparr>rs_range := (x, f), rs_tasks := []\<rparr>)" "f \<le> x"
  | f where "start_round mg l c s = s\<lparr>rs_range := (x, f), rs_tasks := [], rs_phase := Looping [x + 1..f] []\<rparr>" "x < f"
  using assms unfolding answer_def
  by (cases "max 1 (y - finalization_blocks mg) \<le> x") (auto simp: start_round_def Let_def)

lemma round_ok_init: "round_ok io (relayer_init mg p)"
  by (simp add: round_ok_def relayer_init_def)

lemma joined_run_task: "joined s \<Longrightarrow> joined (run_task io submitter t s)"
  by (auto simp: joined_def run_task_def Let_def split: prod.splits)

lemma round_ok_step: "relayer_step mg io submitter s s' \<Longrightarrow> round_ok io s \<Longrightarrow> round_ok io s'"
proof (induction rule: relayer_step.induct)
  case (start s l c cur)
  from start(2,3) show ?case
    by (rule start_roundE [where mg = mg and s = s]) (use start in \<open>auto simp: end_round_def round_ok_def joined_def\<close>)
next
  case (task t s)
  have "rs_tasks (run_task io submitter t s) = rs_tasks s \<and> rs_phase (run_task io submitter t s) = rs_phase s \<and>
      rs_range (run_task io submitter t s) = rs_range s \<and> rs_result (run_task io submitter t s) = rs_result s"
    by (simp add: run_task_def Let_def split: prod.splits)
  then show ?case using task joined_run_task [of s io submitter t] by (auto simp: round_ok_def)
qed (auto simp: relayer_defs round_ok_def joined_def due_height due_event split: option.splits)

lemma tasks_ok_phase [simp]:
  "tasks_ok mg (s\<lparr>rs_phase := ph\<rparr>) = tasks_ok mg s" "tasks_ok mg (end_round res s) = tasks_ok mg s"
  by (simp_all add: tasks_ok_def started_def end_round_def)

lemma tasks_ok_init: "tasks_ok mg (relayer_init mg p)"
  by (simp add: tasks_ok_def relayer_init_def started_def)

lemma run_task_Ok:
  assumes "tasks_ok mg s" "rs_running s = xs @ (k, b, ev) # ys"
  shows "\<exists>p r. run_task io submitter (k, b, ev) s =
    s\<lparr>rs_parent := p, rs_running := xs @ ys, rs_finished := rs_finished s @ [(k, b, r)], rs_permits := rs_permits s + 1\<rparr>"
proof -
  have "distinct (map fst (map (\<lambda>(k, b, ev). (k, b)) (xs @ (k, b, ev) # ys)))"
    using assms unfolding tasks_ok_def started_def map_append distinct_append by simp
  then have "k \<notin> fst ` set xs" "k \<notin> fst ` set ys" by (force simp: image_iff)+
  then have "filter (\<lambda>t. fst t \<noteq> k) xs = xs" "filter (\<lambda>t. fst t \<noteq> k) ys = ys" by (auto simp: filter_id_conv image_iff)
  then show ?thesis using assms(2) by (auto simp: run_task_def Let_def split: prod.splits)
qed

lemma tasks_ok_run:
  assumes ok: "tasks_ok mg s" and t: "t \<in> set (rs_running s)"
  shows "tasks_ok mg (run_task io submitter t s)"
proof -
  obtain k b ev where t': "t = (k, b, ev)" by (cases t)
  obtain xs ys where split: "rs_running s = xs @ (k, b, ev) # ys" using t t' by (metis split_list)
  obtain p r where run: "run_task io submitter t s =
      s\<lparr>rs_parent := p, rs_running := xs @ ys, rs_finished := rs_finished s @ [(k, b, r)], rs_permits := rs_permits s + 1\<rparr>"
    using run_task_Ok [OF ok split] t' by blast
  have one: "max_parallelism mg = 1 \<Longrightarrow> xs = [] \<and> ys = []" using ok split by (auto simp: tasks_ok_def)
  have perm: "mset (started (run_task io submitter t s)) = mset (started s)" by (simp add: started_def run split)
  then have "distinct (map fst (started (run_task io submitter t s))) = distinct (map fst (started s))"
    "set (started (run_task io submitter t s)) = set (started s)"
    by (metis mset_map mset_eq_imp_distinct_iff) (metis perm mset_eq_setD)
  moreover have "max_parallelism mg = 1 \<Longrightarrow> started (run_task io submitter t s) = started s"
    using one by (simp add: started_def run split)
  ultimately show ?thesis using ok unfolding tasks_ok_def by (simp add: run split)
qed

lemma tasks_ok_step: "relayer_step mg io submitter s s' \<Longrightarrow> tasks_ok mg s \<Longrightarrow> tasks_ok mg s'"
proof (induction rule: relayer_step.induct)
  case (task t s)
  then show ?case by (simp add: tasks_ok_run)
next
  case (start s l c cur)
  from start(2,3) show ?case
    by (rule start_roundE [where mg = mg and s = s]) (use start in \<open>auto simp: end_round_def tasks_ok_def started_def\<close>)
next
  case (spawn s hs evs b ev)
  have "started (spawn_task b ev hs evs s) = started s @ [(rs_next s, b)]" by (simp add: started_def spawn_task_def)
  moreover have "rs_next s \<notin> fst ` set (started s)" "rs_next s \<notin> fst ` set (rs_tasks s)"
    using spawn(3) unfolding tasks_ok_def by blast+
  ultimately show ?case using spawn unfolding tasks_ok_def by (auto simp: spawn_task_def less_Suc_eq)
qed (auto simp: on_events_def on_bundle_def answer_def split: option.splits)

interpretation relayer: start_invariant "relayer_step mg io submitter" "\<lambda>s. round_ok io s \<and> tasks_ok mg s"
  "\<lambda>s. \<exists>p. s = relayer_init mg p"
  by unfold_locales (auto intro: round_ok_init tasks_ok_init round_ok_step tasks_ok_step)

lemmas relayer_invariant = relayer.reachable_good [OF exI, OF refl]

text \<open>The running tasks can always finish, and then all permits are free.\<close>

lemma drain_tasks:
  assumes "tasks_ok mg s"
  shows "\<exists>s'. (relayer_step mg io submitter)\<^sup>*\<^sup>* s s' \<and> rs_running s' = [] \<and> rs_permits s' = max_parallelism mg \<and> tasks_ok mg s' \<and>
    rs_phase s' = rs_phase s \<and> rs_range s' = rs_range s \<and> rs_tasks s' = rs_tasks s"
  using assms
proof (induction "rs_running s" arbitrary: s)
  case Nil
  then show ?case by (intro exI [of _ s]) (auto simp: tasks_ok_def)
next
  case (Cons t ts)
  let ?s = "run_task io submitter t s"
  obtain k b ev where t: "t = (k, b, ev)" by (cases t)
  have s: "rs_running ?s = ts" "rs_phase ?s = rs_phase s" "rs_range ?s = rs_range s" "rs_tasks ?s = rs_tasks s"
    using run_task_Ok [OF Cons.prems, of "[]" k b ev ts io submitter] Cons.hyps(2) t by auto
  have "tasks_ok mg ?s" by (rule tasks_ok_run [OF Cons.prems]) (simp flip: Cons.hyps(2))
  from Cons.hyps(1) [OF s(1) [symmetric] this] obtain s' where
    "(relayer_step mg io submitter)\<^sup>*\<^sup>* ?s s'" "rs_running s' = []" "rs_permits s' = max_parallelism mg" "tasks_ok mg s'"
    "rs_phase s' = rs_phase s" "rs_range s' = rs_range s" "rs_tasks s' = rs_tasks s" unfolding s by blast
  moreover have "relayer_step mg io submitter s ?s" by (rule relayer_step.task) (simp flip: Cons.hyps(2))
  ultimately show ?case by (meson converse_rtranclp_into_rtranclp)
qed

lemma acquire_completes:
  assumes "rs_phase s = Acquiring hs evs b ev" "tasks_ok mg s" "0 < max_parallelism mg"
  shows "\<exists>s'. (relayer_step mg io submitter)\<^sup>*\<^sup>* s s' \<and> rs_phase s' = Looping hs evs \<and> rs_range s' = rs_range s \<and> tasks_ok mg s'"
proof -
  obtain s1 where s1: "(relayer_step mg io submitter)\<^sup>*\<^sup>* s s1" "rs_permits s1 = max_parallelism mg" "tasks_ok mg s1"
    "rs_phase s1 = rs_phase s" "rs_range s1 = rs_range s" using drain_tasks [OF assms(2)] by blast
  have "relayer_step mg io submitter s1 (spawn_task b ev hs evs s1)"
    by (rule relayer_step.spawn) (use s1 assms in simp_all)
  moreover from tasks_ok_step [OF this s1(3)] have "tasks_ok mg (spawn_task b ev hs evs s1)" .
  moreover have "rs_phase (spawn_task b ev hs evs s1) = Looping hs evs" "rs_range (spawn_task b ev hs evs s1) = rs_range s"
    using s1(5) by (simp_all add: spawn_task_def)
  ultimately show ?thesis using s1(1) by (meson rtranclp.rtrancl_into_rtrancl)
qed

definition round_done :: "int \<times> int \<Rightarrow> ('a, 'p) relayer_state \<Rightarrow> bool" where
  "round_done rg s = (rs_phase s = Sleeping \<and> rs_result s = Some (Ok ()) \<and> rs_range s = rg)"

lemma join_completes:
  assumes "rs_phase s = Joining" "tasks_ok mg s"
  shows "\<exists>s'. (relayer_step mg io submitter)\<^sup>*\<^sup>* s s' \<and> round_done (rs_range s) s'"
proof -
  obtain s1 where s1: "(relayer_step mg io submitter)\<^sup>*\<^sup>* s s1" "rs_running s1 = []" "rs_phase s1 = Joining" "rs_range s1 = rs_range s"
    using drain_tasks [OF assms(2)] assms(1) by auto
  have "relayer_step mg io submitter s1 (end_round (Ok ()) s1)" by (rule relayer_step.join) (use s1 in \<open>simp_all add: joined_def\<close>)
  with s1 show ?thesis by (intro exI [of _ "end_round (Ok ()) s1"]) (auto simp: end_round_def round_done_def)
qed

lemma events_complete:
  assumes par: "0 < max_parallelism mg"
  shows "rs_phase s = Looping hs evs \<Longrightarrow> tasks_ok mg s \<Longrightarrow> \<forall>e \<in> set evs. fst (rs_range s) < qr_height e \<longrightarrow> io_bundle_at io (qr_height e) \<noteq> None \<Longrightarrow>
    \<exists>s'. (relayer_step mg io submitter)\<^sup>*\<^sup>* s s' \<and> rs_phase s' = Looping hs [] \<and> rs_range s' = rs_range s \<and> tasks_ok mg s'"
proof (induction evs arbitrary: s)
  case (Cons e evs)
  have "\<exists>s'. (relayer_step mg io submitter)\<^sup>*\<^sup>* s s' \<and> rs_phase s' = Looping hs evs \<and> rs_range s' = rs_range s \<and> tasks_ok mg s'"
  proof (cases "qr_height e \<le> fst (rs_range s)")
    case True
    then have "relayer_step mg io submitter s (s\<lparr>rs_phase := Looping hs evs\<rparr>)" by (rule relayer_step.skip [OF Cons.prems(1)])
    then show ?thesis using Cons.prems(2) by (intro exI [of _ "s\<lparr>rs_phase := Looping hs evs\<rparr>"]) auto
  next
    case False
    obtain b where b: "io_bundle_at io (qr_height e) = Some b" using Cons.prems(3) False by auto
    let ?s = "s\<lparr>rs_phase := Acquiring hs evs b e\<rparr>"
    have "relayer_step mg io submitter s (on_bundle (Ok (Some b)) e hs evs s)"
      by (rule relayer_step.fetch [OF Cons.prems(1)]) (use False b in \<open>simp_all add: answer_def\<close>)
    then have "relayer_step mg io submitter s ?s" by (simp add: on_bundle_def)
    moreover obtain s' where "(relayer_step mg io submitter)\<^sup>*\<^sup>* ?s s'" "rs_phase s' = Looping hs evs" "rs_range s' = rs_range s" "tasks_ok mg s'"
      using acquire_completes [of ?s hs evs b e mg io submitter] Cons.prems(2) par by auto
    ultimately show ?thesis by (meson converse_rtranclp_into_rtranclp)
  qed
  then obtain s1 where s1: "(relayer_step mg io submitter)\<^sup>*\<^sup>* s s1" "rs_phase s1 = Looping hs evs" "rs_range s1 = rs_range s" "tasks_ok mg s1"
    by blast
  with Cons.IH [of s1] Cons.prems(3) obtain s' where "(relayer_step mg io submitter)\<^sup>*\<^sup>* s1 s'" "rs_phase s' = Looping hs []"
    "rs_range s' = rs_range s" "tasks_ok mg s'" by auto
  then show ?case using s1(1) by (meson rtranclp_trans)
qed auto

lemma loop_completes:
  assumes ev: "\<forall>h. \<forall>e \<in> set (io_events io h). io_bundle_at io (qr_height e) \<noteq> None" and par: "0 < max_parallelism mg"
  shows "rs_phase s = Looping hs evs \<Longrightarrow> tasks_ok mg s \<Longrightarrow> \<forall>e \<in> set evs. fst (rs_range s) < qr_height e \<longrightarrow> io_bundle_at io (qr_height e) \<noteq> None \<Longrightarrow>
    \<exists>s'. (relayer_step mg io submitter)\<^sup>*\<^sup>* s s' \<and> round_done (rs_range s) s'"
proof (induction hs arbitrary: evs s)
  case Nil
  from events_complete [OF par Nil] obtain s1 where s1: "(relayer_step mg io submitter)\<^sup>*\<^sup>* s s1" "rs_phase s1 = Looping [] []"
    "rs_range s1 = rs_range s" "tasks_ok mg s1" by blast
  have "relayer_step mg io submitter s1 (s1\<lparr>rs_phase := Joining\<rparr>)" by (rule relayer_step.wait [OF s1(2)])
  moreover obtain s' where "(relayer_step mg io submitter)\<^sup>*\<^sup>* (s1\<lparr>rs_phase := Joining\<rparr>) s'" "round_done (rs_range s) s'"
    using join_completes [of "s1\<lparr>rs_phase := Joining\<rparr>" mg io submitter] s1(3,4) by auto
  ultimately show ?case using s1(1) by (meson converse_rtranclp_into_rtranclp rtranclp_trans)
next
  case (Cons h hs)
  from events_complete [OF par Cons.prems] obtain s1 where s1: "(relayer_step mg io submitter)\<^sup>*\<^sup>* s s1" "rs_phase s1 = Looping (h # hs) []"
    "rs_range s1 = rs_range s" "tasks_ok mg s1" by blast
  let ?s = "s1\<lparr>rs_phase := Looping hs (io_events io h)\<rparr>"
  have "relayer_step mg io submitter s1 (on_events (Ok (io_events io h)) hs s1)"
    by (rule relayer_step.events [OF s1(2)]) (simp add: answer_def)
  then have "relayer_step mg io submitter s1 ?s" by (simp add: on_events_def)
  moreover obtain s' where "(relayer_step mg io submitter)\<^sup>*\<^sup>* ?s s'" "round_done (rs_range s) s'"
    using Cons.IH [of ?s "io_events io h"] s1(3,4) ev by auto
  ultimately show ?case using s1(1) by (meson converse_rtranclp_into_rtranclp rtranclp_trans)
qed

text \<open>A child with a checkpoint at height 1, whose quorum is reached at height 2, and a parent that rejects every
  submission, used to evaluate the model.\<close>

definition sample_bundle :: "nat BottomUpCheckpointBundle" where
  "sample_bundle =
     \<lparr>bb_checkpoint = \<lparr>cp_subnet_id = \<lparr>root = 1, children = [5]\<rparr>, cp_block_height = 1, cp_block_hash = [], cp_next_configuration_number = 0,
        cp_msgs = []\<rparr>, bb_signatures = [], bb_signatories = []\<rparr>"

definition sample_relayer_io :: "(nat, int) relayer_io" where
  "sample_relayer_io =
     \<lparr>io_last_height = (\<lambda>sid p. p), io_submit = (\<lambda>a b p. (p, Err ''rejected'')),
      io_events = (\<lambda>h. if h = 2 then [\<lparr>qr_obj_kind = 0, qr_height = 1, qr_obj_hash = [], qr_quorum_weight = 7\<rparr>] else []),
      io_bundle_at = (\<lambda>h. if h = 1 then Some sample_bundle else None)\<rparr>"

definition sample_manager :: "nat BottomUpCheckpointManager" where
  "sample_manager = \<lparr>mg_metadata = \<lparr>cc_parent = \<lparr>root = 1, children = []\<rparr>, cc_child = \<lparr>root = 1, children = [5]\<rparr>, cc_period = 1\<rparr>,
     finalization_blocks = 1, max_parallelism = 1\<rparr>"

lemma sample_permits: "0 < max_parallelism sample_manager"
  by (simp add: sample_manager_def)

lemma sample_start:
  "\<exists>s. (relayer_step sample_manager sample_relayer_io 7)\<^sup>*\<^sup>* (relayer_init sample_manager 0) s \<and> rs_phase s = Looping [1..2] [] \<and>
     rs_range s = (0, 2)"
proof -
  let ?s = "relayer_init sample_manager (0 :: int)"
  have "relayer_step sample_manager sample_relayer_io 7 ?s (start_round sample_manager (Ok 0) (Ok 3) ?s)"
    by (rule relayer_step.start [of _ _ _ _ _ 3]) (simp_all add: relayer_init_def answer_def sample_relayer_io_def)
  then show ?thesis
    by (intro exI [of _ "start_round sample_manager (Ok 0) (Ok 3) ?s"]) (auto simp: start_round_def sample_manager_def Let_def)
qed

lemma sample_rejects:
  assumes "(relayer_step sample_manager sample_relayer_io 7)\<^sup>*\<^sup>* (relayer_init sample_manager 0) s"
  shows "\<forall>(k, b, r) \<in> set (rs_finished s). \<exists>e. r = Err e"
  using assms
proof (induction rule: rtranclp_induct)
  case (step s s')
  from step(2,3) show ?case
    by (cases rule: relayer_step.cases)
      (auto simp: relayer_defs run_task_def submit_checkpoint_def sample_relayer_io_def Let_def split: option.splits if_splits prod.splits)
qed (simp add: relayer_init_def)

section \<open>Properties\<close>

text \<open>C15: a round of the relayer that ends without an error has handed over exactly what was due. Its tasks are, in this
  order, the checkpoints of the quorum events between the last committed height and the finalized height that are
  above the last committed height, one task for each, and every task has run to its end. Tasks never run twice, never
  more of them at a time than there are permits, and with a single permit they finish in order.\<close>

theorem relayer_round_exact:
  assumes "(relayer_step mg io submitter)\<^sup>*\<^sup>* (relayer_init mg p) s" "rs_phase s = Sleeping" "rs_result s = Some (Ok ())"
    "rs_range s = (l, finalized)"
  shows "map (\<lambda>(k, b). Some b) (rs_tasks s) =
       map (\<lambda>ev. io_bundle_at io (qr_height ev)) (filter (\<lambda>ev. l < qr_height ev) (concat (map (io_events io) [l + 1..finalized]))) \<and>
     (\<forall>(k, b) \<in> set (rs_tasks s). \<exists>r. (k, b, r) \<in> set (rs_finished s)) \<and>
     distinct (map fst (rs_finished s)) \<and> rs_permits s + length (rs_running s) = max_parallelism mg \<and>
     (max_parallelism mg = 1 \<longrightarrow> sorted (map fst (rs_finished s)))"
proof -
  have inv: "round_ok io s" "tasks_ok mg s" using relayer_invariant [OF assms(1)] by simp_all
  have due: "map (\<lambda>(k, b). Some b) (rs_tasks s) = due io l [l + 1..finalized] []" and joined: "joined s"
    using inv(1) assms(2-4) by (simp_all add: round_ok_def split_def)
  have "\<exists>r. (k, b, r) \<in> set (rs_finished s)" if "(k, b) \<in> set (rs_tasks s)" for k b
  proof -
    have "(k, b) \<in> set (started s)" using that inv(2) unfolding tasks_ok_def by blast
    moreover have "(k, b, ev) \<notin> set (rs_running s)" for ev
      using that joined unfolding joined_def by (metis fst_conv image_eqI)
    ultimately show ?thesis by (auto simp: started_def)
  qed
  moreover have "distinct (map fst (rs_finished s))"
    using inv(2) by (simp add: tasks_ok_def started_def comp_def split_def)
  moreover have "max_parallelism mg = 1 \<Longrightarrow> sorted (map fst (rs_finished s))"
  proof -
    assume "max_parallelism mg = 1"
    then have "sorted (map fst (started s))" using inv(2) by (simp add: tasks_ok_def)
    then show ?thesis by (simp add: started_def sorted_append comp_def split_def)
  qed
  ultimately show ?thesis using due inv(2) by (auto simp: due_def tasks_ok_def)
qed



theorem relayer_round_exact_witness:
  "\<exists>s k e. (relayer_step sample_manager sample_relayer_io 7)\<^sup>*\<^sup>* (relayer_init sample_manager 0) s \<and>
     rs_phase s = Sleeping \<and> rs_result s = Some (Ok ()) \<and> rs_tasks s = [(k, sample_bundle)] \<and> (k, sample_bundle, Err e) \<in> set (rs_finished s)"
proof -
  let ?steps = "(relayer_step sample_manager sample_relayer_io 7)\<^sup>*\<^sup>*"
  obtain s1 where s1: "?steps (relayer_init sample_manager 0) s1" "rs_phase s1 = Looping [1..2] []" "rs_range s1 = (0, 2)"
    using sample_start by blast
  have "\<forall>h. \<forall>ev \<in> set (io_events sample_relayer_io h). io_bundle_at sample_relayer_io (qr_height ev) \<noteq> None"
    by (auto simp: sample_relayer_io_def split: if_splits)
  then obtain s where s: "?steps s1 s" "round_done (0, 2) s"
    using loop_completes [of sample_relayer_io sample_manager s1 "[1..2]" "[]" 7] s1(2,3) relayer_invariant [OF s1(1)] sample_permits
    by auto
  have r: "?steps (relayer_init sample_manager 0) s" using s1(1) s(1) by simp
  have heights: "[0 + 1..2 :: int] = [1, 2]" by (simp add: upto_rec1)
  have ex: "map (\<lambda>(k, b). Some b) (rs_tasks s) = [Some sample_bundle] \<and>
      (\<forall>(k, b) \<in> set (rs_tasks s). \<exists>r. (k, b, r) \<in> set (rs_finished s))"
    using relayer_round_exact [OF r, of 0 2] s(2) unfolding heights round_done_def by (simp add: sample_relayer_io_def)
  then obtain k where k: "rs_tasks s = [(k, sample_bundle)]" by (auto simp: map_eq_Cons_conv)
  with ex obtain res where "(k, sample_bundle, res) \<in> set (rs_finished s)" by auto
  with sample_rejects [OF r] obtain e where "(k, sample_bundle, Err e) \<in> set (rs_finished s)" by fastforce
  then show ?thesis using r s(2) k by (auto simp: round_done_def)
qed

end
