(* ===== verification/Membership.thy ===== *)
theory Membership
  imports Subnet_Ids
begin

text \<open>
  Membership of the peers of the resolver in subnets (\<open>ipld/resolver\<close>): the records that peers sign
  (\<open>signed_record.rs\<close>, \<open>provider_record.rs\<close>, \<open>vote_record.rs\<close>), the cache of the providers of each subnet
  (\<open>provider_cache.rs\<close>), and the behaviour that gossips memberships, votes and pre-emptive data
  (\<open>behaviour/membership.rs\<close>).

  Gossipsub, signed envelopes, encodings and the clock are parameters: the record \<open>gossip_lib\<close> and the argument \<open>now\<close>,
  in seconds. Hash maps are association lists, hash sets are lists without repetitions.
\<close>

section \<open>Signed records\<close>

definition DOMAIN_SEP :: string where
  "DOMAIN_SEP = ''/ipc/ipld/resolver''"

text \<open>What a record type has: its payload type and the check of the key it is signed with; and the envelope: signing,
  reading its payload with the key, and the encodings.\<close>

record ('r, 'k, 'e) record_lib =
  rl_payload_type :: string
  rl_check_signing_key :: "'r \<Rightarrow> 'k \<Rightarrow> bool"
  rl_seal :: "'k \<Rightarrow> string \<Rightarrow> string \<Rightarrow> nat list \<Rightarrow> (string, 'e) outcome"
  rl_open :: "'e \<Rightarrow> string \<Rightarrow> string \<Rightarrow> (string, nat list \<times> 'k) outcome"
  rl_to_vec :: "'r \<Rightarrow> (string, nat list) outcome"
  rl_from_slice :: "nat list \<Rightarrow> (string, 'r) outcome"
  rl_to_protobuf :: "'e \<Rightarrow> nat list"
  rl_from_protobuf :: "nat list \<Rightarrow> (string, 'e) outcome"

record ('r, 'e) SignedRecord =
  sr_record :: 'r
  sr_envelope :: 'e

definition signed_record_new :: "('r, 'k, 'e) record_lib \<Rightarrow> 'k \<Rightarrow> 'r \<Rightarrow> (string, ('r, 'e) SignedRecord) outcome" where
  "signed_record_new rl key r =
     obind (rl_to_vec rl r) (\<lambda>payload.
     obind (rl_seal rl key DOMAIN_SEP (rl_payload_type rl) payload) (\<lambda>envelope.
     Ok \<lparr>sr_record = r, sr_envelope = envelope\<rparr>))"

definition from_signed_envelope :: "('r, 'k, 'e) record_lib \<Rightarrow> 'e \<Rightarrow> (string, ('r, 'e) SignedRecord) outcome" where
  "from_signed_envelope rl envelope =
     obind (rl_open rl envelope DOMAIN_SEP (rl_payload_type rl)) (\<lambda>(payload, signing_key).
     obind (rl_from_slice rl payload) (\<lambda>r.
     if \<not> rl_check_signing_key rl r signing_key then Err ''The public key of the envelope does not match''
     else Ok \<lparr>sr_record = r, sr_envelope = envelope\<rparr>))"

definition signed_record_from_bytes :: "('r, 'k, 'e) record_lib \<Rightarrow> nat list \<Rightarrow> (string, ('r, 'e) SignedRecord) outcome" where
  "signed_record_from_bytes rl bytes = obind (rl_from_protobuf rl bytes) (from_signed_envelope rl)"

record ('p, 'n) ProviderRecord =
  pr_peer_id :: 'p
  pr_subnet_ids :: "'n list"
  pr_timestamp :: nat

record ('k, 'n, 'v) VoteRecord =
  vr_public_key :: 'k
  vr_subnet_id :: 'n
  vr_content :: 'v
  vr_timestamp :: nat

section \<open>The cache of providers\<close>

record 'n ProviderDelta =
  is_new :: bool
  delta_added :: "'n list"
  delta_removed :: "'n list"

definition delta_is_empty :: "'n ProviderDelta \<Rightarrow> bool" where
  "delta_is_empty d = (delta_added d = [] \<and> delta_removed d = [])"

record ('p, 'n) SubnetProviderCache =
  max_subnets :: nat
  pinned_subnets :: "'n list"
  routable_peers :: "'p list"
  subnet_providers :: "('n, 'p list) hmap"
  peer_timestamps :: "('p, nat) hmap"

definition provider_cache_new :: "nat \<Rightarrow> 'n list \<Rightarrow> ('p, 'n) SubnetProviderCache" where
  "provider_cache_new limit static_subnets =
     \<lparr>max_subnets = limit, pinned_subnets = fold hs_insert static_subnets [], routable_peers = [], subnet_providers = [],
      peer_timestamps = []\<rparr>"

definition cache_pin_subnet :: "'n \<Rightarrow> ('p, 'n) SubnetProviderCache \<Rightarrow> ('p, 'n) SubnetProviderCache" where
  "cache_pin_subnet s c = c\<lparr>pinned_subnets := hs_insert s (pinned_subnets c)\<rparr>"

definition cache_unpin_subnet :: "'n \<Rightarrow> ('p, 'n) SubnetProviderCache \<Rightarrow> ('p, 'n) SubnetProviderCache" where
  "cache_unpin_subnet s c = c\<lparr>pinned_subnets := removeAll s (pinned_subnets c)\<rparr>"

definition cache_set_routable :: "'p \<Rightarrow> ('p, 'n) SubnetProviderCache \<Rightarrow> ('p, 'n) SubnetProviderCache" where
  "cache_set_routable p c = c\<lparr>routable_peers := hs_insert p (routable_peers c)\<rparr>"

definition cache_set_unroutable :: "'p \<Rightarrow> ('p, 'n) SubnetProviderCache \<Rightarrow> ('p, 'n) SubnetProviderCache" where
  "cache_set_unroutable p c =
     c\<lparr>routable_peers := removeAll p (routable_peers c),
       peer_timestamps := AList.delete p (peer_timestamps c),
       subnet_providers := map (\<lambda>(s, ps). (s, removeAll p ps)) (subnet_providers c)\<rparr>"

fun prune_loop :: "nat \<Rightarrow> 'n list \<Rightarrow> ('n \<times> nat) list \<Rightarrow> ('n, 'p list) hmap \<Rightarrow> 'n list \<Rightarrow> ('n, 'p list) hmap \<times> 'n list" where
  "prune_loop to_prune pinned [] providers removed = (providers, removed)"
| "prune_loop to_prune pinned ((s, _) # counts) providers removed =
     (if s \<in> set pinned then prune_loop to_prune pinned counts providers removed
      else let providers = AList.delete s providers; removed = hs_insert s removed in
           if length removed = to_prune then (providers, removed)
           else prune_loop to_prune pinned counts providers removed)"

definition prune_subnets :: "('p, 'n) SubnetProviderCache \<Rightarrow> ('p, 'n) SubnetProviderCache \<times> 'n list" where
  "prune_subnets c =
     (let to_prune = length (subnet_providers c) - max_subnets c in
      if 0 < to_prune then
        let counts = sort_key snd (map (\<lambda>(s, ps). (s, length ps)) (subnet_providers c));
            (providers, removed) = prune_loop to_prune (pinned_subnets c) counts (subnet_providers c) [] in
        (c\<lparr>subnet_providers := providers\<rparr>, removed)
      else (c, []))"

fun add_subnets :: "'p \<Rightarrow> 'n list \<Rightarrow> ('n, 'p list) hmap \<Rightarrow> 'n list \<Rightarrow> ('n, 'p list) hmap \<times> 'n list" where
  "add_subnets p [] providers added = (providers, added)"
| "add_subnets p (s # ss) providers added =
     (let peer_ids = (case hm_get providers s of Some ps \<Rightarrow> ps | None \<Rightarrow> []) in
      add_subnets p ss (AList.update s (hs_insert p peer_ids) providers) (if p \<in> set peer_ids then added else added @ [s]))"

definition add_provider ::
  "('p, 'n) ProviderRecord \<Rightarrow> ('p, 'n) SubnetProviderCache \<Rightarrow> ('p, 'n) SubnetProviderCache \<times> 'n ProviderDelta option" where
  "add_provider r c =
     (let p = pr_peer_id r; ids = pr_subnet_ids r in
      if p \<notin> set (routable_peers c) then (c, None)
      else
        let fresh = (hm_get (peer_timestamps c) p = None);
            timestamp = (case hm_get (peer_timestamps c) p of Some t \<Rightarrow> t | None \<Rightarrow> 0);
            c = c\<lparr>peer_timestamps := AList.update p timestamp (peer_timestamps c)\<rparr> in
        if timestamp < pr_timestamp r then
          let removed = map fst (filter (\<lambda>(s, ps). s \<notin> set ids \<and> p \<in> set ps) (subnet_providers c));
              providers = map (\<lambda>(s, ps). (s, if s \<in> set ids then ps else removeAll p ps)) (subnet_providers c);
              (providers, added) = add_subnets p ids providers [];
              (c, pruned) = prune_subnets
                (c\<lparr>peer_timestamps := AList.update p (pr_timestamp r) (peer_timestamps c), subnet_providers := providers\<rparr>) in
          (c, Some \<lparr>is_new = fresh, delta_added = filter (\<lambda>s. s \<notin> set pruned) added, delta_removed = removed\<rparr>)
        else (c, Some \<lparr>is_new = fresh, delta_added = [], delta_removed = []\<rparr>))"

definition prune_providers :: "nat \<Rightarrow> ('p, 'n) SubnetProviderCache \<Rightarrow> ('p, 'n) SubnetProviderCache \<times> 'p list" where
  "prune_providers cutoff c =
     (let to_prune = map fst (filter (\<lambda>(p, t). t < cutoff) (peer_timestamps c)) in
      (fold cache_set_unroutable to_prune c, to_prune))"

definition providers_of_subnet :: "'n \<Rightarrow> ('p, 'n) SubnetProviderCache \<Rightarrow> 'p list" where
  "providers_of_subnet s c = (case hm_get (subnet_providers c) s of Some ps \<Rightarrow> ps | None \<Rightarrow> [])"

section \<open>Lemmas on the cache\<close>

lemma hm_get_map_entries: "hm_get (map (\<lambda>(s, ps). (s, f s ps)) m) s = map_option (f s) (hm_get m s)"
  by (induction m) auto

lemma fst_map_entries: "map (fst \<circ> (\<lambda>(s, ps). (s, f s ps))) m = map fst m"
  by (induction m) auto

abbreviation providers :: "('n, 'p list) hmap \<Rightarrow> 'n \<Rightarrow> 'p set" where
  "providers m s \<equiv> (case hm_get m s of Some ps \<Rightarrow> set ps | None \<Rightarrow> {})"

lemma providers_of_subnet_set: "set (providers_of_subnet s c) = providers (subnet_providers c) s"
  by (simp add: providers_of_subnet_def split: option.split)

lemma providers_update:
  "providers (AList.update i (hs_insert p (case hm_get m i of Some ps \<Rightarrow> ps | None \<Rightarrow> [])) m) s =
     (if s = i then insert p (providers m i) else providers m s)"
  by (simp add: update_conv' split: option.split)

lemma add_subnets_providers:
  assumes "add_subnets p ids m added = (m', added')"
  shows "providers m' s = (if s \<in> set ids then insert p (providers m s) else providers m s)"
  using assms
proof (induction ids arbitrary: m added)
  case (Cons i ids)
  obtain added1 where "add_subnets p ids (AList.update i (hs_insert p (case hm_get m i of Some ps \<Rightarrow> ps | None \<Rightarrow> [])) m) added1 = (m', added')"
    using Cons.prems by (auto simp: Let_def)
  from Cons.IH [OF this] show ?case unfolding providers_update by auto
qed simp

lemma add_subnets_distinct: "add_subnets p ids m added = (m', added') \<Longrightarrow> hm_wf m \<Longrightarrow> hm_wf m'"
  by (induction ids arbitrary: m added) (auto simp: Let_def distinct_update)

text \<open>Pruning removes subnets that are not pinned, from the front of the list, until there are enough.\<close>

lemma prune_loop_spec:
  assumes "prune_loop k pinned counts m removed = (m', removed')" "hm_wf m" "distinct removed"
    and "\<forall>s \<in> set removed. hm_get m s = None" "length removed < k"
  shows "hm_get m' = (hm_get m) |` (- set removed') \<and> hm_wf m' \<and> distinct removed' \<and> length removed' \<le> k \<and> set removed \<subseteq> set removed' \<and>
     set removed' \<inter> set pinned \<subseteq> set removed \<and> set removed' \<subseteq> set removed \<union> fst ` set counts \<and>
     (length removed' = k \<or> fst ` set counts \<subseteq> set pinned \<union> set removed')"
  using assms
proof (induction counts arbitrary: m removed)
  case Nil
  then show ?case by (auto simp: restrict_map_def fun_eq_iff)
next
  case (Cons e counts)
  obtain s n where e: "e = (s, n)" by fastforce
  show ?case
  proof (cases "s \<in> set pinned")
    case True
    then show ?thesis using Cons.IH [of m removed] Cons.prems e by auto
  next
    case False
    let ?m = "AList.delete s m" and ?r = "hs_insert s removed"
    have del: "hm_get ?m = (hm_get m)(s := None)" by (rule delete_conv')
    have r: "distinct ?r" "\<forall>s \<in> set ?r. hm_get ?m s = None" "hm_wf ?m" "length ?r \<le> k"
      using Cons.prems by (auto simp: del distinct_delete hs_insert_def)
    show ?thesis
    proof (cases "length ?r = k")
      case True
      then have res: "m' = ?m" "removed' = ?r" using Cons.prems(1) e False by (auto simp: Let_def)
      have "hm_get m' = (hm_get m) |` (- set removed')"
        unfolding res del using Cons.prems(4) by (auto simp: restrict_map_def fun_eq_iff)
      then show ?thesis using r True False e by (auto simp: res)
    next
      case more: False
      then have run: "prune_loop k pinned counts ?m ?r = (m', removed')" using Cons.prems(1) e False by (auto simp: Let_def)
      have lt: "length ?r < k" using r(4) more by simp
      note IH = Cons.IH [OF run r(3,1,2) lt]
      then have "s \<in> set removed'" by auto
      moreover have "hm_get ?m |` (- set removed') = hm_get m |` (- set removed')"
        unfolding del using calculation by (auto simp: restrict_map_def fun_eq_iff)
      ultimately show ?thesis using IH False e by auto
    qed
  qed
qed

lemma prune_subnets_spec:
  assumes run: "prune_subnets c = (c', removed)" and wf: "hm_wf (subnet_providers c)"
  shows "c' = c\<lparr>subnet_providers := subnet_providers c'\<rparr>"
    and "hm_get (subnet_providers c') = hm_get (subnet_providers c) |` (- set removed)" and "hm_wf (subnet_providers c')"
    and "set removed \<inter> set (pinned_subnets c) = {}"
    and "length (subnet_providers c') \<le> max_subnets c \<or> fst ` set (subnet_providers c') \<subseteq> set (pinned_subnets c)"
proof -
  let ?m = "subnet_providers c" and ?k = "length (subnet_providers c) - max_subnets c"
  let ?counts = "sort_key snd (map (\<lambda>(s, ps). (s, length ps)) ?m)"
  have all: "c' = c\<lparr>subnet_providers := subnet_providers c'\<rparr> \<and> hm_get (subnet_providers c') = hm_get ?m |` (- set removed) \<and>
      hm_wf (subnet_providers c') \<and> set removed \<inter> set (pinned_subnets c) = {} \<and>
      (length (subnet_providers c') \<le> max_subnets c \<or> fst ` set (subnet_providers c') \<subseteq> set (pinned_subnets c))"
  proof (cases "0 < ?k")
    case False
    then have "c' = c" "removed = []" using run by (auto simp: prune_subnets_def Let_def)
    then show ?thesis using False wf by auto
  next
    case True
    obtain m' where m': "prune_loop ?k (pinned_subnets c) ?counts ?m [] = (m', removed)" "c' = c\<lparr>subnet_providers := m'\<rparr>"
      using run True by (auto simp: prune_subnets_def Let_def split: prod.splits)
    note spec = prune_loop_spec [OF m'(1) wf, simplified, OF True [simplified]]
    have keys: "fst ` set ?counts = dom (hm_get ?m)" by (force simp: dom_map_of_conv_image_fst)
    have dom': "fst ` set m' = dom (hm_get ?m) - set removed" using spec by (auto simp flip: dom_map_of_conv_image_fst)
    have "length m' \<le> max_subnets c \<or> fst ` set m' \<subseteq> set (pinned_subnets c)"
    proof (cases "length removed = ?k")
      case len: True
      have "length m' = card (fst ` set m')" using spec by (metis distinct_card length_map list.set_map)
      also have "\<dots> = card (dom (hm_get ?m)) - card (set removed)"
        unfolding dom' using spec keys by (intro card_Diff_subset) auto
      also have "\<dots> = length ?m - ?k" using spec len wf by (metis card_dom_map_of distinct_card)
      finally have "length m' \<le> max_subnets c" using True by linarith
      then show ?thesis by simp
    next
      case False
      then show ?thesis using spec keys dom' by auto
    qed
    then show ?thesis using spec m'(2) by auto
  qed
  then show "c' = c\<lparr>subnet_providers := subnet_providers c'\<rparr>"
    "hm_get (subnet_providers c') = hm_get (subnet_providers c) |` (- set removed)" "hm_wf (subnet_providers c')"
    "set removed \<inter> set (pinned_subnets c) = {}"
    "length (subnet_providers c') \<le> max_subnets c \<or> fst ` set (subnet_providers c') \<subseteq> set (pinned_subnets c)"
    by blast+
qed

text \<open>The operations on the cache, and what peers are known to provide: the routable peers, and for a peer the latest
  record, with its time and its subnets.\<close>

datatype ('p, 'n) cache_op = PinSubnet 'n | UnpinSubnet 'n | SetRoutable 'p | SetUnroutable 'p
  | AddRecord "('p, 'n) ProviderRecord" | PruneBefore nat

fun cache_step :: "('p, 'n) cache_op \<Rightarrow> ('p, 'n) SubnetProviderCache \<Rightarrow> ('p, 'n) SubnetProviderCache" where
  "cache_step (PinSubnet s) c = cache_pin_subnet s c"
| "cache_step (UnpinSubnet s) c = cache_unpin_subnet s c"
| "cache_step (SetRoutable p) c = cache_set_routable p c"
| "cache_step (SetUnroutable p) c = cache_set_unroutable p c"
| "cache_step (AddRecord r) c = fst (add_provider r c)"
| "cache_step (PruneBefore cutoff) c = fst (prune_providers cutoff c)"

record ('p, 'n) known =
  kn_routable :: "'p set"
  kn_latest :: "'p \<rightharpoonup> nat \<times> 'n list"

fun known_step :: "('p, 'n) cache_op \<Rightarrow> ('p, 'n) known \<Rightarrow> ('p, 'n) known" where
  "known_step (PinSubnet s) k = k"
| "known_step (UnpinSubnet s) k = k"
| "known_step (SetRoutable p) k = k\<lparr>kn_routable := insert p (kn_routable k)\<rparr>"
| "known_step (SetUnroutable p) k = k\<lparr>kn_routable := kn_routable k - {p}, kn_latest := (kn_latest k)(p := None)\<rparr>"
| "known_step (AddRecord r) k =
     (let p = pr_peer_id r; (t, ids) = (case kn_latest k p of Some e \<Rightarrow> e | None \<Rightarrow> (0, [])) in
      if p \<notin> kn_routable k then k
      else k\<lparr>kn_latest := (kn_latest k)(p \<mapsto> if t < pr_timestamp r then (pr_timestamp r, pr_subnet_ids r) else (t, ids))\<rparr>)"
| "known_step (PruneBefore cutoff) k =
     (let old = {p. \<exists>t ids. kn_latest k p = Some (t, ids) \<and> t < cutoff} in
      k\<lparr>kn_routable := kn_routable k - old, kn_latest := kn_latest k |` (- old)\<rparr>)"

text \<open>\<open>S\<close>: subnets that are always pinned. \<open>P\<close>: all that were ever pinned.\<close>

definition cache_rel :: "'n set \<Rightarrow> 'n set \<Rightarrow> ('p, 'n) SubnetProviderCache \<Rightarrow> ('p, 'n) known \<Rightarrow> bool" where
  "cache_rel S P c k =
     (hm_wf (subnet_providers c) \<and> hm_wf (peer_timestamps c) \<and> set (routable_peers c) = kn_routable k \<and>
      S \<subseteq> set (pinned_subnets c) \<and> set (pinned_subnets c) \<subseteq> P \<and> finite P \<and>
      length (subnet_providers c) \<le> max (max_subnets c) (card P) \<and>
      dom (kn_latest k) \<subseteq> kn_routable k \<and>
      (\<forall>p. hm_get (peer_timestamps c) p = map_option fst (kn_latest k p)) \<and>
      (\<forall>s. providers (subnet_providers c) s \<subseteq> {p. \<exists>t ids. kn_latest k p = Some (t, ids) \<and> s \<in> set ids}) \<and>
      (\<forall>s \<in> S. {p. \<exists>t ids. kn_latest k p = Some (t, ids) \<and> s \<in> set ids} \<subseteq> providers (subnet_providers c) s))"

definition provides :: "('p, 'n) known \<Rightarrow> 'n \<Rightarrow> 'p set" where
  "provides k s = {p. \<exists>t ids. kn_latest k p = Some (t, ids) \<and> s \<in> set ids}"

lemma cache_relI:
  assumes "hm_wf (subnet_providers c)" "hm_wf (peer_timestamps c)" "set (routable_peers c) = kn_routable k"
    "S \<subseteq> set (pinned_subnets c)" "set (pinned_subnets c) \<subseteq> P" "finite P"
    "length (subnet_providers c) \<le> max (max_subnets c) (card P)" "dom (kn_latest k) \<subseteq> kn_routable k"
    "\<And>p. hm_get (peer_timestamps c) p = map_option fst (kn_latest k p)"
    "\<And>s. providers (subnet_providers c) s \<subseteq> provides k s" "\<And>s. s \<in> S \<Longrightarrow> provides k s \<subseteq> providers (subnet_providers c) s"
  shows "cache_rel S P c k"
  using assms unfolding cache_rel_def provides_def by blast

lemma cache_relD:
  assumes "cache_rel S P c k"
  shows "hm_wf (subnet_providers c)" "hm_wf (peer_timestamps c)" "set (routable_peers c) = kn_routable k"
    "S \<subseteq> set (pinned_subnets c)" "set (pinned_subnets c) \<subseteq> P" "finite P"
    "length (subnet_providers c) \<le> max (max_subnets c) (card P)" "dom (kn_latest k) \<subseteq> kn_routable k"
    "hm_get (peer_timestamps c) p = map_option fst (kn_latest k p)"
    "providers (subnet_providers c) s \<subseteq> provides k s" "s \<in> S \<Longrightarrow> provides k s \<subseteq> providers (subnet_providers c) s"
  using assms unfolding cache_rel_def provides_def by blast+

lemma cache_rel_unroutable:
  assumes rel: "cache_rel S P c k"
  shows "cache_rel S P (cache_set_unroutable p c) (known_step (SetUnroutable p) k)"
proof (rule cache_relI)
  let ?c = "cache_set_unroutable p c" and ?k = "known_step (SetUnroutable p) k"
  have prov: "providers (subnet_providers ?c) s = providers (subnet_providers c) s - {p}" for s
    by (simp add: cache_set_unroutable_def hm_get_map_entries split: option.split)
  have known: "provides ?k s = provides k s - {p}" for s by (auto simp: provides_def)
  show "hm_wf (subnet_providers ?c)" "hm_wf (peer_timestamps ?c)" using cache_relD(1,2) [OF rel]
    by (simp_all add: cache_set_unroutable_def fst_map_entries distinct_delete)
  show "length (subnet_providers ?c) \<le> max (max_subnets ?c) (card P)" using cache_relD(7) [OF rel] by (simp add: cache_set_unroutable_def)
  show "hm_get (peer_timestamps ?c) q = map_option fst (kn_latest ?k q)" for q
    using cache_relD(9) [OF rel] by (simp add: cache_set_unroutable_def delete_conv')
  show "providers (subnet_providers ?c) s \<subseteq> provides ?k s" for s unfolding prov known using cache_relD(10) [OF rel] by blast
  show "s \<in> S \<Longrightarrow> provides ?k s \<subseteq> providers (subnet_providers ?c) s" for s unfolding prov known using cache_relD(11) [OF rel] by blast
qed (use cache_relD [OF rel] in \<open>auto simp: cache_set_unroutable_def\<close>)

lemma known_unroutable_fold:
  "fold (\<lambda>p. known_step (SetUnroutable p)) ps k =
     k\<lparr>kn_routable := kn_routable k - set ps, kn_latest := kn_latest k |` (- set ps)\<rparr>"
proof (induction ps arbitrary: k)
  case (Cons p ps)
  have "fold (\<lambda>p. known_step (SetUnroutable p)) (p # ps) k = (known_step (SetUnroutable p) k)
      \<lparr>kn_routable := kn_routable (known_step (SetUnroutable p) k) - set ps,
       kn_latest := kn_latest (known_step (SetUnroutable p) k) |` (- set ps)\<rparr>"
    using Cons.IH by (simp only: fold_simps)
  also have "\<dots> = k\<lparr>kn_routable := kn_routable k - set (p # ps), kn_latest := kn_latest k |` (- set (p # ps))\<rparr>"
    by (rule known.equality) (auto simp: restrict_map_def fun_eq_iff)
  finally show ?case .
qed (simp add: restrict_map_def)

lemma cache_rel_prune:
  assumes rel: "cache_rel S P c k"
  shows "cache_rel S P (fst (prune_providers cutoff c)) (known_step (PruneBefore cutoff) k)"
proof -
  let ?old = "map fst (filter (\<lambda>(p, t). t < cutoff) (peer_timestamps c))"
  have "p \<in> set ?old \<longleftrightarrow> (\<exists>t. hm_get (peer_timestamps c) p = Some t \<and> t < cutoff)" for p
    using cache_relD(2) [OF rel] by (force dest: map_of_SomeD)
  then have "set ?old = {p. \<exists>t ids. kn_latest k p = Some (t, ids) \<and> t < cutoff}"
    unfolding cache_relD(9) [OF rel] by auto
  then have "known_step (PruneBefore cutoff) k = fold (\<lambda>p. known_step (SetUnroutable p)) ?old k"
    by (simp only: known_unroutable_fold known_step.simps Let_def)
  moreover have "cache_rel S P (fold cache_set_unroutable ps c) (fold (\<lambda>p. known_step (SetUnroutable p)) ps k)" for ps
    using rel by (induction ps arbitrary: c k) (simp_all only: fold_simps cache_rel_unroutable)
  ultimately show ?thesis by (simp add: prune_providers_def Let_def)
qed

lemma add_provider_accepted:
  assumes rel: "cache_rel S P c k" and p: "pr_peer_id r \<in> kn_routable k"
    and t: "case kn_latest k (pr_peer_id r) of Some (t, ids) \<Rightarrow> t < pr_timestamp r | None \<Rightarrow> 0 < pr_timestamp r"
  shows "cache_rel S P (fst (add_provider r c)) (k\<lparr>kn_latest := (kn_latest k)(pr_peer_id r \<mapsto> (pr_timestamp r, pr_subnet_ids r))\<rparr>)"
proof (rule cache_relI)
  let ?p = "pr_peer_id r" and ?ids = "pr_subnet_ids r"
  let ?k = "k\<lparr>kn_latest := (kn_latest k)(?p \<mapsto> (pr_timestamp r, ?ids))\<rparr>" and ?c = "fst (add_provider r c)"
  let ?left = "map (\<lambda>(s, ps). (s, if s \<in> set ?ids then ps else removeAll ?p ps)) (subnet_providers c)"
  define t0 where "t0 = (case hm_get (peer_timestamps c) ?p of Some t \<Rightarrow> t | None \<Rightarrow> 0)"
  let ?ts = "AList.update ?p (pr_timestamp r) (AList.update ?p t0 (peer_timestamps c))"
  obtain m added where m: "add_subnets ?p ?ids ?left [] = (m, added)" by fastforce
  obtain c' pruned where c': "prune_subnets (c\<lparr>peer_timestamps := ?ts, subnet_providers := m\<rparr>) = (c', pruned)" by fastforce
  have "t0 < pr_timestamp r" using t cache_relD(9) [OF rel, of ?p] by (auto simp: t0_def split: option.splits)
  then have c: "?c = c'"
    using p cache_relD(3) [OF rel] m c' by (simp add: add_provider_def Let_def flip: t0_def)
  have wf: "hm_wf m" using add_subnets_distinct [OF m] cache_relD(1) [OF rel] by (simp add: fst_map_entries)
  note prune = prune_subnets_spec [OF c', simplified, OF wf]
  have rest: "peer_timestamps c' = ?ts" "pinned_subnets c' = pinned_subnets c" "routable_peers c' = routable_peers c"
      "max_subnets c' = max_subnets c"
    by (subst prune(1), simp)+
  have left: "providers ?left s = (if s \<in> set ?ids then providers (subnet_providers c) s else providers (subnet_providers c) s - {?p})" for s
    by (simp add: hm_get_map_entries split: option.split)
  have prov: "providers m s = (if s \<in> set ?ids then insert ?p (providers (subnet_providers c) s) else providers (subnet_providers c) s - {?p})" for s
    using add_subnets_providers [OF m, of s] unfolding left by simp
  have known: "provides ?k s = (if s \<in> set ?ids then insert ?p (provides k s) else provides k s - {?p})" for s
    by (auto simp: provides_def)
  have kept: "providers (subnet_providers c') s = (if s \<in> set pruned then {} else providers m s)" for s
    using prune(2) by (simp add: restrict_map_def)
  show "hm_wf (subnet_providers ?c)" "hm_wf (peer_timestamps ?c)" unfolding c rest
    using prune(3) cache_relD(2) [OF rel] by (simp_all add: distinct_update)
  show "hm_get (peer_timestamps ?c) q = map_option fst (kn_latest ?k q)" for q
    unfolding c rest using cache_relD(9) [OF rel] by (simp add: update_conv')
  show "providers (subnet_providers ?c) s \<subseteq> provides ?k s" for s
    unfolding c kept known prov using cache_relD(10) [OF rel, of s] by auto
  show "provides ?k s \<subseteq> providers (subnet_providers ?c) s" if "s \<in> S" for s
  proof -
    have "s \<notin> set pruned" using prune(4) cache_relD(4) [OF rel] that by auto
    then show ?thesis unfolding c kept known prov using cache_relD(11) [OF rel that] by auto
  qed
  show "length (subnet_providers ?c) \<le> max (max_subnets ?c) (card P)"
  proof (cases "length (subnet_providers c') \<le> max_subnets c")
    case False
    then have "fst ` set (subnet_providers c') \<subseteq> P" using prune(5) cache_relD(5) [OF rel] by auto
    then have "card (fst ` set (subnet_providers c')) \<le> card P" by (rule card_mono [OF cache_relD(6) [OF rel]])
    then show ?thesis unfolding c using prune(3) by (metis distinct_card length_map list.set_map max.coboundedI2)
  qed (simp add: c rest)
  show "set (routable_peers ?c) = kn_routable ?k" "S \<subseteq> set (pinned_subnets ?c)" "set (pinned_subnets ?c) \<subseteq> P" "finite P"
      "dom (kn_latest ?k) \<subseteq> kn_routable ?k"
    unfolding c rest using cache_relD(3-6,8) [OF rel] p by auto
qed

lemma cache_rel_add:
  assumes rel: "cache_rel S P c k"
  shows "cache_rel S P (fst (add_provider r c)) (known_step (AddRecord r) k)"
proof -
  let ?p = "pr_peer_id r"
  have ts: "hm_get (peer_timestamps c) ?p = map_option fst (kn_latest k ?p)" by (rule cache_relD(9) [OF rel])
  consider "?p \<notin> kn_routable k"
    | "?p \<in> kn_routable k" "case kn_latest k ?p of Some (t, ids) \<Rightarrow> t < pr_timestamp r | None \<Rightarrow> 0 < pr_timestamp r"
    | "?p \<in> kn_routable k" "\<not> (case kn_latest k ?p of Some (t, ids) \<Rightarrow> t < pr_timestamp r | None \<Rightarrow> 0 < pr_timestamp r)"
    by blast
  then show ?thesis
  proof cases
    case 1
    then show ?thesis using rel cache_relD(3) [OF rel] by (simp add: add_provider_def Let_def split: prod.splits)
  next
    case 2
    then have "known_step (AddRecord r) k = k\<lparr>kn_latest := (kn_latest k)(?p \<mapsto> (pr_timestamp r, pr_subnet_ids r))\<rparr>"
      by (auto simp: Let_def split: option.splits)
    then show ?thesis using add_provider_accepted [OF rel 2] by simp
  next
    case 3
    define t where "t = (case hm_get (peer_timestamps c) ?p of Some t \<Rightarrow> t | None \<Rightarrow> 0)"
    let ?e = "case kn_latest k ?p of Some e \<Rightarrow> e | None \<Rightarrow> (0, [])"
    have old: "\<not> t < pr_timestamp r" "fst ?e = t" using 3(2) ts by (auto simp: t_def split: option.splits)
    have c: "fst (add_provider r c) = c\<lparr>peer_timestamps := AList.update ?p t (peer_timestamps c)\<rparr>"
      using 3 old(1) cache_relD(3) [OF rel] by (simp add: add_provider_def Let_def flip: t_def)
    have k: "known_step (AddRecord r) k = k\<lparr>kn_latest := (kn_latest k)(?p \<mapsto> ?e)\<rparr>"
      using 3 old by (auto simp: Let_def split: prod.splits)
    have "provides (k\<lparr>kn_latest := (kn_latest k)(?p \<mapsto> ?e)\<rparr>) s = provides k s" for s
      by (auto simp: provides_def split: option.splits)
    then show ?thesis unfolding c k using cache_relD [OF rel] 3(1) old(2)
      by (intro cache_relI) (auto simp: distinct_update update_conv')
  qed
qed

lemma cache_rel_step:
  assumes rel: "cache_rel S P c k" and op: "\<forall>s. op = PinSubnet s \<longrightarrow> s \<in> P" "\<forall>s \<in> S. op \<noteq> UnpinSubnet s"
  shows "cache_rel S P (cache_step op c) (known_step op k)"
proof (cases op)
  case (PinSubnet s)
  then show ?thesis using rel op(1) by (auto simp: cache_rel_def cache_pin_subnet_def)
next
  case (UnpinSubnet s)
  then show ?thesis using rel op(2) by (auto simp: cache_rel_def cache_unpin_subnet_def)
next
  case (SetRoutable p)
  then show ?thesis using rel by (auto simp: cache_rel_def cache_set_routable_def)
qed (simp_all add: rel cache_rel_unroutable cache_rel_add cache_rel_prune del: known_step.simps)

lemma prune_subnets_frame:
  "prune_subnets c = (c', removed) \<Longrightarrow> max_subnets c' = max_subnets c \<and> pinned_subnets c' = pinned_subnets c"
  by (auto simp: prune_subnets_def Let_def split: prod.splits if_splits)

lemma cache_step_limit: "max_subnets (cache_step op c) = max_subnets c"
proof (cases op)
  case (AddRecord r)
  then show ?thesis by (auto simp: add_provider_def Let_def split: prod.split dest: prune_subnets_frame)
next
  case (PruneBefore cutoff)
  have "max_subnets (fold cache_set_unroutable ps c) = max_subnets c" for ps
    by (induction ps arbitrary: c) (simp_all add: cache_set_unroutable_def)
  then show ?thesis by (simp add: PruneBefore prune_providers_def Let_def)
qed (simp_all add: cache_pin_subnet_def cache_unpin_subnet_def cache_set_routable_def cache_set_unroutable_def)

lemma fold_hs_insert_set: "set (fold hs_insert xs ys) = set xs \<union> set ys"
  by (induction xs arbitrary: ys) auto

text \<open>C18: the providers of subnets. Whatever peers become routable or not, whatever records arrive, in whatever order, and
  whatever is pruned: the cache never has more subnets than the limit, or than were ever pinned; a peer it lists for a
  subnet is routable, and the latest record of that peer has the subnet; and for a subnet that was pinned from the start
  and never unpinned it lists all such peers, however many other subnets were announced.\<close>

theorem provider_cache_exact:
  assumes c: "c = fold cache_step ops (provider_cache_new limit static)"
    and k: "k = fold known_step ops \<lparr>kn_routable = {}, kn_latest = Map.empty\<rparr>"
    and pins: "finite P" "set static \<subseteq> P" "\<forall>s. PinSubnet s \<in> set ops \<longrightarrow> s \<in> P"
  shows "length (subnet_providers c) \<le> max limit (card P) \<and>
     (\<forall>p \<in> set (providers_of_subnet s c). p \<in> kn_routable k \<and> (\<exists>t ids. kn_latest k p = Some (t, ids) \<and> s \<in> set ids)) \<and>
     (s \<in> set static \<and> UnpinSubnet s \<notin> set ops \<longrightarrow>
       set (providers_of_subnet s c) = {p. \<exists>t ids. kn_latest k p = Some (t, ids) \<and> s \<in> set ids})"
proof -
  define S where "S = {x. x \<in> set static \<and> UnpinSubnet x \<notin> set ops}"
  have init: "cache_rel S P (provider_cache_new limit static) \<lparr>kn_routable = {}, kn_latest = Map.empty\<rparr>"
    using pins by (auto simp: cache_rel_def provider_cache_new_def fold_hs_insert_set S_def)
  have "\<forall>op \<in> set ops. (\<forall>s. op = PinSubnet s \<longrightarrow> s \<in> P) \<and> (\<forall>s \<in> S. op \<noteq> UnpinSubnet s)" using pins(3) by (auto simp: S_def)
  then have "cache_rel S P (fold cache_step ops c0) (fold known_step ops k0)" if "cache_rel S P c0 k0" for c0 k0
    using that by (induction ops arbitrary: c0 k0) (simp_all add: cache_rel_step)
  from this [OF init] have rel: "cache_rel S P c k" unfolding c k .
  have "max_subnets (fold cache_step ops c0) = max_subnets c0" for c0
    by (induction ops arbitrary: c0) (simp_all add: cache_step_limit)
  then have "max_subnets c = limit" by (simp add: c provider_cache_new_def)
  then have "length (subnet_providers c) \<le> max limit (card P)" using cache_relD(7) [OF rel] by simp
  moreover have listed: "set (providers_of_subnet s c) \<subseteq> provides k s"
    unfolding providers_of_subnet_set by (rule cache_relD(10) [OF rel])
  then have "\<forall>p \<in> set (providers_of_subnet s c). p \<in> kn_routable k \<and> (\<exists>t ids. kn_latest k p = Some (t, ids) \<and> s \<in> set ids)"
    using cache_relD(8) [OF rel] unfolding provides_def by blast
  moreover have "provides k s \<subseteq> set (providers_of_subnet s c)" if "s \<in> set static \<and> UnpinSubnet s \<notin> set ops"
    unfolding providers_of_subnet_set using cache_relD(11) [OF rel] that by (simp add: S_def)
  ultimately show ?thesis using listed unfolding provides_def by blast
qed

section \<open>The membership behaviour\<close>

definition PUBSUB_MEMBERSHIP :: string where "PUBSUB_MEMBERSHIP = ''/ipc/membership''"

definition PUBSUB_VOTES :: string where "PUBSUB_VOTES = ''/ipc/ipld/votes''"

definition PUBSUB_PREEMPTIVE :: string where "PUBSUB_PREEMPTIVE = ''/ipc/ipld/pre-emptive''"

datatype ('p, 'n, 'r) MembershipEvent = Updated 'p "'n ProviderDelta" | Removed 'p | Skipped 'p | ReceivedVote 'r
  | ReceivedPreemptive 'n "nat list"

record 'n MembershipConfig =
  mc_static_subnets :: "'n list"
  mc_max_subnets :: nat
  mc_publish_interval :: nat
  mc_min_time_between_publish :: nat
  mc_max_provider_age :: nat

text \<open>What gossipsub generates when it is polled: a subscription of a peer, a message on a topic, or another event.\<close>

datatype 'p GossipEvent = Subscribed 'p "nat list" | GossipMessage "nat list" "nat list" | OtherGossip

record ('p, 'a, 'k, 'v, 'e, 'g) gossip_lib =
  gp_subscribe :: "string \<Rightarrow> 'g \<Rightarrow> 'g \<times> (string, bool) outcome"
  gp_unsubscribe :: "string \<Rightarrow> 'g \<Rightarrow> 'g \<times> (string, bool) outcome"
  gp_publish :: "string \<Rightarrow> nat list \<Rightarrow> 'g \<Rightarrow> 'g \<times> (string, nat list) outcome"
  gp_drain :: "'g \<Rightarrow> 'g \<times> 'p GossipEvent list \<times> nat option"
  gp_hash :: "string \<Rightarrow> nat list"
  gp_ident_hash :: "string \<Rightarrow> nat list"
  gp_show_addr :: "'a \<Rightarrow> string"
  gp_peer_id :: "'k \<Rightarrow> 'p"
  gp_providers :: "(('p, 'a SubnetID) ProviderRecord, 'k, 'e) record_lib"
  gp_votes :: "(('k, 'a SubnetID, 'v) VoteRecord, 'k, 'e) record_lib"

definition provider_lib :: "('p, 'a, 'k, 'v, 'e, 'g) gossip_lib \<Rightarrow> (('p, 'a SubnetID) ProviderRecord, 'k, 'e) record_lib" where
  "provider_lib gp = (gp_providers gp)\<lparr>rl_payload_type := ''/ipc/provider-record'',
     rl_check_signing_key := (\<lambda>r key. pr_peer_id r = gp_peer_id gp key)\<rparr>"

definition vote_lib :: "('p, 'a, 'k, 'v, 'e, 'g) gossip_lib \<Rightarrow> (('k, 'a SubnetID, 'v) VoteRecord, 'k, 'e) record_lib" where
  "vote_lib gp = (gp_votes gp)\<lparr>rl_payload_type := ''/ipc/vote-record'',
     rl_check_signing_key := (\<lambda>r key. vr_public_key r = key)\<rparr>"

text \<open>The interval is its period and the time of its next tick.\<close>

record ('p, 'a, 'k, 'v, 'g) MembershipBehaviour =
  ms_inner :: 'g
  ms_outbox :: "('p, 'a SubnetID, ('k, 'a SubnetID, 'v) VoteRecord) MembershipEvent list"
  ms_local_key :: 'k
  ms_network_name :: string
  ms_membership_topic :: string
  ms_subnet_ids :: "'a SubnetID list"
  ms_voting_topics :: "nat list list"
  ms_preemptive_topics :: "(nat list, 'a SubnetID) hmap"
  ms_provider_cache :: "('p, 'a SubnetID) SubnetProviderCache"
  ms_period :: nat
  ms_next_tick :: nat
  ms_min_time_between_publish :: nat
  ms_last_publish_timestamp :: nat
  ms_next_publish_timestamp :: nat
  ms_max_provider_age :: nat

definition timestamp_add :: "nat \<Rightarrow> nat \<Rightarrow> nat" where
  "timestamp_add t d = min (t + d) (U64 - 1)"

definition subnet_topic :: "string \<Rightarrow> string \<Rightarrow> string \<Rightarrow> string" where
  "subnet_topic pre network subnet =
     (let repl = map (\<lambda>c. if c = CHR ''/'' then CHR ''_'' else c) in pre @ ''/'' @ repl network @ ''/'' @ repl subnet)"

definition preemptive_topic ::
  "('p, 'a, 'k, 'v, 'e, 'g) gossip_lib \<Rightarrow> string \<Rightarrow> 'a SubnetID \<Rightarrow> string" where
  "preemptive_topic gp network s = subnet_topic PUBSUB_PREEMPTIVE network (subnet_to_string (gp_show_addr gp) s)"

definition voting_topic ::
  "('p, 'a, 'k, 'v, 'e, 'g) gossip_lib \<Rightarrow> string \<Rightarrow> 'a SubnetID \<Rightarrow> string" where
  "voting_topic gp network s = subnet_topic PUBSUB_VOTES network (subnet_to_string (gp_show_addr gp) s)"

definition ms_subscribe ::
  "('p, 'a, 'k, 'v, 'e, 'g) gossip_lib \<Rightarrow> string \<Rightarrow> ('p, 'a, 'k, 'v, 'g) MembershipBehaviour \<Rightarrow>
     ('p, 'a, 'k, 'v, 'g) MembershipBehaviour \<times> (string, bool) outcome" where
  "ms_subscribe gp topic ms = map_prod (\<lambda>g. ms\<lparr>ms_inner := g\<rparr>) id (gp_subscribe gp topic (ms_inner ms))"

definition ms_unsubscribe ::
  "('p, 'a, 'k, 'v, 'e, 'g) gossip_lib \<Rightarrow> string \<Rightarrow> ('p, 'a, 'k, 'v, 'g) MembershipBehaviour \<Rightarrow>
     ('p, 'a, 'k, 'v, 'g) MembershipBehaviour \<times> (string, bool) outcome" where
  "ms_unsubscribe gp topic ms = map_prod (\<lambda>g. ms\<lparr>ms_inner := g\<rparr>) id (gp_unsubscribe gp topic (ms_inner ms))"

definition preemptive_subscribe ::
  "('p, 'a, 'k, 'v, 'e, 'g) gossip_lib \<Rightarrow> 'a SubnetID \<Rightarrow> ('p, 'a, 'k, 'v, 'g) MembershipBehaviour \<Rightarrow>
     ('p, 'a, 'k, 'v, 'g) MembershipBehaviour \<times> (string, unit) outcome" where
  "preemptive_subscribe gp s ms =
     (let topic = preemptive_topic gp (ms_network_name ms) s in
      case ms_subscribe gp topic ms of
        (ms, r) \<Rightarrow> finish ms r (\<lambda>_.
          (ms\<lparr>ms_preemptive_topics := AList.update (gp_hash gp topic) s (ms_preemptive_topics ms)\<rparr>, Ok ())))"

definition preemptive_unsubscribe ::
  "('p, 'a, 'k, 'v, 'e, 'g) gossip_lib \<Rightarrow> 'a SubnetID \<Rightarrow> ('p, 'a, 'k, 'v, 'g) MembershipBehaviour \<Rightarrow>
     ('p, 'a, 'k, 'v, 'g) MembershipBehaviour \<times> (string, unit) outcome" where
  "preemptive_unsubscribe gp s ms =
     (let topic = preemptive_topic gp (ms_network_name ms) s in
      case ms_unsubscribe gp topic ms of
        (ms, r) \<Rightarrow> finish ms r (\<lambda>_.
          (ms\<lparr>ms_preemptive_topics := AList.delete (gp_hash gp topic) (ms_preemptive_topics ms)\<rparr>, Ok ())))"

definition voting_subscribe ::
  "('p, 'a, 'k, 'v, 'e, 'g) gossip_lib \<Rightarrow> 'a SubnetID \<Rightarrow> ('p, 'a, 'k, 'v, 'g) MembershipBehaviour \<Rightarrow>
     ('p, 'a, 'k, 'v, 'g) MembershipBehaviour \<times> (string, unit) outcome" where
  "voting_subscribe gp s ms =
     (let topic = voting_topic gp (ms_network_name ms) s in
      case ms_subscribe gp topic ms of
        (ms, r) \<Rightarrow> finish ms r (\<lambda>_.
          (ms\<lparr>ms_voting_topics := hs_insert (gp_hash gp topic) (ms_voting_topics ms)\<rparr>, Ok ())))"

definition voting_unsubscribe ::
  "('p, 'a, 'k, 'v, 'e, 'g) gossip_lib \<Rightarrow> 'a SubnetID \<Rightarrow> ('p, 'a, 'k, 'v, 'g) MembershipBehaviour \<Rightarrow>
     ('p, 'a, 'k, 'v, 'g) MembershipBehaviour \<times> (string, unit) outcome" where
  "voting_unsubscribe gp s ms =
     (let topic = voting_topic gp (ms_network_name ms) s in
      case ms_unsubscribe gp topic ms of
        (ms, r) \<Rightarrow> finish ms r (\<lambda>_.
          (ms\<lparr>ms_voting_topics := removeAll (gp_hash gp topic) (ms_voting_topics ms)\<rparr>, Ok ())))"

definition publish_membership ::
  "('p, 'a, 'k, 'v, 'e, 'g) gossip_lib \<Rightarrow> nat \<Rightarrow> ('p, 'a, 'k, 'v, 'g) MembershipBehaviour \<Rightarrow>
     ('p, 'a, 'k, 'v, 'g) MembershipBehaviour \<times> (string, unit) outcome" where
  "publish_membership gp now ms =
     finish ms (signed_record_new (provider_lib gp) (ms_local_key ms)
       \<lparr>pr_peer_id = gp_peer_id gp (ms_local_key ms), pr_subnet_ids = ms_subnet_ids ms, pr_timestamp = now\<rparr>) (\<lambda>signed.
     case gp_publish gp (ms_membership_topic ms) (rl_to_protobuf (provider_lib gp) (sr_envelope signed)) (ms_inner ms) of
       (g, r) \<Rightarrow>
         let ms = ms\<lparr>ms_inner := g\<rparr> in
         finish ms r (\<lambda>_.
           (ms\<lparr>ms_last_publish_timestamp := now, ms_next_publish_timestamp := timestamp_add now (ms_period ms),
              ms_next_tick := now + ms_period ms\<rparr>, Ok ())))"

text \<open>A loop over subnets that ends with the first error.\<close>

fun each_subnet :: "('n \<Rightarrow> 'm \<Rightarrow> 'm \<times> (string, unit) outcome) \<Rightarrow> 'n list \<Rightarrow> 'm \<Rightarrow> 'm \<times> (string, unit) outcome" where
  "each_subnet f [] ms = (ms, Ok ())"
| "each_subnet f (s # ss) ms = (case f s ms of (ms, r) \<Rightarrow> finish ms r (\<lambda>_. each_subnet f ss ms))"

definition set_provided_subnets ::
  "('p, 'a, 'k, 'v, 'e, 'g) gossip_lib \<Rightarrow> nat \<Rightarrow> 'a SubnetID list \<Rightarrow> ('p, 'a, 'k, 'v, 'g) MembershipBehaviour \<Rightarrow>
     ('p, 'a, 'k, 'v, 'g) MembershipBehaviour \<times> (string, unit) outcome" where
  "set_provided_subnets gp now ids ms =
     (let old = ms_subnet_ids ms; ms = ms\<lparr>ms_subnet_ids := []\<rparr> in
      case each_subnet (voting_unsubscribe gp) (filter (\<lambda>s. s \<notin> set ids) old) ms of
        (ms, r) \<Rightarrow> finish ms r (\<lambda>_.
          case each_subnet (voting_subscribe gp) (filter (\<lambda>s. s \<notin> set old) ids) ms of
            (ms, r) \<Rightarrow> finish ms r (\<lambda>_. publish_membership gp now (ms\<lparr>ms_subnet_ids := ids\<rparr>))))"

definition add_provided_subnet ::
  "('p, 'a, 'k, 'v, 'e, 'g) gossip_lib \<Rightarrow> nat \<Rightarrow> 'a SubnetID \<Rightarrow> ('p, 'a, 'k, 'v, 'g) MembershipBehaviour \<Rightarrow>
     ('p, 'a, 'k, 'v, 'g) MembershipBehaviour \<times> (string, unit) outcome" where
  "add_provided_subnet gp now s ms =
     (if s \<in> set (ms_subnet_ids ms) then (ms, Ok ())
      else case voting_subscribe gp s ms of
             (ms, r) \<Rightarrow> finish ms r (\<lambda>_. publish_membership gp now (ms\<lparr>ms_subnet_ids := ms_subnet_ids ms @ [s]\<rparr>)))"

definition remove_provided_subnet ::
  "('p, 'a, 'k, 'v, 'e, 'g) gossip_lib \<Rightarrow> nat \<Rightarrow> 'a SubnetID \<Rightarrow> ('p, 'a, 'k, 'v, 'g) MembershipBehaviour \<Rightarrow>
     ('p, 'a, 'k, 'v, 'g) MembershipBehaviour \<times> (string, unit) outcome" where
  "remove_provided_subnet gp now s ms =
     (if s \<notin> set (ms_subnet_ids ms) then (ms, Ok ())
      else case voting_unsubscribe gp s ms of
             (ms, r) \<Rightarrow> finish ms r (\<lambda>_. publish_membership gp now (ms\<lparr>ms_subnet_ids := removeAll s (ms_subnet_ids ms)\<rparr>)))"

definition pin_subnet ::
  "('p, 'a, 'k, 'v, 'e, 'g) gossip_lib \<Rightarrow> 'a SubnetID \<Rightarrow> ('p, 'a, 'k, 'v, 'g) MembershipBehaviour \<Rightarrow>
     ('p, 'a, 'k, 'v, 'g) MembershipBehaviour \<times> (string, unit) outcome" where
  "pin_subnet gp s ms =
     (case preemptive_subscribe gp s ms of
        (ms, r) \<Rightarrow> finish ms r (\<lambda>_. (ms\<lparr>ms_provider_cache := cache_pin_subnet s (ms_provider_cache ms)\<rparr>, Ok ())))"

definition unpin_subnet ::
  "('p, 'a, 'k, 'v, 'e, 'g) gossip_lib \<Rightarrow> 'a SubnetID \<Rightarrow> ('p, 'a, 'k, 'v, 'g) MembershipBehaviour \<Rightarrow>
     ('p, 'a, 'k, 'v, 'g) MembershipBehaviour \<times> (string, unit) outcome" where
  "unpin_subnet gp s ms =
     (case preemptive_unsubscribe gp s ms of
        (ms, r) \<Rightarrow> finish ms r (\<lambda>_. (ms\<lparr>ms_provider_cache := cache_unpin_subnet s (ms_provider_cache ms)\<rparr>, Ok ())))"

text \<open>The behaviour of gossipsub is built from the configuration, or this fails.\<close>

definition membership_init ::
  "'g \<Rightarrow> string \<Rightarrow> string \<Rightarrow> 'k \<Rightarrow> 'a SubnetID MembershipConfig \<Rightarrow> nat \<Rightarrow> ('p, 'a, 'k, 'v, 'g) MembershipBehaviour" where
  "membership_init g network_name membership_topic key mc now =
     \<lparr>ms_inner = g, ms_outbox = [], ms_local_key = key, ms_network_name = network_name,
      ms_membership_topic = membership_topic, ms_subnet_ids = [], ms_voting_topics = [],
      ms_preemptive_topics = [], ms_provider_cache = provider_cache_new (mc_max_subnets mc) [],
      ms_period = mc_publish_interval mc, ms_next_tick = now + mc_publish_interval mc,
      ms_min_time_between_publish = mc_min_time_between_publish mc, ms_last_publish_timestamp = 0,
      ms_next_publish_timestamp = timestamp_add now (mc_publish_interval mc),
      ms_max_provider_age = mc_max_provider_age mc\<rparr>"

definition membership_new ::
  "('p, 'a, 'k, 'v, 'e, 'g) gossip_lib \<Rightarrow> (string, 'g) outcome \<Rightarrow> string \<Rightarrow> 'k \<Rightarrow> 'a SubnetID MembershipConfig \<Rightarrow> nat \<Rightarrow>
     (string, ('p, 'a, 'k, 'v, 'g) MembershipBehaviour) outcome" where
  "membership_new gp gossipsub network_name key mc now =
     (if network_name = [] then Err ''invalid network''
      else let membership_topic = PUBSUB_MEMBERSHIP @ ''/'' @ network_name in
        obind gossipsub (\<lambda>g.
        case gp_subscribe gp membership_topic g of
          (g, r) \<Rightarrow>
            obind r (\<lambda>_.
            case each_subnet (pin_subnet gp) (mc_static_subnets mc) (membership_init g network_name membership_topic key mc now) of
              (ms, r) \<Rightarrow> omap (\<lambda>_. ms) r)))"

definition ms_publish ::
  "('p, 'a, 'k, 'v, 'e, 'g) gossip_lib \<Rightarrow> string \<Rightarrow> nat list \<Rightarrow> ('p, 'a, 'k, 'v, 'g) MembershipBehaviour \<Rightarrow>
     ('p, 'a, 'k, 'v, 'g) MembershipBehaviour \<times> (string, unit) outcome" where
  "ms_publish gp topic data ms =
     (case gp_publish gp topic data (ms_inner ms) of (g, r) \<Rightarrow> (ms\<lparr>ms_inner := g\<rparr>, omap (\<lambda>_. ()) r))"

definition publish_vote ::
  "('p, 'a, 'k, 'v, 'e, 'g) gossip_lib \<Rightarrow> (('k, 'a SubnetID, 'v) VoteRecord, 'e) SignedRecord \<Rightarrow>
     ('p, 'a, 'k, 'v, 'g) MembershipBehaviour \<Rightarrow> ('p, 'a, 'k, 'v, 'g) MembershipBehaviour \<times> (string, unit) outcome" where
  "publish_vote gp vote ms =
     ms_publish gp (voting_topic gp (ms_network_name ms) (vr_subnet_id (sr_record vote)))
       (rl_to_protobuf (vote_lib gp) (sr_envelope vote)) ms"

definition publish_preemptive ::
  "('p, 'a, 'k, 'v, 'e, 'g) gossip_lib \<Rightarrow> 'a SubnetID \<Rightarrow> nat list \<Rightarrow> ('p, 'a, 'k, 'v, 'g) MembershipBehaviour \<Rightarrow>
     ('p, 'a, 'k, 'v, 'g) MembershipBehaviour \<times> (string, unit) outcome" where
  "publish_preemptive gp s data ms = ms_publish gp (preemptive_topic gp (ms_network_name ms) s) data ms"

definition publish_for_new_peer :: "nat \<Rightarrow> ('p, 'a, 'k, 'v, 'g) MembershipBehaviour \<Rightarrow> ('p, 'a, 'k, 'v, 'g) MembershipBehaviour" where
  "publish_for_new_peer now ms =
     (if ms_subnet_ids ms = [] then ms
      else if ms_last_publish_timestamp ms > now - ms_min_time_between_publish ms then ms
      else if ms_next_publish_timestamp ms \<le> timestamp_add now (ms_min_time_between_publish ms) then ms
      else ms\<lparr>ms_next_publish_timestamp := timestamp_add now (ms_min_time_between_publish ms),
              ms_next_tick := now + ms_min_time_between_publish ms\<rparr>)"

definition ms_set_routable :: "nat \<Rightarrow> 'p \<Rightarrow> ('p, 'a, 'k, 'v, 'g) MembershipBehaviour \<Rightarrow> ('p, 'a, 'k, 'v, 'g) MembershipBehaviour" where
  "ms_set_routable now p ms =
     publish_for_new_peer now (ms\<lparr>ms_provider_cache := cache_set_routable p (ms_provider_cache ms)\<rparr>)"

definition ms_set_unroutable :: "'p \<Rightarrow> ('p, 'a, 'k, 'v, 'g) MembershipBehaviour \<Rightarrow> ('p, 'a, 'k, 'v, 'g) MembershipBehaviour" where
  "ms_set_unroutable p ms =
     ms\<lparr>ms_provider_cache := cache_set_unroutable p (ms_provider_cache ms), ms_outbox := ms_outbox ms @ [Removed p]\<rparr>"

definition handle_provider_record ::
  "nat \<Rightarrow> ('p, 'a SubnetID) ProviderRecord \<Rightarrow> ('p, 'a, 'k, 'v, 'g) MembershipBehaviour \<Rightarrow> ('p, 'a, 'k, 'v, 'g) MembershipBehaviour" where
  "handle_provider_record now r ms =
     (case add_provider r (ms_provider_cache ms) of
        (c, d) \<Rightarrow>
          let ms = ms\<lparr>ms_provider_cache := c\<rparr> in
          case d of
            None \<Rightarrow> ms\<lparr>ms_outbox := ms_outbox ms @ [Skipped (pr_peer_id r)]\<rparr>
          | Some d \<Rightarrow>
              if delta_is_empty d \<and> \<not> is_new d then ms
              else let ms = ms\<lparr>ms_outbox := ms_outbox ms @ [Updated (pr_peer_id r) d]\<rparr> in
                   if is_new d then publish_for_new_peer now ms else ms)"

definition handle_message ::
  "('p, 'a, 'k, 'v, 'e, 'g) gossip_lib \<Rightarrow> nat \<Rightarrow> nat list \<Rightarrow> nat list \<Rightarrow> ('p, 'a, 'k, 'v, 'g) MembershipBehaviour \<Rightarrow>
     ('p, 'a, 'k, 'v, 'g) MembershipBehaviour" where
  "handle_message gp now topic data ms =
     (if topic = gp_ident_hash gp (ms_membership_topic ms) then
        (case signed_record_from_bytes (provider_lib gp) data of
           Ok signed \<Rightarrow> handle_provider_record now (sr_record signed) ms
         | _ \<Rightarrow> ms)
      else if topic \<in> set (ms_voting_topics ms) then
        (case signed_record_from_bytes (vote_lib gp) data of
           Ok signed \<Rightarrow> ms\<lparr>ms_outbox := ms_outbox ms @ [ReceivedVote (sr_record signed)]\<rparr>
         | _ \<Rightarrow> ms)
      else case hm_get (ms_preemptive_topics ms) topic of
             Some s \<Rightarrow> ms\<lparr>ms_outbox := ms_outbox ms @ [ReceivedPreemptive s data]\<rparr>
           | None \<Rightarrow> ms)"

definition prune_membership :: "nat \<Rightarrow> ('p, 'a, 'k, 'v, 'g) MembershipBehaviour \<Rightarrow> ('p, 'a, 'k, 'v, 'g) MembershipBehaviour" where
  "prune_membership now ms =
     (case prune_providers (now - ms_max_provider_age ms) (ms_provider_cache ms) of
        (c, pruned) \<Rightarrow> ms\<lparr>ms_provider_cache := c, ms_outbox := ms_outbox ms @ map Removed pruned\<rparr>)"

fun handle_gossip ::
  "('p, 'a, 'k, 'v, 'e, 'g) gossip_lib \<Rightarrow> nat \<Rightarrow> 'p GossipEvent \<Rightarrow> ('p, 'a, 'k, 'v, 'g) MembershipBehaviour \<Rightarrow>
     ('p, 'a, 'k, 'v, 'g) MembershipBehaviour" where
  "handle_gossip gp now (Subscribed p topic) ms =
     (if topic = gp_ident_hash gp (ms_membership_topic ms) then publish_for_new_peer now ms else ms)"
| "handle_gossip gp now (GossipMessage topic data) ms = handle_message gp now topic data ms"
| "handle_gossip gp now OtherGossip ms = ms"

datatype 'ev poll_result = PollEvent 'ev | PollOther nat | PollPending

definition membership_poll ::
  "('p, 'a, 'k, 'v, 'e, 'g) gossip_lib \<Rightarrow> nat \<Rightarrow> ('p, 'a, 'k, 'v, 'g) MembershipBehaviour \<Rightarrow>
     ('p, 'a, 'k, 'v, 'g) MembershipBehaviour \<times> ('p, 'a SubnetID, ('k, 'a SubnetID, 'v) VoteRecord) MembershipEvent poll_result" where
  "membership_poll gp now ms =
     (case ms_outbox ms of
        ev # evs \<Rightarrow> (ms\<lparr>ms_outbox := evs\<rparr>, PollEvent ev)
      | [] \<Rightarrow>
          let ms = (if ms_next_tick ms \<le> now
                    then prune_membership now (fst (publish_membership gp now (ms\<lparr>ms_next_tick := ms_next_tick ms + ms_period ms\<rparr>)))
                    else ms) in
          case gp_drain gp (ms_inner ms) of
            (g, evs, other) \<Rightarrow>
              (fold (handle_gossip gp now) evs (ms\<lparr>ms_inner := g\<rparr>),
               case other of Some e \<Rightarrow> PollOther e | None \<Rightarrow> PollPending))"

section \<open>Lemmas on the behaviour\<close>

subsection \<open>Names of topics\<close>

definition topics_ok :: "('p, 'a, 'k, 'v, 'e, 'g) gossip_lib \<Rightarrow> bool" where
  "topics_ok gp = (inj (gp_hash gp) \<and> (\<exists>ps. addr_codec (gp_show_addr gp) ps) \<and> (\<forall>a. CHR ''_'' \<notin> set (gp_show_addr gp a)))"

lemma subnet_topic_inj:
  assumes ok: "topics_ok gp"
    and eq: "subnet_topic pre net (subnet_to_string (gp_show_addr gp) s) = subnet_topic pre net (subnet_to_string (gp_show_addr gp) s')"
  shows "s = s'"
proof -
  let ?f = "\<lambda>c. if c = CHR ''/'' then CHR ''_'' else c"
  let ?str = "subnet_to_string (gp_show_addr gp)"
  have "CHR ''_'' \<noteq> digit_char d" if "d < 10" for d
  proof
    assume "CHR ''_'' = digit_char d"
    then have "digit_val CHR ''_'' = Some d" using digit_val_char [OF that] by simp
    then show False by (simp add: digit_val_def)
  qed
  then have "CHR ''_'' \<notin> set (show_u64 n)" for n using show_u64_chars by blast
  then have free: "CHR ''_'' \<notin> set (?str x)" for x
    using ok by (auto simp: topics_ok_def subnet_to_string_conv slashed_def)
  have "map ?f (?str s) = map ?f (?str s')" using eq by (simp add: subnet_topic_def Let_def)
  moreover have "inj_on ?f (set (?str s) \<union> set (?str s'))" using free [of s] free [of s'] by (auto simp: inj_on_def)
  ultimately have "?str s = ?str s'" by (rule map_inj_on)
  then show ?thesis using ok subnet_to_string_inj unfolding topics_ok_def by blast
qed

lemma topic_hash_inj:
  assumes "topics_ok gp"
  shows "gp_hash gp (voting_topic gp net s) = gp_hash gp (voting_topic gp net s') \<longleftrightarrow> s = s'"
    and "gp_hash gp (preemptive_topic gp net s) = gp_hash gp (preemptive_topic gp net s') \<longleftrightarrow> s = s'"
  using assms subnet_topic_inj [OF assms] unfolding voting_topic_def preemptive_topic_def topics_ok_def by (metis injD)+

subsection \<open>Subscriptions\<close>

text \<open>What the subscriptions depend on.\<close>

definition topics :: "('p, 'a, 'k, 'v, 'g) MembershipBehaviour \<Rightarrow>
    string \<times> 'a SubnetID list \<times> nat list list \<times> (nat list, 'a SubnetID) hmap \<times> 'a SubnetID list" where
  "topics ms = (ms_network_name ms, ms_subnet_ids ms, ms_voting_topics ms, ms_preemptive_topics ms,
     pinned_subnets (ms_provider_cache ms))"

lemma topics_frame [simp]:
  "topics (ms\<lparr>ms_inner := g\<rparr>) = topics ms" "topics (ms\<lparr>ms_outbox := evs\<rparr>) = topics ms" "topics (ms\<lparr>ms_next_tick := t\<rparr>) = topics ms"
  "topics (ms\<lparr>ms_last_publish_timestamp := t\<rparr>) = topics ms" "topics (ms\<lparr>ms_next_publish_timestamp := t\<rparr>) = topics ms"
  "pinned_subnets c = pinned_subnets (ms_provider_cache ms) \<Longrightarrow> topics (ms\<lparr>ms_provider_cache := c\<rparr>) = topics ms"
  by (simp_all add: topics_def)

lemma pinned_add_provider: "pinned_subnets (fst (add_provider r c)) = pinned_subnets c"
  by (auto simp: add_provider_def Let_def split: prod.split dest: prune_subnets_frame)

lemma pinned_prune_providers: "pinned_subnets (fst (prune_providers cutoff c)) = pinned_subnets c"
proof -
  have "pinned_subnets (fold cache_set_unroutable ps c) = pinned_subnets c" for ps
    by (induction ps arbitrary: c) (simp_all add: cache_set_unroutable_def)
  then show ?thesis by (simp add: prune_providers_def Let_def)
qed

lemma publish_membership_topics: "topics (fst (publish_membership gp now ms)) = topics ms"
  by (simp add: publish_membership_def finish_def Let_def split: outcome.split prod.split)

lemma publish_for_new_peer_topics: "topics (publish_for_new_peer now ms) = topics ms"
  by (simp add: publish_for_new_peer_def)

lemma handle_provider_record_topics: "topics (handle_provider_record now r ms) = topics ms"
  using pinned_add_provider [of r "ms_provider_cache ms"]
  by (auto simp: handle_provider_record_def Let_def publish_for_new_peer_topics split: prod.split option.split)

lemma handle_gossip_topics: "topics (handle_gossip gp now ev ms) = topics ms"
  by (cases ev) (auto simp: handle_message_def handle_provider_record_topics publish_for_new_peer_topics split: outcome.split option.split)

lemma prune_membership_topics: "topics (prune_membership now ms) = topics ms"
  using pinned_prune_providers [of "now - ms_max_provider_age ms" "ms_provider_cache ms"]
  by (auto simp: prune_membership_def split: prod.split)

lemma membership_poll_topics: "topics (fst (membership_poll gp now ms)) = topics ms"
proof -
  have "topics (fold (handle_gossip gp now) evs ms) = topics ms" for evs ms
    by (induction evs arbitrary: ms) (simp_all add: handle_gossip_topics)
  then show ?thesis
    by (auto simp: membership_poll_def Let_def prune_membership_topics publish_membership_topics split: list.split prod.split)
qed

lemmas topics_same = publish_membership_topics publish_for_new_peer_topics membership_poll_topics

abbreviation voting_hash :: "('p, 'a, 'k, 'v, 'e, 'g) gossip_lib \<Rightarrow> string \<Rightarrow> 'a SubnetID \<Rightarrow> nat list" where
  "voting_hash gp net s \<equiv> gp_hash gp (voting_topic gp net s)"

abbreviation preemptive_hash :: "('p, 'a, 'k, 'v, 'e, 'g) gossip_lib \<Rightarrow> string \<Rightarrow> 'a SubnetID \<Rightarrow> nat list" where
  "preemptive_hash gp net s \<equiv> gp_hash gp (preemptive_topic gp net s)"

lemma voting_subscribe_cases:
  assumes "voting_subscribe gp s ms = (ms', r)"
  shows "\<exists>g. ms' = ms\<lparr>ms_inner := g, ms_voting_topics :=
     (if r = Ok () then hs_insert (voting_hash gp (ms_network_name ms) s) (ms_voting_topics ms) else ms_voting_topics ms)\<rparr>"
  using assms
  by (cases "gp_subscribe gp (voting_topic gp (ms_network_name ms) s) (ms_inner ms)")
   (auto simp: voting_subscribe_def ms_subscribe_def finish_def Let_def split: outcome.splits)

lemma voting_unsubscribe_cases:
  assumes "voting_unsubscribe gp s ms = (ms', r)"
  shows "\<exists>g. ms' = ms\<lparr>ms_inner := g, ms_voting_topics :=
     (if r = Ok () then removeAll (voting_hash gp (ms_network_name ms) s) (ms_voting_topics ms) else ms_voting_topics ms)\<rparr>"
  using assms
  by (cases "gp_unsubscribe gp (voting_topic gp (ms_network_name ms) s) (ms_inner ms)")
   (auto simp: voting_unsubscribe_def ms_unsubscribe_def finish_def Let_def split: outcome.splits)

lemma each_subscribe:
  assumes "each_subnet (voting_subscribe gp) ss ms = (ms', r)"
  shows "\<exists>g vt. ms' = ms\<lparr>ms_inner := g, ms_voting_topics := vt\<rparr> \<and> set (ms_voting_topics ms) \<subseteq> set vt \<and>
     (r = Ok () \<longrightarrow> voting_hash gp (ms_network_name ms) ` set ss \<subseteq> set vt)"
  using assms
proof (induction ss arbitrary: ms)
  case Nil
  then show ?case by (intro exI [of _ "ms_inner ms"] exI [of _ "ms_voting_topics ms"]) simp
next
  case (Cons s ss)
  obtain ms1 r1 where 1: "voting_subscribe gp s ms = (ms1, r1)" by fastforce
  obtain g where g: "ms1 = ms\<lparr>ms_inner := g, ms_voting_topics :=
      (if r1 = Ok () then hs_insert (voting_hash gp (ms_network_name ms) s) (ms_voting_topics ms) else ms_voting_topics ms)\<rparr>"
    using voting_subscribe_cases [OF 1] by blast
  show ?case
  proof (cases "r1 = Ok ()")
    case True
    then have "each_subnet (voting_subscribe gp) ss ms1 = (ms', r)" using Cons.prems 1 by (simp add: finish_def)
    from Cons.IH [OF this] obtain g' vt where "ms' = ms1\<lparr>ms_inner := g', ms_voting_topics := vt\<rparr>" "set (ms_voting_topics ms1) \<subseteq> set vt"
        "r = Ok () \<longrightarrow> voting_hash gp (ms_network_name ms1) ` set ss \<subseteq> set vt"
      by blast
    then show ?thesis using g True by auto
  next
    case False
    then have "ms' = ms1" "r \<noteq> Ok ()" using Cons.prems 1 by (auto simp: finish_def split: outcome.splits)
    then show ?thesis using g False by (intro exI [of _ g] exI [of _ "ms_voting_topics ms"]) auto
  qed
qed

lemma each_unsubscribe:
  assumes "each_subnet (voting_unsubscribe gp) ss ms = (ms', r)"
  shows "\<exists>g vt. ms' = ms\<lparr>ms_inner := g, ms_voting_topics := vt\<rparr> \<and>
     set (ms_voting_topics ms) - voting_hash gp (ms_network_name ms) ` set ss \<subseteq> set vt"
  using assms
proof (induction ss arbitrary: ms)
  case Nil
  then show ?case by (intro exI [of _ "ms_inner ms"] exI [of _ "ms_voting_topics ms"]) simp
next
  case (Cons s ss)
  obtain ms1 r1 where 1: "voting_unsubscribe gp s ms = (ms1, r1)" by fastforce
  obtain g where g: "ms1 = ms\<lparr>ms_inner := g, ms_voting_topics :=
      (if r1 = Ok () then removeAll (voting_hash gp (ms_network_name ms) s) (ms_voting_topics ms) else ms_voting_topics ms)\<rparr>"
    using voting_unsubscribe_cases [OF 1] by blast
  show ?case
  proof (cases "r1 = Ok ()")
    case True
    then have "each_subnet (voting_unsubscribe gp) ss ms1 = (ms', r)" using Cons.prems 1 by (simp add: finish_def)
    from Cons.IH [OF this] obtain g' vt where "ms' = ms1\<lparr>ms_inner := g', ms_voting_topics := vt\<rparr>"
        "set (ms_voting_topics ms1) - voting_hash gp (ms_network_name ms1) ` set ss \<subseteq> set vt"
      by blast
    then show ?thesis using g True by auto
  next
    case False
    then have "ms' = ms1" using Cons.prems 1 by (auto simp: finish_def split: outcome.splits)
    then show ?thesis using g False by (intro exI [of _ g] exI [of _ "ms_voting_topics ms"]) auto
  qed
qed

text \<open>Any call of a method, at any time and with any outcome.\<close>

inductive membership_step ::
  "('p, 'a, 'k, 'v, 'e, 'g) gossip_lib \<Rightarrow> ('p, 'a, 'k, 'v, 'g) MembershipBehaviour \<Rightarrow> ('p, 'a, 'k, 'v, 'g) MembershipBehaviour \<Rightarrow> bool"
  for gp where
  step_set_provided: "set_provided_subnets gp now ids ms = (ms', r) \<Longrightarrow> membership_step gp ms ms'"
| step_add_provided: "add_provided_subnet gp now s ms = (ms', r) \<Longrightarrow> membership_step gp ms ms'"
| step_remove_provided: "remove_provided_subnet gp now s ms = (ms', r) \<Longrightarrow> membership_step gp ms ms'"
| step_pin: "pin_subnet gp s ms = (ms', r) \<Longrightarrow> membership_step gp ms ms'"
| step_unpin: "unpin_subnet gp s ms = (ms', r) \<Longrightarrow> membership_step gp ms ms'"
| step_publish_vote: "publish_vote gp vote ms = (ms', r) \<Longrightarrow> membership_step gp ms ms'"
| step_publish_preemptive: "publish_preemptive gp s data ms = (ms', r) \<Longrightarrow> membership_step gp ms ms'"
| step_routable: "membership_step gp ms (ms_set_routable now p ms)"
| step_unroutable: "membership_step gp ms (ms_set_unroutable p ms)"
| step_poll: "membership_poll gp now ms = (ms', ev) \<Longrightarrow> membership_step gp ms ms'"

inductive_cases membership_stepE: "membership_step gp ms ms'"

definition subscribed :: "('p, 'a, 'k, 'v, 'e, 'g) gossip_lib \<Rightarrow> ('p, 'a, 'k, 'v, 'g) MembershipBehaviour \<Rightarrow> bool" where
  "subscribed gp ms =
     ((\<forall>s \<in> set (ms_subnet_ids ms). voting_hash gp (ms_network_name ms) s \<in> set (ms_voting_topics ms)) \<and>
      (\<forall>h s. hm_get (ms_preemptive_topics ms) h = Some s \<longleftrightarrow>
         h = preemptive_hash gp (ms_network_name ms) s \<and> s \<in> set (pinned_subnets (ms_provider_cache ms))))"

lemma subscribed_topics: "topics ms' = topics ms \<Longrightarrow> subscribed gp ms \<Longrightarrow> subscribed gp ms'"
  by (simp add: topics_def subscribed_def)

lemma subscribed_publish: "subscribed gp (fst (publish_membership gp' now ms)) = subscribed gp ms"
  using subscribed_topics [OF publish_membership_topics [of gp' now ms]] subscribed_topics [OF publish_membership_topics [of gp' now ms, symmetric]]
  by blast

lemma subscribed_pin:
  assumes ok: "topics_ok gp" and inv: "subscribed gp ms" and run: "pin_subnet gp s ms = (ms', r)"
  shows "subscribed gp ms'"
proof -
  let ?h = "preemptive_hash gp (ms_network_name ms) s"
  obtain g where "topics ms' = topics ms \<or> ms' = ms\<lparr>ms_inner := g, ms_preemptive_topics := AList.update ?h s (ms_preemptive_topics ms),
      ms_provider_cache := cache_pin_subnet s (ms_provider_cache ms)\<rparr>"
    using run
    by (cases "gp_subscribe gp (preemptive_topic gp (ms_network_name ms) s) (ms_inner ms)")
     (auto simp: pin_subnet_def preemptive_subscribe_def ms_subscribe_def finish_def Let_def split: outcome.splits)
  then show ?thesis
  proof
    assume "topics ms' = topics ms"
    then show ?thesis using inv by (rule subscribed_topics)
  next
    assume "ms' = ms\<lparr>ms_inner := g, ms_preemptive_topics := AList.update ?h s (ms_preemptive_topics ms),
      ms_provider_cache := cache_pin_subnet s (ms_provider_cache ms)\<rparr>"
    then show ?thesis using inv topic_hash_inj(2) [OF ok]
      by (auto simp: subscribed_def cache_pin_subnet_def update_conv' split: if_splits)
  qed
qed

lemma subscribed_unpin:
  assumes ok: "topics_ok gp" and inv: "subscribed gp ms" and run: "unpin_subnet gp s ms = (ms', r)"
  shows "subscribed gp ms'"
proof -
  let ?h = "preemptive_hash gp (ms_network_name ms) s"
  obtain g where "topics ms' = topics ms \<or> ms' = ms\<lparr>ms_inner := g, ms_preemptive_topics := AList.delete ?h (ms_preemptive_topics ms),
      ms_provider_cache := cache_unpin_subnet s (ms_provider_cache ms)\<rparr>"
    using run
    by (cases "gp_unsubscribe gp (preemptive_topic gp (ms_network_name ms) s) (ms_inner ms)")
     (auto simp: unpin_subnet_def preemptive_unsubscribe_def ms_unsubscribe_def finish_def Let_def split: outcome.splits)
  then show ?thesis
  proof
    assume "topics ms' = topics ms"
    then show ?thesis using inv by (rule subscribed_topics)
  next
    assume "ms' = ms\<lparr>ms_inner := g, ms_preemptive_topics := AList.delete ?h (ms_preemptive_topics ms),
      ms_provider_cache := cache_unpin_subnet s (ms_provider_cache ms)\<rparr>"
    then show ?thesis using inv topic_hash_inj(2) [OF ok]
      by (auto simp: subscribed_def cache_unpin_subnet_def delete_conv' split: if_splits)
  qed
qed

lemma subscribed_provided:
  assumes "subscribed gp ms" "voting_hash gp (ms_network_name ms) ` set ids \<subseteq> set vt"
  shows "subscribed gp (ms\<lparr>ms_subnet_ids := ids, ms_inner := g, ms_voting_topics := vt\<rparr>)"
  using assms by (auto simp: subscribed_def)

lemma subscribed_set_provided:
  assumes ok: "topics_ok gp" and inv: "subscribed gp ms" and run: "set_provided_subnets gp now ids ms = (ms', r)"
  shows "subscribed gp ms'"
proof -
  let ?net = "ms_network_name ms" and ?old = "ms_subnet_ids ms"
  obtain ms1 r1 where 1: "each_subnet (voting_unsubscribe gp) (filter (\<lambda>s. s \<notin> set ids) ?old) (ms\<lparr>ms_subnet_ids := []\<rparr>) = (ms1, r1)"
    by fastforce
  obtain g1 vt1 where ms1: "ms1 = ms\<lparr>ms_subnet_ids := [], ms_inner := g1, ms_voting_topics := vt1\<rparr>"
      "set (ms_voting_topics ms) - voting_hash gp ?net ` set (filter (\<lambda>s. s \<notin> set ids) ?old) \<subseteq> set vt1"
    using each_unsubscribe [OF 1] by auto
  obtain ms2 r2 where 2: "each_subnet (voting_subscribe gp) (filter (\<lambda>s. s \<notin> set ?old) ids) ms1 = (ms2, r2)" by fastforce
  obtain g2 vt2 where ms2: "ms2 = ms\<lparr>ms_subnet_ids := [], ms_inner := g2, ms_voting_topics := vt2\<rparr>" "set vt1 \<subseteq> set vt2"
      "r2 = Ok () \<longrightarrow> voting_hash gp ?net ` set (filter (\<lambda>s. s \<notin> set ?old) ids) \<subseteq> set vt2"
    using each_subscribe [OF 2] ms1(1) by auto
  have none: "subscribed gp ms1" "subscribed gp ms2" unfolding ms1(1) ms2(1) by (rule subscribed_provided [OF inv], simp)+
  have all: "subscribed gp (ms2\<lparr>ms_subnet_ids := ids\<rparr>)" if "r2 = Ok ()"
  proof -
    have "voting_hash gp ?net s \<in> set vt2" if s: "s \<in> set ids" for s
    proof (cases "s \<in> set ?old")
      case True
      then have "voting_hash gp ?net s \<in> set (ms_voting_topics ms)" using inv by (simp add: subscribed_def)
      moreover have "voting_hash gp ?net s \<notin> voting_hash gp ?net ` set (filter (\<lambda>s. s \<notin> set ids) ?old)"
        using s topic_hash_inj(1) [OF ok] by auto
      ultimately show ?thesis using ms1(2) ms2(2) by blast
    next
      case False
      then show ?thesis using ms2(3) \<open>r2 = Ok ()\<close> s by auto
    qed
    then show ?thesis using inv by (auto simp: subscribed_def ms2(1))
  qed
  consider "ms' = ms1" | "ms' = ms2" | "r2 = Ok ()" "ms' = fst (publish_membership gp now (ms2\<lparr>ms_subnet_ids := ids\<rparr>))"
    using run 1 2 by (auto simp: set_provided_subnets_def Let_def finish_def split: outcome.splits)
  then show ?thesis
    by cases (simp_all add: none all subscribed_publish)
qed

lemma subscribed_add_provided:
  assumes inv: "subscribed gp ms" and run: "add_provided_subnet gp now s ms = (ms', r)"
  shows "subscribed gp ms'"
proof -
  obtain ms1 r1 where 1: "voting_subscribe gp s ms = (ms1, r1)" by fastforce
  let ?vt = "if r1 = Ok () then hs_insert (voting_hash gp (ms_network_name ms) s) (ms_voting_topics ms) else ms_voting_topics ms"
  obtain g where g: "ms1 = ms\<lparr>ms_inner := g, ms_voting_topics := ?vt\<rparr>" using voting_subscribe_cases [OF 1] by blast
  have one: "subscribed gp ms1" unfolding g using subscribed_provided [OF inv, of "ms_subnet_ids ms" ?vt g] inv
    by (auto simp: subscribed_def)
  have two: "subscribed gp (ms1\<lparr>ms_subnet_ids := ms_subnet_ids ms1 @ [s]\<rparr>)" if "r1 = Ok ()"
    using one that by (auto simp: subscribed_def g)
  consider "ms' = ms" | "ms' = ms1" | "r1 = Ok ()" "ms' = fst (publish_membership gp now (ms1\<lparr>ms_subnet_ids := ms_subnet_ids ms1 @ [s]\<rparr>))"
    using run 1 by (auto simp: add_provided_subnet_def finish_def split: if_splits outcome.splits)
  then show ?thesis by cases (simp_all add: inv one two subscribed_publish)
qed

lemma subscribed_remove_provided:
  assumes ok: "topics_ok gp" and inv: "subscribed gp ms" and run: "remove_provided_subnet gp now s ms = (ms', r)"
  shows "subscribed gp ms'"
proof -
  obtain ms1 r1 where 1: "voting_unsubscribe gp s ms = (ms1, r1)" by fastforce
  let ?vt = "if r1 = Ok () then removeAll (voting_hash gp (ms_network_name ms) s) (ms_voting_topics ms) else ms_voting_topics ms"
  obtain g where g: "ms1 = ms\<lparr>ms_inner := g, ms_voting_topics := ?vt\<rparr>" using voting_unsubscribe_cases [OF 1] by blast
  have fail: "topics ms1 = topics ms" if "r1 \<noteq> Ok ()" using that by (simp add: g topics_def)
  have two: "subscribed gp (ms1\<lparr>ms_subnet_ids := removeAll s (ms_subnet_ids ms1)\<rparr>)"
    using inv topic_hash_inj(1) [OF ok] by (auto simp: subscribed_def g)
  consider "ms' = ms" | "r1 \<noteq> Ok ()" "ms' = ms1" | "ms' = fst (publish_membership gp now (ms1\<lparr>ms_subnet_ids := removeAll s (ms_subnet_ids ms1)\<rparr>))"
    using run 1 by (auto simp: remove_provided_subnet_def finish_def split: if_splits outcome.splits)
  then show ?thesis by cases (simp_all add: inv two subscribed_publish subscribed_topics [OF fail inv])
qed

lemma subscribed_step:
  assumes ok: "topics_ok gp" and step: "membership_step gp ms ms'" and inv: "subscribed gp ms"
  shows "subscribed gp ms'"
  using step
proof cases
  case (step_routable now p)
  then have "topics ms' = topics ms" by (simp add: ms_set_routable_def publish_for_new_peer_topics cache_set_routable_def)
  then show ?thesis using inv by (rule subscribed_topics)
next
  case (step_unroutable p)
  then have "topics ms' = topics ms" by (simp add: ms_set_unroutable_def cache_set_unroutable_def topics_def)
  then show ?thesis using inv by (rule subscribed_topics)
next
  case (step_poll now ev)
  then show ?thesis using subscribed_topics [OF membership_poll_topics [of gp now ms] inv] by simp
next
  case (step_publish_vote vote r)
  then have "topics ms' = topics ms" by (auto simp: publish_vote_def ms_publish_def split: prod.splits)
  then show ?thesis using inv by (rule subscribed_topics)
next
  case (step_publish_preemptive s data r)
  then have "topics ms' = topics ms" by (auto simp: publish_preemptive_def ms_publish_def split: prod.splits)
  then show ?thesis using inv by (rule subscribed_topics)
next
  case step_set_provided
  then show ?thesis by (rule subscribed_set_provided [OF ok inv])
next
  case step_add_provided
  then show ?thesis by (rule subscribed_add_provided [OF inv])
next
  case step_remove_provided
  then show ?thesis by (rule subscribed_remove_provided [OF ok inv])
next
  case step_pin
  then show ?thesis by (rule subscribed_pin [OF ok inv])
next
  case step_unpin
  then show ?thesis by (rule subscribed_unpin [OF ok inv])
qed

lemma subscribed_new:
  assumes ok: "topics_ok gp" and new: "membership_new gp gossipsub name key mc now = Ok ms"
  shows "subscribed gp ms"
proof -
  have pins: "subscribed gp ms'" if "each_subnet (pin_subnet gp) ss ms = (ms', r)" "subscribed gp ms" for ss ms ms' r
    using that
  proof (induction ss arbitrary: ms)
    case (Cons s ss)
    obtain ms1 r1 where 1: "pin_subnet gp s ms = (ms1, r1)" by fastforce
    then have "subscribed gp ms1" using subscribed_pin [OF ok Cons.prems(2)] by blast
    then show ?case using Cons 1 by (auto simp: finish_def split: outcome.splits)
  qed simp
  let ?topic = "PUBSUB_MEMBERSHIP @ ''/'' @ name"
  obtain g0 where g0: "gossipsub = Ok g0" using new by (auto simp: membership_new_def Let_def obind_Ok_iff split: if_splits)
  obtain g r1 where g: "gp_subscribe gp ?topic g0 = (g, r1)" by fastforce
  obtain ms1 r where r: "each_subnet (pin_subnet gp) (mc_static_subnets mc) (membership_init g name ?topic key mc now) = (ms1, r)"
    by fastforce
  then have "ms = ms1" using new g0 g by (auto simp: membership_new_def Let_def outcome_simps split: if_splits)
  then show ?thesis using pins [OF r] by (simp add: subscribed_def membership_init_def provider_cache_new_def)
qed

interpretation agent: start_invariant "membership_step gp" "\<lambda>ms. topics_ok gp \<longrightarrow> subscribed gp ms"
  "\<lambda>ms. \<exists>gossipsub name key mc now. membership_new gp gossipsub name key mc now = Ok ms"
  by unfold_locales (blast intro: subscribed_step subscribed_new)+


section \<open>Evaluation on concrete inputs\<close>

definition sample_records :: "(nat, nat) cache_op list" where
  "sample_records =
     [SetRoutable 1, SetRoutable 2, AddRecord \<lparr>pr_peer_id = 1, pr_subnet_ids = [10, 20], pr_timestamp = 5\<rparr>,
      AddRecord \<lparr>pr_peer_id = 2, pr_subnet_ids = [10, 30], pr_timestamp = 6\<rparr>,
      AddRecord \<lparr>pr_peer_id = 3, pr_subnet_ids = [10], pr_timestamp = 6\<rparr>,
      AddRecord \<lparr>pr_peer_id = 1, pr_subnet_ids = [20], pr_timestamp = 9\<rparr>]"

theorem provider_cache_exact_witness:
  "length (subnet_providers (fold cache_step sample_records (provider_cache_new 1 [10]))) \<le> 1 \<and>
     set (providers_of_subnet 10 (fold cache_step sample_records (provider_cache_new 1 [10]))) = {2}"
proof -
  have "{p. \<exists>t ids. kn_latest (fold known_step sample_records \<lparr>kn_routable = {}, kn_latest = Map.empty\<rparr>) p = Some (t, ids) \<and> 10 \<in> set ids} = {2}"
    by (auto simp: sample_records_def Let_def split: if_splits)
  moreover have "UnpinSubnet 10 \<notin> set sample_records" "\<forall>s. PinSubnet s \<in> set sample_records \<longrightarrow> s \<in> {10}"
    by (simp_all add: sample_records_def)
  ultimately show ?thesis
    using provider_cache_exact [OF refl refl, of "{10}" "[10]" sample_records 1 10] by simp
qed

text \<open>A gossip library where every call succeeds, and an envelope is the key in front of the payload.\<close>

definition sample_record_lib :: "(nat list \<Rightarrow> (string, 'r) outcome) \<Rightarrow> ('r, nat, nat list) record_lib" where
  "sample_record_lib dec =
     \<lparr>rl_payload_type = '''', rl_check_signing_key = (\<lambda>_ _. True), rl_seal = (\<lambda>k _ _ payload. Ok (k # payload)),
      rl_open = (\<lambda>e _ _. case e of k # payload \<Rightarrow> Ok (payload, k) | [] \<Rightarrow> Err ''empty''), rl_to_vec = (\<lambda>_. Ok []),
      rl_from_slice = dec, rl_to_protobuf = (\<lambda>e. e), rl_from_protobuf = Ok\<rparr>"

definition sample_gossip :: "(nat, nat, nat, string, nat list, unit) gossip_lib" where
  "sample_gossip =
     \<lparr>gp_subscribe = (\<lambda>_ g. (g, Ok True)), gp_unsubscribe = (\<lambda>_ g. (g, Ok True)), gp_publish = (\<lambda>_ _ g. (g, Ok [])),
      gp_drain = (\<lambda>g. (g, [], None)), gp_hash = (\<lambda>t. 0 # map of_char t), gp_ident_hash = (\<lambda>t. 1 # map of_char t),
      gp_show_addr = unary_show, gp_peer_id = (\<lambda>k. k), gp_providers = sample_record_lib (\<lambda>_. Err ''malformed''),
      gp_votes = sample_record_lib (\<lambda>bytes. case bytes of
        [k] \<Rightarrow> Ok \<lparr>vr_public_key = k, vr_subnet_id = \<lparr>root = 5, children = []\<rparr>, vr_content = ''block'', vr_timestamp = 0\<rparr>
      | _ \<Rightarrow> Err ''malformed'')\<rparr>"

lemma sample_topics_ok: "topics_ok sample_gossip"
proof -
  have "inj (\<lambda>t. 0 # map of_char t :: nat list)" by (auto intro!: injI simp: inj_map_eq_map [OF inj_of_char])
  moreover have "addr_codec unary_show unary_parse" by (rule unary_codec)
  moreover have "CHR ''_'' \<notin> set (unary_show a)" for a by (simp add: unary_show_def)
  ultimately show ?thesis by (auto simp: topics_ok_def sample_gossip_def)
qed

definition sample_membership_config :: "nat SubnetID MembershipConfig" where
  "sample_membership_config = \<lparr>mc_static_subnets = [], mc_max_subnets = 3, mc_publish_interval = 60, mc_min_time_between_publish = 5,
     mc_max_provider_age = 300\<rparr>"


end
