(* ===== verification/Spec2Isabelle.thy ===== *)
theory Spec2Isabelle
  imports Abci_App Accumulator Checkpoint_Relayer Membership
begin

text \<open>
  A verification development for the node of an IPC subnet: Fendermint (\<open>src/fendermint\<close>), which runs the FVM
  behind a Tendermint consensus, and the parts of \<open>src/ipc\<close>, \<open>src/ipld\<close> and \<open>src/ext\<close> that it works with.

  \<^bold>\<open>The program.\<close> A subnet is a chain with a parent chain. Consensus talks to the ABCI application, which keeps the
  committed state and its history and hands transactions to a stack of interpreters: raw bytes, chain messages, signed
  messages, the FVM. Value and validator changes come down from the parent: a syncer polls the parent and fills a cache
  of its blocks (the finality provider) and the chain of a vote tally; validators gossip votes on parent blocks; a
  proposer includes the finality that has a quorum, the others check it, and its delivery executes the messages of every
  height since the last one. Checkpoints go up: the interpreter creates them at the end of a block, and a relayer
  submits them to the parent. Content that a chain message refers to is fetched by resolvers, which wait in pools; the
  peers to fetch it from are known from signed records that peers gossip. Actors of the chain keep objects, an
  accumulator, the hashes of the last blocks and the permission to deploy contracts. Genesis builds the first state, and
  snapshots bring a new node up to date.

  \<^bold>\<open>Theories.\<close> Sources are relative to \<open>src/\<close>.
  \<^item> \<open>IPC_Prelude\<close>: \<open>u64\<close> arithmetic, the type \<open>outcome\<close> of \<open>Result\<close>, panics and STM retries, hash maps, hash sets and
    ordered maps as lists, the collection \<open>outcome_simps\<close>, and the locales \<open>step_invariant\<close> and \<open>start_invariant\<close>.
  \<^item> \<open>Seq_Cache\<close>: \<open>fendermint/vm/topdown/src/cache.rs\<close>. \<open>seq_cache\<close> is \<open>SequentialKeyCache\<close>; the locale \<open>height_store\<close> is
    what the finality provider needs of it.
  \<^item> \<open>Subnet_Ids\<close>: \<open>ipc/api/src/subnet_id.rs\<close>, \<open>address.rs\<close>, \<open>cross.rs\<close>, \<open>staking.rs\<close>.
  \<^item> \<open>Finality_Provider\<close>: \<open>fendermint/vm/topdown/src/finality/null.rs\<close>, \<open>fetch.rs\<close> and \<open>toggle.rs\<close>; the locale
    \<open>finality_provider\<close> is what the chain interpreter relies on, and both providers interpret it.
  \<^item> \<open>Vote_Tally\<close>: \<open>fendermint/vm/topdown/src/voting.rs\<close>, with the operations as the relation \<open>tally_step\<close>.
  \<^item> \<open>Parent_Syncer\<close>: \<open>fendermint/vm/topdown/src/sync\<close> and \<open>proxy.rs\<close>; \<open>topdown_step\<close> interleaves polls, commitments and votes.
  \<^item> \<open>Resolve_Pools\<close>: \<open>fendermint/vm/resolver/src\<close> and \<open>fendermint/vm/ipfs_resolver/src\<close>; the locale \<open>resolve_pool\<close> is what
    the chain interpreter relies on.
  \<^item> \<open>Membership\<close>: \<open>ipld/resolver/src/provider_cache.rs\<close>, \<open>behaviour/membership.rs\<close> and the signed records.
  \<^item> \<open>Merkle_Tree\<close> and \<open>Validator_Tree\<close>: \<open>ext/merkle-tree-rs/src\<close> and \<open>ValidatorMerkleTree\<close> of
    \<open>fendermint/vm/actor_interface/src/ipc.rs\<close>.
  \<^item> \<open>Exec_State\<close>, \<open>Fvm_Interpreter\<close>, \<open>Fvm_Query\<close>: \<open>fendermint/vm/interpreter/src/fvm\<close>: the state of a block, upgrades and
    mempool checks; topdown execution, checkpoints and the life cycle of a block; queries and the estimation of gas.
  \<^item> \<open>Signed_Messages\<close>: \<open>fendermint/vm/message/src/signed.rs\<close> and \<open>fendermint/vm/interpreter/src/signed.rs\<close>.
  \<^item> \<open>Chain_Interpreter\<close>, \<open>Bytes_Interpreter\<close>: \<open>fendermint/vm/interpreter/src/chain.rs\<close> and \<open>bytes.rs\<close>.
  \<^item> \<open>Checkpoint_Relayer\<close>: \<open>ipc/provider/src/checkpoint.rs\<close> as the relation \<open>relayer_step\<close>.
  \<^item> \<open>Actor_Runtime\<close>, \<open>Object_Store\<close>, \<open>Accumulator\<close>, \<open>System_Actors\<close>: the actors under \<open>fendermint/actors\<close>.
  \<^item> \<open>Hardhat\<close>, \<open>Genesis\<close>: \<open>fendermint/eth/hardhat/src/lib.rs\<close>, and \<open>fvm/genesis.rs\<close> and \<open>fvm/state/genesis.rs\<close> of the
    interpreter with the genesis document.
  \<^item> \<open>State_Snapshot\<close>, \<open>Snapshots\<close>: \<open>fvm/state/snapshot.rs\<close> of the interpreter and \<open>fendermint/vm/snapshot/src\<close>.
  \<^item> \<open>Abci_App\<close>: \<open>fendermint/app/src/app.rs\<close> and \<open>tmconv.rs\<close>; \<open>node_app\<close> fills the application with the interpreters above.

  \<^bold>\<open>How code is represented.\<close> A struct is a record with its fields, an enum a datatype. An operation is a function
  that returns the new state; where the code keeps what was done before an error (no transaction around it), the state
  is returned next to the outcome, otherwise inside of \<open>Ok\<close>. An STM transaction is one step. Code that runs
  alongside other code is an inductive step relation, and reachability is its reflexive transitive closure.
  Arithmetic is that of a release build: where a sum of \<open>u64\<close> can wrap, the definition wraps. The order in which Rust
  iterates over a hash map is open; it is the order of the list, which the theorems do not constrain. Third-party code
  comes in as records of functions (\<open>machine\<close>, \<open>gateway\<close>, \<open>crypto\<close>, \<open>kv_lib\<close>, \<open>block_lib\<close>, \<open>hash_lib\<close>, \<open>codec\<close>,
  \<open>snapshot_lib\<close>, \<open>genesis_lib\<close>, \<open>gossip_lib\<close>, \<open>relayer_io\<close>). What a theorem relies on of it is a predicate such as
  \<open>state_tree_ok\<close>, \<open>kv_ok\<close>, \<open>signing_ok\<close> or \<open>topics_ok\<close>, and an instance in the same theory satisfies it. Freedom from
  hash collisions is assumed where a theorem is about hashes, on the inputs that occur where this is possible.

  \<^bold>\<open>What is shown.\<close>
  \<^item> Topdown: along every interleaving the tally and the provider agree above the committed finality, so a block with a
    quorum passes the check of this node; \<open>find_quorum\<close> finds the highest block with more than two thirds, no
    equivocation is recorded and two quorums intersect; a round of the syncer ends and never passes the finalized head;
    proposals are the highest confirmed block and are committed once; delivered finalities execute the messages of every
    height exactly once and in order.
  \<^item> Blocks: a node accepts its own proposals; a vote accepts exactly the acceptable messages; a block that went through is
    what queries at its height read later; the power in the tally is that of the ledger; value is minted and burnt with
    the messages that carry it; the mempool accepts gapless runs of messages that are paid for; signatures verify.
  \<^item> Bottom-up: a round of the relayer submits exactly the due checkpoints, and can always be completed; the tree of
    validators proves exactly the entries of the power table.
  \<^item> Resolution: no task is lost; the provider cache is exact on subnets that are pinned and bounded on all; an agent
    listens to the topics of its subnets in every state.
  \<^item> Actors: the object store refines a map, the accumulator finds every leaf and its root binds them, the permission to
    deploy is enforced.
  \<^item> Start: the supply at genesis is the sum of the balances, identifiers are assigned consecutively, contracts are linked
    in order; a snapshot brings another node to the same state.
  \<^item> Findings: some lemmas show where the code does not do what it means to, as the panic in the execution of a resolved
    bottom-up checkpoint.

  \<^bold>\<open>Bounds and termination.\<close> No function uses fuel. Loops are recursive functions with termination proofs. Two
  loops may run forever and are partial functions into \<open>option\<close>. The search for a gas limit (\<open>gas_search\<close>) is shown to
  return when the step is at least 5/4 and the first limit at least 5, since the limit then grows to that of a block;
  \<open>gas_search_stuck\<close> shows that it does not return when a step leaves the limit as it is. The stream of the blocks of a
  state tree (\<open>stream_blocks\<close>) is shown to return when links lead to blocks of smaller rank (\<open>store_ok\<close>). The polling loops of background tasks do not end in the program either; the
  development has one iteration as a function, and any number of iterations as steps. Theorems on quorums
  assume that twice the total weight is below \<open>2^64\<close>, because the code computes the threshold in \<open>u64\<close>.

  \<^bold>\<open>Not modelled.\<close>
  \<^item> The Ethereum JSON-RPC API, the RPC client, the command lines, settings and the provider of subnet operations: remote
    calls and conversions without state of their own.
  \<^item> RocksDB, wallets, key files and metrics: files and libraries.
  \<^item> The other behaviours of the resolver (Bitswap, Kademlia, the swarm): their logic is in libp2p; the replies are
    parameters.
  \<^item> The Solidity contracts and the bindings generated from them, and the built-in actors (a submodule): the methods the
    node calls are parameters.
  \<^item> Waiting times, back-off, logging and traces of the modelled code, except where a timestamp decides.
  \<^item> Serialization: codecs are parameters with the round trip as hypothesis, except where the source itself prints and
    parses (subnet identifiers, IPC addresses, write access).
\<close>

end
